(* ===== verification/TBP_Prelude.thy ===== *)
theory TBP_Prelude
  imports Main "HOL-Library.Word" "HOL-Library.AList" "HOL-Library.Char_ord"
    "HOL-Library.List_Lexorder" "HOL-Library.Product_Lexorder" "HOL-Library.Sublist"
begin

text \<open>
  Shared vocabulary of the development: byte strings and the big-endian encoders of
  Go's \<open>encoding/binary\<close>, 64-bit integers, instants, Go maps as association lists, and
  the generic lemmas about them that the component theories use.

  A Go \<open>string\<close> and a Go \<open>[]byte\<close> are both sequences of octets; a HOL \<open>char\<close> is an
  octet, so both are \<open>char list\<close>.  The conversion \<open>byte(n)\<close> of an integer keeps the low
  eight bits, which is what \<open>char_of\<close> computes on natural numbers.
\<close>

named_theorems tbp_enc \<open>lengths and inversions of the byte encoders\<close>
named_theorems tbp_map \<open>lookups after updates of a Go map\<close>

subsection \<open>Bytes\<close>

type_synonym bytes = "char list"
type_synonym u64 = "64 word"

abbreviation byte :: "nat \<Rightarrow> char" where
  "byte n \<equiv> char_of n"

definition zeros :: "nat \<Rightarrow> bytes" where
  "zeros n = replicate n (byte 0)"

lemma length_zeros [simp]: "length (zeros n) = n"
  by (simp add: zeros_def)

lemma nat_of_byte [tbp_enc]: "of_char (byte n) = n mod 256"
  by simp

lemma byte_eq_iff: "byte m = byte n \<longleftrightarrow> m mod 256 = n mod 256"
  by (metis char_of_mod_256 of_char_of)

text \<open>\<open>be k n\<close> is \<open>n\<close> in \<open>k\<close> octets, most significant first, truncated to its low
  \<open>8 * k\<close> bits as \<open>PutUint16\<close>, \<open>PutUint32\<close> and \<open>PutUint64\<close> do after the conversion to
  the unsigned width; \<open>unbe\<close> reads such a sequence.\<close>

primrec be :: "nat \<Rightarrow> nat \<Rightarrow> bytes" where
  "be 0 n = []"
| "be (Suc k) n = be k (n div 256) @ [byte n]"

definition unbe :: "bytes \<Rightarrow> nat" where
  "unbe bs = foldl (\<lambda>a b. a * 256 + of_char b) 0 bs"

lemma length_be [simp, tbp_enc]: "length (be k n) = k"
  by (induction k arbitrary: n) auto

lemma unbe_snoc: "unbe (bs @ [b]) = unbe bs * 256 + of_char b"
  by (simp add: unbe_def)

lemma unbe_be [tbp_enc]: "unbe (be k n) = n mod 256 ^ k"
proof (induction k arbitrary: n)
  case 0
  then show ?case by (simp add: unbe_def)
next
  case (Suc k)
  have "n mod 256 ^ Suc k = n mod (256 * 256 ^ k)" by simp
  also have "\<dots> = 256 * (n div 256 mod 256 ^ k) + n mod 256"
    by (rule mod_mult2_eq)
  finally show ?case
    by (simp add: unbe_snoc Suc.IH nat_of_byte)
qed

lemma of_char_lt_256 [simp]: "of_char c < (256::nat)"
  by (metis char_of_char mod_less_divisor nat_of_byte zero_less_numeral)

lemma be_unbe [tbp_enc]: "be (length bs) (unbe bs) = bs"
proof (induction bs rule: rev_induct)
  case Nil
  then show ?case by simp
next
  case (snoc b bs)
  have "(unbe bs * 256 + of_char b) div 256 = unbe bs" by simp
  moreover have "byte (unbe bs * 256 + of_char b) = b"
    by (metis add.commute byte_eq_iff char_of_char mod_mult_self1)
  ultimately show ?case
    using snoc.IH by (simp add: unbe_snoc)
qed

lemma be_eq_iff: "be k m = be k n \<longleftrightarrow> m mod 256 ^ k = n mod 256 ^ k"
  by (metis be_unbe length_be unbe_be)

text \<open>A length-prefixed field followed by anything can be split in only one way, as long
  as the length fits the prefix.  Every canonical form of the program is built from such
  fields, so this one lemma carries all the injectivity proofs.\<close>

definition lp :: "nat \<Rightarrow> bytes \<Rightarrow> bytes" where
  "lp k s = be k (length s) @ s"

lemma length_lp [simp]: "length (lp k s) = k + length s"
  by (simp add: lp_def)

lemma lp_append_eq_iff [tbp_enc]:
  assumes "length s < 256 ^ k" and "length t < 256 ^ k"
  shows "lp k s @ r = lp k t @ q \<longleftrightarrow> s = t \<and> r = q"
proof
  assume eq: "lp k s @ r = lp k t @ q"
  then have "be k (length s) = be k (length t)"
    by (auto simp: lp_def append_eq_append_conv)
  with assms have "length s = length t"
    by (simp add: be_eq_iff)
  with eq show "s = t \<and> r = q"
    by (simp add: lp_def)
qed simp

lemma lp_eq_iff [tbp_enc]:
  "length s < 256 ^ k \<Longrightarrow> length t < 256 ^ k \<Longrightarrow> lp k s = lp k t \<longleftrightarrow> s = t"
  using lp_append_eq_iff [of s k t "[]" "[]"] by simp

lemma append_fixed_eq_iff [tbp_enc]:
  "length s = length t \<Longrightarrow> s @ r = t @ q \<longleftrightarrow> s = t \<and> r = q"
  by (rule append_eq_append_conv) simp

subsection \<open>64-bit integers\<close>

text \<open>Go's \<open>int64\<close> values are integers reduced to the two's complement range;
  \<open>uint64(x)\<close> of a signed value is its residue.\<close>

definition wrap64 :: "int \<Rightarrow> int" where
  "wrap64 x = (x + 2 ^ 63) mod 2 ^ 64 - 2 ^ 63"

definition int64 :: "int \<Rightarrow> bool" where
  "int64 x \<longleftrightarrow> - (2 ^ 63) \<le> x \<and> x < 2 ^ 63"

definition u64_of :: "int \<Rightarrow> nat" where
  "u64_of x = nat (x mod 2 ^ 64)"

definition max_int64 :: int where
  "max_int64 = 2 ^ 63 - 1"

lemma wrap64_id [simp]: "int64 x \<Longrightarrow> wrap64 x = x"
  by (simp add: wrap64_def int64_def)

lemma int64_wrap64 [simp]: "int64 (wrap64 x)"
  by (simp add: wrap64_def int64_def)

lemma u64_of_lt: "u64_of x < 2 ^ 64"
  by (simp add: u64_of_def nat_less_iff)

lemma u64_of_inj: "int64 x \<Longrightarrow> int64 y \<Longrightarrow> u64_of x = u64_of y \<longleftrightarrow> x = y"
proof -
  assume a: "int64 x" "int64 y"
  have "x = y" if "x mod 2 ^ 64 = y mod (2 ^ 64 :: int)"
  proof -
    from that have "wrap64 x = wrap64 y"
      unfolding wrap64_def by (metis mod_add_cong)
    with a show ?thesis by simp
  qed
  then show ?thesis
    by (auto simp: u64_of_def nat_eq_iff)
qed

definition be64 :: "int \<Rightarrow> bytes" where
  "be64 x = be 8 (u64_of x)"

lemma length_be64 [simp]: "length (be64 x) = 8"
  by (simp add: be64_def)

lemma be64_inj: "int64 x \<Longrightarrow> int64 y \<Longrightarrow> be64 x = be64 y \<longleftrightarrow> x = y"
  using u64_of_lt [of x] u64_of_lt [of y]
  by (simp add: be64_def be_eq_iff u64_of_inj)

subsection \<open>Instants and durations\<close>

text \<open>A \<open>time.Time\<close> is the number of nanoseconds since the Unix epoch, a
  \<open>time.Duration\<close> a number of nanoseconds.  \<open>Unix\<close> rounds towards minus infinity,
  \<open>Sub\<close> saturates at the range of \<open>Duration\<close>, \<open>IsZero\<close> recognises January 1 of year 1.\<close>

type_synonym time = int

definition second :: int where "second = 1000000000"
definition unix :: "time \<Rightarrow> int" where "unix t = t div second"
definition unix_nano :: "time \<Rightarrow> int" where "unix_nano t = wrap64 t"
definition of_unix :: "int \<Rightarrow> time" where "of_unix s = s * second"
definition zero_time :: time where "zero_time = - 62135596800 * second"

definition time_sub :: "time \<Rightarrow> time \<Rightarrow> int" where
  "time_sub t u = max (- (2 ^ 63)) (min (2 ^ 63 - 1) (t - u))"

lemma unix_of_unix [simp]: "unix (of_unix s) = s"
  by (simp add: unix_def of_unix_def second_def)

lemma unix_mono: "t \<le> u \<Longrightarrow> unix t \<le> unix u"
  by (simp add: unix_def second_def zdiv_mono1)

lemma unix_before: "t < e \<Longrightarrow> e mod second = 0 \<Longrightarrow> unix t < unix e"
proof (rule ccontr)
  assume "t < e" "e mod second = 0" "\<not> unix t < unix e"
  then have "e = unix e * second" "unix e * second \<le> unix t * second"
    by (auto simp: unix_def second_def)
  moreover have "unix t * second \<le> t" by (simp add: unix_def second_def)
  ultimately show False using \<open>t < e\<close> by linarith
qed

lemma time_sub_pos: "0 < time_sub t u \<longleftrightarrow> u < t"
  by (auto simp: time_sub_def)

lemma time_sub_le: "d < 2 ^ 63 - 1 \<Longrightarrow> - (2 ^ 63) \<le> d \<Longrightarrow> time_sub t u \<le> d \<longleftrightarrow> t - u \<le> d"
  by (auto simp: time_sub_def)

lemma time_sub_ge: "- (2 ^ 63) < d \<Longrightarrow> d \<le> 2 ^ 63 - 1 \<Longrightarrow> d \<le> time_sub t u \<longleftrightarrow> d \<le> t - u"
  by (auto simp: time_sub_def)

subsection \<open>Go maps\<close>

text \<open>A Go map that the program iterates over is an association list with distinct keys.
  The language leaves the iteration order open; the lists of the model may hold their
  entries in any order, and every theorem is about all of them.\<close>

type_synonym ('k, 'v) gomap = "('k \<times> 'v) list"

definition wf_map :: "('k, 'v) gomap \<Rightarrow> bool" where
  "wf_map m \<longleftrightarrow> distinct (map fst m)"

definition put :: "'k \<Rightarrow> 'v \<Rightarrow> ('k, 'v) gomap \<Rightarrow> ('k, 'v) gomap" where
  "put k v m = AList.update k v m"

definition del :: "'k \<Rightarrow> ('k, 'v) gomap \<Rightarrow> ('k, 'v) gomap" where
  "del k m = AList.delete k m"

lemma wf_map_Nil [simp]: "wf_map []"
  by (simp add: wf_map_def)

lemma wf_map_put [simp, intro]: "wf_map m \<Longrightarrow> wf_map (put k v m)"
  by (simp add: wf_map_def put_def distinct_update)

lemma wf_map_del [simp, intro]: "wf_map m \<Longrightarrow> wf_map (del k m)"
  by (simp add: wf_map_def del_def distinct_delete)

lemma wf_map_filter [simp, intro]: "wf_map m \<Longrightarrow> wf_map (filter P m)"
  by (simp add: wf_map_def distinct_map_filter)

lemma lookup_put [simp, tbp_map]: "map_of (put k v m) j = (if j = k then Some v else map_of m j)"
  by (simp add: put_def update_conv')

lemma lookup_del [simp, tbp_map]: "map_of (del k m) j = (if j = k then None else map_of m j)"
  by (simp add: del_def delete_conv')

lemma dom_put: "fst ` set (put k v m) = insert k (fst ` set m)"
  by (simp add: put_def dom_update)

lemma length_put: "length (put k v m) = (if k \<in> fst ` set m then length m else Suc (length m))"
  by (induction m) (auto simp: put_def)

lemma wf_map_lookup: "wf_map m \<Longrightarrow> (k, v) \<in> set m \<longleftrightarrow> map_of m k = Some v"
  by (simp add: wf_map_def)

lemma lookup_filter:
  assumes "wf_map m"
  shows "map_of (filter P m) k =
    (case map_of m k of Some v \<Rightarrow> if P (k, v) then Some v else None | None \<Rightarrow> None)"
  using assms
proof (induction m)
  case Nil
  then show ?case by simp
next
  case (Cons e m)
  obtain a b where e: "e = (a, b)" by (cases e)
  have "a \<notin> fst ` set (filter P m)" "a \<notin> fst ` set m"
    using Cons.prems e by (auto simp: wf_map_def)
  then have "map_of (filter P m) a = None" "map_of m a = None"
    by (simp_all add: map_of_eq_None_iff)
  with Cons e show ?case
    by (auto simp: wf_map_def)
qed

end
