(* ===== verification/Registry.thy ===== *)
theory Registry
  imports TBP_Prelude
begin

text \<open>
  The cell registry as its clients see it (\<open>src/src/registry/leaf.go\<close>,
  \<open>record_store.go\<close>, \<open>cell_log.go\<close>): hash-only leaves and their wire format, the journal
  of clear records, and the append path \<open>AppendLeaf\<close> that every producer of leaves calls.

  The Merkle log itself (the Tessera appender) and the disk are outside the repository.
  They appear as the scripted outcome of each storage operation, the list \<open>rg_env\<close>: an
  operation takes effect and is confirmed, is lost, or takes effect although the caller is
  told it failed.  Definitions that hash take the hash function as the parameter \<open>sha\<close>;
  no property of it is assumed.
\<close>

subsection \<open>Leaves and their wire format\<close>

abbreviation (input) KindDecision :: nat where "KindDecision \<equiv> 1"
abbreviation (input) KindTelemetry :: nat where "KindTelemetry \<equiv> 2"
abbreviation (input) KindBackpressure :: nat where "KindBackpressure \<equiv> 3"
abbreviation (input) KindEpoch :: nat where "KindEpoch \<equiv> 7"
abbreviation (input) KindQuorum :: nat where "KindQuorum \<equiv> 8"
abbreviation (input) KindPromotion :: nat where "KindPromotion \<equiv> 9"
abbreviation (input) KindContract :: nat where "KindContract \<equiv> 10"
abbreviation (input) KindManifest :: nat where "KindManifest \<equiv> 11"
abbreviation (input) KindSupervision :: nat where "KindSupervision \<equiv> 12"

definition known_kind :: "nat \<Rightarrow> bool" where
  "known_kind k \<longleftrightarrow> k \<in> set [1, 2, 3, 4, 5, 6, 7, 8, 9, 10, 11, 12]"

definition leafVersion :: nat where "leafVersion = 1"
definition maxCellIDLen :: nat where "maxCellIDLen = 255"

record leaf =
  Kind :: nat
  CellID :: string
  PayloadHash :: bytes
  Timestamp :: int

text \<open>What the Go types guarantee of a leaf: a byte, an array of 32 bytes, an \<open>int64\<close>.\<close>

definition typed_leaf :: "leaf \<Rightarrow> bool" where
  "typed_leaf l \<longleftrightarrow> Kind l < 256 \<and> length (PayloadHash l) = 32 \<and> int64 (Timestamp l)"

datatype reg_error =
    LeafCellID | LeafKind | LeafShort | LeafVersion | LeafLength
  | ErrBackpressure | ErrAppend
  | JournalSalt | JournalTimestamp | ErrRecordHashMismatch | ErrJournalWrite

definition HashPayload :: "(bytes \<Rightarrow> bytes) \<Rightarrow> bytes \<Rightarrow> bytes \<Rightarrow> bytes" where
  "HashPayload sha salt payload = sha (salt @ payload)"

definition Marshal :: "leaf \<Rightarrow> reg_error + bytes" where
  "Marshal l =
     (if length (CellID l) = 0 \<or> length (CellID l) > maxCellIDLen then Inl LeafCellID
      else if \<not> known_kind (Kind l) then Inl LeafKind
      else Inr ([byte leafVersion, byte (Kind l)] @ be64 (Timestamp l)
                @ [byte (length (CellID l))] @ CellID l @ PayloadHash l))"

definition UnmarshalLeaf :: "bytes \<Rightarrow> reg_error + leaf" where
  "UnmarshalLeaf data =
     (if length data < 43 then Inl LeafShort
      else if data ! 0 \<noteq> byte leafVersion then Inl LeafVersion
      else if \<not> known_kind (of_char (data ! 1)) then Inl LeafKind
      else let ts = wrap64 (int (unbe (take 8 (drop 2 data))));
               idLen = of_char (data ! 10)
           in if idLen = 0 then Inl LeafCellID
              else if length data \<noteq> 43 + idLen then Inl LeafLength
              else Inr \<lparr>Kind = of_char (data ! 1),
                        CellID = take idLen (drop 11 data),
                        PayloadHash = drop (11 + idLen) data,
                        Timestamp = ts\<rparr>)"

lemma wrap64_u64_of: "int64 t \<Longrightarrow> wrap64 (int (u64_of t)) = t"
proof -
  assume t: "int64 t"
  have "wrap64 (t mod 2 ^ 64) = wrap64 t"
    by (simp add: wrap64_def mod_add_left_eq)
  with t show ?thesis by (simp add: u64_of_def)
qed

lemma unbe_be64: "unbe (be64 t) = u64_of t"
  using u64_of_lt [of t] by (simp add: be64_def unbe_be)

lemma u64_of_wrap64: "n < 2 ^ 64 \<Longrightarrow> u64_of (wrap64 (int n)) = n"
proof -
  assume n: "n < 2 ^ 64"
  have "wrap64 (int n) mod 2 ^ 64 = int n mod 2 ^ 64"
    by (simp add: wrap64_def mod_diff_left_eq)
  also have "\<dots> = int n" using n by simp
  finally show ?thesis by (simp add: u64_of_def)
qed

lemma unbe_lt: "unbe bs < 256 ^ length bs"
  by (metis be_unbe mod_less_divisor unbe_be zero_less_numeral zero_less_power)

lemma known_kind_lt: "known_kind k \<Longrightarrow> k < 256"
  by (auto simp: known_kind_def)

lemma Marshal_length:
  "Marshal l = Inr b \<Longrightarrow> length (PayloadHash l) = 32 \<Longrightarrow> length b = 43 + length (CellID l)"
  by (auto simp: Marshal_def split: if_splits)

text \<open>Reading back what was written: the layout's fields sit at fixed offsets.\<close>

lemma Unmarshal_Marshal:
  assumes "typed_leaf l" and "Marshal l = Inr b"
  shows "UnmarshalLeaf b = Inr l"
proof -
  let ?n = "length (CellID l)"
  from assms(2) have id: "0 < ?n" "?n \<le> 255" and k: "known_kind (Kind l)"
    and b: "b = byte leafVersion # byte (Kind l) # be64 (Timestamp l) @ byte ?n # CellID l @ PayloadHash l"
    by (auto simp: Marshal_def maxCellIDLen_def split: if_splits)
  have len: "length b = 43 + ?n"
    using assms by (simp add: Marshal_length typed_leaf_def)
  have f: "b ! 0 = byte leafVersion" "b ! 1 = byte (Kind l)"
    "take 8 (drop 2 b) = be64 (Timestamp l)" "b ! 10 = byte ?n"
    "drop 11 b = CellID l @ PayloadHash l"
    by (simp_all add: b nth_append drop_Cons' numeral_eq_Suc)
  have "drop (11 + ?n) b = PayloadHash l"
    by (metis append_eq_conv_conj drop_drop f(5) add.commute)
  then show ?thesis
    using assms(1) len id known_kind_lt [OF k] k f
    by (simp add: UnmarshalLeaf_def typed_leaf_def Let_def unbe_be64 wrap64_u64_of)
qed

lemma list_split_11:
  assumes "11 \<le> length (d :: 'a list)"
  shows "d = [d ! 0, d ! 1] @ take 8 (drop 2 d) @ [d ! 10] @ drop 11 d"
proof -
  have "d = take 2 d @ take 8 (drop 2 d) @ drop 10 d"
    using append_take_drop_id [of 2 d] append_take_drop_id [of 8 "drop 2 d"] by simp
  moreover have "take 2 d = [d ! 0, d ! 1]"
    using assms by (intro nth_equalityI) (auto simp: less_Suc_eq numeral_eq_Suc)
  moreover have "drop 10 d = d ! 10 # drop 11 d"
    using assms by (metis Cons_nth_drop_Suc Suc_numeral add_num_simps(1) less_eq_Suc_le
        semiring_norm(2,5))
  ultimately show ?thesis by simp
qed

lemma Marshal_Unmarshal:
  assumes "UnmarshalLeaf b = Inr l"
  shows "Marshal l = Inr b"
proof -
  let ?n = "of_char (b ! 10) :: nat"
  from assms have len: "length b = 43 + ?n" and v: "b ! 0 = byte leafVersion"
    and k: "known_kind (of_char (b ! 1))" and n: "?n \<noteq> 0"
    and l: "l = \<lparr>Kind = of_char (b ! 1), CellID = take ?n (drop 11 b),
       PayloadHash = drop (11 + ?n) b,
       Timestamp = wrap64 (int (unbe (take 8 (drop 2 b))))\<rparr>"
    by (auto simp: UnmarshalLeaf_def Let_def split: if_splits)
  let ?t = "take 8 (drop 2 b)"
  have t8: "length ?t = 8" using len by simp
  then have "unbe ?t < 2 ^ 64" using unbe_lt [of ?t] by simp
  then have ts: "be64 (wrap64 (int (unbe ?t))) = ?t"
    using t8 be_unbe [of ?t] by (simp add: be64_def u64_of_wrap64)
  have idlen: "length (CellID l) = ?n" using len l by simp
  have tail: "CellID l @ PayloadHash l = drop 11 b"
  proof -
    have "PayloadHash l = drop ?n (drop 11 b)"
      by (simp add: l add.commute)
    moreover have "CellID l = take ?n (drop 11 b)" by (simp add: l)
    ultimately show ?thesis by (simp only: append_take_drop_id)
  qed
  have "?n \<le> 255" using of_char_lt_256 [of "b ! 10"] by linarith
  with idlen n k have "Marshal l = Inr ([byte leafVersion, byte (Kind l)] @ be64 (Timestamp l)
      @ [byte ?n] @ CellID l @ PayloadHash l)"
    by (simp add: Marshal_def maxCellIDLen_def l)
  also have "\<dots> = Inr ([b ! 0, b ! 1] @ ?t @ [b ! 10] @ drop 11 b)"
    using v ts tail l by simp
  also have "\<dots> = Inr b"
    using list_split_11 [of b] len by simp
  finally show ?thesis .
qed

subsection \<open>The append path\<close>

text \<open>The registry of a cell: the leaves of the log, the journal of clear records when
  one is configured (a journal line is an encrypted entry; the entry itself stands for
  it), the backpressure flag, the local clock, and what the storage does next.\<close>

datatype outcome = Done | Lost | Unconfirmed

type_synonym journal = "(leaf \<times> bytes \<times> bytes) list"

record registry =
  rg_log :: "leaf list"
  rg_journal :: "journal option"
  rg_engaged :: bool
  rg_clock :: time
  rg_env :: "outcome list"

definition next_outcome :: "registry \<Rightarrow> outcome \<times> registry" where
  "next_outcome r = (case rg_env r of [] \<Rightarrow> (Done, r) | x # xs \<Rightarrow> (x, r\<lparr>rg_env := xs\<rparr>))"

text \<open>\<open>encodeLeaf\<close> dates an undated leaf with the local clock before serialising it; the
  log then holds the dated leaf.\<close>

definition encodeLeaf :: "time \<Rightarrow> leaf \<Rightarrow> reg_error + leaf" where
  "encodeLeaf now l =
     (let l' = (if Timestamp l = 0 then l\<lparr>Timestamp := unix_nano now\<rparr> else l)
      in case Marshal l' of Inl e \<Rightarrow> Inl e | Inr _ \<Rightarrow> Inr l')"

definition appendInternal :: "registry \<Rightarrow> leaf \<Rightarrow> registry \<times> (reg_error + nat)" where
  "appendInternal r l =
     (case encodeLeaf (rg_clock r) l of Inl e \<Rightarrow> (r, Inl e)
      | Inr l' \<Rightarrow>
          let (o', r') = next_outcome r; idx = length (rg_log r)
          in case o' of
               Done \<Rightarrow> (r'\<lparr>rg_log := rg_log r @ [l']\<rparr>, Inr idx)
             | Lost \<Rightarrow> (r', Inl ErrAppend)
             | Unconfirmed \<Rightarrow> (r'\<lparr>rg_log := rg_log r @ [l']\<rparr>, Inl ErrAppend))"

definition CellLog_Append :: "registry \<Rightarrow> leaf \<Rightarrow> registry \<times> (reg_error + nat)" where
  "CellLog_Append r l = (if rg_engaged r then (r, Inl ErrBackpressure) else appendInternal r l)"

definition RecordStore_Put ::
  "(bytes \<Rightarrow> bytes) \<Rightarrow> registry \<Rightarrow> journal \<Rightarrow> leaf \<Rightarrow> bytes \<Rightarrow> bytes \<Rightarrow> registry \<times> reg_error option" where
  "RecordStore_Put sha r j l salt record =
     (if length salt < 16 then (r, Some JournalSalt)
      else if Timestamp l = 0 then (r, Some JournalTimestamp)
      else if HashPayload sha salt record \<noteq> PayloadHash l then (r, Some ErrRecordHashMismatch)
      else case Marshal l of Inl e \<Rightarrow> (r, Some e)
      | Inr _ \<Rightarrow>
          let (o', r') = next_outcome r; r'' = r'\<lparr>rg_journal := Some (j @ [(l, salt, record)])\<rparr>
          in case o' of
               Done \<Rightarrow> (r'', None)
             | Lost \<Rightarrow> (r', Some ErrJournalWrite)
             | Unconfirmed \<Rightarrow> (r'', Some ErrJournalWrite))"

definition sealed_leaf :: "(bytes \<Rightarrow> bytes) \<Rightarrow> nat \<Rightarrow> string \<Rightarrow> bytes \<Rightarrow> bytes \<Rightarrow> int \<Rightarrow> leaf" where
  "sealed_leaf sha kind cellID salt record ts =
     \<lparr>Kind = kind, CellID = cellID, PayloadHash = HashPayload sha salt record, Timestamp = ts\<rparr>"

definition AppendSealed ::
  "(bytes \<Rightarrow> bytes) \<Rightarrow> registry \<Rightarrow> journal \<Rightarrow> nat \<Rightarrow> string \<Rightarrow> bytes \<Rightarrow> bytes \<Rightarrow> int
     \<Rightarrow> registry \<times> (reg_error + nat)" where
  "AppendSealed sha r j kind cellID salt record ts =
     (let l = sealed_leaf sha kind cellID salt record ts
      in case RecordStore_Put sha r j l salt record of
           (r', Some e) \<Rightarrow> (r', Inl e)
         | (r', None) \<Rightarrow> CellLog_Append r' l)"

definition AppendLeaf ::
  "(bytes \<Rightarrow> bytes) \<Rightarrow> registry \<Rightarrow> nat \<Rightarrow> string \<Rightarrow> bytes \<Rightarrow> bytes \<Rightarrow> int
     \<Rightarrow> registry \<times> (reg_error + nat)" where
  "AppendLeaf sha r kind cellID salt record ts =
     (case rg_journal r of
        Some j \<Rightarrow> AppendSealed sha r j kind cellID salt record ts
      | None \<Rightarrow> CellLog_Append r (sealed_leaf sha kind cellID salt record ts))"

subsection \<open>The contract of a leaf sink\<close>

text \<open>What the producers of leaves rely on (\<open>LeafSink\<close>, \<open>LeafAppender\<close>): the log only
  grows, a confirmed append put exactly the leaf at the index returned, and a refused one
  added at most that leaf.\<close>

primrec append_all :: "('s \<Rightarrow> leaf \<Rightarrow> 's \<times> (reg_error + nat)) \<Rightarrow> 's \<Rightarrow> leaf list \<Rightarrow> 's" where
  "append_all app s [] = s"
| "append_all app s (l # ls) = append_all app (fst (app s l)) ls"

locale leaf_sink =
  fixes append :: "'s \<Rightarrow> leaf \<Rightarrow> 's \<times> (reg_error + nat)"
    and log :: "'s \<Rightarrow> leaf list"
  assumes append_ok: "append s l = (s', Inr i) \<Longrightarrow> Timestamp l \<noteq> 0 \<Longrightarrow>
      log s' = log s @ [l] \<and> i = length (log s)"
    and append_grows: "append s l = (s', res) \<Longrightarrow> prefix (log s) (log s') \<and>
      length (log s') \<le> Suc (length (log s))"
begin

lemma append_all_prefix: "prefix (log s) (log (append_all append s ls))"
proof (induction ls arbitrary: s)
  case Nil
  then show ?case by simp
next
  case (Cons l ls)
  have "prefix (log s) (log (fst (append s l)))"
    using append_grows [of s l] by (cases "append s l") auto
  with Cons.IH show ?case
    by (metis append_all.simps(2) prefix_order.trans)
qed

text \<open>A leaf that was confirmed stays at its index whatever is appended afterwards.\<close>

lemma confirmed_is_stable:
  assumes "append s l = (s', Inr i)" and "Timestamp l \<noteq> 0"
  shows "i < length (log (append_all append s' ls)) \<and> log (append_all append s' ls) ! i = l"
proof -
  from append_ok [OF assms] have "log s' = log s @ [l]" and i: "i = length (log s)"
    by auto
  with append_all_prefix [of s' ls] obtain q where "log (append_all append s' ls) = log s @ [l] @ q"
    by (auto simp: prefix_def)
  with i show ?thesis by (simp add: nth_append)
qed

end

lemma next_outcome_frame:
  "rg_log (snd (next_outcome r)) = rg_log r" "rg_journal (snd (next_outcome r)) = rg_journal r"
  by (auto simp: next_outcome_def split: list.splits)

lemma next_outcome_log: "next_outcome r = (x, r') \<Longrightarrow> rg_log r' = rg_log r"
  by (metis next_outcome_frame(1) snd_conv)

lemma next_outcome_journal: "next_outcome r = (x, r') \<Longrightarrow> rg_journal r' = rg_journal r"
  by (metis next_outcome_frame(2) snd_conv)

lemma encodeLeaf_dated: "Timestamp l \<noteq> 0 \<Longrightarrow> encodeLeaf now l = Inr l' \<Longrightarrow> l' = l"
  by (simp add: encodeLeaf_def split: sum.splits)

lemma CellLog_Append_cases:
  assumes "CellLog_Append r l = (r', res)"
  obtains (refused) e where "res = Inl e" and "rg_log r' = rg_log r"
  | (unconfirmed) l' where "res = Inl ErrAppend" and "encodeLeaf (rg_clock r) l = Inr l'"
      and "rg_log r' = rg_log r @ [l']"
  | (confirmed) l' where "res = Inr (length (rg_log r))" and "encodeLeaf (rg_clock r) l = Inr l'"
      and "rg_log r' = rg_log r @ [l']" and "\<not> rg_engaged r"
  using assms
  by (auto simp: CellLog_Append_def appendInternal_def Let_def
      split: if_splits sum.splits outcome.splits prod.splits
      dest: next_outcome_log next_outcome_journal)

interpretation cell: leaf_sink CellLog_Append rg_log
proof unfold_locales
  fix r l r' i
  assume "CellLog_Append r l = (r', Inr i)" and "Timestamp l \<noteq> 0"
  then show "rg_log r' = rg_log r @ [l] \<and> i = length (rg_log r)"
    by (auto elim!: CellLog_Append_cases dest: encodeLeaf_dated)
next
  fix r l r' res
  assume "CellLog_Append r l = (r', res)"
  then show "prefix (rg_log r) (rg_log r') \<and> length (rg_log r') \<le> Suc (length (rg_log r))"
    by (auto elim!: CellLog_Append_cases)
qed

lemma RecordStore_Put_log: "RecordStore_Put sha r j l salt record = (r', res) \<Longrightarrow> rg_log r' = rg_log r"
  by (auto simp: RecordStore_Put_def Let_def
      split: if_splits sum.splits outcome.splits prod.splits
      dest: next_outcome_log next_outcome_journal)

lemma RecordStore_Put_ok:
  "RecordStore_Put sha r j l salt record = (r', None) \<Longrightarrow>
     rg_journal r' = Some (j @ [(l, salt, record)]) \<and> PayloadHash l = HashPayload sha salt record"
  by (auto simp: RecordStore_Put_def Let_def
      split: if_splits sum.splits outcome.splits prod.splits
      dest: next_outcome_log next_outcome_journal)

lemma AppendLeaf_grows:
  assumes "AppendLeaf sha r kind cid salt record ts = (r', res)"
  shows "prefix (rg_log r) (rg_log r') \<and> length (rg_log r') \<le> Suc (length (rg_log r))"
proof (cases "rg_journal r")
  case None
  with assms show ?thesis
    by (auto simp: AppendLeaf_def dest: cell.append_grows)
next
  case (Some j)
  with assms show ?thesis
    by (auto simp: AppendLeaf_def AppendSealed_def Let_def split: prod.splits option.splits
        dest!: RecordStore_Put_log cell.append_grows)
qed

lemma AppendLeaf_ok:
  assumes "AppendLeaf sha r kind cid salt record ts = (r', Inr i)" and "ts \<noteq> 0"
  shows "rg_log r' = rg_log r @ [sealed_leaf sha kind cid salt record ts] \<and> i = length (rg_log r)"
proof -
  have ts: "Timestamp (sealed_leaf sha kind cid salt record ts) \<noteq> 0"
    using assms(2) by (simp add: sealed_leaf_def)
  show ?thesis
  proof (cases "rg_journal r")
    case None
    with assms(1) ts show ?thesis
      by (auto simp: AppendLeaf_def dest!: cell.append_ok)
  next
    case (Some j)
    with assms(1) ts show ?thesis
      by (auto simp: AppendLeaf_def AppendSealed_def Let_def split: prod.splits option.splits
          dest!: RecordStore_Put_log cell.append_ok)
  qed
qed

lemma CellLog_Append_journal: "CellLog_Append r l = (r', res) \<Longrightarrow> rg_journal r' = rg_journal r"
  by (auto simp: CellLog_Append_def appendInternal_def Let_def
      split: if_splits sum.splits outcome.splits prod.splits
      dest: next_outcome_log next_outcome_journal)

text \<open>The journal grows by the record of the append or not at all, and a confirmed append is in it.\<close>

lemma AppendLeaf_journal:
  assumes "AppendLeaf sha r kind cid salt record ts = (r', res)" and "rg_journal r = Some j"
  shows "rg_journal r' = Some j \<and> (\<exists>e. res = Inl e) \<or>
    rg_journal r' = Some (j @ [(sealed_leaf sha kind cid salt record ts, salt, record)])"
proof -
  let ?l = "sealed_leaf sha kind cid salt record ts"
  obtain r1 res1 where p: "RecordStore_Put sha r j ?l salt record = (r1, res1)" by fastforce
  have j1: "rg_journal r1 = Some j \<or> rg_journal r1 = Some (j @ [(?l, salt, record)])"
    using p assms(2) by (auto simp: RecordStore_Put_def Let_def split: if_splits sum.splits outcome.splits prod.splits
        dest: next_outcome_journal)
  show ?thesis
  proof (cases res1)
    case None
    with p have "rg_journal r1 = Some (j @ [(?l, salt, record)])" by (simp add: RecordStore_Put_ok)
    with assms p None show ?thesis
      by (auto simp: AppendLeaf_def AppendSealed_def Let_def dest: CellLog_Append_journal)
  next
    case (Some e)
    with assms p j1 show ?thesis by (auto simp: AppendLeaf_def AppendSealed_def Let_def)
  qed
qed

text \<open>A registry without journal, backpressure or storage failures appends every valid leaf.\<close>

definition plain :: "registry \<Rightarrow> bool" where
  "plain r \<longleftrightarrow> rg_journal r = None \<and> \<not> rg_engaged r \<and> rg_env r = []"

lemma AppendLeaf_plain:
  assumes "plain r" and "known_kind kind" and "cid \<noteq> []" and "length cid \<le> 255" and "ts \<noteq> 0"
  shows "AppendLeaf sha r kind cid salt record ts =
    (r\<lparr>rg_log := rg_log r @ [sealed_leaf sha kind cid salt record ts]\<rparr>, Inr (length (rg_log r)))"
  using assms
  by (simp add: plain_def AppendLeaf_def CellLog_Append_def appendInternal_def encodeLeaf_def sealed_leaf_def
      Marshal_def maxCellIDLen_def next_outcome_def Let_def)

lemma AppendLeaf_journaled:
  assumes "rg_journal r = Some j" and "\<not> rg_engaged r" and "rg_env r = []" and "known_kind kind" and "cid \<noteq> []"
    and "length cid \<le> 255" and "ts \<noteq> 0" and "16 \<le> length salt"
  shows "AppendLeaf sha r kind cid salt record ts =
    (r\<lparr>rg_journal := Some (j @ [(sealed_leaf sha kind cid salt record ts, salt, record)]),
       rg_log := rg_log r @ [sealed_leaf sha kind cid salt record ts]\<rparr>, Inr (length (rg_log r)))"
  using assms
  by (simp add: AppendLeaf_def AppendSealed_def RecordStore_Put_def CellLog_Append_def appendInternal_def encodeLeaf_def
      sealed_leaf_def Marshal_def maxCellIDLen_def next_outcome_def Let_def)

subsection \<open>The journal covers the log\<close>

text \<open>The audit (\<open>tbp-audit verify\<close>) recomputes each leaf from its clear record, so every
  leaf of a journaled log needs a record of the same salted hash.\<close>

definition journal_covers :: "(bytes \<Rightarrow> bytes) \<Rightarrow> registry \<Rightarrow> bool" where
  "journal_covers sha r \<longleftrightarrow> (\<exists>j. rg_journal r = Some j \<and>
     (\<forall>l \<in> set (rg_log r). \<exists>salt record. (l, salt, record) \<in> set j \<and>
        PayloadHash l = HashPayload sha salt record))"

lemma RecordStore_Put_dated: "RecordStore_Put sha r j l salt record = (r', None) \<Longrightarrow> Timestamp l \<noteq> 0"
  by (auto simp: RecordStore_Put_def split: if_splits)

lemma RecordStore_Put_journal:
  "RecordStore_Put sha r j l salt record = (r', res) \<Longrightarrow> rg_journal r = Some j \<Longrightarrow>
     \<exists>j'. rg_journal r' = Some j' \<and> set j \<subseteq> set j'"
  by (auto simp: RecordStore_Put_def Let_def
      split: if_splits sum.splits outcome.splits prod.splits dest: next_outcome_journal)

lemma CellLog_Append_dated:
  "CellLog_Append r l = (r', res) \<Longrightarrow> Timestamp l \<noteq> 0 \<Longrightarrow>
     rg_log r' = rg_log r \<or> rg_log r' = rg_log r @ [l]"
  by (auto elim!: CellLog_Append_cases dest: encodeLeaf_dated)

lemma AppendLeaf_covers:
  assumes "journal_covers sha r" and "AppendLeaf sha r kind cid salt record ts = (r', res)"
  shows "journal_covers sha r'"
proof -
  let ?l = "sealed_leaf sha kind cid salt record ts"
  from assms(1) obtain j where j: "rg_journal r = Some j"
    and cov: "\<forall>l \<in> set (rg_log r). \<exists>s c. (l, s, c) \<in> set j \<and> PayloadHash l = HashPayload sha s c"
    by (auto simp: journal_covers_def)
  obtain r1 err where put: "RecordStore_Put sha r j ?l salt record = (r1, err)" by fastforce
  note log1 = RecordStore_Put_log [OF put]
  show ?thesis
  proof (cases err)
    case (Some e)
    with assms(2) j put have "r' = r1" by (simp add: AppendLeaf_def AppendSealed_def Let_def)
    with RecordStore_Put_journal [OF put j] log1 cov show ?thesis
      unfolding journal_covers_def by (metis subsetD)
  next
    case None
    with assms(2) j put have app: "CellLog_Append r1 ?l = (r', res)"
      by (simp add: AppendLeaf_def AppendSealed_def Let_def)
    have "rg_log r' = rg_log r \<or> rg_log r' = rg_log r @ [?l]"
      using CellLog_Append_dated [OF app] RecordStore_Put_dated put None log1 by auto
    moreover have "rg_journal r' = Some (j @ [(?l, salt, record)])"
      using CellLog_Append_journal [OF app] RecordStore_Put_ok put None by auto
    moreover have "PayloadHash ?l = HashPayload sha salt record" by (simp add: sealed_leaf_def)
    ultimately show ?thesis
      using cov unfolding journal_covers_def by (auto 0 4)
  qed
qed

record leaf_request =
  lr_kind :: nat
  lr_cell :: string
  lr_salt :: bytes
  lr_record :: bytes
  lr_ts :: int

definition leaf_request_step :: "(bytes \<Rightarrow> bytes) \<Rightarrow> leaf_request \<Rightarrow> registry \<Rightarrow> registry" where
  "leaf_request_step sha q r =
     fst (AppendLeaf sha r (lr_kind q) (lr_cell q) (lr_salt q) (lr_record q) (lr_ts q))"

subsection \<open>Properties\<close>

text \<open>the wire format of a leaf is a bijection on valid leaves: what \<open>Marshal\<close> writes,
  \<open>UnmarshalLeaf\<close> reads back to the same leaf, and whatever bytes \<open>UnmarshalLeaf\<close> accepts
  are exactly what \<open>Marshal\<close> writes for the leaf it returns.\<close>

lemma leaf_wire_roundtrip:
  "(typed_leaf l \<and> Marshal l = Inr b \<longrightarrow> UnmarshalLeaf b = Inr l) \<and>
   (UnmarshalLeaf b = Inr l \<longrightarrow> Marshal l = Inr b)"
  using Unmarshal_Marshal Marshal_Unmarshal by blast

definition leaf_ex :: leaf where
  "leaf_ex = \<lparr>Kind = KindDecision, CellID = ''cell-a'', PayloadHash = zeros 32, Timestamp = 7\<rparr>"

text \<open>append-only.  A leaf whose append was confirmed with an index stays at that index,
  unchanged, whatever leaves are appended, refused, lost or left unconfirmed afterwards.\<close>

lemma confirmed_leaf_is_stable:
  assumes "CellLog_Append r l = (r', Inr i)" and "Timestamp l \<noteq> 0"
  shows "i < length (rg_log (append_all CellLog_Append r' ls)) \<and>
    rg_log (append_all CellLog_Append r' ls) ! i = l"
  using assms by (rule cell.confirmed_is_stable)

definition sink_ex :: registry where
  "sink_ex = \<lparr>rg_log = [], rg_journal = Some [], rg_engaged = False, rg_clock = 5,
     rg_env = [Done, Done, Unconfirmed]\<rparr>"


definition request_ex :: leaf_request where
  "request_ex = \<lparr>lr_kind = KindDecision, lr_cell = ''cell-a'', lr_salt = zeros 16, lr_record = ''r'', lr_ts = 7\<rparr>"


end
