(* ===== verification/Anti_Replay.thy ===== *)
theory Anti_Replay
  imports TBP_Prelude
begin

text \<open>
  The bounded anti-replay cache of a PEP (\<open>src/src/pep/antireplay.go\<close>): a ring of fixed
  capacity with a membership table, lazy purge of the head, an exhaustive purge when the
  ring is full, and a sticky alarm on saturation.  The lock makes each call atomic, so an
  operation is a function of the state; the alarm callback is the list of reasons returned.

  The ring refines a bounded queue of (jti, expiry) pairs (\<open>entries\<close>).  The contract a
  validator relies on is the locale \<open>replay_cache\<close>, interpreted on the ring.
\<close>

subsection \<open>State and operations\<close>

definition TripReasonJTISaturated :: string where
  "TripReasonJTISaturated = ''jti-cache-saturated''"

record replayEntry =
  re_jti :: bytes
  re_exp :: int
  re_live :: bool

definition zeroEntry :: replayEntry where
  "zeroEntry = \<lparr>re_jti = zeros 16, re_exp = 0, re_live = False\<rparr>"

record AntiReplay =
  ring :: "replayEntry list"
  head :: nat
  count :: nat
  seen :: "bytes set"
  ar_tripped :: bool

definition NewAntiReplay :: "int \<Rightarrow> AntiReplay option" where
  "NewAntiReplay capacity =
     (if capacity \<le> 0 then None
      else Some \<lparr>ring = replicate (nat capacity) zeroEntry, head = 0, count = 0,
                 seen = {}, ar_tripped = False\<rparr>)"

text \<open>The body of the loop of \<open>purgeHead\<close>: the oldest entry leaves the table and the ring.\<close>

definition ar_pop :: "AntiReplay \<Rightarrow> AntiReplay" where
  "ar_pop c = c\<lparr>seen := seen c - {re_jti (ring c ! head c)},
                ring := (ring c)[head c := zeroEntry],
                head := (head c + 1) mod length (ring c),
                count := count c - 1\<rparr>"

function purgeHead :: "AntiReplay \<Rightarrow> int \<Rightarrow> AntiReplay" where
  "purgeHead c now =
     (if count c > 0 \<and> re_exp (ring c ! head c) < now
      then purgeHead (ar_pop c) now
      else c)"
  by pat_completeness auto
termination
  by (relation "measure (\<lambda>(c, now). count c)") (auto simp: ar_pop_def)

declare purgeHead.simps [simp del]

definition entries :: "AntiReplay \<Rightarrow> replayEntry list" where
  "entries c = map (\<lambda>i. ring c ! ((head c + i) mod length (ring c))) [0..<count c]"

definition purgeAll :: "AntiReplay \<Rightarrow> int \<Rightarrow> AntiReplay" where
  "purgeAll c now =
     (if count c = 0 then c
      else let kept = filter (\<lambda>e. re_exp e \<ge> now) (entries c);
               dead = filter (\<lambda>e. \<not> re_exp e \<ge> now) (entries c)
           in c\<lparr>seen := seen c - re_jti ` set dead,
                ring := kept @ replicate (length (ring c) - length kept) zeroEntry,
                head := 0,
                count := length kept\<rparr>)"

definition ar_trip :: "AntiReplay \<Rightarrow> string list \<times> AntiReplay" where
  "ar_trip c = (if ar_tripped c then ([], c)
                else ([TripReasonJTISaturated], c\<lparr>ar_tripped := True\<rparr>))"

definition ar_insert :: "AntiReplay \<Rightarrow> bytes \<Rightarrow> int \<Rightarrow> AntiReplay" where
  "ar_insert c j e =
     c\<lparr>ring := (ring c)[(head c + count c) mod length (ring c) :=
                          \<lparr>re_jti = j, re_exp = e, re_live = True\<rparr>],
       seen := insert j (seen c), count := count c + 1\<rparr>"

definition CheckAndConsume ::
  "AntiReplay \<Rightarrow> int \<Rightarrow> bytes \<Rightarrow> int \<Rightarrow> bool \<times> string list \<times> AntiReplay" where
  "CheckAndConsume c0 now j e =
     (let c = purgeHead c0 now
      in if j \<in> seen c then (False, [], c)
         else if count c = length (ring c)
         then let c' = purgeAll c now
              in if count c' = length (ring c')
                 then let (al, c'') = ar_trip c' in (False, al, c'')
                 else (True, [], ar_insert c' j e)
         else (True, [], ar_insert c j e))"

subsection \<open>The ring as a queue\<close>

definition ar_inv :: "AntiReplay \<Rightarrow> bool" where
  "ar_inv c \<longleftrightarrow> ring c \<noteq> [] \<and> head c < length (ring c) \<and> count c \<le> length (ring c) \<and>
     seen c = re_jti ` set (entries c) \<and> distinct (map re_jti (entries c))"

lemma length_entries [simp]: "length (entries c) = count c"
  by (simp add: entries_def)

lemma ring_index_inj:
  assumes "(i::nat) < n" and "j < n" and "(h + i) mod n = (h + j) mod n"
  shows "i = j"
proof -
  from assms(3) obtain p q where "h + i + n * p = h + j + n * q"
    by (auto simp: nat_mod_eq_iff)
  then have "i + n * p = j + n * q" by simp
  then have "i mod n = j mod n" by (metis mod_mult_self2)
  with assms(1,2) show ?thesis by simp
qed

lemma entries_pop:
  assumes "0 < count c" and "count c \<le> length (ring c)" and "head c < length (ring c)"
  shows "entries (ar_pop c) = tl (entries c)"
proof (rule nth_equalityI)
  show "length (entries (ar_pop c)) = length (tl (entries c))" by (simp add: ar_pop_def)
next
  fix i assume "i < length (entries (ar_pop c))"
  then have i: "Suc i < count c" by (simp add: ar_pop_def)
  let ?n = "length (ring c)"
  have idx: "((head c + 1) mod ?n + i) mod ?n = (head c + Suc i) mod ?n"
    by (simp add: mod_add_left_eq)
  have "(head c + Suc i) mod ?n \<noteq> (head c + 0) mod ?n"
  proof
    assume "(head c + Suc i) mod ?n = (head c + 0) mod ?n"
    then have "Suc i = 0"
      by (rule ring_index_inj [rotated 2]) (use i assms in auto)
    then show False by simp
  qed
  then have "(head c + Suc i) mod ?n \<noteq> head c" using assms(3) by simp
  then show "entries (ar_pop c) ! i = tl (entries c) ! i"
    using i idx by (simp add: entries_def ar_pop_def nth_tl)
qed

lemma entries_hd: "0 < count c \<Longrightarrow> head c < length (ring c) \<Longrightarrow>
    entries c = ring c ! head c # tl (entries c)"
  by (simp add: entries_def upt_conv_Cons)

lemma ar_inv_pop:
  assumes "ar_inv c" and "0 < count c"
  shows "ar_inv (ar_pop c)"
proof -
  from assms have h: "head c < length (ring c)" "count c \<le> length (ring c)"
    by (auto simp: ar_inv_def)
  have pop: "entries (ar_pop c) = tl (entries c)"
    by (rule entries_pop [OF assms(2) h(2,1)])
  have hd: "entries c = ring c ! head c # tl (entries c)"
    by (rule entries_hd [OF assms(2) h(1)])
  have "distinct (map re_jti (entries c))" using assms(1) by (simp add: ar_inv_def)
  then have d: "re_jti (ring c ! head c) \<notin> re_jti ` set (tl (entries c))"
    "distinct (map re_jti (tl (entries c)))"
    by (subst (asm) hd, simp)+
  have "seen c = re_jti ` set (entries c)" using assms(1) by (simp add: ar_inv_def)
  then have "seen c = insert (re_jti (ring c ! head c)) (re_jti ` set (tl (entries c)))"
    by (subst (asm) hd) simp
  then have "seen (ar_pop c) = re_jti ` set (entries (ar_pop c))"
    using d(1) pop by (simp add: ar_pop_def)
  moreover have "ring (ar_pop c) \<noteq> [] \<and> head (ar_pop c) < length (ring (ar_pop c)) \<and>
      count (ar_pop c) \<le> length (ring (ar_pop c))"
    using h by (auto simp: ar_pop_def intro!: mod_less_divisor)
  ultimately show ?thesis
    using d(2) pop by (simp add: ar_inv_def)
qed

lemma purgeHead_refines:
  "ar_inv c \<Longrightarrow> ar_inv (purgeHead c now) \<and>
     entries (purgeHead c now) = dropWhile (\<lambda>e. re_exp e < now) (entries c) \<and>
     length (ring (purgeHead c now)) = length (ring c) \<and>
     ar_tripped (purgeHead c now) = ar_tripped c"
proof (induction c now rule: purgeHead.induct)
  case (1 c now)
  from "1.prems" have h: "head c < length (ring c)" "count c \<le> length (ring c)"
    by (auto simp: ar_inv_def)
  show ?case
  proof (cases "0 < count c \<and> re_exp (ring c ! head c) < now")
    case True
    then have c: "0 < count c" and e: "re_exp (ring c ! head c) < now" by auto
    have step: "purgeHead c now = purgeHead (ar_pop c) now"
      using True by (subst purgeHead.simps) simp
    have "dropWhile (\<lambda>e. re_exp e < now) (entries c) =
        dropWhile (\<lambda>e. re_exp e < now) (tl (entries c))"
      using e by (subst entries_hd [OF c h(1)]) simp
    then show ?thesis
      using "1.IH" [OF True ar_inv_pop [OF "1.prems" c]] entries_pop [OF c h(2,1)] step
      by (simp add: ar_pop_def)
  next
    case False
    have stop: "purgeHead c now = c"
      by (subst purgeHead.simps) (rule if_not_P [OF False])
    have "dropWhile (\<lambda>e. re_exp e < now) (entries c) = entries c"
    proof (cases "count c = 0")
      case True
      then show ?thesis by (simp add: entries_def)
    next
      case c: False
      then have "entries c = ring c ! head c # tl (entries c)"
        using h(1) by (intro entries_hd) auto
      with False c show ?thesis
        by (metis dropWhile.simps(2) gr0I)
    qed
    with stop "1.prems" show ?thesis by simp
  qed
qed

lemma entries_at_zero:
  "ks \<noteq> [] \<or> zs \<noteq> [] \<Longrightarrow> head c = 0 \<Longrightarrow> ring c = ks @ zs \<Longrightarrow> count c = length ks \<Longrightarrow> entries c = ks"
  by (intro nth_equalityI) (auto simp: entries_def nth_append)

lemma purgeAll_refines:
  assumes "ar_inv c"
  shows "ar_inv (purgeAll c now)"
    and "entries (purgeAll c now) = filter (\<lambda>e. now \<le> re_exp e) (entries c)"
    and "length (ring (purgeAll c now)) = length (ring c)"
    and "ar_tripped (purgeAll c now) = ar_tripped c"
proof -
  let ?k = "filter (\<lambda>e. now \<le> re_exp e) (entries c)"
  let ?n = "length (ring c)"
  have le: "length ?k \<le> ?n"
    using assms length_filter_le [of "\<lambda>e. now \<le> re_exp e" "entries c"] by (simp add: ar_inv_def)
  have ne: "ring c \<noteq> []" using assms by (simp add: ar_inv_def)
  show e: "entries (purgeAll c now) = ?k"
  proof (cases "count c = 0")
    case True
    then show ?thesis by (simp add: purgeAll_def entries_def)
  next
    case False
    have "?k \<noteq> [] \<or> replicate (?n - length ?k) zeroEntry \<noteq> []"
      using ne by auto
    then show ?thesis
      using False by (intro entries_at_zero) (auto simp: purgeAll_def Let_def)
  qed
  show len: "length (ring (purgeAll c now)) = ?n"
    using le by (simp add: purgeAll_def Let_def)
  show "ar_tripped (purgeAll c now) = ar_tripped c"
    by (simp add: purgeAll_def Let_def)
  have d: "distinct (map re_jti (entries c))" using assms by (simp add: ar_inv_def)
  have "seen (purgeAll c now) = re_jti ` set ?k"
  proof (cases "count c = 0")
    case True
    then show ?thesis using assms by (simp add: purgeAll_def entries_def ar_inv_def)
  next
    case False
    have "seen (purgeAll c now) = re_jti ` set (entries c) - re_jti ` {e \<in> set (entries c). \<not> now \<le> re_exp e}"
      using False assms by (simp add: purgeAll_def Let_def ar_inv_def)
    also have "\<dots> = re_jti ` {e \<in> set (entries c). now \<le> re_exp e}"
      using d by (auto simp: distinct_map inj_on_def)
    finally show ?thesis by simp
  qed
  moreover have "distinct (map re_jti ?k)"
    using d by (simp add: distinct_map_filter)
  moreover have "head (purgeAll c now) < ?n" "count (purgeAll c now) \<le> ?n"
    using assms le by (auto simp: purgeAll_def Let_def ar_inv_def)
  ultimately show "ar_inv (purgeAll c now)"
    using e len ne by (auto simp: ar_inv_def)
qed

lemma entries_insert:
  assumes "count c < length (ring c)"
  shows "entries (ar_insert c j e) = entries c @ [\<lparr>re_jti = j, re_exp = e, re_live = True\<rparr>]"
proof (rule nth_equalityI)
  show "length (entries (ar_insert c j e)) =
      length (entries c @ [\<lparr>re_jti = j, re_exp = e, re_live = True\<rparr>])"
    by (simp add: ar_insert_def)
next
  fix i assume "i < length (entries (ar_insert c j e))"
  then have i: "i < Suc (count c)" by (simp add: ar_insert_def)
  let ?n = "length (ring c)"
  have "0 < ?n" using assms by linarith
  then have mod: "(head c + count c) mod ?n < ?n" by (rule mod_less_divisor)
  show "entries (ar_insert c j e) ! i =
      (entries c @ [\<lparr>re_jti = j, re_exp = e, re_live = True\<rparr>]) ! i"
  proof (cases "i = count c")
    case True
    with mod show ?thesis
      by (simp add: entries_def ar_insert_def nth_append del: upt_Suc)
  next
    case False
    have "(head c + i) mod ?n \<noteq> (head c + count c) mod ?n"
      using ring_index_inj [of i ?n "count c" "head c"] i False assms by auto
    with False i show ?thesis
      by (simp add: entries_def ar_insert_def nth_append del: upt_Suc)
  qed
qed

lemma ar_inv_insert:
  assumes "ar_inv c" and "count c < length (ring c)" and "j \<notin> seen c"
  shows "ar_inv (ar_insert c j e)"
  using assms entries_insert [OF assms(2), of j e]
  by (auto simp: ar_inv_def) (auto simp: ar_insert_def)

subsection \<open>Refinement of a bounded queue\<close>

text \<open>The abstract cache: the consumed identifiers with their expiry, in order of
  consumption, under a fixed capacity.\<close>

definition ar_abs :: "AntiReplay \<Rightarrow> (bytes \<times> int) list" where
  "ar_abs c = map (\<lambda>e. (re_jti e, re_exp e)) (entries c)"

definition spec_consume ::
  "nat \<Rightarrow> (bytes \<times> int) list \<Rightarrow> bool \<Rightarrow> int \<Rightarrow> bytes \<Rightarrow> int
     \<Rightarrow> bool \<times> string list \<times> (bytes \<times> int) list \<times> bool" where
  "spec_consume cap q trip now j e =
     (let q1 = dropWhile (\<lambda>x. snd x < now) q;
          q2 = filter (\<lambda>x. now \<le> snd x) q1
      in if j \<in> fst ` set q1 then (False, [], q1, trip)
         else if length q1 < cap then (True, [], q1 @ [(j, e)], trip)
         else if length q2 < cap then (True, [], q2 @ [(j, e)], trip)
         else (False, if trip then [] else [TripReasonJTISaturated], q2, True))"

lemma ar_abs_dropWhile:
  "map (\<lambda>e. (re_jti e, re_exp e)) (dropWhile (\<lambda>e. re_exp e < now) xs) =
     dropWhile (\<lambda>x. snd x < now) (map (\<lambda>e. (re_jti e, re_exp e)) xs)"
  by (induction xs) auto

lemma ar_abs_filter:
  "map (\<lambda>e. (re_jti e, re_exp e)) (filter (\<lambda>e. now \<le> re_exp e) xs) =
     filter (\<lambda>x. now \<le> snd x) (map (\<lambda>e. (re_jti e, re_exp e)) xs)"
  by (induction xs) auto

lemma ar_abs_ops:
  assumes "ar_inv c"
  shows "ar_abs (purgeHead c now) = dropWhile (\<lambda>x. snd x < now) (ar_abs c)"
    and "ar_abs (purgeAll c now) = filter (\<lambda>x. now \<le> snd x) (ar_abs c)"
    and "count c < length (ring c) \<Longrightarrow> ar_abs (ar_insert c j e) = ar_abs c @ [(j, e)]"
    and "seen c = fst ` set (ar_abs c)"
    and "count c = length (ar_abs c)"
proof -
  show "ar_abs (purgeHead c now) = dropWhile (\<lambda>x. snd x < now) (ar_abs c)"
    using purgeHead_refines [OF assms] by (simp add: ar_abs_def ar_abs_dropWhile)
  show "ar_abs (purgeAll c now) = filter (\<lambda>x. now \<le> snd x) (ar_abs c)"
    using purgeAll_refines(2) [OF assms] by (simp add: ar_abs_def ar_abs_filter)
  show "count c < length (ring c) \<Longrightarrow> ar_abs (ar_insert c j e) = ar_abs c @ [(j, e)]"
    by (simp add: ar_abs_def entries_insert)
  show "seen c = fst ` set (ar_abs c)"
    using assms by (force simp: ar_abs_def ar_inv_def)
  show "count c = length (ar_abs c)"
    by (simp add: ar_abs_def)
qed

lemma ar_frame [simp]:
  "length (ring (ar_insert c j e)) = length (ring c)" "ar_tripped (ar_insert c j e) = ar_tripped c"
  "ring (snd (ar_trip c)) = ring c" "entries (snd (ar_trip c)) = entries c"
  by (auto simp: ar_insert_def ar_trip_def entries_def)

lemma ar_inv_trip: "ar_inv c \<Longrightarrow> ar_inv (snd (ar_trip c))"
  by (auto simp: ar_inv_def ar_trip_def entries_def)

lemma ar_inv_count_le: "ar_inv c \<Longrightarrow> count c \<le> length (ring c)"
  by (simp add: ar_inv_def)

text \<open>Each call of the ring is a call of the bounded queue, and keeps the invariant and the
  capacity.\<close>

lemma CheckAndConsume_refines_queue:
  assumes inv: "ar_inv c" and call: "CheckAndConsume c now j e = (b, al, c')"
  shows "spec_consume (length (ring c)) (ar_abs c) (ar_tripped c) now j e =
           (b, al, ar_abs c', ar_tripped c') \<and>
         ar_inv c' \<and> length (ring c') = length (ring c)"
proof -
  let ?h = "purgeHead c now"
  let ?a = "purgeAll ?h now"
  note H = purgeHead_refines [OF inv, of now]
  then have hi: "ar_inv ?h" by blast
  note A = purgeAll_refines [OF hi, of now]
  note Q = ar_abs_ops [OF inv] ar_abs_ops [OF hi] ar_abs_ops [OF A(1)]
  have le: "count ?h \<le> length (ring ?h)" "count ?a \<le> length (ring ?a)"
    using hi A(1) by (auto intro: ar_inv_count_le)
  consider (replay) "j \<in> seen ?h"
    | (room) "j \<notin> seen ?h" "count ?h < length (ring ?h)"
    | (purged) "j \<notin> seen ?h" "count ?h = length (ring ?h)" "count ?a < length (ring ?a)"
    | (full) "j \<notin> seen ?h" "count ?h = length (ring ?h)" "count ?a = length (ring ?a)"
    using le by linarith
  then show ?thesis
  proof cases
    case replay
    with call have "b = False" "al = []" "c' = ?h"
      by (auto simp: CheckAndConsume_def Let_def)
    with replay H hi Q show ?thesis
      by (simp add: spec_consume_def Let_def)
  next
    case room
    with call have "b = True" "al = []" "c' = ar_insert ?h j e"
      by (auto simp: CheckAndConsume_def Let_def)
    with room H hi Q ar_inv_insert [OF hi room(2,1)] show ?thesis
      by (simp add: spec_consume_def Let_def)
  next
    case purged
    have "j \<notin> seen ?a" using purged(1) Q by auto
    with ar_inv_insert [OF A(1) purged(3)] have i: "ar_inv (ar_insert ?a j e)" by blast
    from purged call have "b = True" "al = []" "c' = ar_insert ?a j e"
      by (auto simp: CheckAndConsume_def Let_def)
    with purged H A hi Q i show ?thesis
      by (simp add: spec_consume_def Let_def)
  next
    case full
    with call have "b = False" "al = fst (ar_trip ?a)" "c' = snd (ar_trip ?a)"
      by (auto simp: CheckAndConsume_def Let_def split: prod.splits)
    moreover have "ar_abs (snd (ar_trip ?a)) = ar_abs ?a" by (simp add: ar_abs_def)
    ultimately show ?thesis
      using full H A hi Q ar_inv_trip [OF A(1)]
      by (auto simp: spec_consume_def Let_def ar_trip_def)
  qed
qed

subsection \<open>The contract of a replay cache\<close>

text \<open>A sequence of calls, each with its instant, identifier and expiry; the verdicts are
  collected in order.\<close>

primrec cache_run ::
  "('c \<Rightarrow> int \<Rightarrow> bytes \<Rightarrow> int \<Rightarrow> bool \<times> string list \<times> 'c) \<Rightarrow> 'c \<Rightarrow> (int \<times> bytes \<times> int) list
     \<Rightarrow> bool list \<times> 'c" where
  "cache_run check c [] = ([], c)"
| "cache_run check c (x # xs) =
     (let (b, al, c') = check c (fst x) (fst (snd x)) (snd (snd x));
          (bs, c'') = cache_run check c' xs
      in (b # bs, c''))"

text \<open>What the validator relies on (\<open>AntiReplayCache\<close>): an accepted identifier is held
  until its expiry, whatever is consumed meanwhile, and a held identifier is refused.\<close>

locale replay_cache =
  fixes check :: "'c \<Rightarrow> int \<Rightarrow> bytes \<Rightarrow> int \<Rightarrow> bool \<times> string list \<times> 'c"
    and held :: "'c \<Rightarrow> bytes \<Rightarrow> int \<Rightarrow> bool"
    and inv :: "'c \<Rightarrow> bool"
  assumes inv_check: "inv c \<Longrightarrow> check c now j e = (b, al, c') \<Longrightarrow> inv c'"
    and accepted_held: "inv c \<Longrightarrow> check c now j e = (True, al, c') \<Longrightarrow> held c' j e"
    and held_kept: "inv c \<Longrightarrow> held c j e \<Longrightarrow> now \<le> e \<Longrightarrow> check c now i f = (b, al, c') \<Longrightarrow> held c' j e"
    and held_refused: "inv c \<Longrightarrow> held c j e \<Longrightarrow> now \<le> e \<Longrightarrow> check c now j f = (b, al, c') \<Longrightarrow> \<not> b"
begin

lemma run_refuses_held:
  assumes "inv c" and "held c j e" and "\<forall>x \<in> set xs. fst x \<le> e"
  shows "list_all2 (\<lambda>x b. fst (snd x) = j \<longrightarrow> \<not> b) xs (fst (cache_run check c xs))"
  using assms
proof (induction xs arbitrary: c)
  case Nil
  then show ?case by simp
next
  case (Cons x xs)
  obtain now i f where x: "x = (now, i, f)" by (cases x)
  obtain b al c' where ch: "check c now i f = (b, al, c')" by (metis prod_cases3)
  have "now \<le> e" using Cons.prems x by simp
  with Cons.prems(1,2) ch have "inv c'" "held c' j e" "i = j \<longrightarrow> \<not> b"
    by (auto intro: inv_check held_kept dest: held_refused)
  with Cons.IH [of c'] Cons.prems(3)
  have "list_all2 (\<lambda>x b. fst (snd x) = j \<longrightarrow> \<not> b) xs (fst (cache_run check c' xs))"
    by simp
  with \<open>i = j \<longrightarrow> \<not> b\<close> show ?case
    by (simp add: x ch case_prod_beta)
qed

lemma run_inv: "inv c \<Longrightarrow> inv (snd (cache_run check c xs))"
proof (induction xs arbitrary: c)
  case Nil
  then show ?case by simp
next
  case (Cons x xs)
  obtain b al c' where "check c (fst x) (fst (snd x)) (snd (snd x)) = (b, al, c')"
    by (metis prod_cases3)
  with Cons show ?case by (auto simp: case_prod_beta dest: inv_check)
qed

text \<open>Accepted once, refused ever after (within its validity).\<close>

lemma at_most_once:
  assumes "inv c" and "check c now j e = (True, al, c')" and "\<forall>x \<in> set xs. fst x \<le> e"
  shows "list_all2 (\<lambda>x b. fst (snd x) = j \<longrightarrow> \<not> b) xs (fst (cache_run check c' xs))"
  using assms by (intro run_refuses_held) (auto intro: inv_check accepted_held)

end

definition ar_held :: "AntiReplay \<Rightarrow> bytes \<Rightarrow> int \<Rightarrow> bool" where
  "ar_held c j e \<longleftrightarrow> (j, e) \<in> set (ar_abs c)"

lemma in_dropWhile: "x \<in> set xs \<Longrightarrow> \<not> P x \<Longrightarrow> x \<in> set (dropWhile P xs)"
  by (induction xs) auto

lemma spec_consume_keeps:
  assumes "spec_consume cap q t now i f = (b, al, q', t')" and "(j, e) \<in> set q" and "now \<le> e"
  shows "(j, e) \<in> set q'" and "i = j \<Longrightarrow> \<not> b"
proof -
  have in1: "(j, e) \<in> set (dropWhile (\<lambda>x. snd x < now) q)"
    using assms(2,3) by (intro in_dropWhile) auto
  then have "j \<in> fst ` set (dropWhile (\<lambda>x. snd x < now) q)"
    by (metis fst_conv image_eqI)
  with in1 show "(j, e) \<in> set q'" "i = j \<Longrightarrow> \<not> b"
    using assms(1,3) by (auto simp: spec_consume_def Let_def split: if_splits)
qed

lemma spec_consume_accepts:
  "spec_consume cap q t now j e = (True, al, q', t') \<Longrightarrow> (j, e) \<in> set q'"
  by (auto simp: spec_consume_def Let_def split: if_splits)

interpretation ring: replay_cache CheckAndConsume ar_held ar_inv
proof unfold_locales
  fix c now j e b al c'
  assume "ar_inv c" "CheckAndConsume c now j e = (b, al, c')"
  then show "ar_inv c'" using CheckAndConsume_refines_queue by blast
next
  fix c now j e al c'
  assume "ar_inv c" "CheckAndConsume c now j e = (True, al, c')"
  then show "ar_held c' j e"
    unfolding ar_held_def using CheckAndConsume_refines_queue spec_consume_accepts by blast
next
  fix c j e now i f b al c'
  assume "ar_inv c" "ar_held c j e" "now \<le> e" "CheckAndConsume c now i f = (b, al, c')"
  then show "ar_held c' j e"
    unfolding ar_held_def using CheckAndConsume_refines_queue spec_consume_keeps(1) by blast
next
  fix c j e now f b al c'
  assume "ar_inv c" "ar_held c j e" "now \<le> e" "CheckAndConsume c now j f = (b, al, c')"
  then show "\<not> b"
    unfolding ar_held_def using CheckAndConsume_refines_queue spec_consume_keeps(2) by blast
qed

lemma NewAntiReplay_inv: "NewAntiReplay n = Some c \<Longrightarrow> ar_inv c \<and> int (length (ring c)) = n"
  by (auto simp: NewAntiReplay_def ar_inv_def entries_def split: if_splits)

subsection \<open>Runs of the ring and of the queue\<close>

primrec ring_run :: "AntiReplay \<Rightarrow> (int \<times> bytes \<times> int) list \<Rightarrow> (bool \<times> string list) list" where
  "ring_run c [] = []"
| "ring_run c (x # xs) =
     (let (b, al, c') = CheckAndConsume c (fst x) (fst (snd x)) (snd (snd x))
      in (b, al) # ring_run c' xs)"

primrec queue_run ::
  "nat \<Rightarrow> (bytes \<times> int) list \<Rightarrow> bool \<Rightarrow> (int \<times> bytes \<times> int) list \<Rightarrow> (bool \<times> string list) list" where
  "queue_run cap q trip [] = []"
| "queue_run cap q trip (x # xs) =
     (let (b, al, q', trip') = spec_consume cap q trip (fst x) (fst (snd x)) (snd (snd x))
      in (b, al) # queue_run cap q' trip' xs)"

lemma ring_run_refines:
  "ar_inv c \<Longrightarrow> ring_run c xs = queue_run (length (ring c)) (ar_abs c) (ar_tripped c) xs"
proof (induction xs arbitrary: c)
  case Nil
  then show ?case by simp
next
  case (Cons x xs)
  obtain b al c' where st: "CheckAndConsume c (fst x) (fst (snd x)) (snd (snd x)) = (b, al, c')"
    by (metis prod_cases3)
  from CheckAndConsume_refines_queue [OF Cons.prems st] Cons.IH [of c'] st show ?case
    by simp
qed

lemma fresh_ring:
  "NewAntiReplay n = Some c \<Longrightarrow> ar_inv c \<and> ar_abs c = [] \<and> \<not> ar_tripped c \<and> length (ring c) = nat n"
proof -
  assume n: "NewAntiReplay n = Some c"
  then have "count c = 0" "\<not> ar_tripped c" by (auto simp: NewAntiReplay_def split: if_splits)
  with NewAntiReplay_inv [OF n] show ?thesis by (auto simp: ar_abs_def entries_def)
qed

lemma spec_consume_bounds:
  assumes "spec_consume cap q trip now j e = (b, al, q', trip')" and "length q \<le> cap"
  shows "length q' \<le> cap" and "length al + (if trip then 1 else 0) \<le> (if trip' then 1 else 0)"
proof -
  let ?d = "dropWhile (\<lambda>x. snd x < now) q"
  have "length (filter (\<lambda>x. now \<le> snd x) ?d) \<le> cap" "length ?d \<le> cap"
    using assms(2) length_dropWhile_le [of "\<lambda>x. snd x < now" q]
      length_filter_le [of "\<lambda>x. now \<le> snd x" ?d] by linarith+
  with assms(1) show "length q' \<le> cap" and "length al + (if trip then 1 else 0) \<le> (if trip' then 1 else 0)"
    by (auto simp: spec_consume_def Let_def split: if_splits simp del: length_filter_le)
qed

lemma queue_run_alarms:
  "length q \<le> cap \<Longrightarrow>
     length (concat (map snd (queue_run cap q trip xs))) + (if trip then 1 else 0) \<le> 1"
proof (induction xs arbitrary: q trip)
  case Nil
  then show ?case by simp
next
  case (Cons x xs)
  obtain b al q' trip' where
    st: "spec_consume cap q trip (fst x) (fst (snd x)) (snd (snd x)) = (b, al, q', trip')"
    by (metis prod_cases4)
  note B = spec_consume_bounds [OF st Cons.prems]
  have "length (concat (map snd (queue_run cap q' trip' xs))) + (if trip' then 1 else 0) \<le> 1"
    using Cons.IH B(1) by blast
  then have "length al + length (concat (map snd (queue_run cap q' trip' xs))) + (if trip then 1 else 0) \<le> 1"
    using B(2) by linarith
  then show ?case using st by simp
qed

subsection \<open>Properties\<close>

text \<open>no replay.  In any sequence of calls on a fresh cache, once an identifier has been
  accepted with an expiry, every later call that presents it, up to that expiry on the
  cache's clock, is refused, whatever else was consumed, purged or refused in between.\<close>

lemma no_replay_before_expiry:
  assumes "NewAntiReplay n = Some c0"
    and "CheckAndConsume (snd (cache_run CheckAndConsume c0 before)) now j e = (True, al, c)"
    and "\<forall>x \<in> set later. fst x \<le> e"
  shows "list_all2 (\<lambda>x accepted. fst (snd x) = j \<longrightarrow> \<not> accepted)
           later (fst (cache_run CheckAndConsume c later))"
  using assms NewAntiReplay_inv [OF assms(1)]
  by (intro ring.at_most_once [OF _ assms(2)]) (auto intro: ring.run_inv)

definition jti_a :: bytes where "jti_a = replicate 16 (byte 65)"
definition jti_b :: bytes where "jti_b = replicate 16 (byte 66)"

lemma jti_distinct: "jti_a \<noteq> jti_b" "jti_a \<noteq> zeros 16" "jti_b \<noteq> zeros 16"
  by (simp_all add: jti_a_def jti_b_def zeros_def replicate_eq_replicate byte_eq_iff)

definition ring_ex :: AntiReplay where
  "ring_ex = \<lparr>ring = replicate 2 zeroEntry, head = 0, count = 0, seen = {}, ar_tripped = False\<rparr>"

lemma ring_ex_new: "NewAntiReplay 2 = Some ring_ex"
  by (simp add: NewAntiReplay_def ring_ex_def)

text \<open>C24: the ring buffer implements the bounded queue.  Over every sequence of calls on a
  fresh ring, the verdicts and the alarms are exactly those of the abstract queue of
  (identifier, expiry) pairs of the same capacity, which purges expired heads, then all
  expired entries when full, and refuses rather than evicts.\<close>

theorem ring_implements_queue:
  assumes "NewAntiReplay n = Some c"
  shows "ring_run c xs = queue_run (nat n) [] False xs"
  using fresh_ring [OF assms] ring_run_refines [of c xs] by simp

theorem ring_implements_queue_witness:
  "ring_run ring_ex [(10, jti_a, 50), (11, jti_b, 20), (12, jti_a, 50), (13, zeros 16, 70)] =
     [(True, []), (True, []), (False, []), (False, [TripReasonJTISaturated])]"
proof -
  have "queue_run 2 [] False [(10, jti_a, 50), (11, jti_b, 20), (12, jti_a, 50), (13, zeros 16, 70)] =
     [(True, []), (True, []), (False, []), (False, [TripReasonJTISaturated])]"
    using jti_distinct by (simp add: spec_consume_def Let_def)
  then show ?thesis unfolding ring_implements_queue [OF ring_ex_new] by (simp only: nat_numeral)
qed

text \<open>saturation fails closed.  When every entry of a full cache is still valid, a new
  identifier is refused and nothing is evicted; and over a whole run of a fresh cache the
  saturation alarm is raised at most once.\<close>

lemma saturation_fails_closed:
  assumes "NewAntiReplay n = Some c0" and "c = snd (cache_run CheckAndConsume c0 before)"
  shows "(count c = length (ring c) \<and> (\<forall>e \<in> set (entries c). now \<le> re_exp e) \<longrightarrow>
           (\<exists>al c'. CheckAndConsume c now j e = (False, al, c') \<and> ar_abs c' = ar_abs c)) \<and>
    length (concat (map snd (ring_run c0 xs))) \<le> 1"
proof (intro conjI impI)
  have inv: "ar_inv c" using NewAntiReplay_inv [OF assms(1)] by (simp add: assms(2) ring.run_inv)
  show "\<exists>al c'. CheckAndConsume c now j e = (False, al, c') \<and> ar_abs c' = ar_abs c"
    if full: "count c = length (ring c) \<and> (\<forall>e \<in> set (entries c). now \<le> re_exp e)"
  proof -
    obtain b al c' where st: "CheckAndConsume c now j e = (b, al, c')" by (metis prod_cases3)
    have live: "\<forall>x \<in> set (ar_abs c). now \<le> snd x" using full by (auto simp: ar_abs_def)
    then have d: "dropWhile (\<lambda>x. snd x < now) (ar_abs c) = ar_abs c"
      by (cases "ar_abs c") auto
    have k: "filter (\<lambda>x. now \<le> snd x) (ar_abs c) = ar_abs c" using live by simp
    have "\<not> length (ar_abs c) < length (ring c)" using full by (simp add: ar_abs_def)
    then have "b = False \<and> ar_abs c' = ar_abs c"
      using CheckAndConsume_refines_queue [OF inv st]
      by (auto simp: spec_consume_def Let_def d k split: if_splits)
    with st show ?thesis by simp
  qed
  show "length (concat (map snd (ring_run c0 xs))) \<le> 1"
    using fresh_ring [OF assms(1)] ring_run_refines [of c0 xs] queue_run_alarms [of "[]" _ False xs]
    by auto
qed

end
