(* ===== verification/Quorum.thy ===== *)
theory Quorum
  imports TBP_Prelude
begin

text \<open>
  Governance proofs of a PEP (\<open>src/src/pep/quorum_verifier.go\<close>, \<open>quorum_state.go\<close>): the
  message each controller signs, the k-of-n verifier over a pinned keyring, and the
  persistent freshness floor that makes a proof usable once.

  Ed25519 verification is the parameter \<open>edv\<close> (public key, message, signature); nothing is
  assumed of it.  The state file of the floor is a map; a scripted outcome per call says
  whether reading and committing it succeed.
\<close>

subsection \<open>Messages and proofs\<close>

record QuorumProof =
  Expiry :: time
  Signatures :: "(bytes \<times> bytes) list"

definition QuorumMessage :: "string \<Rightarrow> string \<Rightarrow> time \<Rightarrow> bytes" where
  "QuorumMessage condition cellID expiry =
     ''TBPQ2'' @ lp 2 condition @ lp 2 cellID @ be64 (unix expiry)"

lemma QuorumMessage_inj:
  assumes "length c < 65536" "length c' < 65536" "length i < 65536" "length i' < 65536"
    and "int64 (unix e)" "int64 (unix e')"
  shows "QuorumMessage c i e = QuorumMessage c' i' e' \<longleftrightarrow> c = c' \<and> i = i' \<and> unix e = unix e'"
  using assms by (simp add: QuorumMessage_def lp_append_eq_iff lp_eq_iff be64_inj)

subsection \<open>The k-of-n verifier\<close>

definition DefaultQuorumProofTTL :: int where "DefaultQuorumProofTTL = 300 * second"
definition PublicKeySize :: nat where "PublicKeySize = 32"

record QuorumVerifier =
  qv_cell :: string
  qv_keys :: "(bytes, bytes) gomap"
  qv_k :: int
  qv_maxTTL :: int

datatype quorum_config_error = NoCellID | EmptyKeyring | BadQuorum | BadKey

definition NewSignatureQuorumVerifier ::
  "string \<Rightarrow> (bytes, bytes) gomap \<Rightarrow> int \<Rightarrow> int \<Rightarrow> quorum_config_error + QuorumVerifier" where
  "NewSignatureQuorumVerifier cellID keyring k maxTTL =
     (if cellID = [] then Inl NoCellID
      else if length keyring = 0 then Inl EmptyKeyring
      else if k < 1 \<or> k > int (length keyring) then Inl BadQuorum
      else if \<not> list_all (\<lambda>(kid, pub). length pub = PublicKeySize) keyring then Inl BadKey
      else Inr \<lparr>qv_cell = cellID, qv_keys = keyring, qv_k = k,
                qv_maxTTL = (if maxTTL \<le> 0 then DefaultQuorumProofTTL else maxTTL)\<rparr>)"

text \<open>The loop over the signatures, with the keys already counted.\<close>

fun count_valid ::
  "(bytes \<Rightarrow> bytes \<Rightarrow> bytes \<Rightarrow> bool) \<Rightarrow> (bytes, bytes) gomap \<Rightarrow> bytes \<Rightarrow> bytes list
     \<Rightarrow> (bytes \<times> bytes) list \<Rightarrow> nat" where
  "count_valid edv keys msg counted [] = 0"
| "count_valid edv keys msg counted ((kid, sig) # sigs) =
     (if kid \<in> set counted then count_valid edv keys msg counted sigs
      else case map_of keys kid of
        None \<Rightarrow> count_valid edv keys msg counted sigs
      | Some pub \<Rightarrow>
          if \<not> edv pub msg sig then count_valid edv keys msg counted sigs
          else Suc (count_valid edv keys msg (kid # counted) sigs))"

definition quorum_verify ::
  "(bytes \<Rightarrow> bytes \<Rightarrow> bytes \<Rightarrow> bool) \<Rightarrow> QuorumVerifier \<Rightarrow> time \<Rightarrow> string \<Rightarrow> QuorumProof \<Rightarrow> bool" where
  "quorum_verify edv qv now condition proof =
     (if Expiry proof = zero_time then False
      else if \<not> Expiry proof > now then False
      else if Expiry proof > now + qv_maxTTL qv then False
      else int (count_valid edv (qv_keys qv) (QuorumMessage condition (qv_cell qv) (Expiry proof))
                  [] (Signatures proof)) \<ge> qv_k qv)"

text \<open>The controllers that signed, as a set: pinned keys with a valid signature.\<close>

definition signers ::
  "(bytes \<Rightarrow> bytes \<Rightarrow> bytes \<Rightarrow> bool) \<Rightarrow> (bytes, bytes) gomap \<Rightarrow> bytes \<Rightarrow> (bytes \<times> bytes) list \<Rightarrow> bytes set" where
  "signers edv keys msg sigs =
     {kid. \<exists>sig pub. (kid, sig) \<in> set sigs \<and> map_of keys kid = Some pub \<and> edv pub msg sig}"

lemma finite_signers [simp]: "finite (signers edv keys msg sigs)"
  by (rule finite_subset [of _ "fst ` set sigs"]) (force simp: signers_def)+

lemma signers_Nil [simp]: "signers edv keys msg [] = {}"
  by (simp add: signers_def)

lemma signers_Cons:
  "signers edv keys msg ((kid, sig) # sigs) =
     (case map_of keys kid of
        Some pub \<Rightarrow> if edv pub msg sig then insert kid (signers edv keys msg sigs)
                    else signers edv keys msg sigs
      | None \<Rightarrow> signers edv keys msg sigs)"
  by (auto simp: signers_def split: option.splits)

lemma count_valid_card:
  "count_valid edv keys msg counted sigs = card (signers edv keys msg sigs - set counted)"
proof (induction edv keys msg counted sigs rule: count_valid.induct)
  case (1 edv keys msg counted)
  then show ?case by simp
next
  case (2 edv keys msg counted kid sig sigs)
  let ?S = "signers edv keys msg sigs"
  show ?case
  proof (cases "kid \<in> set counted")
    case True
    then have "signers edv keys msg ((kid, sig) # sigs) - set counted = ?S - set counted"
      by (auto simp: signers_Cons split: option.splits)
    with True 2(1) show ?thesis by simp
  next
    case fresh: False
    show ?thesis
    proof (cases "map_of keys kid")
      case None
      with fresh 2(2) show ?thesis by (simp add: signers_Cons)
    next
      case (Some pub)
      show ?thesis
      proof (cases "edv pub msg sig")
        case False
        with fresh Some 2(3) show ?thesis by (simp add: signers_Cons)
      next
        case True
        have "insert kid ?S - set counted = insert kid (?S - set (kid # counted))"
          using fresh by auto
        then have "card (insert kid ?S - set counted) = Suc (card (?S - set (kid # counted)))"
          by simp
        with True fresh Some 2(4) show ?thesis by (simp add: signers_Cons)
      qed
    qed
  qed
qed

lemma quorum_verify_iff:
  "quorum_verify edv qv now condition proof \<longleftrightarrow>
     Expiry proof \<noteq> zero_time \<and> now < Expiry proof \<and> Expiry proof \<le> now + qv_maxTTL qv \<and>
     qv_k qv \<le> int (card (signers edv (qv_keys qv)
        (QuorumMessage condition (qv_cell qv) (Expiry proof)) (Signatures proof)))"
  by (auto simp: quorum_verify_def count_valid_card)

subsection \<open>The persistent freshness floor\<close>

datatype io = IoOk | IoLoadErr | IoCommitErr

record QuorumState =
  qs_file :: "(string, int) gomap"
  qs_env :: "io list"

datatype quorum_state_error = ErrLoad | ErrCommit

definition qs_next :: "QuorumState \<Rightarrow> io \<times> QuorumState" where
  "qs_next s = (case qs_env s of [] \<Rightarrow> (IoOk, s) | x # xs \<Rightarrow> (x, s\<lparr>qs_env := xs\<rparr>))"

definition Consume_floor ::
  "QuorumState \<Rightarrow> string \<Rightarrow> int \<Rightarrow> (quorum_state_error + bool) \<times> QuorumState" where
  "Consume_floor s0 condition expiryUnix =
     (let (x, s) = qs_next s0
      in if x = IoLoadErr then (Inl ErrLoad, s)
         else case map_of (qs_file s) condition of
           Some prev \<Rightarrow>
             if expiryUnix \<le> prev then (Inr False, s)
             else if x = IoCommitErr then (Inl ErrCommit, s)
             else (Inr True, s\<lparr>qs_file := put condition expiryUnix (qs_file s)\<rparr>)
         | None \<Rightarrow>
             if x = IoCommitErr then (Inl ErrCommit, s)
             else (Inr True, s\<lparr>qs_file := put condition expiryUnix (qs_file s)\<rparr>))"

text \<open>What the governed operations rely on (\<open>QuorumStateStore\<close>): a success raises the floor
  of its condition strictly and touches no other; anything else leaves every floor alone.\<close>

primrec floor_run ::
  "('s \<Rightarrow> string \<Rightarrow> int \<Rightarrow> (quorum_state_error + bool) \<times> 's) \<Rightarrow> 's \<Rightarrow> (string \<times> int) list
     \<Rightarrow> (quorum_state_error + bool) list \<times> 's" where
  "floor_run consume s [] = ([], s)"
| "floor_run consume s (x # xs) =
     (let (r, s') = consume s (fst x) (snd x); (rs, s'') = floor_run consume s' xs
      in (r # rs, s''))"

locale floor_store =
  fixes consume :: "'s \<Rightarrow> string \<Rightarrow> int \<Rightarrow> (quorum_state_error + bool) \<times> 's"
    and floor :: "'s \<Rightarrow> string \<rightharpoonup> int"
  assumes consume_raises: "consume s c e = (Inr True, s') \<Longrightarrow>
      (\<forall>f. floor s c = Some f \<longrightarrow> f < e) \<and> floor s' = (floor s)(c \<mapsto> e)"
    and consume_frame: "consume s c e = (r, s') \<Longrightarrow> r \<noteq> Inr True \<Longrightarrow> floor s' = floor s"
begin

lemma floor_monotone:
  assumes "floor s c = Some f" and "consume s d e = (r, s')"
  obtains f' where "floor s' c = Some f'" and "f \<le> f'"
proof (cases "r = Inr True \<and> d = c")
  case True
  with assms consume_raises [of s d e s'] that show ?thesis by force
next
  case False
  have "floor s' c = Some f"
  proof (cases "r = Inr True")
    case True
    with False assms consume_raises [of s d e s'] show ?thesis by auto
  next
    case False
    with assms consume_frame [of s d e r s'] show ?thesis by auto
  qed
  then show ?thesis by (rule that) simp
qed

text \<open>Under a floor, no proof of an expiry at or below it is ever consumed again.\<close>

lemma run_below_floor:
  assumes "floor s c = Some f"
  shows "list_all2 (\<lambda>x r. fst x = c \<and> snd x \<le> f \<longrightarrow> r \<noteq> Inr True) xs (fst (floor_run consume s xs))"
  using assms
proof (induction xs arbitrary: s f)
  case Nil
  then show ?case by simp
next
  case (Cons x xs)
  obtain r s' where step: "consume s (fst x) (snd x) = (r, s')" by fastforce
  obtain f' where f': "floor s' c = Some f'" "f \<le> f'"
    using floor_monotone [OF Cons.prems step] .
  have "list_all2 (\<lambda>x r. fst x = c \<and> snd x \<le> f \<longrightarrow> r \<noteq> Inr True) xs (fst (floor_run consume s' xs))"
    by (rule list_all2_mono [OF Cons.IH [OF f'(1)]]) (use f'(2) in auto)
  moreover have "fst x = c \<and> snd x \<le> f \<longrightarrow> r \<noteq> Inr True"
    using consume_raises [of s "fst x" "snd x" s'] step Cons.prems by fastforce
  ultimately show ?case
    by (simp add: step case_prod_beta)
qed

lemma consumed_once:
  assumes "consume s c e = (Inr True, s')"
  shows "list_all2 (\<lambda>x r. fst x = c \<and> snd x \<le> e \<longrightarrow> r \<noteq> Inr True) xs (fst (floor_run consume s' xs))"
  using consume_raises [OF assms] by (intro run_below_floor) simp

end

abbreviation qs_floor :: "QuorumState \<Rightarrow> string \<rightharpoonup> int" where
  "qs_floor s \<equiv> map_of (qs_file s)"

lemma qs_next_file: "qs_next s = (x, s') \<Longrightarrow> qs_file s' = qs_file s"
  by (auto simp: qs_next_def split: list.splits)

interpretation qfile: floor_store Consume_floor qs_floor
proof unfold_locales
  fix s c e s'
  assume "Consume_floor s c e = (Inr True, s')"
  then show "(\<forall>f. qs_floor s c = Some f \<longrightarrow> f < e) \<and> qs_floor s' = (qs_floor s)(c \<mapsto> e)"
    by (auto simp: Consume_floor_def Let_def fun_eq_iff split: prod.splits if_splits option.splits
        dest!: qs_next_file)
next
  fix s c e r s'
  assume "Consume_floor s c e = (r, s')" "r \<noteq> Inr True"
  then show "qs_floor s' = qs_floor s"
    by (auto simp: Consume_floor_def Let_def split: prod.splits if_splits option.splits
        dest!: qs_next_file)
qed

subsection \<open>Properties\<close>

text \<open>C26: the k-of-n verifier accepts exactly the fresh proofs signed by k distinct pinned
  controllers: the proof is dated, not expired, expires no later than the maximum lifetime
  from now, and at least k different key identifiers of the pinned keyring carry a valid
  signature over the message of this condition, this cell and this expiry; repeating a
  signer or adding unpinned signers counts for nothing.\<close>

theorem quorum_accepts_iff_k_distinct_signers:
  "quorum_verify edv qv now condition proof \<longleftrightarrow>
     Expiry proof \<noteq> zero_time \<and> now < Expiry proof \<and> Expiry proof \<le> now + qv_maxTTL qv \<and>
     qv_k qv \<le> int (card {kid. \<exists>sig pub. (kid, sig) \<in> set (Signatures proof) \<and>
        map_of (qv_keys qv) kid = Some pub \<and>
        edv pub (QuorumMessage condition (qv_cell qv) (Expiry proof)) sig})"
  using quorum_verify_iff unfolding signers_def .

text \<open>a signature given for one operation cannot serve another: two quorum messages are
  equal only if the condition, the cell and the expiry in seconds are all equal, for names
  within the two-byte length prefix and expiries in the range of \<open>int64\<close>.\<close>

lemma quorum_message_binds_operation:
  assumes "length c < 65536" "length c' < 65536" "length i < 65536" "length i' < 65536"
    and "int64 (unix e)" "int64 (unix e')"
    and "QuorumMessage c i e = QuorumMessage c' i' e'"
  shows "c = c' \<and> i = i' \<and> unix e = unix e'"
  using QuorumMessage_inj [OF assms(1-6)] assms(7) by blast

text \<open>a consumed freshness floor is never consumed again: after a successful consumption
  for a condition, in every later sequence of consumptions, whatever read and commit errors
  happen, no call for that condition with an expiry at or below succeeds.\<close>

lemma floor_consumed_once:
  assumes "Consume_floor s c e = (Inr True, s')"
  shows "list_all2 (\<lambda>x res. fst x = c \<and> snd x \<le> e \<longrightarrow> res \<noteq> Inr True) xs (fst (floor_run Consume_floor s' xs))"
  using assms by (rule qfile.consumed_once)

end
