(* ===== verification/Token.thy ===== *)
theory Token
  imports TBP_Prelude
begin

text \<open>
  The access token and its strict decoding (\<open>src/src/pep/validator.go\<close>, steps 1 to 3 of the
  validation chain): the CBOR values the decoder produces, the claims of the frozen schema,
  the quota passport, and the COSE headers.

  The CBOR and COSE libraries are not part of the repository.  They are the fields of the
  parameter \<open>codec\<close>: strict decoding and canonical encoding of a map, decoding of a byte
  string and of a \<open>COSE_Sign1\<close> message, the algorithm number, and the signature check.
\<close>

subsection \<open>Values and tokens\<close>

text \<open>The dynamic types the decoder can put in an \<open>any\<close>: non-negative integers are
  \<open>uint64\<close>, negative ones \<open>int64\<close> (the same word, read as signed).\<close>

datatype cbor =
    CUint u64
  | CInt "64 word"
  | CBytes bytes
  | CText string
  | CMap "(cbor \<times> cbor) list"
  | COther

datatype Class = ClassF | ClassI | ClassW | ClassOut

definition DefaultClass :: Class where "DefaultClass = ClassW"

record Quota =
  q_Resource :: string
  q_Operation :: string
  q_VolumeMax :: u64
  q_WindowS :: u64

record Token =
  Iss :: string
  Sub :: string
  Iat :: int
  Exp :: int
  JTI :: bytes
  PolicyID :: bytes
  Action :: string
  Resource :: string
  TokClass :: Class
  ObjectSeal :: "bytes option"
  Epoch :: u64
  TokQuota :: "Quota option"
  PlanSeal :: "bytes option"

record Sign1 =
  s1_unprotected :: nat
  s1_rawProtected :: bytes
  s1_payload :: bytes
  s1_signature :: bytes

record codec =
  dec_map :: "bytes \<Rightarrow> (cbor \<times> cbor) list option"
  enc_map :: "(cbor \<times> cbor) list \<Rightarrow> bytes option"
  dec_bstr :: "bytes \<Rightarrow> bytes option"
  dec_sign1 :: "bytes \<Rightarrow> Sign1 option"
  alg_ed25519 :: int
  key_ok :: "bytes \<Rightarrow> bool"
  sig_ok :: "bytes \<Rightarrow> Sign1 \<Rightarrow> bool"

definition MaxTokenWireSize :: nat where "MaxTokenWireSize = 1024"
definition minTTLSec :: int where "minTTLSec = 30"
definition maxTTLSec :: int where "maxTTLSec = 60"
definition maxIssSubActionLen :: nat where "maxIssSubActionLen = 255"
definition maxResourceLen :: nat where "maxResourceLen = 1024"
definition maxQuotaOpLen :: nat where "maxQuotaOpLen = 64"

subsection \<open>Reasons\<close>

definition ReasonOK :: string where "ReasonOK = ''ok''"
definition ReasonTokenTooLarge :: string where "ReasonTokenTooLarge = ''token-too-large''"
definition ReasonMalformed :: string where "ReasonMalformed = ''malformed-token''"
definition ReasonBadHeaders :: string where "ReasonBadHeaders = ''bad-headers''"
definition ReasonBadAlg :: string where "ReasonBadAlg = ''bad-alg''"
definition ReasonSchemaViolation :: string where "ReasonSchemaViolation = ''schema-violation''"
definition ReasonUnsupportedVer :: string where "ReasonUnsupportedVer = ''unsupported-version''"
definition ReasonUnknownKID :: string where "ReasonUnknownKID = ''unknown-kid''"
definition ReasonBadSignature :: string where "ReasonBadSignature = ''bad-signature''"
definition ReasonStaleToken :: string where "ReasonStaleToken = ''stale-token''"
definition ReasonNotYetValid :: string where "ReasonNotYetValid = ''not-yet-valid''"
definition ReasonTTLOutOfRange :: string where "ReasonTTLOutOfRange = ''ttl-out-of-range''"
definition ReasonPolicyMismatch :: string where "ReasonPolicyMismatch = ''policy-mismatch''"
definition ReasonEpochMismatch :: string where "ReasonEpochMismatch = ''epoch-mismatch''"
definition ReasonEpochUnavailable :: string where "ReasonEpochUnavailable = ''epoch-unavailable''"
definition ReasonScopeMismatch :: string where "ReasonScopeMismatch = ''scope-mismatch''"
definition ReasonSealMismatch :: string where "ReasonSealMismatch = ''seal-mismatch''"
definition ReasonQuotaExhausted :: string where "ReasonQuotaExhausted = ''quota-exhausted''"
definition ReasonQuotaUnverified :: string where "ReasonQuotaUnverified = ''quota-unverified''"
definition ReasonReplay :: string where "ReasonReplay = ''replay''"
definition ReasonLeafWriteFailed :: string where "ReasonLeafWriteFailed = ''leaf-write-failed''"

lemmas reason_defs = ReasonOK_def ReasonTokenTooLarge_def ReasonMalformed_def ReasonBadHeaders_def
  ReasonBadAlg_def ReasonSchemaViolation_def ReasonUnsupportedVer_def ReasonUnknownKID_def
  ReasonBadSignature_def ReasonStaleToken_def ReasonNotYetValid_def ReasonTTLOutOfRange_def
  ReasonPolicyMismatch_def ReasonEpochMismatch_def ReasonEpochUnavailable_def
  ReasonScopeMismatch_def ReasonSealMismatch_def ReasonQuotaExhausted_def
  ReasonQuotaUnverified_def ReasonReplay_def ReasonLeafWriteFailed_def

subsection \<open>Typed access to claims\<close>

definition asInt :: "cbor \<Rightarrow> int option" where
  "asInt v = (case v of
      CUint n \<Rightarrow> if int (unat n) > max_int64 then None else Some (int (unat n))
    | CInt i \<Rightarrow> Some (sint i)
    | _ \<Rightarrow> None)"

definition asUint :: "cbor \<Rightarrow> u64 option" where
  "asUint v = (case v of CUint n \<Rightarrow> Some n | _ \<Rightarrow> None)"

definition bytesFromAny :: "cbor \<Rightarrow> bytes option" where
  "bytesFromAny v = (case v of CBytes b \<Rightarrow> Some b | _ \<Rightarrow> None)"

type_synonym claims = "(int, cbor) gomap"

definition stringClaim :: "claims \<Rightarrow> int \<Rightarrow> bool \<Rightarrow> nat \<Rightarrow> string option" where
  "stringClaim cs key required maxLen =
     (case map_of cs key of
        None \<Rightarrow> if required then None else Some []
      | Some (CText s) \<Rightarrow> if length s < 1 \<or> length s > maxLen then None else Some s
      | Some _ \<Rightarrow> None)"

definition intClaim :: "claims \<Rightarrow> int \<Rightarrow> bool \<Rightarrow> int option" where
  "intClaim cs key required =
     (case map_of cs key of None \<Rightarrow> if required then None else Some 0 | Some v \<Rightarrow> asInt v)"

definition uintClaim :: "claims \<Rightarrow> int \<Rightarrow> bool \<Rightarrow> u64 option" where
  "uintClaim cs key required =
     (case map_of cs key of None \<Rightarrow> if required then None else Some 0 | Some v \<Rightarrow> asUint v)"

definition bytesClaim :: "claims \<Rightarrow> int \<Rightarrow> bool \<Rightarrow> bytes option" where
  "bytesClaim cs key required =
     (case map_of cs key of None \<Rightarrow> if required then None else Some [] | Some v \<Rightarrow> bytesFromAny v)"

text \<open>The loop that turns the decoded map into integer-keyed claims.\<close>

fun claims_of :: "(cbor \<times> cbor) list \<Rightarrow> claims \<Rightarrow> claims option" where
  "claims_of [] acc = Some acc"
| "claims_of ((k, v) # kvs) acc =
     (case asInt k of None \<Rightarrow> None | Some key \<Rightarrow> claims_of kvs (put key v acc))"

definition known_claim :: "int \<Rightarrow> bool" where
  "known_claim k \<longleftrightarrow> k \<in> set [1, 2, 4, 6, 7, -1, -2, -3, -4, -5, -6, -7, -8, -9]"

text \<open>An optional claim: absent, or decoded, or in violation of the schema.\<close>

definition opt_claim :: "claims \<Rightarrow> int \<Rightarrow> (cbor \<Rightarrow> 'a option) \<Rightarrow> 'a option option" where
  "opt_claim cs key dec =
     (case map_of cs key of None \<Rightarrow> Some None
      | Some v \<Rightarrow> (case dec v of None \<Rightarrow> None | Some x \<Rightarrow> Some (Some x)))"

definition class_of :: "cbor \<Rightarrow> Class option" where
  "class_of v = (case asUint v of
      None \<Rightarrow> None
    | Some n \<Rightarrow> if n = 0 then Some ClassF else if n = 1 then Some ClassI
                else if n = 2 then Some ClassW else if n = 3 then Some ClassOut else None)"

definition seal_of :: "cbor \<Rightarrow> bytes option" where
  "seal_of v = (case bytesFromAny v of None \<Rightarrow> None
     | Some b \<Rightarrow> if length b \<noteq> 32 then None else Some b)"

definition decodeQuota :: "cbor \<Rightarrow> Quota option" where
  "decodeQuota v = (case v of
     CMap m \<Rightarrow>
       if length m \<noteq> 4 then None
       else (case claims_of m [] of None \<Rightarrow> None
       | Some cs \<Rightarrow>
         (case stringClaim cs 1 True maxResourceLen of None \<Rightarrow> None | Some r \<Rightarrow>
         (case stringClaim cs 2 True maxQuotaOpLen of None \<Rightarrow> None | Some op \<Rightarrow>
         (case uintClaim cs 3 True of None \<Rightarrow> None | Some vm \<Rightarrow>
         (case uintClaim cs 4 True of None \<Rightarrow> None | Some w \<Rightarrow>
            if w = 0 then None
            else Some \<lparr>q_Resource = r, q_Operation = op, q_VolumeMax = vm, q_WindowS = w\<rparr>)))))
   | _ \<Rightarrow> None)"

subsection \<open>The payload\<close>

definition violation :: "string + Token" where "violation = Inl ReasonSchemaViolation"

text \<open>The claims in the order the decoder reads them; every miss is a schema violation.\<close>

definition decodeClaims :: "claims \<Rightarrow> string + Token" where
  "decodeClaims cs =
    (case stringClaim cs 1 True maxIssSubActionLen of None \<Rightarrow> violation | Some iss \<Rightarrow>
    (case stringClaim cs 2 True maxIssSubActionLen of None \<Rightarrow> violation | Some sub \<Rightarrow>
    (case intClaim cs 4 True of None \<Rightarrow> violation | Some exp \<Rightarrow>
    (case intClaim cs 6 True of None \<Rightarrow> violation | Some iat \<Rightarrow>
    (case bytesClaim cs 7 True of None \<Rightarrow> violation | Some jti \<Rightarrow>
     if length jti \<noteq> 16 then violation else
    (case bytesClaim cs (-1) True of None \<Rightarrow> violation | Some pid \<Rightarrow>
     if length pid \<noteq> 32 then violation else
    (case stringClaim cs (-2) True maxIssSubActionLen of None \<Rightarrow> violation | Some act \<Rightarrow>
    (case stringClaim cs (-3) True maxResourceLen of None \<Rightarrow> violation | Some res \<Rightarrow>
    (case opt_claim cs (-4) class_of of None \<Rightarrow> violation | Some cls \<Rightarrow>
    (case opt_claim cs (-5) seal_of of None \<Rightarrow> violation | Some oseal \<Rightarrow>
    (case uintClaim cs (-6) True of None \<Rightarrow> violation | Some ep \<Rightarrow>
    (case opt_claim cs (-7) decodeQuota of None \<Rightarrow> violation | Some quota \<Rightarrow>
    (case opt_claim cs (-8) seal_of of None \<Rightarrow> violation | Some pseal \<Rightarrow>
    (case uintClaim cs (-9) True of None \<Rightarrow> violation | Some ver \<Rightarrow>
     if ver \<noteq> 1 \<and> ver \<noteq> 2 then Inl ReasonUnsupportedVer
     else if ver = 1 \<and> pseal \<noteq> None then violation
     else Inr \<lparr>Iss = iss, Sub = sub, Iat = iat, Exp = exp, JTI = jti, PolicyID = pid,
               Action = act, Resource = res,
               TokClass = (case cls of None \<Rightarrow> DefaultClass | Some c \<Rightarrow> c),
               ObjectSeal = oseal, Epoch = ep, TokQuota = quota, PlanSeal = pseal\<rparr>))))))))))))))"

definition decodePayload :: "codec \<Rightarrow> bytes \<Rightarrow> string + Token" where
  "decodePayload cd payload =
     (case dec_map cd payload of None \<Rightarrow> violation
      | Some raw \<Rightarrow>
         if enc_map cd raw \<noteq> Some payload then violation
         else (case claims_of raw [] of None \<Rightarrow> violation
         | Some cs \<Rightarrow>
             if \<not> list_all (\<lambda>kv. known_claim (fst kv)) cs then violation
             else decodeClaims cs))"

subsection \<open>What a decoded token guarantees\<close>

text \<open>The bounds of the frozen schema, as a predicate on decoded tokens.\<close>

definition wf_quota :: "Quota \<Rightarrow> bool" where
  "wf_quota q \<longleftrightarrow> 1 \<le> length (q_Resource q) \<and> length (q_Resource q) \<le> 1024 \<and>
     1 \<le> length (q_Operation q) \<and> length (q_Operation q) \<le> 64 \<and> q_WindowS q \<noteq> 0"

definition wf_token :: "Token \<Rightarrow> bool" where
  "wf_token t \<longleftrightarrow>
     1 \<le> length (Iss t) \<and> length (Iss t) \<le> 255 \<and> 1 \<le> length (Sub t) \<and> length (Sub t) \<le> 255 \<and>
     1 \<le> length (Action t) \<and> length (Action t) \<le> 255 \<and>
     1 \<le> length (Resource t) \<and> length (Resource t) \<le> 1024 \<and>
     int64 (Iat t) \<and> int64 (Exp t) \<and> length (JTI t) = 16 \<and> length (PolicyID t) = 32 \<and>
     (\<forall>s. ObjectSeal t = Some s \<longrightarrow> length s = 32) \<and> (\<forall>s. PlanSeal t = Some s \<longrightarrow> length s = 32) \<and>
     (\<forall>q. TokQuota t = Some q \<longrightarrow> wf_quota q)"

lemma int64_sint: "int64 (sint (w :: 64 word))"
  using sint_lt [of w] sint_ge [of w] by (simp add: int64_def)

lemma asInt_int64: "asInt v = Some i \<Longrightarrow> int64 i"
proof (cases v)
  case (CUint n)
  moreover assume "asInt v = Some i"
  ultimately show ?thesis
    by (auto simp: asInt_def max_int64_def int64_def split: if_splits intro: order_trans [OF _ uint_ge_0])
qed (auto simp: asInt_def int64_sint)

lemma stringClaim_bounds:
  "stringClaim cs k True m = Some s \<Longrightarrow> 1 \<le> length s \<and> length s \<le> m"
  by (auto simp: stringClaim_def Suc_le_eq split: option.splits cbor.splits if_splits)

lemma intClaim_int64: "intClaim cs k True = Some i \<Longrightarrow> int64 i"
  by (auto simp: intClaim_def dest: asInt_int64 split: option.splits)

lemma seal_of_length: "seal_of v = Some s \<Longrightarrow> length s = 32"
  by (auto simp: seal_of_def split: option.splits if_splits)

lemma opt_claim_seal: "opt_claim cs k seal_of = Some (Some s) \<Longrightarrow> length s = 32"
  by (auto simp: opt_claim_def dest: seal_of_length split: option.splits)

lemma decodeQuota_wf: "decodeQuota v = Some q \<Longrightarrow> wf_quota q"
  by (auto simp: decodeQuota_def wf_quota_def maxResourceLen_def maxQuotaOpLen_def
      dest!: stringClaim_bounds split: cbor.splits option.splits if_splits)

lemma opt_claim_quota: "opt_claim cs k decodeQuota = Some (Some q) \<Longrightarrow> wf_quota q"
  by (auto simp: opt_claim_def dest: decodeQuota_wf split: option.splits)

lemmas claim_bounds = stringClaim_bounds intClaim_int64

lemma decodeClaims_wf:
  assumes "decodeClaims cs = Inr t"
  shows "wf_token t"
proof -
  from assms obtain iss sub exp iat jti pid act res cl oseal ep quota pseal where
    c: "stringClaim cs 1 True maxIssSubActionLen = Some iss" "stringClaim cs 2 True maxIssSubActionLen = Some sub"
      "intClaim cs 4 True = Some exp" "intClaim cs 6 True = Some iat"
      "stringClaim cs (-2) True maxIssSubActionLen = Some act" "stringClaim cs (-3) True maxResourceLen = Some res"
      "opt_claim cs (-5) seal_of = Some oseal" "opt_claim cs (-7) decodeQuota = Some quota"
      "opt_claim cs (-8) seal_of = Some pseal" "length jti = 16" "length pid = 32"
    and t: "t = \<lparr>Iss = iss, Sub = sub, Iat = iat, Exp = exp, JTI = jti, PolicyID = pid,
        Action = act, Resource = res, TokClass = cl, ObjectSeal = oseal, Epoch = ep, TokQuota = quota, PlanSeal = pseal\<rparr>"
    by (auto simp: decodeClaims_def violation_def split: option.splits if_splits)
  show ?thesis
    using c stringClaim_bounds [OF c(1)] stringClaim_bounds [OF c(2)] stringClaim_bounds [OF c(5)]
      stringClaim_bounds [OF c(6)] intClaim_int64 [OF c(3)] intClaim_int64 [OF c(4)]
    by (auto simp: wf_token_def t maxIssSubActionLen_def maxResourceLen_def
        dest: opt_claim_seal opt_claim_quota)
qed

lemma decodePayload_wf: "decodePayload cd p = Inr t \<Longrightarrow> wf_token t"
  by (auto simp: decodePayload_def violation_def split: option.splits if_splits intro: decodeClaims_wf)

text \<open>The version rule: a plan seal only under version 2.\<close>

lemma decodeClaims_plan_seal:
  "decodeClaims cs = Inr t \<Longrightarrow> PlanSeal t \<noteq> None \<Longrightarrow> uintClaim cs (-9) True = Some 2"
  by (auto simp: decodeClaims_def violation_def split: option.splits if_splits)

end
