(* ===== verification/Fail_Closed.thy ===== *)
theory Fail_Closed
  imports Registry Quorum Token
begin

text \<open>
  The single point that decides to refuse now (\<open>src/src/pep/failclosed.go\<close>): detectors trip
  named conditions, the validator reads \<open>Gate\<close> before anything else, and conditions are
  cleared by an operator, by a quorum (class W), or by a recovery probe (never class W).

  A call takes and returns the state of the point together with the registry its leaves go
  to; the alarm callback is the list of names returned.  The quorum verifier and the state
  store are optional fields of the Go object: \<open>None\<close> is the nil pointer.
\<close>

subsection \<open>State and records\<close>

datatype fc_error =
    ErrConditionUnknown | ErrConditionNotTripped | ErrConditionClassChange
  | ErrQuorumVerifierMissing | ErrQuorumRejected | ErrQuorumStateMissing | ErrQuorumReplayed
  | ErrAutoClearRefusedClassW | ErrQuorumState quorum_state_error

record Condition =
  cd_Name :: string
  cd_Class :: Class
  cd_Tripped :: bool
  cd_Since :: time
  cd_Detail :: string

record Refusal =
  rf_Reason :: string
  rf_Since :: time
  rf_Detail :: string

record FailClosed =
  fc_cellID :: string
  fc_salt :: bytes
  fc_conds :: "(string, Condition) gomap"
  fc_verifier :: "QuorumVerifier option"
  fc_state :: "QuorumState option"

definition NewFailClosed ::
  "string \<Rightarrow> bytes \<Rightarrow> QuorumVerifier option \<Rightarrow> QuorumState option \<Rightarrow> FailClosed option" where
  "NewFailClosed cellID salt verifier state =
     (if cellID = [] then None else if length salt < 16 then None
      else Some \<lparr>fc_cellID = cellID, fc_salt = salt, fc_conds = [],
                 fc_verifier = verifier, fc_state = state\<rparr>)"

definition failClosedActionTrip :: nat where "failClosedActionTrip = 1"
definition failClosedActionClear :: nat where "failClosedActionClear = 2"
definition clearSourceManual :: string where "clearSourceManual = ''''"
definition clearSourceAuto :: string where "clearSourceAuto = ''auto''"

definition failClosedRecord :: "nat \<Rightarrow> string \<Rightarrow> string \<Rightarrow> bytes" where
  "failClosedRecord action name detail =
     ''TBFF1'' @ [byte action] @ [byte (length name)] @ name @
     [byte (length detail div 256), byte (length detail)] @ detail"

text \<open>The leaf of a trip or a clear; a refused leaf is an alarm, never a reason to undo the
  transition.\<close>

definition fc_writeLeaf ::
  "(bytes \<Rightarrow> bytes) \<Rightarrow> registry \<Rightarrow> FailClosed \<Rightarrow> nat \<Rightarrow> string \<Rightarrow> string \<Rightarrow> time
     \<Rightarrow> registry \<times> string list" where
  "fc_writeLeaf sha r f action name detail now =
     (case AppendLeaf sha r KindTelemetry (fc_cellID f) (fc_salt f)
             (failClosedRecord action name detail) (unix_nano now) of
        (r', Inl e) \<Rightarrow> (r', [ReasonLeafWriteFailed])
      | (r', Inr i) \<Rightarrow> (r', []))"

subsection \<open>Operations\<close>

definition fc_Register :: "FailClosed \<Rightarrow> string \<Rightarrow> Class \<Rightarrow> fc_error + FailClosed" where
  "fc_Register f name cls =
     (case map_of (fc_conds f) name of
        Some c \<Rightarrow> if cd_Class c \<noteq> cls then Inl ErrConditionClassChange else Inr f
      | None \<Rightarrow> Inr (f\<lparr>fc_conds := put name
          \<lparr>cd_Name = name, cd_Class = cls, cd_Tripped = False, cd_Since = zero_time, cd_Detail = []\<rparr>
          (fc_conds f)\<rparr>))"

definition fc_Trip ::
  "(bytes \<Rightarrow> bytes) \<Rightarrow> registry \<Rightarrow> FailClosed \<Rightarrow> string \<Rightarrow> string \<Rightarrow> time
     \<Rightarrow> registry \<times> FailClosed \<times> string list" where
  "fc_Trip sha r f name detail now =
     (let c = (case map_of (fc_conds f) name of Some c \<Rightarrow> c
               | None \<Rightarrow> \<lparr>cd_Name = name, cd_Class = ClassW, cd_Tripped = False,
                         cd_Since = zero_time, cd_Detail = []\<rparr>)
      in if cd_Tripped c then (r, f, [])
         else let f' = f\<lparr>fc_conds := put name
                    (c\<lparr>cd_Tripped := True, cd_Since := now, cd_Detail := detail\<rparr>) (fc_conds f)\<rparr>;
                  (r', al) = fc_writeLeaf sha r f failClosedActionTrip name detail now
              in (r', f', al @ [name]))"

definition fc_tripped_names :: "FailClosed \<Rightarrow> string list" where
  "fc_tripped_names f = map fst (filter (\<lambda>(n, c). cd_Tripped c) (fc_conds f))"

definition fc_Gate :: "FailClosed \<Rightarrow> Refusal option" where
  "fc_Gate f =
     (case sort (fc_tripped_names f) of
        [] \<Rightarrow> None
      | n # _ \<Rightarrow> (case map_of (fc_conds f) n of
            None \<Rightarrow> None
          | Some c \<Rightarrow> Some \<lparr>rf_Reason = cd_Name c, rf_Since = cd_Since c, rf_Detail = cd_Detail c\<rparr>))"

definition fc_clearLocked ::
  "(bytes \<Rightarrow> bytes) \<Rightarrow> registry \<Rightarrow> FailClosed \<Rightarrow> Condition \<Rightarrow> string \<Rightarrow> string \<Rightarrow> time
     \<Rightarrow> registry \<times> FailClosed \<times> string list" where
  "fc_clearLocked sha r f c name source now =
     (let f' = f\<lparr>fc_conds := put name
            (c\<lparr>cd_Tripped := False, cd_Since := zero_time, cd_Detail := []\<rparr>) (fc_conds f)\<rparr>;
          (r', al) = fc_writeLeaf sha r f failClosedActionClear (cd_Name c) source now
      in (r', f', al))"

definition fc_Clear ::
  "(bytes \<Rightarrow> bytes) \<Rightarrow> (bytes \<Rightarrow> bytes \<Rightarrow> bytes \<Rightarrow> bool) \<Rightarrow> registry \<Rightarrow> FailClosed \<Rightarrow> string \<Rightarrow> QuorumProof
     \<Rightarrow> time \<Rightarrow> registry \<times> FailClosed \<times> string list \<times> fc_error option" where
  "fc_Clear sha edv r f name proof now =
     (case map_of (fc_conds f) name of
        None \<Rightarrow> (r, f, [], Some ErrConditionUnknown)
      | Some c \<Rightarrow>
          if \<not> cd_Tripped c then (r, f, [], Some ErrConditionNotTripped)
          else if cd_Class c = ClassW then
            (case fc_verifier f of None \<Rightarrow> (r, f, [], Some ErrQuorumVerifierMissing)
             | Some qv \<Rightarrow>
               if \<not> quorum_verify edv qv now name proof then (r, f, [], Some ErrQuorumRejected)
               else (case fc_state f of None \<Rightarrow> (r, f, [], Some ErrQuorumStateMissing)
               | Some qs \<Rightarrow>
                 (case Consume_floor qs name (unix (Expiry proof)) of
                    (Inl e, qs') \<Rightarrow> (r, f\<lparr>fc_state := Some qs'\<rparr>, [], Some (ErrQuorumState e))
                  | (Inr False, qs') \<Rightarrow> (r, f\<lparr>fc_state := Some qs'\<rparr>, [], Some ErrQuorumReplayed)
                  | (Inr True, qs') \<Rightarrow>
                      let (r', f', al) = fc_clearLocked sha r (f\<lparr>fc_state := Some qs'\<rparr>) c name
                            clearSourceManual now
                      in (r', f', al, None))))
          else let (r', f', al) = fc_clearLocked sha r f c name clearSourceManual now
               in (r', f', al, None))"

definition fc_AutoClear ::
  "(bytes \<Rightarrow> bytes) \<Rightarrow> registry \<Rightarrow> FailClosed \<Rightarrow> string \<Rightarrow> time
     \<Rightarrow> registry \<times> FailClosed \<times> string list \<times> fc_error option" where
  "fc_AutoClear sha r f name now =
     (case map_of (fc_conds f) name of
        None \<Rightarrow> (r, f, [], Some ErrConditionUnknown)
      | Some c \<Rightarrow>
          if \<not> cd_Tripped c then (r, f, [], Some ErrConditionNotTripped)
          else if cd_Class c = ClassW then (r, f, [], Some ErrAutoClearRefusedClassW)
          else let (r', f', al) = fc_clearLocked sha r f c name clearSourceAuto now
               in (r', f', al, None))"

definition fc_Tripped :: "FailClosed \<Rightarrow> Condition list" where
  "fc_Tripped f = sort_key cd_Name (filter cd_Tripped (map snd (fc_conds f)))"

subsection \<open>Invariant and behaviour\<close>

definition fc_inv :: "FailClosed \<Rightarrow> bool" where
  "fc_inv f \<longleftrightarrow> wf_map (fc_conds f) \<and> (\<forall>n c. map_of (fc_conds f) n = Some c \<longrightarrow> cd_Name c = n)"

definition is_tripped :: "FailClosed \<Rightarrow> string \<Rightarrow> bool" where
  "is_tripped f n \<longleftrightarrow> (\<exists>c. map_of (fc_conds f) n = Some c \<and> cd_Tripped c)"

lemma fc_invD: "fc_inv f \<Longrightarrow> map_of (fc_conds f) n = Some c \<Longrightarrow> cd_Name c = n"
  by (simp add: fc_inv_def)

lemma fc_Register_inv: "fc_inv f \<Longrightarrow> fc_Register f n k = Inr f' \<Longrightarrow> fc_inv f'"
  by (auto simp: fc_inv_def fc_Register_def split: option.splits if_splits)

lemma fc_Trip_inv: "fc_inv f \<Longrightarrow> fc_Trip sha r f n d now = (r', f', al) \<Longrightarrow> fc_inv f'"
  by (auto simp: fc_inv_def fc_Trip_def Let_def split: option.splits if_splits prod.splits)

lemma fc_clearLocked_state:
  "fc_clearLocked sha r f c n src now = (r', f', al) \<Longrightarrow>
     f' = f\<lparr>fc_conds := put n (c\<lparr>cd_Tripped := False, cd_Since := zero_time, cd_Detail := []\<rparr>) (fc_conds f)\<rparr>"
  by (auto simp: fc_clearLocked_def Let_def split: prod.splits)

lemma set_tripped_names: "fc_inv f \<Longrightarrow> set (fc_tripped_names f) = {n. is_tripped f n}"
  by (force simp: fc_tripped_names_def is_tripped_def fc_inv_def wf_map_lookup image_iff)

text \<open>The point refuses exactly when some condition is tripped, and names the least one.\<close>

lemma fc_Gate_None_iff: "fc_inv f \<Longrightarrow> fc_Gate f = None \<longleftrightarrow> (\<forall>n. \<not> is_tripped f n)"
proof -
  assume inv: "fc_inv f"
  show ?thesis
  proof (cases "sort (fc_tripped_names f)")
    case Nil
    then have "fc_tripped_names f = []" by (metis length_0_conv length_sort)
    with set_tripped_names [OF inv] Nil show ?thesis by (auto simp: fc_Gate_def)
  next
    case (Cons n ns)
    then have "n \<in> set (fc_tripped_names f)" by (metis list.set_intros(1) set_sort)
    then have "is_tripped f n" using set_tripped_names [OF inv] by auto
    then show ?thesis using Cons by (auto simp: fc_Gate_def is_tripped_def)
  qed
qed

lemma fc_Gate_least:
  assumes inv: "fc_inv f" and g: "fc_Gate f = Some ref"
  shows "is_tripped f (rf_Reason ref) \<and> (\<forall>n. is_tripped f n \<longrightarrow> rf_Reason ref \<le> n)"
proof -
  from g obtain n ns c where s: "sort (fc_tripped_names f) = n # ns"
    and c: "map_of (fc_conds f) n = Some c" and ref: "rf_Reason ref = cd_Name c"
    by (auto simp: fc_Gate_def split: list.splits option.splits)
  have name: "rf_Reason ref = n" using fc_invD [OF inv c] ref by simp
  have in_iff: "is_tripped f m \<longleftrightarrow> m \<in> set (n # ns)" for m
    using set_tripped_names [OF inv] s by (metis mem_Collect_eq set_sort)
  have "sorted (n # ns)" using s by (metis sorted_sort)
  then have "\<forall>m \<in> set (n # ns). n \<le> m" by simp
  with in_iff name show ?thesis by simp
qed

subsection \<open>Runs of the point\<close>

text \<open>The calls the daemon makes, as steps of a labelled relation: each at its own instant,
  from any state.  Alarms are observations of the caller and are not part of the state.\<close>

datatype fc_op =
    OpRegister string Class
  | OpTrip string string
  | OpClear string QuorumProof
  | OpAutoClear string

inductive fc_step ::
  "(bytes \<Rightarrow> bytes) \<Rightarrow> (bytes \<Rightarrow> bytes \<Rightarrow> bytes \<Rightarrow> bool) \<Rightarrow> registry \<times> FailClosed \<Rightarrow> time \<times> fc_op
     \<Rightarrow> registry \<times> FailClosed \<Rightarrow> bool"
  for sha edv where
  register: "fc_Register f n k = Inr f' \<Longrightarrow> fc_step sha edv (r, f) (now, OpRegister n k) (r, f')"
| register_refused: "fc_Register f n k = Inl e \<Longrightarrow> fc_step sha edv (r, f) (now, OpRegister n k) (r, f)"
| trip: "fc_Trip sha r f n d now = (r', f', al) \<Longrightarrow> fc_step sha edv (r, f) (now, OpTrip n d) (r', f')"
| clear: "fc_Clear sha edv r f n p now = (r', f', al, res) \<Longrightarrow>
    fc_step sha edv (r, f) (now, OpClear n p) (r', f')"
| autoclear: "fc_AutoClear sha r f n now = (r', f', al, res) \<Longrightarrow>
    fc_step sha edv (r, f) (now, OpAutoClear n) (r', f')"

inductive_cases fc_stepE: "fc_step sha edv (r, f) (now, op) s'"

inductive fc_steps ::
  "(bytes \<Rightarrow> bytes) \<Rightarrow> (bytes \<Rightarrow> bytes \<Rightarrow> bytes \<Rightarrow> bool) \<Rightarrow> registry \<times> FailClosed \<Rightarrow> (time \<times> fc_op) list
     \<Rightarrow> registry \<times> FailClosed \<Rightarrow> bool"
  for sha edv where
  fc_refl: "fc_steps sha edv s [] s"
| fc_trans: "fc_step sha edv s x t \<Longrightarrow> fc_steps sha edv t xs u \<Longrightarrow> fc_steps sha edv s (x # xs) u"

text \<open>A governed clear of \<open>n\<close>: the operation, its verified quorum and the raised floor.\<close>

definition governed_clear ::
  "(bytes \<Rightarrow> bytes \<Rightarrow> bytes \<Rightarrow> bool) \<Rightarrow> FailClosed \<Rightarrow> string \<Rightarrow> time \<times> fc_op \<Rightarrow> bool" where
  "governed_clear edv f n x =
     (case snd x of
        OpClear m p \<Rightarrow> m = n \<and>
          (case fc_verifier f of Some qv \<Rightarrow> quorum_verify edv qv (fst x) n p | None \<Rightarrow> False)
      | _ \<Rightarrow> False)"

definition is_classW :: "FailClosed \<Rightarrow> string \<Rightarrow> bool" where
  "is_classW f n \<longleftrightarrow> (\<exists>c. map_of (fc_conds f) n = Some c \<and> cd_Class c = ClassW)"

definition fc_floor :: "FailClosed \<Rightarrow> string \<Rightarrow> int option" where
  "fc_floor f n = (case fc_state f of None \<Rightarrow> None | Some qs \<Rightarrow> qs_floor qs n)"

lemma fc_clear_cases:
  assumes "fc_Clear sha edv r f n p now = (r', f', al, res)"
  obtains (refused) "res \<noteq> None" and "fc_conds f' = fc_conds f"
      and "fc_verifier f' = fc_verifier f" and "r' = r" and "fc_floor f' = fc_floor f"
  | (operator) c where "res = None" and "map_of (fc_conds f) n = Some c" and "cd_Tripped c"
      and "cd_Class c \<noteq> ClassW"
      and "fc_clearLocked sha r f c n clearSourceManual now = (r', f', al)"
  | (quorum) c qv qs qs' where "res = None" and "map_of (fc_conds f) n = Some c" and "cd_Tripped c"
      and "cd_Class c = ClassW" and "fc_verifier f = Some qv" and "quorum_verify edv qv now n p"
      and "fc_state f = Some qs" and "Consume_floor qs n (unix (Expiry p)) = (Inr True, qs')"
      and "fc_clearLocked sha r (f\<lparr>fc_state := Some qs'\<rparr>) c n clearSourceManual now = (r', f', al)"
proof -
  have frame: "fc_floor (f\<lparr>fc_state := Some qs'\<rparr>) = fc_floor f"
    if "fc_state f = Some qs" "Consume_floor qs n e = (x, qs')" "x \<noteq> Inr True" for qs e x qs'
    using that qfile.consume_frame by (fastforce simp: fc_floor_def fun_eq_iff)
  show ?thesis
  proof (cases "map_of (fc_conds f) n")
    case None
    with assms show ?thesis by (intro refused) (auto simp: fc_Clear_def)
  next
    case (Some c)
    consider (idle) "\<not> cd_Tripped c" | (plain) "cd_Tripped c" "cd_Class c \<noteq> ClassW"
      | (noverifier) "cd_Tripped c" "cd_Class c = ClassW" "fc_verifier f = None"
      | (rejected) qv where "cd_Tripped c" "cd_Class c = ClassW" "fc_verifier f = Some qv"
          "\<not> quorum_verify edv qv now n p"
      | (nostate) qv where "cd_Tripped c" "cd_Class c = ClassW" "fc_verifier f = Some qv"
          "quorum_verify edv qv now n p" "fc_state f = None"
      | (store) qv qs x qs' where "cd_Tripped c" "cd_Class c = ClassW" "fc_verifier f = Some qv"
          "quorum_verify edv qv now n p" "fc_state f = Some qs"
          "Consume_floor qs n (unix (Expiry p)) = (x, qs')"
      by (metis option.exhaust surj_pair)
    then show ?thesis
    proof cases
      case plain
      with Some assms show ?thesis
        by (intro operator) (auto simp: fc_Clear_def Let_def split: prod.splits)
    next
      case store
      show ?thesis
      proof (cases "x = Inr True")
        case True
        with store Some assms show ?thesis
          by (intro quorum) (auto simp: fc_Clear_def Let_def split: prod.splits)
      next
        case False
        with frame store have "fc_floor (f\<lparr>fc_state := Some qs'\<rparr>) = fc_floor f" by blast
        with False store Some assms show ?thesis
          by (intro refused) (auto simp: fc_Clear_def split: sum.splits bool.splits)
      qed
    qed (use Some assms in \<open>auto simp: fc_Clear_def intro!: refused\<close>)
  qed
qed

text \<open>What a step keeps of the conditions, the verifier and the floors, whichever it is.\<close>

definition fc_keeps ::
  "FailClosed \<Rightarrow> FailClosed \<Rightarrow> (string \<Rightarrow> bool) \<Rightarrow> bool" where
  "fc_keeps f f' exempt \<longleftrightarrow> fc_verifier f' = fc_verifier f \<and>
     (\<forall>n. is_classW f n \<longrightarrow> is_classW f' n) \<and>
     (\<forall>n. is_classW f n \<and> is_tripped f n \<and> \<not> exempt n \<longrightarrow> is_tripped f' n) \<and>
     (\<forall>n e. fc_floor f n = Some e \<longrightarrow> (\<exists>e'. fc_floor f' n = Some e' \<and> e \<le> e'))"

lemma fc_keeps_refl: "fc_keeps f f exempt"
  by (simp add: fc_keeps_def)

lemma fc_keeps_conds:
  assumes "fc_conds f' = put m c (fc_conds f)" "fc_verifier f' = fc_verifier f" "fc_floor f' = fc_floor f"
    and "is_classW f m \<longrightarrow> cd_Class c = ClassW"
    and "is_classW f m \<and> is_tripped f m \<and> \<not> exempt m \<longrightarrow> cd_Tripped c"
  shows "fc_keeps f f' exempt"
  using assms by (auto simp: fc_keeps_def is_classW_def is_tripped_def)

lemma fc_keeps_trans:
  "fc_keeps f g exempt \<Longrightarrow> fc_keeps g h exempt' \<Longrightarrow> fc_keeps f h (\<lambda>n. exempt n \<or> exempt' n)"
  by (fastforce simp: fc_keeps_def)

lemma fc_floor_conds [simp]: "fc_floor (f\<lparr>fc_conds := m\<rparr>) = fc_floor f"
  by (simp add: fc_floor_def fun_eq_iff)

lemma fc_Register_keeps: "fc_Register f m k = Inr f' \<Longrightarrow> fc_keeps f f' exempt"
  by (auto simp: fc_Register_def is_classW_def split: option.splits if_splits
      intro: fc_keeps_refl fc_keeps_conds)

lemma fc_Trip_keeps:
  assumes "fc_Trip sha r f m d now = (r', f', al)"
  shows "fc_keeps f f' exempt"
proof (cases "f' = f")
  case True
  then show ?thesis by (simp add: fc_keeps_refl)
next
  case False
  with assms show ?thesis
    by (auto simp: fc_Trip_def Let_def is_classW_def split: option.splits if_splits prod.splits
        intro!: fc_keeps_conds)
qed

lemma fc_clearLocked_keeps:
  assumes "fc_clearLocked sha r f c m src now = (r', f', al)" and "map_of (fc_conds f) m = Some c"
    and "cd_Class c = ClassW \<Longrightarrow> exempt m"
  shows "fc_keeps f f' exempt"
  using assms fc_clearLocked_state [OF assms(1)]
  by (intro fc_keeps_conds) (auto simp: is_classW_def)

lemma fc_floor_raise:
  assumes "fc_state f = Some qs" and "Consume_floor qs m e = (Inr True, qs')"
  shows "fc_keeps f (f\<lparr>fc_state := Some qs'\<rparr>) exempt"
    and "fc_floor (f\<lparr>fc_state := Some qs'\<rparr>) m = Some e"
    and "\<forall>g. fc_floor f m = Some g \<longrightarrow> g < e"
  using assms qfile.consume_raises [OF assms(2)]
  by (auto simp: fc_keeps_def fc_floor_def is_classW_def is_tripped_def intro: less_imp_le)

lemma fc_Clear_keeps:
  assumes "fc_Clear sha edv r f m p now = (r', f', al, res)"
  shows "fc_keeps f f' (\<lambda>n. governed_clear edv f n (now, OpClear m p))"
  using assms
proof (cases rule: fc_clear_cases)
  case refused
  then show ?thesis by (simp add: fc_keeps_def is_classW_def is_tripped_def)
next
  case (operator c)
  then show ?thesis by (intro fc_clearLocked_keeps) auto
next
  case (quorum c qv qs qs')
  let ?f = "f\<lparr>fc_state := Some qs'\<rparr>"
  let ?g = "\<lambda>n. governed_clear edv f n (now, OpClear m p)"
  have "fc_keeps f ?f ?g" using quorum by (intro fc_floor_raise)
  moreover have "fc_keeps ?f f' ?g"
    using quorum by (intro fc_clearLocked_keeps) (auto simp: governed_clear_def)
  ultimately show ?thesis using fc_keeps_trans [of f ?f ?g f' ?g] by simp
qed

lemma fc_AutoClear_keeps:
  assumes "fc_AutoClear sha r f m now = (r', f', al, res)"
  shows "fc_keeps f f' exempt"
proof (cases "f' = f")
  case True
  then show ?thesis by (simp add: fc_keeps_refl)
next
  case False
  with assms obtain c where "map_of (fc_conds f) m = Some c" "cd_Class c \<noteq> ClassW"
    "fc_clearLocked sha r f c m clearSourceAuto now = (r', f', al)"
    by (auto simp: fc_AutoClear_def Let_def split: option.splits if_splits prod.splits)
  then show ?thesis by (intro fc_clearLocked_keeps) auto
qed

lemma fc_step_keeps:
  assumes "fc_step sha edv s x t"
  shows "fc_keeps (snd s) (snd t) (\<lambda>n. governed_clear edv (snd s) n x)"
  using assms
  by (cases rule: fc_step.cases)
    (auto intro: fc_keeps_refl fc_Register_keeps fc_Trip_keeps fc_Clear_keeps fc_AutoClear_keeps)

lemma governed_clear_verifier:
  "fc_verifier f' = fc_verifier f \<Longrightarrow> governed_clear edv f' n x = governed_clear edv f n x"
  by (simp add: governed_clear_def split: fc_op.splits)

lemma fc_steps_keeps:
  assumes "fc_steps sha edv s xs t"
  shows "fc_keeps (snd s) (snd t) (\<lambda>n. \<exists>x \<in> set xs. governed_clear edv (snd s) n x)"
  using assms
proof (induction rule: fc_steps.induct)
  case (fc_refl s)
  then show ?case by (simp add: fc_keeps_refl)
next
  case (fc_trans s x t xs u)
  from fc_step_keeps [OF fc_trans.hyps(1)] have st: "fc_keeps (snd s) (snd t) (\<lambda>n. governed_clear edv (snd s) n x)" .
  then have "governed_clear edv (snd t) n y = governed_clear edv (snd s) n y" for n y
    by (intro governed_clear_verifier) (simp add: fc_keeps_def)
  with fc_keeps_trans [OF st fc_trans.IH] show ?case by simp
qed

subsection \<open>Properties\<close>

text \<open>the gate of the fail-closed point refuses if and only if some condition is
  tripped, and the reason it gives is the tripped condition that comes first in
  lexicographic order.\<close>

lemma gate_refuses_iff_tripped:
  assumes "fc_inv f"
  shows "(fc_Gate f = None \<longleftrightarrow> (\<forall>n. \<not> is_tripped f n)) \<and>
    (\<forall>ref. fc_Gate f = Some ref \<longrightarrow>
       is_tripped f (rf_Reason ref) \<and> (\<forall>n. is_tripped f n \<longrightarrow> rf_Reason ref \<le> n))"
  using fc_Gate_None_iff [OF assms] fc_Gate_least [OF assms] by blast

definition fc_ex :: FailClosed where
  "fc_ex = \<lparr>fc_cellID = ''cell-a'', fc_salt = zeros 16, fc_conds =
     [(''opa-timeout'', \<lparr>cd_Name = ''opa-timeout'', cd_Class = ClassI, cd_Tripped = True,
         cd_Since = 5, cd_Detail = ''down''\<rparr>),
      (''clock-skew'', \<lparr>cd_Name = ''clock-skew'', cd_Class = ClassW, cd_Tripped = True,
         cd_Since = 7, cd_Detail = []\<rparr>)],
     fc_verifier = Some \<lparr>qv_cell = ''cell-a'', qv_keys = [(''k1'', ''p1''), (''k2'', ''p2'')],
         qv_k = 2, qv_maxTTL = 300 * second\<rparr>,
     fc_state = Some \<lparr>qs_file = [], qs_env = []\<rparr>\<rparr>"

text \<open>C9: a tripped class W condition stays tripped, and stays class W, through every
  sequence of registrations, trips, operator clears and automatic clears; the only steps
  that can lift it are clears of that very condition carrying a proof the configured
  quorum verifier accepts at that instant.\<close>

theorem classW_latch:
  assumes "fc_steps sha edv (r, f) ops (r', f')"
    and "is_classW f n" and "is_tripped f n"
    and "\<forall>x \<in> set ops. \<not> governed_clear edv f n x"
  shows "is_tripped f' n \<and> is_classW f' n"
  using fc_steps_keeps [OF assms(1)] assms(2-4) by (auto simp: fc_keeps_def)

definition reg_ex :: registry where
  "reg_ex = \<lparr>rg_log = [], rg_journal = None, rg_engaged = False, rg_clock = 10 * second, rg_env = []\<rparr>"

lemma fc_ex_autoclear_W:
  "fc_AutoClear sha reg_ex fc_ex ''clock-skew'' now = (reg_ex, fc_ex, [], Some ErrAutoClearRefusedClassW)"
  by (simp add: fc_AutoClear_def fc_ex_def)

theorem classW_latch_witness:
  "is_tripped fc_ex ''clock-skew'' \<and> is_classW fc_ex ''clock-skew''"
proof (rule classW_latch)
  show "fc_steps (\<lambda>b. b) (\<lambda>p m s. True) (reg_ex, fc_ex) [(9, OpAutoClear ''clock-skew'')] (reg_ex, fc_ex)"
    by (rule fc_trans [OF autoclear [OF fc_ex_autoclear_W] fc_refl])
qed (simp_all add: is_tripped_def is_classW_def governed_clear_def fc_ex_def)

text \<open>once a class W condition has been lifted with a proof, no later clear of that
  condition succeeds with a proof whose expiry is not strictly greater, whatever happened
  in between (new trips, clears, automatic clears).\<close>

lemma classW_proof_not_replayed:
  assumes first: "fc_Clear sha edv r f n p now = (r1, f1, al, None)"
    and w: "is_classW f n"
    and run: "fc_steps sha edv (r1, f1) ops (r2, f2)"
    and again: "fc_Clear sha edv r2 f2 n p' now' = (r3, f3, al', res)"
    and older: "unix (Expiry p') \<le> unix (Expiry p)"
  shows "res \<noteq> None"
proof
  assume ok: "res = None"
  from first w obtain c qv qs qs' where
    q: "fc_state f = Some qs" "Consume_floor qs n (unix (Expiry p)) = (Inr True, qs')"
      "map_of (fc_conds f) n = Some c" "cd_Class c = ClassW"
      "fc_clearLocked sha r (f\<lparr>fc_state := Some qs'\<rparr>) c n clearSourceManual now = (r1, f1, al)"
    by (cases rule: fc_clear_cases) (auto simp: is_classW_def)
  have "fc_floor f1 n = Some (unix (Expiry p))"
    using fc_clearLocked_state [OF q(5)] fc_floor_raise(2) [OF q(1,2)] by simp
  moreover have w1: "is_classW f1 n"
    using fc_Clear_keeps [OF first] w by (simp add: fc_keeps_def)
  ultimately obtain e where e: "fc_floor f2 n = Some e" "unix (Expiry p) \<le> e"
    and w2: "is_classW f2 n"
    using fc_steps_keeps [OF run] unfolding fc_keeps_def snd_conv by blast
  from again ok w2 obtain qs2 qs3 where
    "fc_state f2 = Some qs2" "Consume_floor qs2 n (unix (Expiry p')) = (Inr True, qs3)"
    by (cases rule: fc_clear_cases) (auto simp: is_classW_def)
  then have "e < unix (Expiry p')" using fc_floor_raise(3) e(1) by blast
  with e(2) older show False by simp
qed

end
