(* ===== verification/Quota_Ledger.thy ===== *)
theory Quota_Ledger
  imports Registry Token
begin

text \<open>
  Quota passports at execution time (\<open>src/src/pep/quota.go\<close>): the counter of one passport
  and the bounded ledger of live counters.  Volumes and windows are 64-bit words and
  instants are Unix seconds, as in the code; \<open>consumed\<close> wraps like any \<open>uint64\<close>.

  The Go ledger shares each counter by pointer with its terminator; the model reaches a
  counter through the ledger, which is how the listener reaches it (\<open>Counter\<close>, then
  \<open>Consume\<close>).
\<close>

subsection \<open>The counter of a passport\<close>

definition ReasonQuotaExceeded :: string where "ReasonQuotaExceeded = ''quota-exceeded''"
definition ReasonPassportExpired :: string where "ReasonPassportExpired = ''passport-expired''"
definition TripReasonQuotaSaturated :: string where "TripReasonQuotaSaturated = ''quota-ledger-saturated''"

datatype quota_error =
    ErrQuotaExceeded | ErrPassportExpired | ErrPassportClosed | ErrPassportDuplicate
  | ErrLedgerSaturated | ErrQuotaVectorMissing | ErrQuotaVectorInvalid

record PassportCounter =
  pc_jti :: bytes
  pc_resource :: string
  pc_operation :: string
  pc_volumeMax :: u64
  pc_windowS :: u64
  pc_windowFrom :: int
  pc_remaining :: u64
  pc_exp :: int
  pc_consumed :: u64
  pc_closed :: bool

text \<open>\<open>Consume\<close> reports the refusal and, when it cuts the session, the reason of the cut.\<close>

definition pc_recharge :: "PassportCounter \<Rightarrow> int \<Rightarrow> PassportCounter" where
  "pc_recharge c now =
     (let elapsed = wrap64 (now - pc_windowFrom c)
      in if elapsed \<ge> 0 \<and> word_of_int elapsed \<ge> pc_windowS c
         then c\<lparr>pc_windowFrom := now, pc_remaining := pc_volumeMax c\<rparr> else c)"

definition pc_Consume ::
  "PassportCounter \<Rightarrow> int \<Rightarrow> u64 \<Rightarrow> PassportCounter \<times> quota_error option \<times> string option" where
  "pc_Consume c now n =
     (if pc_closed c then (c, Some ErrPassportClosed, None)
      else if now > pc_exp c
      then (c\<lparr>pc_closed := True\<rparr>, Some ErrPassportExpired, Some ReasonPassportExpired)
      else let c' = pc_recharge c now
           in if n > pc_remaining c'
              then (c'\<lparr>pc_closed := True\<rparr>, Some ErrQuotaExceeded, Some ReasonQuotaExceeded)
              else (c'\<lparr>pc_remaining := pc_remaining c' - n, pc_consumed := pc_consumed c' + n\<rparr>, None, None))"

subsection \<open>The ledger\<close>

record PassportSnapshot =
  ps_JTI :: bytes
  ps_Resource :: string
  ps_Operation :: string
  ps_Consumed :: u64
  ps_Closed :: bool
  ps_Exp :: int

record QuotaLedger =
  ql_max :: int
  ql_counters :: "(bytes, PassportCounter) gomap"
  ql_cellID :: string
  ql_salt :: bytes
  ql_tripped :: bool
  ql_evicted :: "PassportSnapshot list"

definition NewQuotaLedger :: "int \<Rightarrow> string \<Rightarrow> bytes \<Rightarrow> QuotaLedger option" where
  "NewQuotaLedger mx cellID salt =
     (if mx \<le> 0 then None else if cellID = [] then None else if length salt < 16 then None
      else Some \<lparr>ql_max = mx, ql_counters = [], ql_cellID = cellID, ql_salt = salt,
                 ql_tripped = False, ql_evicted = []\<rparr>)"

definition snapshot_of :: "PassportCounter \<Rightarrow> bool \<Rightarrow> PassportSnapshot" where
  "snapshot_of c closed = \<lparr>ps_JTI = pc_jti c, ps_Resource = pc_resource c, ps_Operation = pc_operation c,
     ps_Consumed = pc_consumed c, ps_Closed = closed, ps_Exp = pc_exp c\<rparr>"

text \<open>The loop of \<open>purgeLocked\<close>: an expired counter leaves its final snapshot if there is
  room for it, and is deleted in any case.\<close>

fun purge_loop ::
  "int \<Rightarrow> int \<Rightarrow> (bytes, PassportCounter) gomap \<Rightarrow> PassportSnapshot list
     \<Rightarrow> (bytes, PassportCounter) gomap \<times> PassportSnapshot list" where
  "purge_loop mx now [] ev = ([], ev)"
| "purge_loop mx now ((j, c) # cs) ev =
     (if now > pc_exp c
      then purge_loop mx now cs (if int (length ev) < mx then ev @ [snapshot_of c True] else ev)
      else let (cs', ev') = purge_loop mx now cs ev in ((j, c) # cs', ev'))"

definition ql_purge :: "QuotaLedger \<Rightarrow> int \<Rightarrow> QuotaLedger" where
  "ql_purge l now =
     (let (cs, ev) = purge_loop (ql_max l) now (ql_counters l) (ql_evicted l)
      in l\<lparr>ql_counters := cs, ql_evicted := ev\<rparr>)"

definition ql_trip :: "QuotaLedger \<Rightarrow> QuotaLedger \<times> string list" where
  "ql_trip l = (if ql_tripped l then (l, []) else (l\<lparr>ql_tripped := True\<rparr>, [TripReasonQuotaSaturated]))"

definition ql_Open :: "QuotaLedger \<Rightarrow> int \<Rightarrow> Token option \<Rightarrow> QuotaLedger \<times> quota_error option \<times> string list" where
  "ql_Open l0 now tok =
     (case tok of None \<Rightarrow> (l0, Some ErrQuotaVectorMissing, [])
      | Some t \<Rightarrow>
        (case TokQuota t of None \<Rightarrow> (l0, Some ErrQuotaVectorMissing, [])
         | Some q \<Rightarrow>
           if q_WindowS q = 0 then (l0, Some ErrQuotaVectorInvalid, [])
           else let l = ql_purge l0 now
             in if map_of (ql_counters l) (JTI t) \<noteq> None then (l, Some ErrPassportDuplicate, [])
                else if int (length (ql_counters l)) = ql_max l
                then let (l', al) = ql_trip l in (l', Some ErrLedgerSaturated, al)
                else (l\<lparr>ql_counters := put (JTI t)
                        \<lparr>pc_jti = JTI t, pc_resource = q_Resource q, pc_operation = q_Operation q,
                          pc_volumeMax = q_VolumeMax q, pc_windowS = q_WindowS q, pc_windowFrom = now,
                          pc_remaining = q_VolumeMax q, pc_exp = Exp t, pc_consumed = 0,
                          pc_closed = False\<rparr> (ql_counters l)\<rparr>, None, [])))"

definition ql_Exhausted :: "QuotaLedger \<Rightarrow> bytes \<Rightarrow> bool" where
  "ql_Exhausted l j = (case map_of (ql_counters l) j of None \<Rightarrow> False | Some c \<Rightarrow> pc_closed c)"

definition decisionLeafRecord :: "bytes \<Rightarrow> bool \<Rightarrow> string \<Rightarrow> bytes" where
  "decisionLeafRecord jti allow reason =
     ''TBPD1'' @ jti @ [byte (if allow then 1 else 0), byte (length reason)] @ reason"

definition writeCutLeaf ::
  "(bytes \<Rightarrow> bytes) \<Rightarrow> registry \<Rightarrow> QuotaLedger \<Rightarrow> bytes \<Rightarrow> string \<Rightarrow> time \<Rightarrow> registry \<times> string list" where
  "writeCutLeaf sha r l jti reason now =
     (case AppendLeaf sha r KindDecision (ql_cellID l) (ql_salt l)
             (decisionLeafRecord jti False reason) (unix_nano now) of
        (r', Inl e) \<Rightarrow> (r', [ReasonLeafWriteFailed])
      | (r', Inr i) \<Rightarrow> (r', []))"

text \<open>\<open>Counter\<close> followed by \<open>Consume\<close>, as the listener calls them: an unknown passport is
  \<open>None\<close>; a cut writes its leaf before the session is told.\<close>

definition ql_Consume ::
  "(bytes \<Rightarrow> bytes) \<Rightarrow> registry \<Rightarrow> QuotaLedger \<Rightarrow> bytes \<Rightarrow> u64 \<Rightarrow> time
     \<Rightarrow> registry \<times> QuotaLedger \<times> quota_error option option \<times> string list" where
  "ql_Consume sha r l jti n now =
     (case map_of (ql_counters l) jti of
        None \<Rightarrow> (r, l, None, [])
      | Some c \<Rightarrow>
          let (c', err, ct) = pc_Consume c (unix now) n;
              (r', al) = (case ct of None \<Rightarrow> (r, []) | Some reason \<Rightarrow> writeCutLeaf sha r l (pc_jti c) reason now)
          in (r', l\<lparr>ql_counters := put jti c' (ql_counters l)\<rparr>, Some err, al))"

definition ql_Snapshot :: "QuotaLedger \<Rightarrow> int \<Rightarrow> PassportSnapshot list \<times> QuotaLedger" where
  "ql_Snapshot l0 now =
     (let l = ql_purge l0 now;
          live = map (\<lambda>(j, c). snapshot_of c (pc_closed c)) (ql_counters l)
      in (sort_key ps_JTI (live @ ql_evicted l), l\<lparr>ql_evicted := []\<rparr>))"

subsection \<open>The rate a passport can let through\<close>

text \<open>A sequence of quanta presented to one counter, each at its instant; the second
  component is the volume accepted, counted without wrap-around.\<close>

primrec pc_run :: "PassportCounter \<Rightarrow> (int \<times> u64) list \<Rightarrow> PassportCounter \<times> int" where
  "pc_run c [] = (c, 0)"
| "pc_run c (x # xs) =
     (let (c', err, ct) = pc_Consume c (fst x) (snd x); (c'', t) = pc_run c' xs
      in (c'', (if err = None then uint (snd x) else 0) + t))"

definition pc_ok :: "PassportCounter \<Rightarrow> bool" where
  "pc_ok c \<longleftrightarrow> pc_remaining c \<le> pc_volumeMax c \<and> 0 < uint (pc_windowS c) \<and>
     0 \<le> pc_windowFrom c \<and> pc_windowFrom c < 2 ^ 63"

lemma elapsed_ge_window:
  assumes "0 \<le> e" and "e < 2 ^ 63"
  shows "word_of_int e \<ge> (w :: u64) \<longleftrightarrow> uint w \<le> e"
  using assms by (simp add: word_le_def uint_word_of_int)

lemma pc_recharge_cases:
  assumes "pc_ok c" and "0 \<le> now" and "now < 2 ^ 63"
  obtains (same) "pc_recharge c now = c" "now < pc_windowFrom c + uint (pc_windowS c)"
  | (fresh) "pc_recharge c now = c\<lparr>pc_windowFrom := now, pc_remaining := pc_volumeMax c\<rparr>"
      "pc_windowFrom c + uint (pc_windowS c) \<le> now"
proof -
  have e: "wrap64 (now - pc_windowFrom c) = now - pc_windowFrom c"
    using assms by (intro wrap64_id) (auto simp: int64_def pc_ok_def)
  have "pc_recharge c now = (if uint (pc_windowS c) \<le> now - pc_windowFrom c
      then c\<lparr>pc_windowFrom := now, pc_remaining := pc_volumeMax c\<rparr> else c)"
    using assms elapsed_ge_window [of "now - pc_windowFrom c" "pc_windowS c"]
    by (auto simp: pc_recharge_def e pc_ok_def)
  then show thesis using same fresh by (auto split: if_splits)
qed

lemma pc_recharge_ok: "pc_ok c \<Longrightarrow> 0 \<le> now \<Longrightarrow> now < 2 ^ 63 \<Longrightarrow> pc_ok (pc_recharge c now)"
  by (auto simp: pc_recharge_def pc_ok_def Let_def)

lemma pc_recharge_frame [simp]:
  "pc_volumeMax (pc_recharge c now) = pc_volumeMax c" "pc_windowS (pc_recharge c now) = pc_windowS c"
  "pc_exp (pc_recharge c now) = pc_exp c" "pc_closed (pc_recharge c now) = pc_closed c"
  "pc_consumed (pc_recharge c now) = pc_consumed c" "pc_jti (pc_recharge c now) = pc_jti c"
  by (simp_all add: pc_recharge_def Let_def)

text \<open>The most a counter may still accept up to the instant \<open>T\<close>.\<close>

definition pc_budget :: "PassportCounter \<Rightarrow> int \<Rightarrow> int" where
  "pc_budget c T = uint (pc_remaining c) +
     uint (pc_volumeMax c) * ((T - pc_windowFrom c) div uint (pc_windowS c))"

lemma pc_budget_recharge:
  assumes "pc_ok c" and "0 \<le> now" "now \<le> T" and "T < 2 ^ 63"
  shows "pc_budget (pc_recharge c now) T \<le> pc_budget c T"
proof -
  have n: "now < 2 ^ 63" using assms by simp
  show ?thesis
    using assms(1,2) n
  proof (cases rule: pc_recharge_cases)
    case same
    then show ?thesis by simp
  next
    case fresh
    let ?W = "uint (pc_windowS c)" and ?V = "uint (pc_volumeMax c)"
    have W: "0 < ?W" using assms(1) by (simp add: pc_ok_def)
    have "(T - now) div ?W + 1 = (T - now + ?W) div ?W" using W by (subst div_add_self2) auto
    also have "\<dots> \<le> (T - pc_windowFrom c) div ?W"
      using W fresh by (intro zdiv_mono1) auto
    finally have "?V * ((T - now) div ?W + 1) \<le> ?V * ((T - pc_windowFrom c) div ?W)"
      by (intro mult_left_mono) auto
    then have "?V + ?V * ((T - now) div ?W) \<le> ?V * ((T - pc_windowFrom c) div ?W)"
      by (simp add: distrib_left)
    moreover have "pc_budget (pc_recharge c now) T = ?V + ?V * ((T - now) div ?W)"
      by (simp add: pc_budget_def fresh)
    ultimately show ?thesis
      using uint_ge_0 [of "pc_remaining c"] unfolding pc_budget_def by linarith
  qed
qed

lemma pc_budget_nonneg: "pc_ok c \<Longrightarrow> pc_windowFrom c \<le> T \<Longrightarrow> 0 \<le> pc_budget c T"
  by (simp add: pc_budget_def pc_ok_def pos_imp_zdiv_nonneg_iff)

lemma pc_recharge_from: "pc_windowFrom c \<le> T \<Longrightarrow> now \<le> T \<Longrightarrow> pc_windowFrom (pc_recharge c now) \<le> T"
  by (simp add: pc_recharge_def Let_def)

lemma pc_Consume_cases:
  assumes "pc_Consume c now n = (c', err, ct)"
  obtains (closed) "pc_closed c" "c' = c" "err = Some ErrPassportClosed" "ct = None"
  | (expired) "\<not> pc_closed c" "pc_exp c < now" "c' = c\<lparr>pc_closed := True\<rparr>"
      "err = Some ErrPassportExpired" "ct = Some ReasonPassportExpired"
  | (over) "\<not> pc_closed c" "now \<le> pc_exp c" "pc_remaining (pc_recharge c now) < n"
      "c' = (pc_recharge c now)\<lparr>pc_closed := True\<rparr>"
      "err = Some ErrQuotaExceeded" "ct = Some ReasonQuotaExceeded"
  | (accept) "\<not> pc_closed c" "now \<le> pc_exp c" "n \<le> pc_remaining (pc_recharge c now)"
      "c' = (pc_recharge c now)\<lparr>pc_remaining := pc_remaining (pc_recharge c now) - n,
              pc_consumed := pc_consumed (pc_recharge c now) + n\<rparr>"
      "err = None" "ct = None"
proof (cases "pc_closed c")
  case True
  with assms show thesis by (intro closed) (simp_all add: pc_Consume_def)
next
  case open_: False
  show thesis
  proof (cases "pc_exp c < now")
    case True
    with open_ assms show thesis by (intro expired) (simp_all add: pc_Consume_def)
  next
    case fresh: False
    show thesis
    proof (cases "pc_remaining (pc_recharge c now) < n")
      case True
      with open_ fresh assms show thesis by (intro over) (simp_all add: pc_Consume_def Let_def)
    next
      case False
      with open_ fresh assms show thesis by (intro accept) (simp_all add: pc_Consume_def Let_def)
    qed
  qed
qed

lemma pc_Consume_budget:
  assumes "pc_ok c" and "0 \<le> now" "now \<le> T" and "T < 2 ^ 63" and "pc_windowFrom c \<le> T"
    and "pc_Consume c now n = (c', err, ct)"
  shows "pc_ok c' \<and> pc_windowFrom c' \<le> T \<and>
    (if err = None then uint n else 0) + pc_budget c' T \<le> pc_budget c T"
proof -
  let ?r = "pc_recharge c now"
  have r: "pc_ok ?r" "pc_windowFrom ?r \<le> T" "pc_budget ?r T \<le> pc_budget c T"
    using assms pc_recharge_ok pc_recharge_from pc_budget_recharge by auto
  from assms(6) show ?thesis
  proof (cases rule: pc_Consume_cases)
    case closed
    then show ?thesis using assms by simp
  next
    case expired
    then show ?thesis using assms by (simp add: pc_ok_def pc_budget_def)
  next
    case over
    then show ?thesis using r by (simp add: pc_ok_def pc_budget_def)
  next
    case accept
    have d: "uint (pc_remaining ?r - n) = uint (pc_remaining ?r) - uint n"
      using accept(3) uint_minus_simple_alt by blast
    have "uint (pc_remaining ?r) \<le> uint (pc_volumeMax c)"
      using r(1) by (simp add: pc_ok_def word_le_def)
    then have "uint (pc_remaining ?r - n) \<le> uint (pc_volumeMax c)"
      using d uint_ge_0 [of n] by linarith
    then have "pc_ok c'"
      using r(1) accept(4) by (simp add: pc_ok_def word_le_def)
    moreover have "uint n + pc_budget c' T = pc_budget ?r T"
      using accept d by (simp add: pc_budget_def)
    ultimately show ?thesis using accept r by auto
  qed
qed

lemma pc_run_budget:
  assumes "pc_ok c" and "\<forall>x \<in> set xs. 0 \<le> fst x \<and> fst x \<le> T" and "T < 2 ^ 63"
    and "pc_windowFrom c \<le> T"
  shows "snd (pc_run c xs) \<le> pc_budget c T"
  using assms
proof (induction xs arbitrary: c)
  case Nil
  then show ?case by (simp add: pc_budget_nonneg)
next
  case (Cons x xs)
  obtain c' err ct where st: "pc_Consume c (fst x) (snd x) = (c', err, ct)"
    by (metis prod_cases3)
  have b: "pc_ok c' \<and> pc_windowFrom c' \<le> T \<and>
    (if err = None then uint (snd x) else 0) + pc_budget c' T \<le> pc_budget c T"
    using Cons.prems st by (intro pc_Consume_budget) auto
  then have "snd (pc_run c' xs) \<le> pc_budget c' T"
    using Cons.IH Cons.prems by auto
  with b st show ?case by (simp add: case_prod_beta split: if_splits)
qed

lemma pc_run_closed:
  "pc_closed c \<Longrightarrow> pc_run c xs = (c, 0)"
  by (induction xs) (auto simp: pc_Consume_def)

text \<open>C27: a passport is a rate.  A counter opened at \<open>t0\<close> for a volume V per window of W
  seconds accepts, over any sequence of quanta presented up to the instant \<open>T\<close>, at most
  V * (1 + (T - t0) div W) units, whatever the sizes of the quanta, for every 64-bit W and V.\<close>

theorem passport_rate_bound:
  assumes "pc_windowFrom c = t0" and "pc_remaining c = pc_volumeMax c" and "0 < pc_windowS c"
    and "0 \<le> t0" and "t0 \<le> T" and "T < 2 ^ 63"
    and "\<forall>x \<in> set xs. 0 \<le> fst x \<and> fst x \<le> T"
  shows "snd (pc_run c xs) \<le>
    uint (pc_volumeMax c) * (1 + (T - t0) div uint (pc_windowS c))"
proof -
  have "pc_ok c" using assms by (simp add: pc_ok_def word_less_def)
  then have "snd (pc_run c xs) \<le> pc_budget c T"
    using assms by (intro pc_run_budget) auto
  then show ?thesis using assms by (simp add: pc_budget_def algebra_simps)
qed

definition counter_ex :: PassportCounter where
  "counter_ex = \<lparr>pc_jti = zeros 16, pc_resource = ''db'', pc_operation = ''read'', pc_volumeMax = 100,
     pc_windowS = 10, pc_windowFrom = 1000, pc_remaining = 100, pc_exp = 1060, pc_consumed = 0,
     pc_closed = False\<rparr>"

theorem passport_rate_bound_witness:
  "snd (pc_run counter_ex [(1001, 60), (1005, 40), (1012, 90)]) = 190 \<and>
   snd (pc_run counter_ex [(1001, 60), (1005, 40), (1012, 90)]) \<le> 100 * (1 + (1020 - 1000) div 10)"
proof -
  have "snd (pc_run counter_ex [(1001, 60), (1005, 40), (1012, 90)]) = 190"
    by (simp add: counter_ex_def pc_Consume_def pc_recharge_def wrap64_def Let_def)
  moreover have "snd (pc_run counter_ex [(1001, 60), (1005, 40), (1012, 90)]) \<le>
      uint (pc_volumeMax counter_ex) * (1 + (1020 - 1000) div uint (pc_windowS counter_ex))"
    by (rule passport_rate_bound) (auto simp: counter_ex_def)
  ultimately show ?thesis by (simp add: counter_ex_def)
qed

subsection \<open>The ledger stays bounded and never forgets a live counter\<close>

lemma purge_loop_counters: "fst (purge_loop mx now cs ev) = filter (\<lambda>e. now \<le> pc_exp (snd e)) cs"
  by (induction mx now cs ev rule: purge_loop.induct) (auto simp: Let_def case_prod_beta)

lemma purge_loop_evicted:
  "int (length ev) \<le> mx \<Longrightarrow> int (length (snd (purge_loop mx now cs ev))) \<le> mx"
  by (induction mx now cs ev rule: purge_loop.induct) (auto simp: Let_def case_prod_beta)

lemma ql_purge_counters:
  "ql_counters (ql_purge l now) = filter (\<lambda>e. now \<le> pc_exp (snd e)) (ql_counters l)"
  by (simp add: ql_purge_def case_prod_beta purge_loop_counters)

lemma ql_purge_frame [simp]: "ql_max (ql_purge l now) = ql_max l"
  by (simp add: ql_purge_def case_prod_beta)

definition ql_inv :: "QuotaLedger \<Rightarrow> bool" where
  "ql_inv l \<longleftrightarrow> wf_map (ql_counters l) \<and> int (length (ql_counters l)) \<le> ql_max l \<and>
     int (length (ql_evicted l)) \<le> ql_max l"

lemma ql_purge_inv: "ql_inv l \<Longrightarrow> ql_inv (ql_purge l now)"
proof -
  assume l: "ql_inv l"
  have "int (length (ql_evicted (ql_purge l now))) \<le> ql_max l"
    using l purge_loop_evicted by (simp add: ql_purge_def case_prod_beta ql_inv_def)
  moreover have "length (ql_counters (ql_purge l now)) \<le> length (ql_counters l)"
    by (simp add: ql_purge_counters)
  ultimately show ?thesis
    using l by (auto simp: ql_inv_def) (auto simp: ql_purge_counters)
qed

lemma ql_purge_lookup:
  "ql_inv l \<Longrightarrow> map_of (ql_counters (ql_purge l now)) j =
     (case map_of (ql_counters l) j of None \<Rightarrow> None | Some c \<Rightarrow> if now \<le> pc_exp c then Some c else None)"
  by (auto simp: ql_purge_counters lookup_filter ql_inv_def split: option.splits)

datatype ql_op = QOpen "Token option" | QConsume bytes u64 | QSnapshot

inductive ql_step ::
  "(bytes \<Rightarrow> bytes) \<Rightarrow> registry \<times> QuotaLedger \<Rightarrow> time \<times> ql_op \<Rightarrow> registry \<times> QuotaLedger \<Rightarrow> bool"
  for sha where
  qopen: "ql_Open l (unix now) tok = (l', err, al) \<Longrightarrow> ql_step sha (r, l) (now, QOpen tok) (r, l')"
| qconsume: "ql_Consume sha r l jti n now = (r', l', res, al) \<Longrightarrow>
    ql_step sha (r, l) (now, QConsume jti n) (r', l')"
| qsnapshot: "ql_Snapshot l (unix now) = (out, l') \<Longrightarrow> ql_step sha (r, l) (now, QSnapshot) (r, l')"

inductive ql_steps ::
  "(bytes \<Rightarrow> bytes) \<Rightarrow> registry \<times> QuotaLedger \<Rightarrow> (time \<times> ql_op) list \<Rightarrow> registry \<times> QuotaLedger \<Rightarrow> bool"
  for sha where
  ql_refl: "ql_steps sha s [] s"
| ql_trans: "ql_step sha s x t \<Longrightarrow> ql_steps sha t xs u \<Longrightarrow> ql_steps sha s (x # xs) u"

lemma ql_Open_cases:
  assumes "ql_Open l now tok = (l', err, al)"
  obtains (missing) "l' = l" "err \<noteq> None"
  | (refused) b where "l' = (ql_purge l now)\<lparr>ql_tripped := b\<rparr>" "err \<noteq> None"
  | (opened) t q c where "tok = Some t" "TokQuota t = Some q" "err = None"
      "map_of (ql_counters (ql_purge l now)) (JTI t) = None"
      "int (length (ql_counters (ql_purge l now))) \<noteq> ql_max l"
      "l' = (ql_purge l now)\<lparr>ql_counters := put (JTI t) c (ql_counters (ql_purge l now))\<rparr>"
  using assms
proof -
  let ?l = "ql_purge l now"
  consider (a) "tok = None \<or> (\<exists>t. tok = Some t \<and> (TokQuota t = None \<or> (\<exists>q. TokQuota t = Some q \<and> q_WindowS q = 0)))"
    | (b) t q where "tok = Some t" "TokQuota t = Some q" "q_WindowS q \<noteq> 0"
    by (cases tok; cases "TokQuota (the tok)") auto
  then show thesis
  proof cases
    case a
    with assms show thesis by (intro missing) (auto simp: ql_Open_def)
  next
    case b
    consider (dup) "map_of (ql_counters ?l) (JTI t) \<noteq> None"
      | (full) "map_of (ql_counters ?l) (JTI t) = None" "int (length (ql_counters ?l)) = ql_max ?l"
      | (room) "map_of (ql_counters ?l) (JTI t) = None" "int (length (ql_counters ?l)) \<noteq> ql_max ?l"
      by blast
    then show thesis
    proof cases
      case dup
      with b assms show thesis
        by (intro refused [of "ql_tripped ?l"]) (auto simp: ql_Open_def Let_def)
    next
      case full
      with b assms show thesis
        by (intro refused [of True]) (auto simp: ql_Open_def ql_trip_def Let_def split: if_splits)
    next
      case room
      with b assms show thesis
        by (intro opened [OF b(1,2)]) (auto simp: ql_Open_def Let_def)
    qed
  qed
qed

lemma ql_Open_inv: "ql_inv l \<Longrightarrow> ql_Open l now tok = (l', err, al) \<Longrightarrow> ql_inv l'"
proof -
  assume l: "ql_inv l" and op: "ql_Open l now tok = (l', err, al)"
  have p: "ql_inv (ql_purge l now)" by (rule ql_purge_inv [OF l])
  from op show ?thesis
    by (cases rule: ql_Open_cases) (use l p in \<open>auto simp: ql_inv_def length_put\<close>)
qed

lemma ql_Consume_counters:
  assumes "ql_Consume sha r l j n now = (r', l', res, al)"
  shows "(map_of (ql_counters l) j = None \<and> l' = l \<and> res = None) \<or>
    (\<exists>c c' err ct. map_of (ql_counters l) j = Some c \<and> pc_Consume c (unix now) n = (c', err, ct) \<and>
       l' = l\<lparr>ql_counters := put j c' (ql_counters l)\<rparr> \<and> res = Some err)"
  using assms by (auto simp: ql_Consume_def Let_def split: option.splits prod.splits)

lemma put_existing_length: "map_of m k \<noteq> None \<Longrightarrow> length (put k v m) = length m"
  by (auto simp: length_put) (metis map_of_eq_None_iff option.distinct(1))

lemma ql_Consume_inv:
  assumes "ql_inv l" and "ql_Consume sha r l j n now = (r', l', res, al)"
  shows "ql_inv l'"
  using ql_Consume_counters [OF assms(2)] assms(1)
  by (auto simp: ql_inv_def put_existing_length)

lemma ql_Snapshot_inv: "ql_inv l \<Longrightarrow> ql_Snapshot l now = (out, l') \<Longrightarrow> ql_inv l'"
  using ql_purge_inv [of l now] by (auto simp: ql_Snapshot_def Let_def ql_inv_def)

lemma ql_step_inv: "ql_step sha s x t \<Longrightarrow> ql_inv (snd s) \<Longrightarrow> ql_inv (snd t)"
  by (erule ql_step.cases) (auto intro: ql_Open_inv ql_Consume_inv ql_Snapshot_inv)

lemma ql_steps_inv: "ql_steps sha s xs t \<Longrightarrow> ql_inv (snd s) \<Longrightarrow> ql_inv (snd t)"
  by (induction rule: ql_steps.induct) (auto intro: ql_step_inv)

text \<open>A counter that is cut stays cut while it is kept, and it is kept until its expiry.\<close>

definition ql_cut :: "QuotaLedger \<Rightarrow> bytes \<Rightarrow> int \<Rightarrow> bool" where
  "ql_cut l j e \<longleftrightarrow> (\<exists>c. map_of (ql_counters l) j = Some c \<and> pc_closed c \<and> pc_exp c = e)"

lemma ql_purge_cut: "ql_inv l \<Longrightarrow> ql_cut l j e \<Longrightarrow> now \<le> e \<Longrightarrow> ql_cut (ql_purge l now) j e"
  by (auto simp: ql_cut_def ql_purge_lookup)

lemma ql_step_cut:
  assumes "ql_step sha s x t" and "ql_inv (snd s)" and "ql_cut (snd s) j e" and "unix (fst x) \<le> e"
  shows "ql_cut (snd t) j e"
  using assms(1)
proof (cases rule: ql_step.cases)
  case (qopen l now tok l' err al r)
  have p: "ql_cut (ql_purge l (unix now)) j e"
    using assms qopen by (intro ql_purge_cut) auto
  from qopen(4) show ?thesis
  proof (cases rule: ql_Open_cases)
    case missing
    with assms qopen show ?thesis by simp
  next
    case (refused b)
    with p qopen show ?thesis by (simp add: ql_cut_def)
  next
    case (opened t q c)
    then have "JTI t \<noteq> j" using p by (auto simp: ql_cut_def)
    with opened p qopen show ?thesis by (simp add: ql_cut_def)
  qed
next
  case (qconsume r l jti n now r' l' res al)
  from ql_Consume_counters [OF qconsume(4)] assms(3) qconsume show ?thesis
    by (auto simp: ql_cut_def elim!: pc_Consume_cases)
next
  case (qsnapshot l now out l' r)
  have "ql_cut (ql_purge l (unix now)) j e"
    using assms qsnapshot by (intro ql_purge_cut) auto
  with qsnapshot show ?thesis
    by (auto simp: ql_Snapshot_def Let_def ql_cut_def)
qed

lemma ql_steps_cut:
  assumes "ql_steps sha s xs t" and "ql_inv (snd s)" and "ql_cut (snd s) j e"
    and "\<forall>x \<in> set xs. unix (fst x) \<le> e"
  shows "ql_cut (snd t) j e"
  using assms by (induction rule: ql_steps.induct) (auto intro: ql_step_cut ql_step_inv)

lemma NewQuotaLedger_inv: "NewQuotaLedger mx cid salt = Some l \<Longrightarrow> ql_inv l \<and> ql_max l = mx"
  by (auto simp: NewQuotaLedger_def ql_inv_def split: if_splits)

lemma ql_step_max: "ql_step sha s x t \<Longrightarrow> ql_max (snd t) = ql_max (snd s)"
  by (erule ql_step.cases)
    (auto simp: ql_Snapshot_def Let_def elim!: ql_Open_cases dest!: ql_Consume_counters)

lemma ql_steps_max: "ql_steps sha s xs t \<Longrightarrow> ql_max (snd t) = ql_max (snd s)"
  by (induction rule: ql_steps.induct) (auto dest: ql_step_max)

text \<open>A refusal of a live counter closes it.\<close>

lemma ql_Consume_refusal_cuts:
  assumes "ql_Consume sha r l j n now = (r', l', Some (Some err), al)"
  shows "\<exists>e. ql_cut l' j e"
  using ql_Consume_counters [OF assms] by (auto simp: ql_cut_def elim!: pc_Consume_cases)

lemma ql_cut_Consume:
  assumes "ql_cut l j e"
  shows "\<exists>l'. ql_Consume sha r l j n now = (r, l', Some (Some ErrPassportClosed), [])"
  using assms by (auto simp: ql_cut_def ql_Consume_def pc_Consume_def)

lemma ql_cut_Open:
  assumes "ql_inv l" and "ql_cut l j e" and "now \<le> e" and "JTI t = j" and "TokQuota t = Some q"
    and "q_WindowS q \<noteq> 0"
  shows "fst (snd (ql_Open l now (Some t))) = Some ErrPassportDuplicate"
  using ql_purge_cut [OF assms(1-3)] assms(4-) by (auto simp: ql_Open_def Let_def ql_cut_def)

subsection \<open>Properties of the ledger\<close>

text \<open>the ledger is bounded: whatever sequence of openings, consumptions and exports runs
  against a fresh ledger, it never holds more live counters than its capacity, nor more
  evicted snapshots waiting for the exporter.\<close>

lemma ledger_bounded:
  assumes "NewQuotaLedger mx cid salt = Some l0" and "ql_steps sha (r0, l0) ops (r, l)"
  shows "int (length (ql_counters l)) \<le> mx \<and> int (length (ql_evicted l)) \<le> mx"
  using NewQuotaLedger_inv [OF assms(1)] ql_steps_inv [OF assms(2)] ql_steps_max [OF assms(2)]
  by (auto simp: ql_inv_def)

text \<open>no leak after the cut.  Once a quantum of a passport has been refused, then until the
  passport's expiry, and whatever else the ledger does in between, every further quantum is
  refused as closed, the validator's oracle reports the passport as exhausted, and a token
  with the same identifier cannot reopen it.\<close>

lemma cut_passport_stays_cut:
  assumes new: "NewQuotaLedger mx cid salt = Some l0" and run: "ql_steps sha (r0, l0) ops (r, l)"
    and refused: "ql_Consume sha r l j n now = (r1, l1, Some (Some err), al)"
    and live: "map_of (ql_counters l1) j = Some c"
    and after: "ql_steps sha (r1, l1) ops' (r2, l2)" "\<forall>x \<in> set ops'. unix (fst x) \<le> pc_exp c"
    and time: "now' \<le> pc_exp c"
  shows "ql_Exhausted l2 j \<and>
    (\<exists>l3. ql_Consume sha r2 l2 j n' t' = (r2, l3, Some (Some ErrPassportClosed), [])) \<and>
    (JTI t = j \<and> TokQuota t = Some q \<and> q_WindowS q \<noteq> 0 \<longrightarrow>
       fst (snd (ql_Open l2 now' (Some t))) = Some ErrPassportDuplicate)"
proof (intro conjI impI; (elim conjE)?)
  have "ql_inv l" using NewQuotaLedger_inv [OF new] ql_steps_inv [OF run] by simp
  then have i1: "ql_inv l1" by (rule ql_Consume_inv [OF _ refused])
  have c1: "ql_cut l1 j (pc_exp c)"
    using ql_Consume_refusal_cuts [OF refused] live by (auto simp: ql_cut_def)
  have i2: "ql_inv l2" using ql_steps_inv [OF after(1)] i1 by simp
  have c2: "ql_cut l2 j (pc_exp c)" using ql_steps_cut [OF after(1)] i1 c1 after(2) by simp
  show "ql_Exhausted l2 j" using c2 by (auto simp: ql_Exhausted_def ql_cut_def)
  show "\<exists>l3. ql_Consume sha r2 l2 j n' t' = (r2, l3, Some (Some ErrPassportClosed), [])"
    by (rule ql_cut_Consume [OF c2])
  show "JTI t = j \<Longrightarrow> TokQuota t = Some q \<Longrightarrow> q_WindowS q \<noteq> 0 \<Longrightarrow>
      fst (snd (ql_Open l2 now' (Some t))) = Some ErrPassportDuplicate"
    by (rule ql_cut_Open [OF i2 c2 time])
qed

end
