(* ===== verification/Validator.thy ===== *)
theory Validator
  imports Anti_Replay Fail_Closed Quota_Ledger
begin

text \<open>
  The token validator (\<open>src/src/pep/validator.go\<close>): possession (steps 1 to 5 of the schema),
  the decision chain, and the decision leaf, composed in \<open>ValidateAt\<close> over the state of the
  parts it consults: the fail-closed gate, the quota ledger, the replay cache and the registry.

  The caller's instant \<open>now\<close>, the instant \<open>cnow\<close> the replay cache reads from its own clock and
  the verified epoch are arguments of a call, as the code reads them from three sources.
\<close>

subsection \<open>State\<close>

record Request =
  rq_Action :: string
  rq_Resource :: string
  rq_Seal :: "bytes option"

record Decision =
  Allow :: bool
  Reason :: string
  DecToken :: "Token option"
  DecJTI :: bytes
  LeafWritten :: bool
  LeafErr :: "reg_error option"

record Validator =
  v_cellID :: string
  v_keyring :: "(bytes, bytes) gomap"
  v_policyID :: bytes
  v_salt :: bytes

record pep =
  pp_gate :: "FailClosed option"
  pp_quota :: "QuotaLedger option"
  pp_replay :: AntiReplay
  pp_reg :: registry

definition NewValidator ::
  "string \<Rightarrow> (bytes, bytes) gomap \<Rightarrow> bytes \<Rightarrow> bytes \<Rightarrow> registry option \<Rightarrow> AntiReplay option
     \<Rightarrow> FailClosed option \<Rightarrow> QuotaLedger option \<Rightarrow> (Validator \<times> pep) option" where
  "NewValidator cellID keyring policyID salt leaves antiReplay gate quota =
     (if cellID = [] then None
      else if length keyring = 0 then None
      else if length salt < 16 then None
      else case leaves of None \<Rightarrow> None
      | Some r \<Rightarrow> (case antiReplay of None \<Rightarrow> None
        | Some c \<Rightarrow> Some (\<lparr>v_cellID = cellID, v_keyring = keyring, v_policyID = policyID, v_salt = salt\<rparr>,
                         \<lparr>pp_gate = gate, pp_quota = quota, pp_replay = c, pp_reg = r\<rparr>)))"

definition KeyIDFromPublicKey :: "(bytes \<Rightarrow> bytes) \<Rightarrow> bytes \<Rightarrow> bytes" where
  "KeyIDFromPublicKey sha pub = take 16 (sha pub)"

subsection \<open>Possession of an authentic token\<close>

text \<open>A header is looked up under its \<open>int64\<close> label, then under its \<open>uint64\<close> label.\<close>

definition header :: "(cbor \<times> cbor) list \<Rightarrow> 64 word \<Rightarrow> (cbor \<Rightarrow> 'a option) \<Rightarrow> 'a option" where
  "header m label dec =
     (let try = \<lambda>k. (case map_of m k of None \<Rightarrow> None | Some v \<Rightarrow> dec v)
      in case try (CInt label) of Some x \<Rightarrow> Some x | None \<Rightarrow> try (CUint label))"

definition verifySignedToken ::
  "codec \<Rightarrow> (bytes, bytes) gomap \<Rightarrow> bytes \<Rightarrow> Token option \<times> string" where
  "verifySignedToken cd keyring wire =
     (if length wire > MaxTokenWireSize then (None, ReasonTokenTooLarge)
      else case dec_sign1 cd wire of None \<Rightarrow> (None, ReasonMalformed)
      | Some msg \<Rightarrow>
        if s1_unprotected msg > 0 then (None, ReasonBadHeaders)
        else case dec_bstr cd (s1_rawProtected msg) of None \<Rightarrow> (None, ReasonBadHeaders)
        | Some pb \<Rightarrow>
          if length pb = 0 then (None, ReasonBadHeaders)
          else case dec_map cd pb of None \<Rightarrow> (None, ReasonBadHeaders)
          | Some protected \<Rightarrow>
            if length protected > 2 then (None, ReasonBadHeaders)
            else case header protected 1 asInt of None \<Rightarrow> (None, ReasonBadHeaders)
            | Some alg \<Rightarrow>
              if alg \<noteq> alg_ed25519 cd then (None, ReasonBadAlg)
              else case header protected 4 bytesFromAny of None \<Rightarrow> (None, ReasonBadHeaders)
              | Some kid \<Rightarrow>
                if length kid \<noteq> 16 then (None, ReasonBadHeaders)
                else case decodePayload cd (s1_payload msg) of Inl reason \<Rightarrow> (None, reason)
                | Inr tok \<Rightarrow>
                  (case map_of keyring kid of None \<Rightarrow> (Some tok, ReasonUnknownKID)
                   | Some pub \<Rightarrow>
                     if \<not> key_ok cd pub then (Some tok, ReasonBadSignature)
                     else if \<not> sig_ok cd pub msg then (Some tok, ReasonBadSignature)
                     else (Some tok, [])))"

definition VerifyPossession :: "codec \<Rightarrow> Validator \<Rightarrow> bytes \<Rightarrow> Token option" where
  "VerifyPossession cd v wire =
     (let (tok, reason) = verifySignedToken cd (v_keyring v) wire
      in if reason \<noteq> [] then None else tok)"

definition tokJTIOrZero :: "Token option \<Rightarrow> bytes" where
  "tokJTIOrZero tok = (case tok of None \<Rightarrow> zeros 16 | Some t \<Rightarrow> JTI t)"

subsection \<open>The decision chain\<close>

definition deny :: "string \<Rightarrow> Token option \<Rightarrow> bytes \<Rightarrow> Decision" where
  "deny reason tok jti = \<lparr>Allow = False, Reason = reason, DecToken = tok, DecJTI = jti,
     LeafWritten = False, LeafErr = None\<rparr>"

text \<open>Steps 6 to 9 and the quota passport: the first reason to refuse, in the order of the code.\<close>

definition refusal :: "Validator \<Rightarrow> pep \<Rightarrow> Request \<Rightarrow> time \<Rightarrow> u64 option \<Rightarrow> Token \<Rightarrow> string option" where
  "refusal v s req now epoch tok =
     (if Iat tok > unix now then Some ReasonNotYetValid
      else if unix now > Exp tok then Some ReasonStaleToken
      else if (let ttl = wrap64 (Exp tok - Iat tok) in ttl < minTTLSec \<or> ttl > maxTTLSec)
      then Some ReasonTTLOutOfRange
      else if PolicyID tok \<noteq> v_policyID v then Some ReasonPolicyMismatch
      else if epoch = None then Some ReasonEpochUnavailable
      else if Epoch tok \<noteq> the epoch then Some ReasonEpochMismatch
      else if Action tok \<noteq> rq_Action req \<or> Resource tok \<noteq> rq_Resource req then Some ReasonScopeMismatch
      else if ObjectSeal tok \<noteq> None \<and> (rq_Seal req = None \<or> the (rq_Seal req) \<noteq> the (ObjectSeal tok))
      then Some ReasonSealMismatch
      else if TokQuota tok \<noteq> None \<and> pp_quota s = None then Some ReasonQuotaUnverified
      else if TokQuota tok \<noteq> None \<and> ql_Exhausted (the (pp_quota s)) (JTI tok) then Some ReasonQuotaExhausted
      else None)"

definition decide ::
  "codec \<Rightarrow> Validator \<Rightarrow> pep \<Rightarrow> bytes \<Rightarrow> Request \<Rightarrow> time \<Rightarrow> int \<Rightarrow> u64 option
     \<Rightarrow> Decision \<times> string list \<times> AntiReplay" where
  "decide cd v s wire req now cnow epoch =
     (case (case pp_gate s of None \<Rightarrow> None | Some f \<Rightarrow> fc_Gate f) of
        Some ref \<Rightarrow> (deny (rf_Reason ref) None (zeros 16), [], pp_replay s)
      | None \<Rightarrow>
        (case verifySignedToken cd (v_keyring v) wire of
           (tk, reason) \<Rightarrow>
             if reason \<noteq> [] then (deny reason tk (tokJTIOrZero tk), [], pp_replay s)
             else let tok = the tk
               in (case refusal v s req now epoch tok of
                     Some why \<Rightarrow> (deny why (Some tok) (JTI tok), [], pp_replay s)
                   | None \<Rightarrow>
                     (case CheckAndConsume (pp_replay s) cnow (JTI tok) (Exp tok) of
                        (ok, al, c) \<Rightarrow>
                          if \<not> ok then (deny ReasonReplay (Some tok) (JTI tok), al, c)
                          else (\<lparr>Allow = True, Reason = ReasonOK, DecToken = Some tok, DecJTI = JTI tok,
                                 LeafWritten = False, LeafErr = None\<rparr>, al, c)))))"

subsection \<open>The decision leaf\<close>

definition decisionRecord :: "Decision \<Rightarrow> bytes" where
  "decisionRecord d =
     (let seal = (case DecToken d of None \<Rightarrow> None | Some t \<Rightarrow> PlanSeal t)
      in (if seal \<noteq> None then ''TBPD2'' else ''TBPD1'') @ DecJTI d @
         [byte (if Allow d then 1 else 0), byte (length (Reason d))] @ Reason d @
         (case seal of None \<Rightarrow> [] | Some p \<Rightarrow> p))"

definition writeLeaf ::
  "(bytes \<Rightarrow> bytes) \<Rightarrow> Validator \<Rightarrow> registry \<Rightarrow> Decision \<Rightarrow> time \<Rightarrow> registry \<times> Decision" where
  "writeLeaf sha v r d now =
     (case AppendLeaf sha r KindDecision (v_cellID v) (v_salt v) (decisionRecord d) (unix_nano now) of
        (r', Inl e) \<Rightarrow>
          (r', (if Allow d then d\<lparr>Allow := False, Reason := ReasonLeafWriteFailed\<rparr> else d)
                 \<lparr>LeafWritten := False, LeafErr := Some e\<rparr>)
      | (r', Inr i) \<Rightarrow> (r', d\<lparr>LeafWritten := True\<rparr>))"

definition ValidateAt ::
  "codec \<Rightarrow> (bytes \<Rightarrow> bytes) \<Rightarrow> Validator \<Rightarrow> pep \<Rightarrow> bytes \<Rightarrow> Request \<Rightarrow> time \<Rightarrow> int \<Rightarrow> u64 option
     \<Rightarrow> Decision \<times> string list \<times> pep" where
  "ValidateAt cd sha v s wire req now cnow epoch =
     (let (d, al, c) = decide cd v s wire req now cnow epoch;
          (r, d') = writeLeaf sha v (pp_reg s) d now
      in (d', al, s\<lparr>pp_replay := c, pp_reg := r\<rparr>))"

subsection \<open>What the chain decides\<close>

text \<open>The rule of the schema, stated on the token alone: lifetimes are integers, not 64-bit
  differences.  Everything but the replay cache and the leaf.\<close>

definition gate_open :: "pep \<Rightarrow> bool" where
  "gate_open s \<longleftrightarrow> (case pp_gate s of None \<Rightarrow> True | Some f \<Rightarrow> fc_Gate f = None)"

definition admissible ::
  "codec \<Rightarrow> Validator \<Rightarrow> pep \<Rightarrow> bytes \<Rightarrow> Request \<Rightarrow> time \<Rightarrow> u64 option \<Rightarrow> Token \<Rightarrow> bool" where
  "admissible cd v s wire req now epoch tok \<longleftrightarrow>
     gate_open s \<and> verifySignedToken cd (v_keyring v) wire = (Some tok, []) \<and>
     Iat tok \<le> unix now \<and> unix now \<le> Exp tok \<and> 30 \<le> Exp tok - Iat tok \<and> Exp tok - Iat tok \<le> 60 \<and>
     PolicyID tok = v_policyID v \<and> epoch = Some (Epoch tok) \<and>
     Action tok = rq_Action req \<and> Resource tok = rq_Resource req \<and>
     (ObjectSeal tok = None \<or> rq_Seal req = ObjectSeal tok) \<and>
     (TokQuota tok = None \<or> (\<exists>l. pp_quota s = Some l \<and> \<not> ql_Exhausted l (JTI tok)))"

lemma decodePayload_reason: "decodePayload cd p = Inl r \<Longrightarrow> r \<noteq> []"
  by (auto simp: decodePayload_def decodeClaims_def violation_def reason_defs
      split: option.splits if_splits)

lemma verifySignedToken_ok:
  assumes "verifySignedToken cd keyring wire = (tk, [])"
  obtains tok msg kid pub where "tk = Some tok" "length wire \<le> MaxTokenWireSize"
    "dec_sign1 cd wire = Some msg" "decodePayload cd (s1_payload msg) = Inr tok"
    "length kid = 16" "map_of keyring kid = Some pub" "sig_ok cd pub msg" "wf_token tok"
proof -
  from assms obtain tok msg kid pub where
    "tk = Some tok" "length wire \<le> MaxTokenWireSize" "dec_sign1 cd wire = Some msg"
    "decodePayload cd (s1_payload msg) = Inr tok" "length kid = 16" "map_of keyring kid = Some pub"
    "sig_ok cd pub msg"
    by (auto simp: verifySignedToken_def reason_defs dest: decodePayload_reason
        split: if_splits option.splits sum.splits)
  with that decodePayload_wf show ?thesis by blast
qed

text \<open>Between instants that bracket a 64-bit clock the wrapped difference tells the truth.\<close>

lemma ttl_wrap:
  assumes "int64 i" "int64 e" "i \<le> e" "0 \<le> lo" "hi < 2 ^ 63"
  shows "(lo \<le> wrap64 (e - i) \<and> wrap64 (e - i) \<le> hi) \<longleftrightarrow> lo \<le> e - i \<and> e - i \<le> hi"
proof (cases "e - i < 2 ^ 63")
  case True
  then have "int64 (e - i)" using assms by (simp add: int64_def)
  then show ?thesis by simp
next
  case False
  have lt: "e - i < 2 ^ 64" using assms by (simp add: int64_def)
  have "e - i - 2 ^ 64 + 2 ^ 63 + 2 ^ 64 = e - i + 2 ^ 63" by linarith
  then have "wrap64 (e - i) = (e - i - 2 ^ 64 + 2 ^ 63 + 2 ^ 64) mod 2 ^ 64 - 2 ^ 63"
    by (simp only: wrap64_def)
  also have "\<dots> = (e - i - 2 ^ 64 + 2 ^ 63) mod 2 ^ 64 - 2 ^ 63" by (simp only: mod_add_self2)
  also have "\<dots> = e - i - 2 ^ 64"
    using False lt by (subst mod_pos_pos_trivial) auto
  finally show ?thesis using False lt assms(4,5) by linarith
qed

lemma guard_None: "((if b then Some x else y) = None) = (\<not> b \<and> y = None)"
  by simp

lemma seal_guard: "\<not> (a \<noteq> None \<and> (b = None \<or> the b \<noteq> the a)) \<longleftrightarrow> a = None \<or> b = a"
  by (cases a; cases b) auto

lemma quota_guard: "\<not> (q \<noteq> None \<and> l = None) \<and> \<not> (q \<noteq> None \<and> P (the l)) \<longleftrightarrow>
    q = None \<or> (\<exists>x. l = Some x \<and> \<not> P x)"
  by (cases q; cases l) auto

lemma epoch_guard: "\<not> e = None \<and> \<not> x \<noteq> the e \<longleftrightarrow> e = Some x"
  by (cases e) auto

lemma refusal_None_iff:
  assumes "wf_token tok"
  shows "refusal v s req now epoch tok = None \<longleftrightarrow>
     Iat tok \<le> unix now \<and> unix now \<le> Exp tok \<and> 30 \<le> Exp tok - Iat tok \<and> Exp tok - Iat tok \<le> 60 \<and>
     PolicyID tok = v_policyID v \<and> epoch = Some (Epoch tok) \<and>
     Action tok = rq_Action req \<and> Resource tok = rq_Resource req \<and>
     (ObjectSeal tok = None \<or> rq_Seal req = ObjectSeal tok) \<and>
     (TokQuota tok = None \<or> (\<exists>l. pp_quota s = Some l \<and> \<not> ql_Exhausted l (JTI tok)))"
proof (cases "Iat tok \<le> unix now \<and> unix now \<le> Exp tok")
  case False
  then show ?thesis by (auto simp: refusal_def)
next
  case True
  then have ttl: "(30 \<le> wrap64 (Exp tok - Iat tok) \<and> wrap64 (Exp tok - Iat tok) \<le> 60) \<longleftrightarrow>
      30 \<le> Exp tok - Iat tok \<and> Exp tok - Iat tok \<le> 60"
    using assms by (intro ttl_wrap) (auto simp: wf_token_def)
  have "refusal v s req now epoch tok = None \<longleftrightarrow>
      (30 \<le> wrap64 (Exp tok - Iat tok) \<and> wrap64 (Exp tok - Iat tok) \<le> 60) \<and>
      PolicyID tok = v_policyID v \<and> epoch = Some (Epoch tok) \<and>
      Action tok = rq_Action req \<and> Resource tok = rq_Resource req \<and>
      (ObjectSeal tok = None \<or> rq_Seal req = ObjectSeal tok) \<and>
      (TokQuota tok = None \<or> (\<exists>l. pp_quota s = Some l \<and> \<not> ql_Exhausted l (JTI tok)))"
    using True seal_guard [of "ObjectSeal tok" "rq_Seal req"]
      quota_guard [of "TokQuota tok" "pp_quota s" "\<lambda>l. ql_Exhausted l (JTI tok)"]
      epoch_guard [of epoch "Epoch tok"]
    unfolding refusal_def Let_def guard_None minTTLSec_def maxTTLSec_def
    unfolding not_less [symmetric] by argo
  with True ttl show ?thesis by simp
qed

lemma admissible_iff:
  "admissible cd v s wire req now epoch tok \<longleftrightarrow>
     gate_open s \<and> verifySignedToken cd (v_keyring v) wire = (Some tok, []) \<and>
     refusal v s req now epoch tok = None"
proof -
  have "wf_token tok" if "verifySignedToken cd (v_keyring v) wire = (Some tok, [])"
    using that by (elim verifySignedToken_ok) simp
  then show ?thesis
    using refusal_None_iff [of tok v s req now epoch] by (auto simp: admissible_def)
qed

lemma decide_admissible:
  assumes "admissible cd v s wire req now epoch tok"
  shows "decide cd v s wire req now cnow epoch =
    (let (ok, al, c) = CheckAndConsume (pp_replay s) cnow (JTI tok) (Exp tok)
     in (if ok then \<lparr>Allow = True, Reason = ReasonOK, DecToken = Some tok, DecJTI = JTI tok,
                     LeafWritten = False, LeafErr = None\<rparr>
         else deny ReasonReplay (Some tok) (JTI tok), al, c))"
  using assms
  by (auto simp: decide_def admissible_iff gate_open_def split: option.splits prod.splits)

lemma decide_inadmissible:
  assumes "\<nexists>tok. admissible cd v s wire req now epoch tok"
  obtains reason tk where "decide cd v s wire req now cnow epoch =
      (deny reason tk (tokJTIOrZero tk), [], pp_replay s)"
proof (cases "gate_open s")
  case False
  then obtain f ref where "pp_gate s = Some f" "fc_Gate f = Some ref"
    by (auto simp: gate_open_def split: option.splits)
  then have "decide cd v s wire req now cnow epoch =
      (deny (rf_Reason ref) None (tokJTIOrZero None), [], pp_replay s)"
    by (simp add: decide_def tokJTIOrZero_def)
  then show ?thesis by (rule that)
next
  case open_: True
  obtain tk reason where sig: "verifySignedToken cd (v_keyring v) wire = (tk, reason)" by fastforce
  show ?thesis
  proof (cases "reason = []")
    case False
    with open_ sig have "decide cd v s wire req now cnow epoch =
        (deny reason tk (tokJTIOrZero tk), [], pp_replay s)"
      by (auto simp: decide_def gate_open_def split: option.splits)
    then show ?thesis by (rule that)
  next
    case True
    with sig obtain tok where tk: "tk = Some tok" by (auto elim!: verifySignedToken_ok)
    with assms open_ sig True obtain why where "refusal v s req now epoch tok = Some why"
      by (auto simp: admissible_iff)
    with open_ sig True tk have "decide cd v s wire req now cnow epoch =
        (deny why (Some tok) (tokJTIOrZero (Some tok)), [], pp_replay s)"
      by (auto simp: decide_def gate_open_def tokJTIOrZero_def split: option.splits)
    then show ?thesis by (rule that)
  qed
qed

subsection \<open>The leaf of a decision\<close>

lemma writeLeaf_cases:
  assumes "writeLeaf sha v r d now = (r', d')"
  obtains (written) "LeafWritten d'" "Allow d' = Allow d" "Reason d' = Reason d"
      "unix_nano now \<noteq> 0 \<Longrightarrow> rg_log r' = rg_log r @
         [sealed_leaf sha KindDecision (v_cellID v) (v_salt v) (decisionRecord d) (unix_nano now)]"
  | (failed) "\<not> LeafWritten d'" "\<not> Allow d'"
proof -
  obtain x where x: "AppendLeaf sha r KindDecision (v_cellID v) (v_salt v) (decisionRecord d) (unix_nano now) = (r', x)"
    using assms by (auto simp: writeLeaf_def split: prod.splits sum.splits)
  show thesis
  proof (cases x)
    case (Inl e)
    with x assms show thesis by (intro failed) (auto simp: writeLeaf_def split: if_splits)
  next
    case (Inr i)
    with x assms AppendLeaf_ok [of sha r KindDecision] show thesis
      by (intro written) (auto simp: writeLeaf_def)
  qed
qed

lemma writeLeaf_frame:
  "writeLeaf sha v r d now = (r', d') \<Longrightarrow> DecToken d' = DecToken d \<and> DecJTI d' = DecJTI d"
  by (auto simp: writeLeaf_def split: prod.splits sum.splits if_splits)

lemma ValidateAt_split:
  assumes "ValidateAt cd sha v s wire req now cnow epoch = (d, al, s')"
  obtains d0 c r where "decide cd v s wire req now cnow epoch = (d0, al, c)"
    "writeLeaf sha v (pp_reg s) d0 now = (r, d)" "s' = s\<lparr>pp_replay := c, pp_reg := r\<rparr>"
  using assms by (auto simp: ValidateAt_def Let_def split: prod.splits)

lemma writeLeaf_allow:
  "writeLeaf sha v r d0 now = (r', d) \<Longrightarrow> Allow d \<longleftrightarrow> Allow d0 \<and> LeafWritten d"
  by (erule writeLeaf_cases) auto

lemma decide_allow:
  "decide cd v s wire req now cnow epoch = (d0, al, c) \<Longrightarrow>
     Allow d0 \<longleftrightarrow> (\<exists>tok. admissible cd v s wire req now epoch tok \<and>
       fst (CheckAndConsume (pp_replay s) cnow (JTI tok) (Exp tok)))"
proof -
  assume dc: "decide cd v s wire req now cnow epoch = (d0, al, c)"
  show ?thesis
  proof (cases "\<exists>tok. admissible cd v s wire req now epoch tok")
    case True
    then obtain tok where adm: "admissible cd v s wire req now epoch tok" by blast
    have uniq: "admissible cd v s wire req now epoch tok' \<longleftrightarrow> tok' = tok" for tok'
      using adm by (auto simp: admissible_def)
    obtain ok al' c' where "CheckAndConsume (pp_replay s) cnow (JTI tok) (Exp tok) = (ok, al', c')"
      by (metis prod_cases3)
    with decide_admissible [OF adm, of cnow] dc show ?thesis
      by (simp add: uniq deny_def split: if_splits)
  next
    case False
    then obtain reason tk where "decide cd v s wire req now cnow epoch =
        (deny reason tk (tokJTIOrZero tk), [], pp_replay s)" by (rule decide_inadmissible)
    with dc False show ?thesis by (auto simp: deny_def)
  qed
qed

lemma decide_token:
  assumes "decide cd v s wire req now cnow epoch = (d0, al, c)" and "Allow d0"
  obtains tok where "admissible cd v s wire req now epoch tok" "DecToken d0 = Some tok"
    "CheckAndConsume (pp_replay s) cnow (JTI tok) (Exp tok) = (True, al, c)"
    "d0 = \<lparr>Allow = True, Reason = ReasonOK, DecToken = Some tok, DecJTI = JTI tok,
           LeafWritten = False, LeafErr = None\<rparr>"
proof -
  from decide_allow [OF assms(1)] assms(2) obtain tok where
    adm: "admissible cd v s wire req now epoch tok" by blast
  from decide_admissible [OF adm, of cnow] assms that [OF adm] show thesis
    by (auto simp: deny_def split: prod.splits if_splits)
qed

text \<open>Whatever a call does to the cache, it is at most one call of the cache.\<close>

lemma decide_cache:
  assumes "decide cd v s wire req now cnow epoch = (d0, al, c)"
  obtains (untouched) "c = pp_replay s" "al = []" "\<not> Allow d0"
  | (called) tok ok where "admissible cd v s wire req now epoch tok" "DecToken d0 = Some tok"
      "CheckAndConsume (pp_replay s) cnow (JTI tok) (Exp tok) = (ok, al, c)" "Allow d0 = ok"
proof (cases "\<exists>tok. admissible cd v s wire req now epoch tok")
  case True
  then obtain tok where adm: "admissible cd v s wire req now epoch tok" by blast
  from decide_admissible [OF adm, of cnow] assms show thesis
    by (intro called [OF adm]) (auto simp: deny_def split: prod.splits if_splits)
next
  case False
  then obtain reason tk where "decide cd v s wire req now cnow epoch =
      (deny reason tk (tokJTIOrZero tk), [], pp_replay s)" by (rule decide_inadmissible)
  with assms show thesis by (intro untouched) (auto simp: deny_def)
qed

subsection \<open>Sequences of presentations\<close>

record presentation =
  pr_wire :: bytes
  pr_req :: Request
  pr_now :: time
  pr_cnow :: int
  pr_epoch :: "u64 option"

primrec val_run ::
  "codec \<Rightarrow> (bytes \<Rightarrow> bytes) \<Rightarrow> Validator \<Rightarrow> pep \<Rightarrow> presentation list \<Rightarrow> Decision list \<times> pep" where
  "val_run cd sha v s [] = ([], s)"
| "val_run cd sha v s (p # ps) =
     (let (d, al, s') = ValidateAt cd sha v s (pr_wire p) (pr_req p) (pr_now p) (pr_cnow p) (pr_epoch p);
          (ds, s'') = val_run cd sha v s' ps
      in (d # ds, s''))"

lemma ValidateAt_inv:
  "ar_inv (pp_replay s) \<Longrightarrow> ValidateAt cd sha v s wire req now cnow epoch = (d, al, s') \<Longrightarrow>
     ar_inv (pp_replay s')"
  by (erule ValidateAt_split) (auto elim!: decide_cache dest: ring.inv_check)

lemma val_run_inv: "ar_inv (pp_replay s) \<Longrightarrow> ar_inv (pp_replay (snd (val_run cd sha v s ps)))"
proof (induction ps arbitrary: s)
  case Nil
  then show ?case by simp
next
  case (Cons p ps)
  obtain d al s' where "ValidateAt cd sha v s (pr_wire p) (pr_req p) (pr_now p) (pr_cnow p) (pr_epoch p) = (d, al, s')"
    by (metis prod_cases3)
  with Cons ValidateAt_inv show ?case by (fastforce simp: case_prod_beta)
qed

definition uses :: "bytes \<Rightarrow> Decision \<Rightarrow> bool" where
  "uses j d \<longleftrightarrow> Allow d \<and> (\<exists>t. DecToken d = Some t \<and> JTI t = j)"

lemma ValidateAt_held:
  assumes "ar_inv (pp_replay s)" "ar_held (pp_replay s) j e" "cnow \<le> e"
    and "ValidateAt cd sha v s wire req now cnow epoch = (d, al, s')"
  shows "\<not> uses j d \<and> ar_held (pp_replay s') j e"
proof -
  from assms(4) obtain d0 c r where dc: "decide cd v s wire req now cnow epoch = (d0, al, c)"
    and wl: "writeLeaf sha v (pp_reg s) d0 now = (r, d)" and s': "s' = s\<lparr>pp_replay := c, pp_reg := r\<rparr>"
    by (rule ValidateAt_split)
  note A = writeLeaf_allow [OF wl] writeLeaf_frame [OF wl]
  from dc show ?thesis
  proof (cases rule: decide_cache)
    case untouched
    with A s' assms(2) show ?thesis by (simp add: uses_def)
  next
    case (called tok ok)
    with assms ring.held_refused [OF assms(1-3)] have "JTI tok = j \<Longrightarrow> \<not> ok" by blast
    moreover have "ar_held c j e" using ring.held_kept [OF assms(1-3) called(3)] .
    ultimately show ?thesis using A called s' by (auto simp: uses_def)
  qed
qed

lemma val_run_held:
  assumes "ar_inv (pp_replay s)" "ar_held (pp_replay s) j e" "\<forall>p \<in> set ps. pr_cnow p \<le> e"
  shows "list_all (\<lambda>d. \<not> uses j d) (fst (val_run cd sha v s ps))"
  using assms
proof (induction ps arbitrary: s)
  case Nil
  then show ?case by simp
next
  case (Cons p ps)
  obtain d al s' where st: "ValidateAt cd sha v s (pr_wire p) (pr_req p) (pr_now p) (pr_cnow p) (pr_epoch p) = (d, al, s')"
    by (metis prod_cases3)
  have "\<not> uses j d \<and> ar_held (pp_replay s') j e" using Cons.prems by (intro ValidateAt_held [OF _ _ _ st]) auto
  with Cons ValidateAt_inv [OF _ st] st show ?case by (simp add: case_prod_beta)
qed

text \<open>The plan seal a decision carries, and what makes a decision's record well formed.\<close>

definition dec_seal :: "Decision \<Rightarrow> bytes option" where
  "dec_seal d = (case DecToken d of None \<Rightarrow> None | Some t \<Rightarrow> PlanSeal t)"

definition dec_sized :: "Decision \<Rightarrow> bool" where
  "dec_sized d \<longleftrightarrow> length (DecJTI d) = 16 \<and> length (Reason d) < 256 \<and>
     (dec_seal d = None \<or> length (the (dec_seal d)) = 32)"

lemma decisionRecord_alt:
  "decisionRecord d = (if dec_seal d \<noteq> None then ''TBPD2'' else ''TBPD1'') @ DecJTI d @
     [byte (if Allow d then 1 else 0)] @ lp 1 (Reason d) @ (case dec_seal d of None \<Rightarrow> [] | Some p \<Rightarrow> p)"
  by (simp add: decisionRecord_def dec_seal_def lp_def Let_def)

lemma decisionRecord_inj:
  assumes "dec_sized d" "dec_sized d'" "decisionRecord d = decisionRecord d'"
  shows "DecJTI d = DecJTI d' \<and> Allow d = Allow d' \<and> Reason d = Reason d' \<and> dec_seal d = dec_seal d'"
proof -
  have "(dec_seal d = None) = (dec_seal d' = None)"
    using assms(3) by (cases "dec_seal d"; cases "dec_seal d'") (simp_all add: decisionRecord_alt)
  with assms show ?thesis
    by (auto simp: decisionRecord_alt dec_sized_def append_fixed_eq_iff lp_append_eq_iff lp_eq_iff
        byte_eq_iff split: option.splits if_splits)
qed

subsection \<open>Properties\<close>

text \<open>possession.  A token accepted as authentic was carried by a message of at most 1024
  bytes whose payload decodes, canonically, to exactly that token, and whose signature verifies
  under a key of the pinned keyring named by a 16-byte key identifier; and the token respects
  every bound of the frozen schema.\<close>

lemma possession_is_authentic:
  assumes "VerifyPossession cd v wire = Some tok"
  shows "wf_token tok \<and> length wire \<le> 1024 \<and>
    (\<exists>msg kid pub. dec_sign1 cd wire = Some msg \<and> decodePayload cd (s1_payload msg) = Inr tok \<and>
       length kid = 16 \<and> map_of (v_keyring v) kid = Some pub \<and> sig_ok cd pub msg)"
proof -
  from assms have "verifySignedToken cd (v_keyring v) wire = (Some tok, [])"
    by (auto simp: VerifyPossession_def split: prod.splits if_splits)
  then show ?thesis by (rule verifySignedToken_ok) (auto simp: MaxTokenWireSize_def)
qed

text \<open>C1: the verdict.  A presentation is allowed if and only if there is a token for which the
  gate is open, possession is proved, \<open>iat \<le> now \<le> exp\<close>, the lifetime is between 30 and 60
  seconds as a true difference (the 64-bit subtraction cannot be made to wrap into range), the
  policy is the local one, the verified epoch is available and is the token's, action and
  resource are the requested ones, a required object seal is presented, a quota passport has a
  live counter, the replay cache accepts its identifier, and the decision leaf was written.\<close>

theorem allow_iff_admissible:
  assumes "ValidateAt cd sha v s wire req now cnow epoch = (d, al, s')"
  shows "Allow d \<longleftrightarrow>
    (\<exists>tok. admissible cd v s wire req now epoch tok \<and>
       fst (CheckAndConsume (pp_replay s) cnow (JTI tok) (Exp tok))) \<and> LeafWritten d"
proof -
  from assms obtain d0 c r where dc: "decide cd v s wire req now cnow epoch = (d0, al, c)"
    and wl: "writeLeaf sha v (pp_reg s) d0 now = (r, d)" by (rule ValidateAt_split)
  show ?thesis using writeLeaf_allow [OF wl] decide_allow [OF dc] by simp
qed

text \<open>C25: no proof, no access.  When a presentation is allowed, the log of the registry has
  grown by exactly one leaf, and that leaf is the decision leaf whose payload is the salted hash
  of the record holding the token's identifier, the verdict 1, the reason ok and the token's plan
  seal; and any record of a decision with the same bytes states the same verdict of the same
  token under the same seal.\<close>

theorem allow_leaves_proof:
  assumes val: "ValidateAt cd sha v s wire req now cnow epoch = (d, al, s')" and ok: "Allow d"
    and clock: "unix_nano now \<noteq> 0"
  shows "\<exists>tok. DecToken d = Some tok \<and> LeafWritten d \<and>
    rg_log (pp_reg s') = rg_log (pp_reg s) @
       [sealed_leaf sha KindDecision (v_cellID v) (v_salt v) (decisionRecord d) (unix_nano now)] \<and>
    (\<forall>d'. dec_sized d' \<and> decisionRecord d' = decisionRecord d \<longrightarrow>
       Allow d' \<and> DecJTI d' = JTI tok \<and> Reason d' = ReasonOK \<and> dec_seal d' = PlanSeal tok)"
proof -
  from val obtain d0 c r where dc: "decide cd v s wire req now cnow epoch = (d0, al, c)"
    and wl: "writeLeaf sha v (pp_reg s) d0 now = (r, d)" and s': "s' = s\<lparr>pp_replay := c, pp_reg := r\<rparr>"
    by (rule ValidateAt_split)
  have a: "Allow d0" "LeafWritten d" using writeLeaf_allow [OF wl] ok by auto
  from dc a(1) obtain tok where adm: "admissible cd v s wire req now epoch tok"
    and d0: "d0 = \<lparr>Allow = True, Reason = ReasonOK, DecToken = Some tok, DecJTI = JTI tok,
           LeafWritten = False, LeafErr = None\<rparr>" by (rule decide_token)
  from wl a(2) have d: "d = d0\<lparr>LeafWritten := True\<rparr>"
    by (auto simp: writeLeaf_def split: prod.splits sum.splits if_splits)
  have rec: "decisionRecord d = decisionRecord d0" by (simp add: decisionRecord_def d)
  from wl have "rg_log r = rg_log (pp_reg s) @
      [sealed_leaf sha KindDecision (v_cellID v) (v_salt v) (decisionRecord d) (unix_nano now)]"
    by (cases rule: writeLeaf_cases) (use a clock rec in auto)
  moreover from adm have "wf_token tok" by (auto simp: admissible_def elim: verifySignedToken_ok)
  then have sz: "dec_sized d" by (cases "PlanSeal tok") (auto simp: d d0 dec_sized_def dec_seal_def wf_token_def ReasonOK_def)
  have "Allow d' \<and> DecJTI d' = JTI tok \<and> Reason d' = ReasonOK \<and> dec_seal d' = PlanSeal tok"
    if "dec_sized d'" "decisionRecord d' = decisionRecord d" for d'
    using decisionRecord_inj [OF that(1) sz that(2)] by (simp add: d d0 dec_seal_def)
  ultimately show ?thesis using a(2) s' by (simp add: d d0)
qed

text \<open>a refused token is not burnt.  A presentation that fails any check before the replay
  cache (gate, possession, freshness, policy, epoch, scope, seal, quota) is denied and leaves the
  replay cache as it was, so the same token can still be presented once.\<close>

lemma upstream_refusal_consumes_nothing:
  assumes "ValidateAt cd sha v s wire req now cnow epoch = (d, al, s')"
    and "\<nexists>tok. admissible cd v s wire req now epoch tok"
  shows "\<not> Allow d \<and> pp_replay s' = pp_replay s \<and> al = []"
proof -
  from assms(1) obtain d0 c r where dc: "decide cd v s wire req now cnow epoch = (d0, al, c)"
    and wl: "writeLeaf sha v (pp_reg s) d0 now = (r, d)" and s': "s' = s\<lparr>pp_replay := c, pp_reg := r\<rparr>"
    by (rule ValidateAt_split)
  from dc show ?thesis
    by (cases rule: decide_cache) (use assms(2) writeLeaf_allow [OF wl] s' in auto)
qed

text \<open>C2: a token is used at most once.  In any history of a validator whose replay cache
  started empty, once a presentation has been allowed, no later presentation of a token with the
  same identifier is allowed, as long as the cache's own clock does not read past that token's
  expiry, whatever tokens are presented in between and whatever the requests are.\<close>

theorem token_used_once:
  assumes "NewAntiReplay n = Some (pp_replay s0)" and "s = snd (val_run cd sha v s0 before)"
    and "ValidateAt cd sha v s wire req now cnow epoch = (d, al, s1)"
    and "Allow d" and "DecToken d = Some tok"
    and "\<forall>p \<in> set later. pr_cnow p \<le> Exp tok"
  shows "list_all (\<lambda>d'. \<not> uses (JTI tok) d') (fst (val_run cd sha v s1 later))"
proof -
  have inv: "ar_inv (pp_replay s)"
    using NewAntiReplay_inv [OF assms(1)] by (simp add: assms(2) val_run_inv)
  from assms(3) obtain d0 c r where dc: "decide cd v s wire req now cnow epoch = (d0, al, c)"
    and wl: "writeLeaf sha v (pp_reg s) d0 now = (r, d)" and s1: "s1 = s\<lparr>pp_replay := c, pp_reg := r\<rparr>"
    by (rule ValidateAt_split)
  have "Allow d0" using writeLeaf_allow [OF wl] assms(4) by simp
  with dc obtain "CheckAndConsume (pp_replay s) cnow (JTI tok) (Exp tok) = (True, al, c)"
    using writeLeaf_frame [OF wl] assms(5) by (elim decide_token) auto
  then have "ar_held (pp_replay s1) (JTI tok) (Exp tok)" "ar_inv (pp_replay s1)"
    using ring.accepted_held [OF inv] ring.inv_check [OF inv] s1 by auto
  with assms(6) show ?thesis by (intro val_run_held)
qed

subsection \<open>A concrete validator\<close>

text \<open>A token valid from 1000 to 1060, carried by the message \<open>tok\<close>, under a decoder that knows
  that message only.\<close>

definition kid_ex :: bytes where "kid_ex = zeros 16"

definition claims_ex :: "(cbor \<times> cbor) list" where
  "claims_ex = [(CUint 1, CText ''broker''), (CUint 2, CText ''agent''), (CUint 4, CUint 1060),
     (CUint 6, CUint 1000), (CUint 7, CBytes (zeros 16)), (CInt (-1), CBytes (zeros 32)),
     (CInt (-2), CText ''read''), (CInt (-3), CText ''db''), (CInt (-6), CUint 3), (CInt (-9), CUint 1)]"

definition codec_ex :: codec where
  "codec_ex = \<lparr>dec_map = (\<lambda>b. if b = ''hdr'' then Some [(CUint 1, CInt (-8)), (CUint 4, CBytes kid_ex)]
                              else if b = ''pay'' then Some claims_ex else None),
     enc_map = (\<lambda>m. Some ''pay''), dec_bstr = (\<lambda>b. Some ''hdr''),
     dec_sign1 = (\<lambda>b. if b = ''tok'' then Some \<lparr>s1_unprotected = 0, s1_rawProtected = ''h'',
        s1_payload = ''pay'', s1_signature = ''s''\<rparr> else None),
     alg_ed25519 = -8, key_ok = (\<lambda>p. True), sig_ok = (\<lambda>p m. True)\<rparr>"

definition vtok_ex :: Token where
  "vtok_ex = \<lparr>Iss = ''broker'', Sub = ''agent'', Iat = 1000, Exp = 1060, JTI = zeros 16,
     PolicyID = zeros 32, Action = ''read'', Resource = ''db'', TokClass = ClassW, ObjectSeal = None,
     Epoch = 3, TokQuota = None, PlanSeal = None\<rparr>"

definition validator_ex :: Validator where
  "validator_ex = \<lparr>v_cellID = ''cell-a'', v_keyring = [(kid_ex, ''pub'')], v_policyID = zeros 32, v_salt = zeros 16\<rparr>"

definition pep_ex :: pep where
  "pep_ex = \<lparr>pp_gate = None, pp_quota = None, pp_replay = ring_ex, pp_reg = reg_ex\<rparr>"

definition req_ex :: Request where
  "req_ex = \<lparr>rq_Action = ''read'', rq_Resource = ''db'', rq_Seal = None\<rparr>"

lemma claims_of_ex: "claims_of claims_ex [] = Some [(1, CText ''broker''), (2, CText ''agent''), (4, CUint 1060),
     (6, CUint 1000), (7, CBytes (zeros 16)), (-1, CBytes (zeros 32)),
     (-2, CText ''read''), (-3, CText ''db''), (-6, CUint 3), (-9, CUint 1)]"
  by (simp add: claims_ex_def asInt_def max_int64_def put_def)

lemma decode_ex: "decodePayload codec_ex ''pay'' = Inr vtok_ex"
  by (simp add: decodePayload_def codec_ex_def claims_of_ex known_claim_def decodeClaims_def stringClaim_def
      intClaim_def uintClaim_def bytesClaim_def opt_claim_def asInt_def asUint_def bytesFromAny_def
      max_int64_def maxIssSubActionLen_def maxResourceLen_def vtok_ex_def DefaultClass_def)

lemma verify_ex: "verifySignedToken codec_ex (v_keyring validator_ex) ''tok'' = (Some vtok_ex, [])"
proof -
  have "header [(CUint 1, CInt (-8)), (CUint 4, CBytes kid_ex)] 1 asInt = Some (-8)"
    "header [(CUint 1, CInt (-8)), (CUint 4, CBytes kid_ex)] 4 bytesFromAny = Some kid_ex"
    by (simp_all add: header_def asInt_def bytesFromAny_def)
  with decode_ex show ?thesis
    by (simp add: verifySignedToken_def codec_ex_def MaxTokenWireSize_def kid_ex_def validator_ex_def)
qed

lemma admissible_ex:
  "admissible codec_ex validator_ex (pep_ex\<lparr>pp_replay := c, pp_reg := r\<rparr>) ''tok'' req_ex (of_unix t) (Some 3) vtok_ex"
  if "1000 \<le> t" "t \<le> 1060"
  using verify_ex that
  by (simp add: admissible_def gate_open_def vtok_ex_def validator_ex_def req_ex_def pep_ex_def)

definition first_ex :: "Decision \<times> string list \<times> pep" where
  "first_ex = ValidateAt codec_ex (\<lambda>b. zeros 32) validator_ex pep_ex ''tok'' req_ex (of_unix 1005) 1005 (Some 3)"

lemma pep_ex_frame: "pep_ex\<lparr>pp_replay := ring_ex, pp_reg := reg_ex\<rparr> = pep_ex"
  by (simp add: pep_ex_def)

lemma ring_ex_accepts: "CheckAndConsume ring_ex now j e =
    (True, [], \<lparr>ring = [\<lparr>re_jti = j, re_exp = e, re_live = True\<rparr>, zeroEntry], head = 0, count = 1,
       seen = {j}, ar_tripped = False\<rparr>)"
  by (simp add: CheckAndConsume_def ring_ex_def purgeHead.simps Let_def numeral_2_eq_2 ar_insert_def)

lemma writes_ex: "rg_journal r = None \<Longrightarrow> \<not> rg_engaged r \<Longrightarrow> rg_env r = [] \<Longrightarrow> now \<noteq> 0 \<Longrightarrow> int64 now \<Longrightarrow>
    writeLeaf sha validator_ex r d now =
      (r\<lparr>rg_log := rg_log r @ [sealed_leaf sha KindDecision ''cell-a'' (zeros 16) (decisionRecord d) now]\<rparr>,
       d\<lparr>LeafWritten := True\<rparr>)"
  by (simp add: writeLeaf_def AppendLeaf_def CellLog_Append_def appendInternal_def encodeLeaf_def unix_nano_def
      sealed_leaf_def Marshal_def validator_ex_def maxCellIDLen_def known_kind_def next_outcome_def Let_def)

lemma first_ex_allowed: "Allow (fst first_ex) \<and> DecToken (fst first_ex) = Some vtok_ex"
  using decide_admissible [OF admissible_ex [where c = ring_ex and r = reg_ex and t = 1005], of 1005]
  by (simp add: pep_ex_frame ring_ex_accepts first_ex_def ValidateAt_def Let_def pep_ex_def
      writes_ex reg_ex_def of_unix_def second_def int64_def)

lemma first_ex_eq: "ValidateAt codec_ex (\<lambda>b. zeros 32) validator_ex pep_ex ''tok'' req_ex (of_unix 1005) 1005 (Some 3) =
    (fst first_ex, fst (snd first_ex), snd (snd first_ex))"
  by (simp add: first_ex_def)

theorem allow_iff_admissible_witness: "LeafWritten (fst first_ex)"
  using allow_iff_admissible [OF first_ex_eq] first_ex_allowed by blast

theorem allow_leaves_proof_witness:
  "rg_log (pp_reg (snd (snd first_ex))) = [sealed_leaf (\<lambda>b. zeros 32) KindDecision ''cell-a'' (zeros 16)
     (decisionRecord (fst first_ex)) (of_unix 1005)]"
  using allow_leaves_proof [OF first_ex_eq] first_ex_allowed
  by (simp add: pep_ex_def reg_ex_def validator_ex_def unix_nano_def of_unix_def second_def wrap64_def)

definition present_ex :: "int \<Rightarrow> int \<Rightarrow> presentation" where
  "present_ex t c = \<lparr>pr_wire = ''tok'', pr_req = req_ex, pr_now = of_unix t, pr_cnow = c, pr_epoch = Some 3\<rparr>"

theorem token_used_once_witness:
  "list_all (\<lambda>d. \<not> uses (zeros 16) d)
     (fst (val_run codec_ex (\<lambda>b. zeros 32) validator_ex (snd (snd first_ex)) [present_ex 1006 1006, present_ex 1060 1060]))"
proof -
  have "NewAntiReplay 2 = Some (pp_replay pep_ex)" using ring_ex_new by (simp add: pep_ex_def)
  moreover have "pep_ex = snd (val_run codec_ex (\<lambda>b. zeros 32) validator_ex pep_ex [])" by simp
  ultimately have "list_all (\<lambda>d. \<not> uses (JTI vtok_ex) d)
     (fst (val_run codec_ex (\<lambda>b. zeros 32) validator_ex (snd (snd first_ex)) [present_ex 1006 1006, present_ex 1060 1060]))"
    using first_ex_allowed
    by (intro token_used_once [where n = 2 and ?s0.0 = pep_ex and before = "[]", OF _ _ first_ex_eq])
      (auto simp: present_ex_def vtok_ex_def)
  then show ?thesis by (simp add: vtok_ex_def)
qed

definition ring_used_ex :: AntiReplay where
  "ring_used_ex = \<lparr>ring = [\<lparr>re_jti = zeros 16, re_exp = 1060, re_live = True\<rparr>, zeroEntry], head = 0, count = 1,
     seen = {zeros 16}, ar_tripped = False\<rparr>"

definition allowed_ex :: Decision where
  "allowed_ex = \<lparr>Allow = True, Reason = ReasonOK, DecToken = Some vtok_ex, DecJTI = JTI vtok_ex,
     LeafWritten = False, LeafErr = None\<rparr>"

lemma ring_used_purged: "purgeHead ring_used_ex 1061 =
    \<lparr>ring = [zeroEntry, zeroEntry], head = 1, count = 0, seen = {}, ar_tripped = False\<rparr>"
  by (simp add: ring_used_ex_def purgeHead.simps ar_pop_def)

lemma ring_used_forgets: "\<exists>c. CheckAndConsume ring_used_ex 1061 (zeros 16) 1060 = (True, [], c)"
  unfolding CheckAndConsume_def ring_used_purged by (simp add: Let_def)

lemma first_decide_ex: "decide codec_ex validator_ex pep_ex ''tok'' req_ex (of_unix 1005) 1005 (Some 3) =
    (allowed_ex, [], ring_used_ex)"
  using decide_admissible [OF admissible_ex [where c = ring_ex and r = reg_ex and t = 1005], of 1005]
  by (simp add: pep_ex_frame ring_ex_accepts pep_ex_def) (simp add: vtok_ex_def allowed_ex_def ring_used_ex_def)

lemma second_decide_ex: "\<exists>c. decide codec_ex validator_ex (pep_ex\<lparr>pp_replay := ring_used_ex, pp_reg := r\<rparr>) ''tok'' req_ex
    (of_unix 1060) 1061 (Some 3) = (allowed_ex, [], c)"
  using decide_admissible [OF admissible_ex [where c = ring_used_ex and r = r and t = 1060], of 1061] ring_used_forgets
  by (auto simp: vtok_ex_def allowed_ex_def)

lemma ValidateAt_ex:
  assumes "decide codec_ex validator_ex s ''tok'' req_ex (of_unix t) cnow (Some 3) = (allowed_ex, [], c)"
    and "pp_reg s = reg_ex\<lparr>rg_log := lg\<rparr>" and "1000 \<le> t" "t \<le> 1060"
  shows "\<exists>lg'. ValidateAt codec_ex (\<lambda>b. zeros 32) validator_ex s ''tok'' req_ex (of_unix t) cnow (Some 3) =
    (allowed_ex\<lparr>LeafWritten := True\<rparr>, [], s\<lparr>pp_replay := c, pp_reg := reg_ex\<lparr>rg_log := lg'\<rparr>\<rparr>)"
proof -
  have "of_unix t \<noteq> 0" "int64 (of_unix t)" using assms(3,4) by (auto simp: of_unix_def second_def int64_def)
  then show ?thesis using assms(1,2) by (auto simp: ValidateAt_def writes_ex reg_ex_def)
qed


end
