(* ===== verification/Plan_Contract.thy ===== *)
theory Plan_Contract
  imports Registry Validator
begin

text \<open>
  Arbitration as a contract (\<open>src/src/pep/plan_contract.go\<close>): the seal of a plan, the messages
  operators sign, the binding presented at execution, and the store of plans with submission,
  approval by distinct operators, revocation, ordered consumption of steps, expiry and bounded
  memory.  Each operation of the store takes the registry and the store and returns them with
  the alarms and the result.  SHA-256 is the parameter \<open>sha\<close>, Ed25519 verification \<open>edv\<close>.
\<close>

subsection \<open>Constants, steps and seals\<close>

definition MaxPlanSteps :: nat where "MaxPlanSteps = 64"
definition MaxPlanApprovalSignatures :: nat where "MaxPlanApprovalSignatures = 64"
definition MaxPlanParamsBytes :: nat where "MaxPlanParamsBytes = 4096"
definition maxPlanActionLen :: nat where "maxPlanActionLen = 255"
definition maxPlanSubjectLen :: nat where "maxPlanSubjectLen = 255"
definition maxPlanResourceLen :: nat where "maxPlanResourceLen = 1024"
definition DefaultMaxPendingPlans :: int where "DefaultMaxPendingPlans = 64"
definition DefaultMaxApprovedPlans :: int where "DefaultMaxApprovedPlans = 64"
definition DefaultMaxTombstones :: int where "DefaultMaxTombstones = 128"
definition DefaultApprovalTTL :: int where "DefaultApprovalTTL = 3600 * second"
definition MinApprovalTTL :: int where "MinApprovalTTL = 60 * second"
definition MaxApprovalTTL :: int where "MaxApprovalTTL = 86400 * second"
definition DefaultPendingTTL :: int where "DefaultPendingTTL = 900 * second"
definition MaxSubmissionTTL :: int where "MaxSubmissionTTL = 600 * second"
definition maxSubmissionReplay :: nat where "maxSubmissionReplay = 1024"

lemmas plan_bounds = MaxPlanSteps_def MaxPlanApprovalSignatures_def MaxPlanParamsBytes_def maxPlanActionLen_def
  maxPlanSubjectLen_def maxPlanResourceLen_def

definition planEventSubmit :: nat where "planEventSubmit = 1"
definition planEventApprove :: nat where "planEventApprove = 2"
definition planEventRefuse :: nat where "planEventRefuse = 3"
definition planEventConsume :: nat where "planEventConsume = 4"
definition planEventExpire :: nat where "planEventExpire = 5"
definition planEventRevoke :: nat where "planEventRevoke = 6"
definition planStepNA :: nat where "planStepNA = 65535"

datatype plan_error =
    ErrPlanSubmissionInvalid | ErrPlanBindingInvalid | ErrPlanUnknown | ErrPlanPending | ErrPlanExpired
  | ErrPlanRevoked | ErrPlanDeviation | ErrPlanSubjectMismatch | ErrPlanRevocationSignature
  | ErrPlanRevocationExpiryInvalid | ErrPlanApprovalExpiryInvalid | ErrPlanApprovalSignature
  | ErrPlanApprovalRole | ErrPlanApprovalSelf | ErrPlanSubmissionUnsigned | ErrPlanSubmissionSignature
  | ErrPlanSubmissionRole | ErrPlanSubmissionExpiryInvalid | ErrPlanSubmissionReplayed
  | ErrPlanRevocationRole | ErrPlanApprovalQuorum | ErrPlanApprovalDuplicateSigner
  | ErrPlanApprovalUnreachable | ErrPlanStoreSaturated | ErrPlanStoreFault

record PlanStep =
  st_Action :: string
  st_Resource :: string
  st_ParamsHash :: bytes

definition HashParams :: "(bytes \<Rightarrow> bytes) \<Rightarrow> bytes \<Rightarrow> bytes" where
  "HashParams sha params = sha params"

text \<open>The canonical form of one step, and of the ordered list of steps.\<close>

definition stepBytes :: "PlanStep \<Rightarrow> bytes" where
  "stepBytes st = lp 1 (st_Action st) @ lp 2 (st_Resource st) @ st_ParamsHash st"

definition stepsBytes :: "PlanStep list \<Rightarrow> bytes" where
  "stepsBytes steps = be 2 (length steps) @ concat (map stepBytes steps)"

definition planPreimage :: "string \<Rightarrow> string \<Rightarrow> time \<Rightarrow> bytes \<Rightarrow> PlanStep list \<Rightarrow> bytes" where
  "planPreimage cellID subject submittedAt policyID steps =
     ''TBPC2'' @ lp 1 cellID @ lp 1 subject @ be64 (unix submittedAt) @ policyID @ stepsBytes steps"

definition HashPlan ::
  "(bytes \<Rightarrow> bytes) \<Rightarrow> string \<Rightarrow> string \<Rightarrow> time \<Rightarrow> bytes \<Rightarrow> PlanStep list \<Rightarrow> bytes" where
  "HashPlan sha cellID subject submittedAt policyID steps =
     sha (planPreimage cellID subject submittedAt policyID steps)"

definition ApprovalMessage :: "bytes \<Rightarrow> time \<Rightarrow> bytes" where
  "ApprovalMessage planHash expiry = ''TBPA1'' @ planHash @ be64 (unix expiry)"

definition RevocationMessage :: "bytes \<Rightarrow> time \<Rightarrow> bytes" where
  "RevocationMessage planHash expiry = ''TBPR1'' @ planHash @ be64 (unix expiry)"

definition SubmissionContentHash :: "(bytes \<Rightarrow> bytes) \<Rightarrow> string \<Rightarrow> string \<Rightarrow> PlanStep list \<Rightarrow> bytes" where
  "SubmissionContentHash sha cellID subject steps =
     sha (''TBPS1c'' @ lp 1 cellID @ lp 1 subject @ stepsBytes steps)"

definition SubmissionMessage :: "(bytes \<Rightarrow> bytes) \<Rightarrow> string \<Rightarrow> string \<Rightarrow> PlanStep list \<Rightarrow> time \<Rightarrow> bytes" where
  "SubmissionMessage sha cellID subject steps expiry =
     ''TBPS1'' @ SubmissionContentHash sha cellID subject steps @ be64 (unix expiry)"

definition BuildBinding :: "bytes \<Rightarrow> bytes \<Rightarrow> bytes option" where
  "BuildBinding planHash params =
     (if length params > MaxPlanParamsBytes then None
      else Some (''TBPB1'' @ planHash @ be 2 (length params) @ params))"

text \<open>The hash is returned even when the tail is wrong, for the refusal's leaf.\<close>

definition parseBinding :: "bytes \<Rightarrow> bytes \<times> bytes option" where
  "parseBinding binding =
     (if length binding < 39 \<or> take 5 binding \<noteq> ''TBPB1'' then (zeros 32, None)
      else let planHash = take 32 (drop 5 binding); n = unbe (take 2 (drop 37 binding))
           in if length binding \<noteq> 39 + n \<or> n > MaxPlanParamsBytes then (planHash, None)
              else (planHash, Some (drop 39 binding)))"

definition ValidatePlan :: "string \<Rightarrow> PlanStep list \<Rightarrow> bool" where
  "ValidatePlan subject steps \<longleftrightarrow>
     1 \<le> length subject \<and> length subject \<le> maxPlanSubjectLen \<and>
     1 \<le> length steps \<and> length steps \<le> MaxPlanSteps \<and>
     list_all (\<lambda>st. 1 \<le> length (st_Action st) \<and> length (st_Action st) \<le> maxPlanActionLen \<and>
       1 \<le> length (st_Resource st) \<and> length (st_Resource st) \<le> maxPlanResourceLen) steps"

subsection \<open>The store\<close>

datatype plan_status = PlanPending | PlanApproved | PlanRevoked

record planEntry =
  pe_subject :: string
  pe_steps :: "PlanStep list"
  pe_submittedAt :: time
  pe_expiresAt :: time
  pe_status :: plan_status
  pe_required :: int
  pe_submitter :: "bytes option"
  pe_cursor :: nat
  pe_expired :: bool

record ContractStore =
  cs_cellID :: string
  cs_policyID :: bytes
  cs_operatorKeys :: "bytes list"
  cs_approverKeys :: "bytes list"
  cs_revokerKeys :: "bytes list"
  cs_submitterKeys :: "bytes list"
  cs_separate :: bool
  cs_submissions :: "(bytes, time) gomap"
  cs_approvalsReq :: "(string \<Rightarrow> int) option"
  cs_distinctKeys :: int
  cs_salt :: bytes
  cs_maxPending :: int
  cs_maxApproved :: int
  cs_maxTombstones :: int
  cs_approvalTTL :: int
  cs_pendingTTL :: int
  cs_plans :: "(bytes, planEntry) gomap"

definition countDistinctKeys :: "(bytes \<Rightarrow> bytes) \<Rightarrow> bytes list \<Rightarrow> int" where
  "countDistinctKeys sha keys = int (length (remdups (map (KeyIDFromPublicKey sha) keys)))"

definition roleKeys :: "(bytes \<Rightarrow> bytes) \<Rightarrow> bytes list option \<Rightarrow> bytes list \<Rightarrow> bytes list option" where
  "roleKeys sha chosen all =
     (case chosen of None \<Rightarrow> Some all
      | Some ks \<Rightarrow>
          if ks = [] then None
          else if list_all (\<lambda>k. KeyIDFromPublicKey sha k \<in> KeyIDFromPublicKey sha ` set all) ks then Some ks
          else None)"

record ContractOptions =
  co_CellID :: string
  co_PolicyID :: bytes
  co_OperatorKeys :: "bytes list"
  co_ApproverKeys :: "bytes list option"
  co_RevokerKeys :: "bytes list option"
  co_SubmitterKeys :: "bytes list option"
  co_SeparateDuties :: bool
  co_ApprovalsRequired :: "(string \<Rightarrow> int) option"
  co_Salt :: bytes
  co_MaxPending :: int
  co_MaxApproved :: int
  co_MaxTombstones :: int
  co_ApprovalTTL :: int
  co_PendingTTL :: int

definition or_default :: "int \<Rightarrow> int \<Rightarrow> int" where
  "or_default x d = (if x = 0 then d else x)"

definition NewContractStore :: "(bytes \<Rightarrow> bytes) \<Rightarrow> ContractOptions \<Rightarrow> ContractStore option" where
  "NewContractStore sha opts =
     (let maxPending = or_default (co_MaxPending opts) DefaultMaxPendingPlans;
          maxApproved = or_default (co_MaxApproved opts) DefaultMaxApprovedPlans;
          maxTombstones = or_default (co_MaxTombstones opts) DefaultMaxTombstones;
          approvalTTL = or_default (co_ApprovalTTL opts) DefaultApprovalTTL;
          pendingTTL = or_default (co_PendingTTL opts) DefaultPendingTTL;
          keys = co_OperatorKeys opts
      in if co_CellID opts = [] \<or> length (co_CellID opts) > maxPlanActionLen then None
         else if length keys = 0 then None
         else if \<not> list_all (\<lambda>k. length k = PublicKeySize) keys then None
         else if length (co_Salt opts) < 16 then None
         else if maxPending < 0 \<or> maxApproved < 0 then None
         else if maxTombstones < 0 then None
         else if approvalTTL < MinApprovalTTL \<or> approvalTTL > MaxApprovalTTL then None
         else if pendingTTL < MinApprovalTTL \<or> pendingTTL > MaxApprovalTTL then None
         else case roleKeys sha (co_ApproverKeys opts) keys of None \<Rightarrow> None | Some approvers \<Rightarrow>
         (case roleKeys sha (co_RevokerKeys opts) keys of None \<Rightarrow> None | Some revokers \<Rightarrow>
         (case roleKeys sha (co_SubmitterKeys opts) keys of None \<Rightarrow> None | Some submitters \<Rightarrow>
           Some \<lparr>cs_cellID = co_CellID opts, cs_policyID = co_PolicyID opts, cs_operatorKeys = keys,
             cs_approverKeys = approvers, cs_revokerKeys = revokers, cs_submitterKeys = submitters,
             cs_separate = co_SeparateDuties opts, cs_submissions = [],
             cs_approvalsReq = co_ApprovalsRequired opts, cs_distinctKeys = countDistinctKeys sha approvers,
             cs_salt = co_Salt opts, cs_maxPending = maxPending, cs_maxApproved = maxApproved,
             cs_maxTombstones = maxTombstones, cs_approvalTTL = approvalTTL, cs_pendingTTL = pendingTTL,
             cs_plans = []\<rparr>)))"

fun signedBy ::
  "(bytes \<Rightarrow> bytes) \<Rightarrow> (bytes \<Rightarrow> bytes \<Rightarrow> bytes \<Rightarrow> bool) \<Rightarrow> bytes list \<Rightarrow> bytes \<Rightarrow> bytes \<Rightarrow> bytes option" where
  "signedBy sha edv [] msg sig = None"
| "signedBy sha edv (pub # keys) msg sig =
     (if edv pub msg sig then Some (KeyIDFromPublicKey sha pub) else signedBy sha edv keys msg sig)"

subsection \<open>Leaves of the store\<close>

definition contractRecord :: "nat \<Rightarrow> bytes \<Rightarrow> nat \<Rightarrow> nat \<Rightarrow> string \<Rightarrow> bytes" where
  "contractRecord event planHash step verdict reason =
     ''TBPL1'' @ [byte event] @ planHash @ be 2 step @ [byte verdict, byte (length reason)] @ reason"

definition signedRecord :: "nat \<Rightarrow> bytes \<Rightarrow> bytes \<Rightarrow> time \<Rightarrow> bytes \<Rightarrow> bytes" where
  "signedRecord event planHash kid expiry sig =
     ''TBPL2'' @ [byte event] @ planHash @ be 2 planStepNA @ [byte 1, byte 2] @ ''ok'' @ kid @
     be64 (unix expiry) @ sig"

definition cs_append ::
  "(bytes \<Rightarrow> bytes) \<Rightarrow> registry \<Rightarrow> ContractStore \<Rightarrow> bytes \<Rightarrow> time \<Rightarrow> registry \<times> bool" where
  "cs_append sha r s record now =
     (case AppendLeaf sha r KindContract (cs_cellID s) (cs_salt s) record (unix_nano now) of
        (r', Inl e) \<Rightarrow> (r', False) | (r', Inr i) \<Rightarrow> (r', True))"

abbreviation (input) storeFault :: string where "storeFault \<equiv> ''plan-store-fault''"
abbreviation (input) storeSaturated :: string where "storeSaturated \<equiv> ''plan-store-saturated''"

text \<open>A refusal of any operation: its leaf, then its error, or a store fault if the leaf failed.\<close>

definition cs_refuse ::
  "(bytes \<Rightarrow> bytes) \<Rightarrow> registry \<Rightarrow> ContractStore \<Rightarrow> nat \<Rightarrow> bytes \<Rightarrow> nat \<Rightarrow> string \<Rightarrow> plan_error \<Rightarrow> time
     \<Rightarrow> registry \<times> string list \<times> plan_error" where
  "cs_refuse sha r s event planHash step reason err now =
     (case cs_append sha r s (contractRecord event planHash step 0 reason) now of
        (r', True) \<Rightarrow> (r', [], err) | (r', False) \<Rightarrow> (r', [storeFault], ErrPlanStoreFault))"

subsection \<open>Expiry and eviction\<close>

fun expire_loop ::
  "(bytes \<Rightarrow> bytes) \<Rightarrow> ContractStore \<Rightarrow> time \<Rightarrow> registry \<Rightarrow> (bytes, planEntry) gomap
     \<Rightarrow> registry \<times> (bytes, planEntry) gomap \<times> string list" where
  "expire_loop sha s now r [] = (r, [], [])"
| "expire_loop sha s now r ((h, e) # ps) =
     (if pe_expired e \<or> \<not> now > pe_expiresAt e
      then let (r', ps', al) = expire_loop sha s now r ps in (r', (h, e) # ps', al)
      else case cs_append sha r s (contractRecord planEventExpire h planStepNA 1 ''ok'') now of
        (r1, False) \<Rightarrow>
          let (r', ps', al) = expire_loop sha s now r1 ps in (r', (h, e) # ps', storeFault # al)
      | (r1, True) \<Rightarrow>
          let (r', ps', al) = expire_loop sha s now r1 ps in (r', (h, e\<lparr>pe_expired := True\<rparr>) # ps', al))"

definition is_tomb :: "planEntry \<Rightarrow> bool" where
  "is_tomb e \<longleftrightarrow> pe_expired e \<or> pe_status e = PlanRevoked"

definition evictTombstones :: "int \<Rightarrow> (bytes, planEntry) gomap \<Rightarrow> (bytes, planEntry) gomap" where
  "evictTombstones mx plans =
     (let tombs = filter (\<lambda>(h, e). is_tomb e) plans
      in if int (length tombs) \<le> mx then plans
         else let sorted = sort_key (\<lambda>(h, e). pe_submittedAt e) tombs;
                  gone = map fst (take (length tombs - nat mx) sorted)
              in filter (\<lambda>(h, e). h \<notin> set gone) plans)"

definition expireLocked ::
  "(bytes \<Rightarrow> bytes) \<Rightarrow> registry \<Rightarrow> ContractStore \<Rightarrow> time \<Rightarrow> registry \<times> ContractStore \<times> string list" where
  "expireLocked sha r s now =
     (let (r', ps, al) = expire_loop sha s now r (cs_plans s)
      in (r', s\<lparr>cs_plans := evictTombstones (cs_maxTombstones s) ps\<rparr>, al))"

definition countStatus :: "ContractStore \<Rightarrow> plan_status \<Rightarrow> int" where
  "countStatus s st = int (length (filter (\<lambda>(h, e). pe_status e = st \<and> \<not> pe_expired e) (cs_plans s)))"

subsection \<open>Submission\<close>

record signedSubmission =
  ss_kid :: bytes
  ss_expiry :: time
  ss_sig :: bytes

definition approversApartFrom :: "(bytes \<Rightarrow> bytes) \<Rightarrow> ContractStore \<Rightarrow> signedSubmission option \<Rightarrow> int" where
  "approversApartFrom sha s sub =
     (case sub of None \<Rightarrow> cs_distinctKeys s
      | Some x \<Rightarrow> int (length (remdups (filter (\<lambda>kid. kid \<noteq> ss_kid x)
                    (map (KeyIDFromPublicKey sha) (cs_approverKeys s))))))"

definition required_approvals :: "ContractStore \<Rightarrow> string \<Rightarrow> int" where
  "required_approvals s subject =
     (case cs_approvalsReq s of None \<Rightarrow> 1 | Some f \<Rightarrow> if f subject > 1 then f subject else 1)"

type_synonym 'a contract_result = "registry \<times> ContractStore \<times> string list \<times> (plan_error + 'a)"

definition submitLocked ::
  "(bytes \<Rightarrow> bytes) \<Rightarrow> registry \<Rightarrow> ContractStore \<Rightarrow> string \<Rightarrow> PlanStep list \<Rightarrow> signedSubmission option \<Rightarrow> time
     \<Rightarrow> bytes contract_result" where
  "submitLocked sha r s subject steps sub now =
     (let hash = HashPlan sha (cs_cellID s) subject now (cs_policyID s) steps;
          required = required_approvals s subject
      in if required > approversApartFrom sha s sub
         then let (r', al, err) = cs_refuse sha r s planEventSubmit hash (length steps)
                    ''plan-approval-unreachable'' ErrPlanApprovalUnreachable now
              in (r', s, al, Inl err)
         else if map_of (cs_plans s) hash = None \<and> countStatus s PlanPending \<ge> cs_maxPending s
         then (r, s, [storeSaturated], Inl ErrPlanStoreSaturated)
         else case cs_append sha r s (case sub of
                 Some x \<Rightarrow> signedRecord planEventSubmit hash (ss_kid x) (ss_expiry x) (ss_sig x)
               | None \<Rightarrow> contractRecord planEventSubmit hash (length steps) 1 ''ok'') now of
             (r', False) \<Rightarrow> (r', s, [storeFault], Inl ErrPlanStoreFault)
           | (r', True) \<Rightarrow>
               if map_of (cs_plans s) hash \<noteq> None then (r', s, [], Inr hash)
               else (r', s\<lparr>cs_plans := put hash
                      \<lparr>pe_subject = subject, pe_steps = steps, pe_submittedAt = now,
                       pe_expiresAt = now + cs_pendingTTL s, pe_status = PlanPending, pe_required = required,
                       pe_submitter = (case sub of None \<Rightarrow> None | Some x \<Rightarrow> Some (ss_kid x)),
                       pe_cursor = 0, pe_expired = False\<rparr> (cs_plans s)\<rparr>, [], Inr hash))"

definition refuseSubmission ::
  "(bytes \<Rightarrow> bytes) \<Rightarrow> registry \<Rightarrow> ContractStore \<Rightarrow> string \<Rightarrow> PlanStep list \<Rightarrow> string \<Rightarrow> plan_error \<Rightarrow> time
     \<Rightarrow> bytes contract_result" where
  "refuseSubmission sha r s subject steps reason err now =
     (let hash = HashPlan sha (cs_cellID s) subject now (cs_policyID s) steps;
          (r', al, err') = cs_refuse sha r s planEventSubmit hash (length steps) reason err now
      in (r', s, al, Inl err'))"

text \<open>What \<open>expireLocked\<close> raised precedes what the operation raises.\<close>

definition raising :: "string list \<Rightarrow> 'a contract_result \<Rightarrow> 'a contract_result" where
  "raising al0 x = (case x of (r, s, al, res) \<Rightarrow> (r, s, al0 @ al, res))"

definition Submit ::
  "(bytes \<Rightarrow> bytes) \<Rightarrow> registry \<Rightarrow> ContractStore \<Rightarrow> string \<Rightarrow> PlanStep list \<Rightarrow> time \<Rightarrow> bytes contract_result" where
  "Submit sha r0 s0 subject steps now =
     (if \<not> ValidatePlan subject steps then (r0, s0, [], Inl ErrPlanSubmissionInvalid)
      else let (r, s, al0) = expireLocked sha r0 s0 now
           in raising al0
             (if cs_separate s
              then refuseSubmission sha r s subject steps ''plan-submission-unsigned'' ErrPlanSubmissionUnsigned now
              else submitLocked sha r s subject steps None now))"

definition purge_submissions :: "ContractStore \<Rightarrow> time \<Rightarrow> ContractStore" where
  "purge_submissions s now = s\<lparr>cs_submissions := filter (\<lambda>(d, until). now < until) (cs_submissions s)\<rparr>"

definition SubmitSigned ::
  "(bytes \<Rightarrow> bytes) \<Rightarrow> (bytes \<Rightarrow> bytes \<Rightarrow> bytes \<Rightarrow> bool) \<Rightarrow> registry \<Rightarrow> ContractStore \<Rightarrow> string \<Rightarrow> PlanStep list
     \<Rightarrow> time \<Rightarrow> bytes \<Rightarrow> time \<Rightarrow> bytes contract_result" where
  "SubmitSigned sha edv r0 s0 subject steps expiry sig now =
     (if \<not> ValidatePlan subject steps then (r0, s0, [], Inl ErrPlanSubmissionInvalid)
      else let (r, s, al0) = expireLocked sha r0 s0 now; ttl = time_sub expiry now;
               msg = SubmissionMessage sha (cs_cellID s) subject steps expiry
        in raising al0
          (if ttl \<le> 0 \<or> ttl > MaxSubmissionTTL
           then refuseSubmission sha r s subject steps ''plan-submission-expiry-invalid'' ErrPlanSubmissionExpiryInvalid now
           else case signedBy sha edv (cs_submitterKeys s) msg sig of
             None \<Rightarrow>
               if signedBy sha edv (cs_operatorKeys s) msg sig \<noteq> None
               then refuseSubmission sha r s subject steps ''plan-submission-role-denied'' ErrPlanSubmissionRole now
               else refuseSubmission sha r s subject steps ''plan-submission-signature-invalid'' ErrPlanSubmissionSignature now
           | Some kid \<Rightarrow>
               let s1 = purge_submissions s now; digest = sha msg
               in if map_of (cs_submissions s1) digest \<noteq> None
                  then refuseSubmission sha r s1 subject steps ''plan-submission-replayed'' ErrPlanSubmissionReplayed now
                  else if length (cs_submissions s1) \<ge> maxSubmissionReplay
                  then (r, s1, [storeSaturated], Inl ErrPlanStoreSaturated)
                  else case submitLocked sha r s1 subject steps
                        (Some \<lparr>ss_kid = kid, ss_expiry = expiry, ss_sig = sig\<rparr>) now of
                      (r', s', al, Inl err) \<Rightarrow> (r', s', al, Inl err)
                    | (r', s', al, Inr hash) \<Rightarrow>
                        (r', s'\<lparr>cs_submissions := put digest expiry (cs_submissions s')\<rparr>, al, Inr hash)))"

subsection \<open>Approval, revocation, execution\<close>

text \<open>The loop over the signatures of an approval: the first defect, or the approvers in order.\<close>

fun check_approvals ::
  "(bytes \<Rightarrow> bytes) \<Rightarrow> (bytes \<Rightarrow> bytes \<Rightarrow> bytes \<Rightarrow> bool) \<Rightarrow> ContractStore \<Rightarrow> planEntry \<Rightarrow> bytes \<Rightarrow> bytes list
     \<Rightarrow> bytes list \<Rightarrow> (string \<times> plan_error) + bytes list" where
  "check_approvals sha edv s e msg used [] = Inr []"
| "check_approvals sha edv s e msg used (sig # sigs) =
     (case signedBy sha edv (cs_approverKeys s) msg sig of
        None \<Rightarrow>
          if signedBy sha edv (cs_operatorKeys s) msg sig \<noteq> None
          then Inl (''plan-approval-role-denied'', ErrPlanApprovalRole)
          else Inl (''plan-approval-signature-invalid'', ErrPlanApprovalSignature)
      | Some kid \<Rightarrow>
          if pe_submitter e = Some kid then Inl (''plan-approval-self'', ErrPlanApprovalSelf)
          else if kid \<in> set used then Inl (''plan-approval-duplicate-signer'', ErrPlanApprovalDuplicateSigner)
          else case check_approvals sha edv s e msg (kid # used) sigs of
                 Inl x \<Rightarrow> Inl x | Inr kids \<Rightarrow> Inr (kid # kids))"

fun write_approvals ::
  "(bytes \<Rightarrow> bytes) \<Rightarrow> registry \<Rightarrow> ContractStore \<Rightarrow> bytes \<Rightarrow> time \<Rightarrow> (bytes \<times> bytes) list \<Rightarrow> time \<Rightarrow> registry \<times> bool" where
  "write_approvals sha r s planHash expiry [] now = (r, True)"
| "write_approvals sha r s planHash expiry ((kid, sig) # xs) now =
     (case cs_append sha r s (signedRecord planEventApprove planHash kid expiry sig) now of
        (r', False) \<Rightarrow> (r', False) | (r', True) \<Rightarrow> write_approvals sha r' s planHash expiry xs now)"

definition refuseApproval ::
  "(bytes \<Rightarrow> bytes) \<Rightarrow> registry \<Rightarrow> ContractStore \<Rightarrow> nat \<Rightarrow> bytes \<Rightarrow> nat \<Rightarrow> string \<Rightarrow> plan_error \<Rightarrow> time \<Rightarrow> 'a contract_result" where
  "refuseApproval sha r s event planHash step reason err now =
     (case cs_refuse sha r s event planHash step reason err now of (r', al, err') \<Rightarrow> (r', s, al, Inl err'))"

definition ApproveAll ::
  "(bytes \<Rightarrow> bytes) \<Rightarrow> (bytes \<Rightarrow> bytes \<Rightarrow> bytes \<Rightarrow> bool) \<Rightarrow> registry \<Rightarrow> ContractStore \<Rightarrow> bytes \<Rightarrow> time \<Rightarrow> bytes list
     \<Rightarrow> time \<Rightarrow> unit contract_result" where
  "ApproveAll sha edv r0 s0 planHash expiry sigs now =
     (let (r, s, al0) = expireLocked sha r0 s0 now;
          refuse = (\<lambda>reason err. refuseApproval sha r s planEventApprove planHash planStepNA reason err now)
      in raising al0
        (case map_of (cs_plans s) planHash of None \<Rightarrow> refuse ''plan-unknown'' ErrPlanUnknown
         | Some e \<Rightarrow>
           if pe_expired e then refuse ''plan-expired'' ErrPlanExpired
           else if pe_status e \<noteq> PlanPending then refuse ''plan-unknown'' ErrPlanUnknown
           else if time_sub expiry now < MinApprovalTTL \<or> time_sub expiry now > cs_approvalTTL s
           then refuse ''plan-approval-expiry-invalid'' ErrPlanApprovalExpiryInvalid
           else if length sigs = 0 \<or> length sigs > MaxPlanApprovalSignatures
           then refuse ''plan-approval-signature-invalid'' ErrPlanApprovalSignature
           else case check_approvals sha edv s e (ApprovalMessage planHash expiry) [] sigs of
             Inl (reason, err) \<Rightarrow> refuse reason err
           | Inr approvers \<Rightarrow>
               if int (length approvers) < pe_required e
               then refuse ''plan-approval-quorum-insufficient'' ErrPlanApprovalQuorum
               else if countStatus s PlanApproved \<ge> cs_maxApproved s
               then raising [storeSaturated] (refuse ''plan-store-saturated'' ErrPlanStoreSaturated)
               else case write_approvals sha r s planHash expiry (zip approvers sigs) now of
                   (r', False) \<Rightarrow> (r', s, [storeFault], Inl ErrPlanStoreFault)
                 | (r', True) \<Rightarrow>
                     (r', s\<lparr>cs_plans := put planHash
                        (e\<lparr>pe_status := PlanApproved, pe_expiresAt := expiry, pe_cursor := 0\<rparr>) (cs_plans s)\<rparr>,
                      [], Inr ())))"

definition Approve ::
  "(bytes \<Rightarrow> bytes) \<Rightarrow> (bytes \<Rightarrow> bytes \<Rightarrow> bytes \<Rightarrow> bool) \<Rightarrow> registry \<Rightarrow> ContractStore \<Rightarrow> bytes \<Rightarrow> time \<Rightarrow> bytes
     \<Rightarrow> time \<Rightarrow> unit contract_result" where
  "Approve sha edv r s planHash expiry sig now = ApproveAll sha edv r s planHash expiry [sig] now"

definition Revoke ::
  "(bytes \<Rightarrow> bytes) \<Rightarrow> (bytes \<Rightarrow> bytes \<Rightarrow> bytes \<Rightarrow> bool) \<Rightarrow> registry \<Rightarrow> ContractStore \<Rightarrow> bytes \<Rightarrow> time \<Rightarrow> bytes
     \<Rightarrow> time \<Rightarrow> unit contract_result" where
  "Revoke sha edv r0 s0 planHash expiry sig now =
     (let (r, s, al0) = expireLocked sha r0 s0 now;
          refuse = (\<lambda>reason err. refuseApproval sha r s planEventRevoke planHash planStepNA reason err now);
          msg = RevocationMessage planHash expiry
      in raising al0
        (case map_of (cs_plans s) planHash of None \<Rightarrow> refuse ''plan-unknown'' ErrPlanUnknown
         | Some e \<Rightarrow>
           if pe_status e = PlanRevoked \<or> pe_expired e then refuse ''plan-unknown'' ErrPlanUnknown
           else if time_sub expiry now \<le> 0 \<or> time_sub expiry now > cs_approvalTTL s
           then refuse ''plan-revocation-expiry-invalid'' ErrPlanRevocationExpiryInvalid
           else case signedBy sha edv (cs_revokerKeys s) msg sig of
             None \<Rightarrow>
               if signedBy sha edv (cs_operatorKeys s) msg sig \<noteq> None
               then refuse ''plan-revocation-role-denied'' ErrPlanRevocationRole
               else refuse ''plan-revocation-signature-invalid'' ErrPlanRevocationSignature
           | Some kid \<Rightarrow>
               (case cs_append sha r s (signedRecord planEventRevoke planHash kid expiry sig) now of
                  (r', False) \<Rightarrow> (r', s, [storeFault], Inl ErrPlanStoreFault)
                | (r', True) \<Rightarrow>
                    (r', s\<lparr>cs_plans := put planHash (e\<lparr>pe_status := PlanRevoked\<rparr>) (cs_plans s)\<rparr>, [], Inr ()))))"

definition VerifyStep ::
  "(bytes \<Rightarrow> bytes) \<Rightarrow> registry \<Rightarrow> ContractStore \<Rightarrow> string \<Rightarrow> bytes \<Rightarrow> string \<Rightarrow> string \<Rightarrow> time \<Rightarrow> bytes contract_result" where
  "VerifyStep sha r0 s0 subject binding action resource now =
     (let (r, s, al0) = expireLocked sha r0 s0 now; (planHash, parsed) = parseBinding binding;
          refuse = (\<lambda>step reason err. refuseApproval sha r s planEventRefuse planHash step reason err now)
      in raising al0
        (case parsed of None \<Rightarrow> refuse planStepNA ''plan-binding-invalid'' ErrPlanBindingInvalid
         | Some params \<Rightarrow>
           (case map_of (cs_plans s) planHash of None \<Rightarrow> refuse planStepNA ''plan-unknown'' ErrPlanUnknown
            | Some e \<Rightarrow>
              if subject \<noteq> pe_subject e then refuse planStepNA ''plan-subject-mismatch'' ErrPlanSubjectMismatch
              else if pe_expired e then refuse planStepNA ''plan-expired'' ErrPlanExpired
              else let step = (if pe_cursor e < length (pe_steps e) then pe_cursor e else planStepNA)
              in if pe_status e = PlanPending then refuse step ''plan-pending'' ErrPlanPending
                 else if pe_status e = PlanRevoked then refuse step ''plan-revoked'' ErrPlanRevoked
                 else if pe_cursor e \<ge> length (pe_steps e) then refuse planStepNA ''plan-deviation'' ErrPlanDeviation
                 else let want = pe_steps e ! pe_cursor e
                 in if action \<noteq> st_Action want \<or> resource \<noteq> st_Resource want \<or> HashParams sha params \<noteq> st_ParamsHash want
                    then refuse step ''plan-deviation'' ErrPlanDeviation
                    else case cs_append sha r s (contractRecord planEventConsume planHash step 1 ''ok'') now of
                        (r', False) \<Rightarrow> (r', s, [storeFault], Inl ErrPlanStoreFault)
                      | (r', True) \<Rightarrow>
                          (r', s\<lparr>cs_plans := put planHash (e\<lparr>pe_cursor := pe_cursor e + 1\<rparr>) (cs_plans s)\<rparr>,
                           [], Inr planHash))))"

record PendingPlan =
  pp_Hash :: bytes
  pp_Subject :: string
  pp_SubmittedAt :: time
  pp_ExpiresAt :: time
  pp_Steps :: nat

definition cs_Snapshot :: "ContractStore \<Rightarrow> time \<Rightarrow> PendingPlan list" where
  "cs_Snapshot s now =
     sort_key (\<lambda>p. (pp_SubmittedAt p, pp_Hash p))
       (map (\<lambda>(h, e). \<lparr>pp_Hash = h, pp_Subject = pe_subject e, pp_SubmittedAt = pe_submittedAt e,
                       pp_ExpiresAt = pe_expiresAt e, pp_Steps = length (pe_steps e)\<rparr>)
         (filter (\<lambda>(h, e). pe_status e = PlanPending \<and> \<not> pe_expired e \<and> now < pe_expiresAt e) (cs_plans s)))"

subsection \<open>The seal binds the plan\<close>

definition sized_step :: "PlanStep \<Rightarrow> bool" where
  "sized_step st \<longleftrightarrow> length (st_Action st) < 256 \<and> length (st_Resource st) < 65536 \<and> length (st_ParamsHash st) = 32"

lemma stepBytes_append_eq:
  "sized_step st \<Longrightarrow> sized_step st' \<Longrightarrow> stepBytes st @ r = stepBytes st' @ q \<longleftrightarrow> st = st' \<and> r = q"
  by (auto simp: stepBytes_def sized_step_def lp_append_eq_iff append_fixed_eq_iff)

lemma concat_stepBytes_eq:
  assumes "length xs = length ys" "list_all sized_step xs" "list_all sized_step ys"
    and "concat (map stepBytes xs) = concat (map stepBytes ys)"
  shows "xs = ys"
  using assms by (induction xs ys rule: list_induct2) (auto simp: stepBytes_append_eq)

lemma stepsBytes_eq:
  assumes "length xs < 65536" "length ys < 65536" "list_all sized_step xs" "list_all sized_step ys"
    and "stepsBytes xs = stepsBytes ys"
  shows "xs = ys"
proof -
  from assms(5) have "be 2 (length xs) = be 2 (length ys)" and c: "concat (map stepBytes xs) = concat (map stepBytes ys)"
    by (auto simp: stepsBytes_def append_fixed_eq_iff)
  with assms(1,2) have "length xs = length ys" by (simp add: be_eq_iff)
  with assms(3,4) c show ?thesis by (intro concat_stepBytes_eq)
qed

lemma ValidatePlan_sized:
  "ValidatePlan subject steps \<Longrightarrow> list_all (\<lambda>st. length (st_ParamsHash st) = 32) steps \<Longrightarrow>
     length subject < 256 \<and> length steps < 65536 \<and> list_all sized_step steps"
  by (auto simp: ValidatePlan_def plan_bounds sized_step_def list_all_iff)

lemma parse_BuildBinding:
  assumes "length h = 32" and "BuildBinding h p = Some b"
  shows "parseBinding b = (h, Some p)"
proof -
  from assms(2) have b: "b = ''TBPB1'' @ h @ be 2 (length p) @ p" and p: "length p \<le> 4096"
    by (auto simp: BuildBinding_def plan_bounds split: if_splits)
  have "drop 5 b = h @ be 2 (length p) @ p" by (simp add: b)
  moreover have "drop 37 b = be 2 (length p) @ p" using assms(1) by (simp add: b)
  moreover have "drop 39 b = p" using assms(1) by (simp add: b)
  moreover have "take 5 b = ''TBPB1''" by (simp add: b)
  moreover have "unbe (be 2 (length p)) = length p" using p by (simp add: unbe_be)
  ultimately show ?thesis
    using assms(1) p by (simp add: parseBinding_def Let_def plan_bounds) (simp add: b)
qed

lemma parseBinding_ok:
  assumes "parseBinding b = (h, Some p)"
  shows "length h = 32 \<and> BuildBinding h p = Some b"
proof -
  define k where "k = unbe (take 2 (drop 37 b))"
  have parse: "parseBinding b = (if length b < 39 \<or> take 5 b \<noteq> ''TBPB1'' then (zeros 32, None)
      else if length b \<noteq> 39 + k \<or> k > 4096 then (take 32 (drop 5 b), None)
      else (take 32 (drop 5 b), Some (drop 39 b)))"
    unfolding parseBinding_def Let_def k_def plan_bounds by (rule refl)
  from assms have len: "39 \<le> length b" and magic: "take 5 b = ''TBPB1''" and h: "h = take 32 (drop 5 b)"
    and p: "p = drop 39 b" and n: "length b = 39 + k" "k \<le> 4096"
    unfolding parse by (auto split: if_splits)
  have lp: "length p = k" using p n(1) by simp
  have "length (take 2 (drop 37 b)) = 2" using len by simp
  then have "be 2 k = take 2 (drop 37 b)" using be_unbe [of "take 2 (drop 37 b)"] by (simp only: k_def)
  moreover have "b = take 5 b @ take 32 (drop 5 b) @ take 2 (drop 37 b) @ drop 39 b"
    using append_take_drop_id [of 5 b] append_take_drop_id [of 32 "drop 5 b"] append_take_drop_id [of 2 "drop 37 b"]
    by simp
  ultimately have "b = ''TBPB1'' @ h @ be 2 (length p) @ p" using magic h p lp by metis
  moreover have "length h = 32" using h len by simp
  ultimately show ?thesis using lp n(2) by (simp add: BuildBinding_def plan_bounds)
qed

subsection \<open>Properties of the encodings\<close>

text \<open>the seal commits to the whole plan.  Two plans accepted for submission have the same
  sealed bytes only if the cell, the agent it is for, the second of submission, the policy and
  every step (action, resource, parameters' hash, in order) are the same.\<close>

lemma plan_seal_binds_plan:
  assumes "length cell < 256" "length cell' < 256" "int64 (unix t)" "int64 (unix t')"
    and "length pol = 32" "length pol' = 32"
    and "ValidatePlan subj steps" "ValidatePlan subj' steps'"
    and "list_all (\<lambda>st. length (st_ParamsHash st) = 32) steps" "list_all (\<lambda>st. length (st_ParamsHash st) = 32) steps'"
    and "planPreimage cell subj t pol steps = planPreimage cell' subj' t' pol' steps'"
  shows "cell = cell' \<and> subj = subj' \<and> unix t = unix t' \<and> pol = pol' \<and> steps = steps'"
proof -
  note z = ValidatePlan_sized [OF assms(7,9)] ValidatePlan_sized [OF assms(8,10)]
  from assms(11) have "lp 1 cell @ lp 1 subj @ be64 (unix t) @ pol @ stepsBytes steps =
      lp 1 cell' @ lp 1 subj' @ be64 (unix t') @ pol' @ stepsBytes steps'"
    by (simp add: planPreimage_def)
  then have "cell = cell'" "subj = subj'" "be64 (unix t) = be64 (unix t')" "pol = pol'"
    "stepsBytes steps = stepsBytes steps'"
    using assms(1,2,5,6) z by (simp_all add: lp_append_eq_iff append_fixed_eq_iff)
  then show ?thesis using assms(3,4) z stepsBytes_eq by (simp add: be64_inj)
qed

definition step_ex :: "string \<Rightarrow> PlanStep" where
  "step_ex a = \<lparr>st_Action = a, st_Resource = ''db'', st_ParamsHash = zeros 32\<rparr>"

text \<open>an operator's signature means one act.  Approval and revocation messages determine the
  plan and the expiry in seconds, and no approval message is a revocation message or a submission
  message, nor a revocation message a submission message.\<close>

lemma operator_messages_bind_act:
  "(ApprovalMessage h e = ApprovalMessage h' e' \<and> length h = 32 \<and> length h' = 32 \<and> int64 (unix e) \<and> int64 (unix e')
      \<longrightarrow> h = h' \<and> unix e = unix e') \<and>
   (RevocationMessage h e = RevocationMessage h' e' \<and> length h = 32 \<and> length h' = 32 \<and> int64 (unix e) \<and> int64 (unix e')
      \<longrightarrow> h = h' \<and> unix e = unix e') \<and>
   ApprovalMessage h e \<noteq> RevocationMessage h' e' \<and>
   ApprovalMessage h e \<noteq> SubmissionMessage sha cell subj steps e' \<and>
   RevocationMessage h e \<noteq> SubmissionMessage sha cell subj steps e'"
  by (auto simp: ApprovalMessage_def RevocationMessage_def SubmissionMessage_def append_fixed_eq_iff be64_inj)

text \<open>the binding an agent presents is read back exactly: parsing a built binding gives its
  plan hash and parameters, and every binding the gate accepts is the one \<open>BuildBinding\<close> builds
  for what was parsed.\<close>

lemma binding_roundtrip:
  "(length h = 32 \<and> BuildBinding h p = Some b) = (parseBinding b = (h, Some p))"
  using parse_BuildBinding parseBinding_ok by blast

end
