(* ===== verification/Plan_Runs.thy ===== *)
theory Plan_Runs
  imports Plan_Contract "HOL-Library.Multiset"
begin

text \<open>
  What the operations of the plan store do to its plans, over any sequence of calls: ageing and
  eviction, then at most one change.  The properties of the contract (ordered consumption,
  approval by distinct operators, revocation, bounded memory) follow from that decomposition.
\<close>

subsection \<open>Ageing\<close>

definition aged :: "time \<Rightarrow> planEntry \<Rightarrow> planEntry \<Rightarrow> bool" where
  "aged now e e' \<longleftrightarrow> e' = e \<or> e' = e\<lparr>pe_expired := True\<rparr> \<and> pe_expiresAt e < now"

lemma expire_loop_keys: "expire_loop sha s now r ps = (r', ps', al) \<Longrightarrow> map fst ps' = map fst ps"
  by (induction sha s now r ps arbitrary: r' ps' al rule: expire_loop.induct)
    (fastforce split: if_splits prod.splits bool.splits)+

lemma expire_loop_aged:
  "expire_loop sha s now r ps = (r', ps', al) \<Longrightarrow>
     list_all2 (\<lambda>x y. fst y = fst x \<and> aged now (snd x) (snd y)) ps ps'"
proof (induction sha s now r ps arbitrary: r' ps' al rule: expire_loop.induct)
  case (1 sha s now r)
  then show ?case by simp
next
  case (2 sha s now r h e ps)
  show ?case
  proof (cases "pe_expired e \<or> \<not> now > pe_expiresAt e")
    case True
    obtain r1 ps1 al1 where "expire_loop sha s now r ps = (r1, ps1, al1)" by (metis prod_cases3)
    with 2 True show ?thesis by (auto simp: aged_def)
  next
    case False
    obtain r1 b where ap: "cs_append sha r s (contractRecord planEventExpire h planStepNA 1 ''ok'') now = (r1, b)"
      by fastforce
    obtain r2 ps2 al2 where lo: "expire_loop sha s now r1 ps = (r2, ps2, al2)" by (metis prod_cases3)
    show ?thesis using 2 False ap lo by (cases b) (auto simp: aged_def)
  qed
qed

lemma list_all2_lookup:
  assumes "list_all2 (\<lambda>x y. fst y = fst x \<and> P (snd x) (snd y)) ps qs"
  shows "(case map_of ps h of None \<Rightarrow> map_of qs h = None | Some e \<Rightarrow> \<exists>e'. map_of qs h = Some e' \<and> P e e')"
  using assms by (induction rule: list_all2_induct) (auto split: option.splits)

lemma evict_lookup:
  assumes "wf_map ps"
  shows "map_of (evictTombstones mx ps) h = Some e \<Longrightarrow> map_of ps h = Some e"
    and "map_of ps h = Some e \<Longrightarrow> \<not> is_tomb e \<Longrightarrow> map_of (evictTombstones mx ps) h = Some e"
proof -
  let ?t = "filter (\<lambda>(h, e). is_tomb e) ps"
  let ?gone = "map fst (take (length ?t - nat mx) (sort_key (\<lambda>(h, e). pe_submittedAt e) ?t))"
  have sub: "set ?gone \<subseteq> fst ` set ?t" by (auto dest!: in_set_takeD)
  have nt: "h \<notin> set ?gone" if "map_of ps h = Some e" "\<not> is_tomb e" for h e
  proof
    assume "h \<in> set ?gone"
    with sub obtain e' where "(h, e') \<in> set ps" "is_tomb e'" by auto
    with that assms show False by (auto simp: wf_map_lookup)
  qed
  have alt: "evictTombstones mx ps = ps \<or> evictTombstones mx ps = filter (\<lambda>(h, e). h \<notin> set ?gone) ps"
    by (simp add: evictTombstones_def Let_def)
  show "map_of (evictTombstones mx ps) h = Some e \<Longrightarrow> map_of ps h = Some e"
    using alt assms by (auto simp: lookup_filter split: option.splits if_splits)
  show "map_of ps h = Some e \<Longrightarrow> \<not> is_tomb e \<Longrightarrow> map_of (evictTombstones mx ps) h = Some e"
    using alt assms nt by (auto simp: lookup_filter)
qed

lemma evict_wf: "wf_map ps \<Longrightarrow> wf_map (evictTombstones mx ps)"
  by (simp add: evictTombstones_def Let_def)

lemma expireLocked_plans:
  assumes "expireLocked sha r s now = (r1, s1, al)" and "wf_map (cs_plans s)"
  shows "wf_map (cs_plans s1)" and "s1 = s\<lparr>cs_plans := cs_plans s1\<rparr>"
    and "map_of (cs_plans s1) h = Some e1 \<Longrightarrow> \<exists>e. map_of (cs_plans s) h = Some e \<and> aged now e e1"
    and "map_of (cs_plans s) h = Some e \<Longrightarrow> \<not> is_tomb e \<Longrightarrow> now \<le> pe_expiresAt e \<Longrightarrow> map_of (cs_plans s1) h = Some e"
proof -
  obtain ps where lo: "expire_loop sha s now r (cs_plans s) = (r1, ps, al)"
    and s1: "s1 = s\<lparr>cs_plans := evictTombstones (cs_maxTombstones s) ps\<rparr>"
    using assms(1) by (auto simp: expireLocked_def split: prod.splits)
  have wf: "wf_map ps" using expire_loop_keys [OF lo] assms(2) by (simp add: wf_map_def)
  note A = list_all2_lookup [OF expire_loop_aged [OF lo]]
  show "wf_map (cs_plans s1)" using wf s1 by (simp add: evict_wf)
  show "s1 = s\<lparr>cs_plans := cs_plans s1\<rparr>" using s1 by simp
  show "\<exists>e. map_of (cs_plans s) h = Some e \<and> aged now e e1" if "map_of (cs_plans s1) h = Some e1"
    using that evict_lookup(1) [OF wf] A [of h] s1 by (fastforce split: option.splits)
  show "map_of (cs_plans s1) h = Some e" if "map_of (cs_plans s) h = Some e" "\<not> is_tomb e" "now \<le> pe_expiresAt e"
    using that A [of h] evict_lookup(2) [OF wf] s1 by (auto simp: aged_def)
qed

subsection \<open>Cases of the operations\<close>

lemma refuseApproval_state:
  "refuseApproval sha r s ev h st reason err now = (r', s', al, res) \<Longrightarrow> s' = s \<and> (\<exists>e. res = Inl e)"
  by (auto simp: refuseApproval_def split: prod.splits)

lemma raising_iff: "raising al0 x = (r, s, al, res) \<longleftrightarrow> (\<exists>al1. x = (r, s, al1, res) \<and> al = al0 @ al1)"
  by (cases x) (auto simp: raising_def)

lemma VerifyStep_cases:
  assumes ex: "expireLocked sha r0 s0 now = (r, s, al0)"
    and vs: "VerifyStep sha r0 s0 subject b a res now = (r', s', al, out)"
  obtains (refused) err where "out = Inl err" "s' = s"
  | (consumed) h p e where "out = Inr h" "parseBinding b = (h, Some p)" "map_of (cs_plans s) h = Some e"
      "pe_subject e = subject" "\<not> pe_expired e" "pe_status e = PlanApproved" "pe_cursor e < length (pe_steps e)"
      "st_Action (pe_steps e ! pe_cursor e) = a" "st_Resource (pe_steps e ! pe_cursor e) = res"
      "st_ParamsHash (pe_steps e ! pe_cursor e) = HashParams sha p"
      "cs_append sha r s (contractRecord planEventConsume h (pe_cursor e) 1 ''ok'') now = (r', True)"
      "s' = s\<lparr>cs_plans := put h (e\<lparr>pe_cursor := pe_cursor e + 1\<rparr>) (cs_plans s)\<rparr>"
proof -
  obtain h pr where pb: "parseBinding b = (h, pr)" by fastforce
  note def = VerifyStep_def ex pb Let_def prod.case raising_iff
  show thesis
  proof (cases pr)
    case None
    with vs have "\<exists>err. out = Inl err \<and> s' = s" by (auto simp: def dest!: refuseApproval_state)
    then show thesis using refused by blast
  next
    case p: (Some p)
    show thesis
    proof (cases "map_of (cs_plans s) h")
      case None
      with p vs have "\<exists>err. out = Inl err \<and> s' = s" by (auto simp: def dest!: refuseApproval_state)
      then show thesis using refused by blast
    next
      case e: (Some e)
      let ?w = "pe_steps e ! pe_cursor e"
      let ?ok = "subject = pe_subject e \<and> \<not> pe_expired e \<and> pe_status e = PlanApproved \<and> pe_cursor e < length (pe_steps e)
        \<and> a = st_Action ?w \<and> res = st_Resource ?w \<and> HashParams sha p = st_ParamsHash ?w"
      show thesis
      proof (cases ?ok)
        case False
        with p e vs have "\<exists>err. out = Inl err \<and> s' = s"
          by (cases "pe_status e") (auto simp: def dest!: refuseApproval_state split: if_splits)
        then show thesis using refused by blast
      next
        case True
        obtain r1 ok where "cs_append sha r s (contractRecord planEventConsume h (pe_cursor e) 1 ''ok'') now = (r1, ok)"
          by fastforce
        with True p e vs pb show thesis
          by (cases ok) (auto simp: def intro: refused consumed)
      qed
    qed
  qed
qed

lemma refuseSubmission_state:
  "refuseSubmission sha r s subj steps reason err now = (r', s', al, res) \<Longrightarrow> s' = s \<and> (\<exists>e. res = Inl e)"
  by (auto simp: refuseSubmission_def split: prod.splits)

lemma submitLocked_cases:
  assumes "submitLocked sha r s subj steps sub now = (r', s', al, res)"
  obtains (refused) err where "res = Inl err" "s' = s"
  | (again) h where "res = Inr h" "s' = s" "map_of (cs_plans s) h \<noteq> None"
  | (added) h e where "res = Inr h" "h = HashPlan sha (cs_cellID s) subj now (cs_policyID s) steps"
      "map_of (cs_plans s) h = None" "countStatus s PlanPending < cs_maxPending s"
      "s' = s\<lparr>cs_plans := put h e (cs_plans s)\<rparr>" "pe_steps e = steps" "pe_subject e = subj" "pe_submittedAt e = now"
      "pe_status e = PlanPending" "pe_cursor e = 0" "\<not> pe_expired e" "1 \<le> pe_required e"
      "pe_submitter e = map_option ss_kid sub"
proof -
  define h where "h = HashPlan sha (cs_cellID s) subj now (cs_policyID s) steps"
  define e where "e = \<lparr>pe_subject = subj, pe_steps = steps, pe_submittedAt = now,
      pe_expiresAt = now + cs_pendingTTL s, pe_status = PlanPending, pe_required = required_approvals s subj,
      pe_submitter = (case sub of None \<Rightarrow> None | Some x \<Rightarrow> Some (ss_kid x)), pe_cursor = 0, pe_expired = False\<rparr>"
  define rc where "rc = (case sub of
      Some x \<Rightarrow> signedRecord planEventSubmit h (ss_kid x) (ss_expiry x) (ss_sig x)
    | None \<Rightarrow> contractRecord planEventSubmit h (length steps) 1 ''ok'')"
  have E: "pe_steps e = steps" "pe_subject e = subj" "pe_submittedAt e = now" "pe_status e = PlanPending" "pe_cursor e = 0" "\<not> pe_expired e"
      "1 \<le> pe_required e" "pe_submitter e = map_option ss_kid sub"
    by (auto simp: e_def required_approvals_def split: option.splits)
  note def = submitLocked_def h_def [symmetric] e_def [symmetric] rc_def [symmetric] Let_def
  obtain r1 ok where ap: "cs_append sha r s rc now = (r1, ok)" by fastforce
  consider (far) "required_approvals s subj > approversApartFrom sha s sub"
    | (full) "\<not> required_approvals s subj > approversApartFrom sha s sub" "map_of (cs_plans s) h = None"
        "countStatus s PlanPending \<ge> cs_maxPending s"
    | (fault) "\<not> required_approvals s subj > approversApartFrom sha s sub" "\<not> ok"
        "\<not> (map_of (cs_plans s) h = None \<and> countStatus s PlanPending \<ge> cs_maxPending s)"
    | (dup) "\<not> required_approvals s subj > approversApartFrom sha s sub" "ok" "map_of (cs_plans s) h \<noteq> None"
    | (new) "\<not> required_approvals s subj > approversApartFrom sha s sub" "ok" "map_of (cs_plans s) h = None"
        "countStatus s PlanPending < cs_maxPending s"
    by fastforce
  then show thesis
  proof cases
    case far
    with assms have "\<exists>err. res = Inl err \<and> s' = s" unfolding def by (auto split: prod.splits)
    then show thesis using refused by blast
  next
    case full
    with assms have "\<exists>err. res = Inl err \<and> s' = s" unfolding def by auto
    then show thesis using refused by blast
  next
    case fault
    with assms ap have "\<exists>err. res = Inl err \<and> s' = s" unfolding def by auto
    then show thesis using refused by blast
  next
    case dup
    with assms ap show thesis unfolding def by (intro again [of h]) auto
  next
    case new
    with assms ap E show thesis unfolding def by (intro added [of h e]) (auto simp: h_def)
  qed
qed

lemma ApproveAll_cases:
  assumes ex: "expireLocked sha r0 s0 now = (r, s, al0)"
    and ap: "ApproveAll sha edv r0 s0 h expiry sigs now = (r', s', al, res)"
  obtains (refused) err where "res = Inl err" "s' = s"
  | (approved) e kids where "res = Inr ()" "map_of (cs_plans s) h = Some e" "\<not> pe_expired e" "pe_status e = PlanPending"
      "MinApprovalTTL \<le> time_sub expiry now" "time_sub expiry now \<le> cs_approvalTTL s" "sigs \<noteq> []"
      "check_approvals sha edv s e (ApprovalMessage h expiry) [] sigs = Inr kids" "pe_required e \<le> int (length kids)"
      "countStatus s PlanApproved < cs_maxApproved s"
      "write_approvals sha r s h expiry (zip kids sigs) now = (r', True)"
      "s' = s\<lparr>cs_plans := put h (e\<lparr>pe_status := PlanApproved, pe_expiresAt := expiry, pe_cursor := 0\<rparr>) (cs_plans s)\<rparr>"
proof -
  note def = ApproveAll_def ex Let_def prod.case raising_iff
  show thesis
  proof (cases "map_of (cs_plans s) h")
    case None
    with ap have "\<exists>err. res = Inl err \<and> s' = s" by (auto simp: def dest!: refuseApproval_state)
    then show thesis using refused by blast
  next
    case e: (Some e)
    let ?pre = "\<not> pe_expired e \<and> pe_status e = PlanPending \<and> \<not> (time_sub expiry now < MinApprovalTTL \<or> time_sub expiry now > cs_approvalTTL s)
       \<and> \<not> (length sigs = 0 \<or> length sigs > MaxPlanApprovalSignatures)"
    show thesis
    proof (cases ?pre)
      case False
      with e ap have "\<exists>err. res = Inl err \<and> s' = s"
        by (auto simp: def dest!: refuseApproval_state split: if_splits)
      then show thesis using refused by blast
    next
      case pre: True
      show thesis
      proof (cases "check_approvals sha edv s e (ApprovalMessage h expiry) [] sigs")
        case (Inl x)
        with e pre ap have "\<exists>err. res = Inl err \<and> s' = s"
          by (cases x) (auto simp: def dest!: refuseApproval_state)
        then show thesis using refused by blast
      next
        case kids: (Inr kids)
        obtain r1 ok where w: "write_approvals sha r s h expiry (zip kids sigs) now = (r1, ok)" by fastforce
        consider (few) "int (length kids) < pe_required e"
          | (full) "\<not> int (length kids) < pe_required e" "countStatus s PlanApproved \<ge> cs_maxApproved s"
          | (go) "\<not> int (length kids) < pe_required e" "\<not> countStatus s PlanApproved \<ge> cs_maxApproved s"
          by blast
        then show thesis
        proof cases
          case go
          with e pre kids w ap show thesis
            by (cases ok) (auto simp: def not_less intro: refused approved)
        qed (use e pre kids ap refused in \<open>auto simp: def raising_iff dest!: refuseApproval_state\<close>)
      qed
    qed
  qed
qed

lemma Revoke_cases:
  assumes ex: "expireLocked sha r0 s0 now = (r, s, al0)"
    and rv: "Revoke sha edv r0 s0 h expiry sig now = (r', s', al, res)"
  obtains (refused) err where "res = Inl err" "s' = s"
  | (revoked) e kid where "res = Inr ()" "map_of (cs_plans s) h = Some e" "\<not> is_tomb e"
      "signedBy sha edv (cs_revokerKeys s) (RevocationMessage h expiry) sig = Some kid"
      "cs_append sha r s (signedRecord planEventRevoke h kid expiry sig) now = (r', True)"
      "s' = s\<lparr>cs_plans := put h (e\<lparr>pe_status := PlanRevoked\<rparr>) (cs_plans s)\<rparr>"
proof -
  note def = Revoke_def ex Let_def prod.case raising_iff
  show thesis
  proof (cases "map_of (cs_plans s) h")
    case None
    with rv have "\<exists>err. res = Inl err \<and> s' = s" by (auto simp: def dest!: refuseApproval_state)
    then show thesis using refused by blast
  next
    case e: (Some e)
    show thesis
    proof (cases "is_tomb e \<or> time_sub expiry now \<le> 0 \<or> time_sub expiry now > cs_approvalTTL s \<or>
        signedBy sha edv (cs_revokerKeys s) (RevocationMessage h expiry) sig = None")
      case True
      with e rv have "\<exists>err. res = Inl err \<and> s' = s"
        by (auto simp: def is_tomb_def dest!: refuseApproval_state split: if_splits option.splits)
      then show thesis using refused by blast
    next
      case False
      then obtain kid where k: "signedBy sha edv (cs_revokerKeys s) (RevocationMessage h expiry) sig = Some kid" by auto
      obtain r1 ok where "cs_append sha r s (signedRecord planEventRevoke h kid expiry sig) now = (r1, ok)" by fastforce
      with False e k rv show thesis
        by (cases ok) (auto simp: def is_tomb_def intro: refused revoked)
    qed
  qed
qed

subsection \<open>Runs of the store\<close>

datatype cs_op =
    CSubmit string "PlanStep list"
  | CSubmitSigned string "PlanStep list" time bytes
  | CApprove bytes time "bytes list"
  | CRevoke bytes time bytes
  | CVerify string bytes string string

type_synonym consumption = "bytes \<times> string \<times> string \<times> bytes"

text \<open>One call: the new registry and store, and the step it consumed, if it consumed one: the
  plan, the action, the resource and the hash of the parameters presented.\<close>

definition cs_exec ::
  "(bytes \<Rightarrow> bytes) \<Rightarrow> (bytes \<Rightarrow> bytes \<Rightarrow> bytes \<Rightarrow> bool) \<Rightarrow> time \<times> cs_op \<Rightarrow> registry \<times> ContractStore
     \<Rightarrow> (registry \<times> ContractStore) \<times> consumption option" where
  "cs_exec sha edv x st =
     (case x of
        (now, CSubmit subj steps) \<Rightarrow>
          (case Submit sha (fst st) (snd st) subj steps now of (r, s, al, res) \<Rightarrow> ((r, s), None))
      | (now, CSubmitSigned subj steps expiry sig) \<Rightarrow>
          (case SubmitSigned sha edv (fst st) (snd st) subj steps expiry sig now of (r, s, al, res) \<Rightarrow> ((r, s), None))
      | (now, CApprove h expiry sigs) \<Rightarrow>
          (case ApproveAll sha edv (fst st) (snd st) h expiry sigs now of (r, s, al, res) \<Rightarrow> ((r, s), None))
      | (now, CRevoke h expiry sig) \<Rightarrow>
          (case Revoke sha edv (fst st) (snd st) h expiry sig now of (r, s, al, res) \<Rightarrow> ((r, s), None))
      | (now, CVerify subj b a rs) \<Rightarrow>
          (case VerifyStep sha (fst st) (snd st) subj b a rs now of
             (r, s, al, Inl err) \<Rightarrow> ((r, s), None)
           | (r, s, al, Inr h) \<Rightarrow> ((r, s), Some (h, a, rs, HashParams sha (the (snd (parseBinding b)))))))"

text \<open>The change a call makes to the plans once they are aged.\<close>

datatype change = Unchanged | Added bytes planEntry | ApprovedC bytes time | RevokedC bytes | ConsumedC bytes

fun applied :: "(bytes, planEntry) gomap \<Rightarrow> change \<Rightarrow> (bytes, planEntry) gomap \<Rightarrow> bool" where
  "applied ps Unchanged qs = (qs = ps)"
| "applied ps (Added h e) qs = (map_of ps h = None \<and> qs = put h e ps \<and> pe_status e = PlanPending \<and>
     pe_cursor e = 0 \<and> \<not> pe_expired e \<and> 1 \<le> pe_required e)"
| "applied ps (ApprovedC h t) qs = (\<exists>e. map_of ps h = Some e \<and> pe_status e = PlanPending \<and> \<not> pe_expired e \<and>
     qs = put h (e\<lparr>pe_status := PlanApproved, pe_expiresAt := t, pe_cursor := 0\<rparr>) ps)"
| "applied ps (RevokedC h) qs = (\<exists>e. map_of ps h = Some e \<and> \<not> is_tomb e \<and> qs = put h (e\<lparr>pe_status := PlanRevoked\<rparr>) ps)"
| "applied ps (ConsumedC h) qs = (\<exists>e. map_of ps h = Some e \<and> pe_status e = PlanApproved \<and> \<not> pe_expired e \<and>
     pe_cursor e < length (pe_steps e) \<and> qs = put h (e\<lparr>pe_cursor := pe_cursor e + 1\<rparr>) ps)"

definition consumes :: "(bytes, planEntry) gomap \<Rightarrow> change \<Rightarrow> consumption option \<Rightarrow> bool" where
  "consumes ps c ev \<longleftrightarrow> (case ev of None \<Rightarrow> (\<forall>h. c \<noteq> ConsumedC h)
     | Some (h, a, rs, ph) \<Rightarrow> c = ConsumedC h \<and> (\<exists>e. map_of ps h = Some e \<and>
         pe_steps e ! pe_cursor e = \<lparr>st_Action = a, st_Resource = rs, st_ParamsHash = ph\<rparr>))"

text \<open>What is fixed at construction.\<close>

definition same_config :: "ContractStore \<Rightarrow> ContractStore \<Rightarrow> bool" where
  "same_config s s' \<longleftrightarrow> s' = s\<lparr>cs_plans := cs_plans s', cs_submissions := cs_submissions s'\<rparr>"

lemma same_config_trans: "same_config s t \<Longrightarrow> same_config t u \<Longrightarrow> same_config s u"
  unfolding same_config_def by (cases s; cases t; cases u) simp

text \<open>The hash a plan is stored under is the seal of what the entry holds.\<close>

definition sealed_entry :: "(bytes \<Rightarrow> bytes) \<Rightarrow> ContractStore \<Rightarrow> bytes \<Rightarrow> planEntry \<Rightarrow> bool" where
  "sealed_entry sha s h e \<longleftrightarrow> h = HashPlan sha (cs_cellID s) (pe_subject e) (pe_submittedAt e) (cs_policyID s) (pe_steps e)"

text \<open>Every call ages the plans and makes at most one change to them; a saturated store adds nothing.\<close>

definition step_of ::
  "(bytes \<Rightarrow> bytes) \<Rightarrow> time \<Rightarrow> registry \<Rightarrow> ContractStore \<Rightarrow> ContractStore \<Rightarrow> change \<Rightarrow> ContractStore \<Rightarrow> bool" where
  "step_of sha now r s s1 c s' \<longleftrightarrow>
     (s1 = s \<and> c = Unchanged \<or> (\<exists>r1 al. expireLocked sha r s now = (r1, s1, al))) \<and>
     applied (cs_plans s1) c (cs_plans s') \<and> same_config s1 s' \<and>
     (\<forall>h e. c = Added h e \<longrightarrow> countStatus s1 PlanPending < cs_maxPending s \<and> sealed_entry sha s h e) \<and>
     (\<forall>h t. c = ApprovedC h t \<longrightarrow> countStatus s1 PlanApproved < cs_maxApproved s) \<and>
     length (cs_submissions s') \<le> max (length (cs_submissions s)) maxSubmissionReplay"

lemma expireLocked_config: "expireLocked sha r s now = (r1, s1, al) \<Longrightarrow> s1 = s\<lparr>cs_plans := cs_plans s1\<rparr>"
  by (auto simp: expireLocked_def split: prod.splits)

lemma same_config_refl [simp]: "same_config s s" "same_config s (s\<lparr>cs_plans := ps\<rparr>)"
    "same_config s (s\<lparr>cs_submissions := m\<rparr>)" "same_config s (s\<lparr>cs_plans := ps, cs_submissions := m\<rparr>)"
  by (simp_all add: same_config_def)

lemma cs_exec_VerifyStep:
  assumes "cs_exec sha edv (now, CVerify subj b a rs) (r, s) = ((r', s'), ev)"
  obtains s1 c where "step_of sha now r s s1 c s'" "consumes (cs_plans s1) c ev" "\<forall>h t. c \<noteq> ApprovedC h t"
proof -
  obtain r1 s1 al1 where ex: "expireLocked sha r s now = (r1, s1, al1)" by (metis prod_cases3)
  obtain r2 s2 al2 out where vs: "VerifyStep sha r s subj b a rs now = (r2, s2, al2, out)" by (metis prod_cases4)
  have C: "cs_submissions s1 = cs_submissions s" by (subst expireLocked_config [OF ex], simp)
  from ex vs show thesis
  proof (cases rule: VerifyStep_cases)
    case (refused err)
    with assms vs ex C show thesis
      by (intro that [of s1 Unchanged]) (auto simp: cs_exec_def step_of_def consumes_def)
  next
    case (consumed h p e)
    with assms vs ex C show thesis
      by (intro that [of s1 "ConsumedC h"]) (auto simp: cs_exec_def step_of_def consumes_def)
  qed
qed

lemma cs_exec_ApproveAll:
  assumes "cs_exec sha edv (now, CApprove h expiry sigs) (r, s) = ((r', s'), ev)"
  obtains s1 c where "step_of sha now r s s1 c s'" "consumes (cs_plans s1) c ev" "\<forall>h' t. c = ApprovedC h' t \<longrightarrow> h' = h"
proof -
  obtain r1 s1 al1 where ex: "expireLocked sha r s now = (r1, s1, al1)" by (metis prod_cases3)
  obtain r2 s2 al2 out where ap: "ApproveAll sha edv r s h expiry sigs now = (r2, s2, al2, out)" by (metis prod_cases4)
  have C: "cs_submissions s1 = cs_submissions s" "cs_maxApproved s1 = cs_maxApproved s"
    by (subst expireLocked_config [OF ex], simp)+
  from ex ap show thesis
  proof (cases rule: ApproveAll_cases)
    case (refused err)
    with assms ap ex C show thesis
      by (intro that [of s1 Unchanged]) (auto simp: cs_exec_def step_of_def consumes_def)
  next
    case (approved e kids)
    with assms ap ex C show thesis
      by (intro that [of s1 "ApprovedC h expiry"]) (auto simp: cs_exec_def step_of_def consumes_def)
  qed
qed

lemma cs_exec_Revoke:
  assumes "cs_exec sha edv (now, CRevoke h expiry sig) (r, s) = ((r', s'), ev)"
  obtains s1 c where "step_of sha now r s s1 c s'" "consumes (cs_plans s1) c ev" "\<forall>h t. c \<noteq> ApprovedC h t"
proof -
  obtain r1 s1 al1 where ex: "expireLocked sha r s now = (r1, s1, al1)" by (metis prod_cases3)
  obtain r2 s2 al2 out where rv: "Revoke sha edv r s h expiry sig now = (r2, s2, al2, out)" by (metis prod_cases4)
  have C: "cs_submissions s1 = cs_submissions s" by (subst expireLocked_config [OF ex], simp)
  from ex rv show thesis
  proof (cases rule: Revoke_cases)
    case (refused err)
    with assms rv ex C show thesis
      by (intro that [of s1 Unchanged]) (auto simp: cs_exec_def step_of_def consumes_def)
  next
    case (revoked e kid)
    with assms rv ex C show thesis
      by (intro that [of s1 "RevokedC h"]) (auto simp: cs_exec_def step_of_def consumes_def)
  qed
qed

lemma submitLocked_step:
  assumes "submitLocked sha r1 s1 subj steps sub now = (r', s', al, res)"
  obtains c where "applied (cs_plans s1) c (cs_plans s')" "s' = s1\<lparr>cs_plans := cs_plans s'\<rparr>"
    "\<forall>h e. c = Added h e \<longrightarrow> countStatus s1 PlanPending < cs_maxPending s1 \<and> sealed_entry sha s1 h e"
    "c = Unchanged \<or> (\<exists>h e. c = Added h e)"
  using assms
proof (cases rule: submitLocked_cases)
  case (added h e)
  then show thesis by (intro that [of "Added h e"]) (auto simp: sealed_entry_def)
qed (auto intro: that [of Unchanged])

lemma cs_exec_Submit:
  assumes "cs_exec sha edv (now, CSubmit subj steps) (r, s) = ((r', s'), ev)"
  obtains s1 c where "step_of sha now r s s1 c s'" "consumes (cs_plans s1) c ev" "\<forall>h t. c \<noteq> ApprovedC h t"
proof (cases "ValidatePlan subj steps")
  case False
  with assms show thesis
    by (intro that [of s Unchanged]) (auto simp: cs_exec_def Submit_def step_of_def consumes_def)
next
  case True
  obtain r1 s1 al1 where ex: "expireLocked sha r s now = (r1, s1, al1)" by (metis prod_cases3)
  have C: "cs_submissions s1 = cs_submissions s" "cs_maxPending s1 = cs_maxPending s"
      "cs_cellID s1 = cs_cellID s" "cs_policyID s1 = cs_policyID s"
    by (subst expireLocked_config [OF ex], simp)+
  have ev: "ev = None" using assms by (auto simp: cs_exec_def split: prod.splits)
  show thesis
  proof (cases "cs_separate s1")
    case sep: True
    with True assms ex have "s' = s1"
      by (auto simp: cs_exec_def Submit_def raising_iff dest!: refuseSubmission_state split: prod.splits)
    with ex ev C show thesis by (intro that [of s1 Unchanged]) (auto simp: step_of_def consumes_def)
  next
    case False
    obtain r2 s2 al2 res where sl: "submitLocked sha r1 s1 subj steps None now = (r2, s2, al2, res)" by (metis prod_cases4)
    with True False assms ex have s': "s' = s2" by (auto simp: cs_exec_def Submit_def raising_def)
    from sl obtain c where c: "applied (cs_plans s1) c (cs_plans s')" "s' = s1\<lparr>cs_plans := cs_plans s'\<rparr>"
      "\<forall>h e. c = Added h e \<longrightarrow> countStatus s1 PlanPending < cs_maxPending s1 \<and> sealed_entry sha s1 h e"
      "c = Unchanged \<or> (\<exists>h e. c = Added h e)"
      unfolding s' by (rule submitLocked_step)
    have "same_config s1 s'" by (subst c(2)) simp
    moreover have "cs_submissions s' = cs_submissions s" using C by (subst c(2)) simp
    ultimately show thesis
      using ex ev C c by (intro that [of s1 c]) (auto simp: step_of_def consumes_def sealed_entry_def)
  qed
qed

lemma purge_submissions_frame: "cs_plans (purge_submissions s now) = cs_plans s" "same_config s (purge_submissions s now)"
    "length (cs_submissions (purge_submissions s now)) \<le> length (cs_submissions s)"
    "cs_maxPending (purge_submissions s now) = cs_maxPending s"
    "cs_cellID (purge_submissions s now) = cs_cellID s" "cs_policyID (purge_submissions s now) = cs_policyID s"
    "countStatus (purge_submissions s now) st = countStatus s st"
  by (simp_all add: purge_submissions_def countStatus_def)

lemma length_put_le: "length (put k v m) \<le> Suc (length m)"
  by (simp add: length_put)

lemma cs_exec_SubmitSigned:
  assumes "cs_exec sha edv (now, CSubmitSigned subj steps expiry sig) (r, s) = ((r', s'), ev)"
  obtains s1 c where "step_of sha now r s s1 c s'" "consumes (cs_plans s1) c ev" "\<forall>h t. c \<noteq> ApprovedC h t"
proof (cases "ValidatePlan subj steps")
  case False
  with assms show thesis
    by (intro that [of s Unchanged]) (auto simp: cs_exec_def SubmitSigned_def step_of_def consumes_def)
next
  case True
  obtain r1 s1 al1 where ex: "expireLocked sha r s now = (r1, s1, al1)" by (metis prod_cases3)
  have C: "cs_submissions s1 = cs_submissions s" "cs_maxPending s1 = cs_maxPending s"
      "cs_cellID s1 = cs_cellID s" "cs_policyID s1 = cs_policyID s"
    by (subst expireLocked_config [OF ex], simp)+
  have ev: "ev = None" using assms by (auto simp: cs_exec_def split: prod.splits)
  let ?msg = "SubmissionMessage sha (cs_cellID s1) subj steps expiry"
  let ?p = "purge_submissions s1 now"
  note P = purge_submissions_frame [of s1 now]
  note fin = that
  have idle: thesis if "s' = s1 \<or> s' = ?p"
    using that ex ev C P by (intro fin [of s1 Unchanged]) (auto simp: step_of_def consumes_def)
  show thesis
  proof (cases "time_sub expiry now \<le> 0 \<or> time_sub expiry now > MaxSubmissionTTL \<or>
      signedBy sha edv (cs_submitterKeys s1) ?msg sig = None \<or> map_of (cs_submissions ?p) (sha ?msg) \<noteq> None \<or>
      length (cs_submissions ?p) \<ge> maxSubmissionReplay")
    case True': True
    with True assms ex have "s' = s1 \<or> s' = ?p"
      by (auto simp: cs_exec_def SubmitSigned_def raising_iff Let_def dest!: refuseSubmission_state
          split: prod.splits option.splits if_splits)
    then show thesis by (rule idle)
  next
    case False
    then obtain kid where kid: "signedBy sha edv (cs_submitterKeys s1) ?msg sig = Some kid" by auto
    obtain r2 s2 al2 res where sl: "submitLocked sha r1 ?p subj steps
        (Some \<lparr>ss_kid = kid, ss_expiry = expiry, ss_sig = sig\<rparr>) now = (r2, s2, al2, res)" by (metis prod_cases4)
    from sl obtain c where c: "applied (cs_plans ?p) c (cs_plans s2)" "s2 = ?p\<lparr>cs_plans := cs_plans s2\<rparr>"
      "\<forall>h e. c = Added h e \<longrightarrow> countStatus ?p PlanPending < cs_maxPending ?p \<and> sealed_entry sha ?p h e"
      "c = Unchanged \<or> (\<exists>h e. c = Added h e)"
      by (rule submitLocked_step)
    have sub2: "cs_submissions s2 = cs_submissions ?p" by (subst c(2)) simp
    from False kid True assms ex sl have "s' = s2 \<or> s' = s2\<lparr>cs_submissions := put (sha ?msg) expiry (cs_submissions s2)\<rparr>"
      by (cases res) (auto simp: cs_exec_def SubmitSigned_def raising_def Let_def)
    then have s': "cs_plans s' = cs_plans s2" "same_config s2 s'"
        "length (cs_submissions s') \<le> max (length (cs_submissions s)) maxSubmissionReplay"
      using False C P(3) sub2 length_put_le [of "sha ?msg" expiry "cs_submissions ?p"] by auto
    moreover have "same_config ?p s2" by (subst c(2)) simp
    ultimately have "same_config s1 s'" using P(2) same_config_trans by blast
    then show thesis
      using ex ev C c P s' by (intro that [of s1 c]) (auto simp: step_of_def consumes_def sealed_entry_def)
  qed
qed

text \<open>All the calls at once.\<close>

lemma cs_exec_step:
  assumes "cs_exec sha edv x (r, s) = ((r', s'), ev)"
  obtains s1 c where "step_of sha (fst x) r s s1 c s'" "consumes (cs_plans s1) c ev"
    "\<forall>h t. c = ApprovedC h t \<longrightarrow> (\<exists>e sigs. snd x = CApprove h e sigs)"
proof -
  obtain now op where x: "x = (now, op)" by (cases x)
  show thesis
  proof (cases op)
    case (CSubmit subj steps)
    from cs_exec_Submit [OF assms [unfolded x CSubmit]] show thesis using that x by (metis fst_conv)
  next
    case (CSubmitSigned subj steps e sig)
    from cs_exec_SubmitSigned [OF assms [unfolded x CSubmitSigned]] show thesis using that x by (metis fst_conv)
  next
    case (CApprove h e sigs)
    from cs_exec_ApproveAll [OF assms [unfolded x CApprove]] obtain s1 c where
      "step_of sha now r s s1 c s'" "consumes (cs_plans s1) c ev" "\<forall>h' t. c = ApprovedC h' t \<longrightarrow> h' = h" .
    then show thesis using that [of s1 c] x CApprove by auto
  next
    case (CRevoke h e sig)
    from cs_exec_Revoke [OF assms [unfolded x CRevoke]] show thesis using that x by (metis fst_conv)
  next
    case (CVerify subj b a rs)
    from cs_exec_VerifyStep [OF assms [unfolded x CVerify]] show thesis using that x by (metis fst_conv)
  qed
qed

subsection \<open>The invariant of the store\<close>

definition entry_ok :: "(bytes \<Rightarrow> bytes) \<Rightarrow> ContractStore \<Rightarrow> bytes \<Rightarrow> planEntry \<Rightarrow> bool" where
  "entry_ok sha s h e \<longleftrightarrow> (pe_status e = PlanPending \<longrightarrow> pe_cursor e = 0) \<and>
     pe_cursor e \<le> length (pe_steps e) \<and> 1 \<le> pe_required e \<and> sealed_entry sha s h e"

definition cs_inv :: "(bytes \<Rightarrow> bytes) \<Rightarrow> ContractStore \<Rightarrow> bool" where
  "cs_inv sha s \<longleftrightarrow> wf_map (cs_plans s) \<and> (\<forall>h e. map_of (cs_plans s) h = Some e \<longrightarrow> entry_ok sha s h e)"

lemma same_configD:
  "same_config s s' \<Longrightarrow> cs_cellID s' = cs_cellID s \<and> cs_policyID s' = cs_policyID s \<and>
     cs_maxPending s' = cs_maxPending s \<and> cs_maxApproved s' = cs_maxApproved s \<and> cs_maxTombstones s' = cs_maxTombstones s"
  unfolding same_config_def by (cases s; cases s') simp

lemma step_of_config: "step_of sha now r s s1 c s' \<Longrightarrow> same_config s s1 \<and> same_config s s'"
proof -
  assume st: "step_of sha now r s s1 c s'"
  then have "s1 = s \<or> s1 = s\<lparr>cs_plans := cs_plans s1\<rparr>"
    by (auto simp: step_of_def dest: expireLocked_config)
  then have "same_config s s1" by (metis same_config_refl(1,2))
  moreover have "same_config s1 s'" using st by (simp add: step_of_def)
  ultimately show ?thesis using same_config_trans by blast
qed

lemma entry_ok_config: "same_config s s' \<Longrightarrow> entry_ok sha s' h e = entry_ok sha s h e"
  by (drule same_configD) (simp add: entry_ok_def sealed_entry_def)

lemma aged_ok: "aged now e e' \<Longrightarrow> entry_ok sha s h e \<Longrightarrow> entry_ok sha s h e'"
  by (auto simp: aged_def entry_ok_def sealed_entry_def)

lemma step_of_aged:
  assumes "step_of sha now r s s1 c s'" "wf_map (cs_plans s)"
  shows "wf_map (cs_plans s1)"
    and "map_of (cs_plans s1) h = Some e1 \<Longrightarrow> \<exists>e. map_of (cs_plans s) h = Some e \<and> aged now e e1"
  using assms expireLocked_plans [of sha r s now] by (auto simp: step_of_def aged_def)

lemma applied_wf: "applied ps c qs \<Longrightarrow> wf_map ps \<Longrightarrow> wf_map qs"
  by (cases c) auto

text \<open>A change touches at most the plan it names.\<close>

fun named :: "change \<Rightarrow> bytes option" where
  "named Unchanged = None" | "named (Added h e) = Some h" | "named (ApprovedC h t) = Some h"
| "named (RevokedC h) = Some h" | "named (ConsumedC h) = Some h"

lemma applied_other: "applied ps c qs \<Longrightarrow> named c \<noteq> Some h \<Longrightarrow> map_of qs h = map_of ps h"
  by (cases c) auto

lemma step_of_inv:
  assumes "step_of sha now r s s1 c s'" "cs_inv sha s"
  shows "cs_inv sha s1 \<and> cs_inv sha s'"
proof -
  note cfg = step_of_config [OF assms(1)]
  have wf: "wf_map (cs_plans s)" using assms(2) by (simp add: cs_inv_def)
  have i1: "cs_inv sha s1"
    unfolding cs_inv_def
  proof (intro conjI allI impI)
    show "wf_map (cs_plans s1)" by (rule step_of_aged(1) [OF assms(1) wf])
    fix h e1 assume "map_of (cs_plans s1) h = Some e1"
    from step_of_aged(2) [OF assms(1) wf this] obtain e where "map_of (cs_plans s) h = Some e" "aged now e e1" by blast
    with assms(2) cfg show "entry_ok sha s1 h e1"
      using aged_ok entry_ok_config by (fastforce simp: cs_inv_def)
  qed
  have ap: "applied (cs_plans s1) c (cs_plans s')" using assms(1) by (simp add: step_of_def)
  have "entry_ok sha s1 h e'" if "map_of (cs_plans s') h = Some e'" for h e'
  proof (cases "named c = Some h")
    case False
    with applied_other [OF ap] that i1 show ?thesis by (simp add: cs_inv_def)
  next
    case True
    have seal: "sealed_entry sha s1 h e" if "c = Added h e" for e
      using assms(1) that same_configD [OF conjunct1 [OF cfg]] by (auto simp: step_of_def sealed_entry_def)
    show ?thesis
      using True ap that i1 seal
      by (cases c) (auto simp: entry_ok_def cs_inv_def sealed_entry_def)
  qed
  moreover have "same_config s1 s'" using assms(1) by (simp add: step_of_def)
  moreover have "wf_map (cs_plans s')" using ap i1 by (auto simp: cs_inv_def intro: applied_wf)
  ultimately show ?thesis using i1 entry_ok_config by (auto simp: cs_inv_def)
qed

lemma cs_exec_inv: "cs_inv sha s \<Longrightarrow> cs_exec sha edv x (r, s) = ((r', s'), ev) \<Longrightarrow> cs_inv sha s'"
  by (erule cs_exec_step) (auto dest: step_of_inv)

primrec cs_run ::
  "(bytes \<Rightarrow> bytes) \<Rightarrow> (bytes \<Rightarrow> bytes \<Rightarrow> bytes \<Rightarrow> bool) \<Rightarrow> registry \<times> ContractStore \<Rightarrow> (time \<times> cs_op) list
     \<Rightarrow> consumption list \<times> registry \<times> ContractStore" where
  "cs_run sha edv st [] = ([], st)"
| "cs_run sha edv st (x # xs) =
     (let (st', ev) = cs_exec sha edv x st; (evs, st'') = cs_run sha edv st' xs
      in ((case ev of None \<Rightarrow> [] | Some v \<Rightarrow> [v]) @ evs, st''))"

text \<open>A plan that is present is not among the tombs a call evicts.\<close>

definition not_evicted :: "(bytes \<Rightarrow> bytes) \<Rightarrow> bytes \<Rightarrow> registry \<times> ContractStore \<Rightarrow> time \<Rightarrow> bool" where
  "not_evicted sha h st now \<longleftrightarrow> map_of (cs_plans (snd st)) h = None \<or>
     map_of (cs_plans (fst (snd (expireLocked sha (fst st) (snd st) now)))) h \<noteq> None"

primrec never_evicted ::
  "(bytes \<Rightarrow> bytes) \<Rightarrow> (bytes \<Rightarrow> bytes \<Rightarrow> bytes \<Rightarrow> bool) \<Rightarrow> bytes \<Rightarrow> registry \<times> ContractStore \<Rightarrow> (time \<times> cs_op) list \<Rightarrow> bool" where
  "never_evicted sha edv h st [] = True"
| "never_evicted sha edv h st (x # xs) =
     (not_evicted sha h st (fst x) \<and> never_evicted sha edv h (fst (cs_exec sha edv x st)) xs)"

definition of_plan :: "bytes \<Rightarrow> consumption list \<Rightarrow> (string \<times> string \<times> bytes) list" where
  "of_plan h evs = map snd (filter (\<lambda>v. fst v = h) evs)"

definition as_steps :: "PlanStep list \<Rightarrow> (string \<times> string \<times> bytes) list" where
  "as_steps steps = map (\<lambda>st. (st_Action st, st_Resource st, st_ParamsHash st)) steps"

definition explained :: "(bytes \<Rightarrow> bytes) \<Rightarrow> bytes \<Rightarrow> consumption list \<Rightarrow> ContractStore \<Rightarrow> bool" where
  "explained sha h evs s \<longleftrightarrow> cs_inv sha s \<and>
     (case map_of (cs_plans s) h of None \<Rightarrow> of_plan h evs = []
      | Some e \<Rightarrow> of_plan h evs = as_steps (take (pe_cursor e) (pe_steps e)))"

lemma of_plan_append: "of_plan h (xs @ ys) = of_plan h xs @ of_plan h ys"
  by (simp add: of_plan_def)

lemma explained_aged:
  assumes ex: "explained sha h evs s" and st: "step_of sha now r s s1 c s'" and ne: "not_evicted sha h (r, s) now"
  shows "explained sha h evs s1"
proof -
  have inv: "cs_inv sha s" and wf: "wf_map (cs_plans s)" using ex by (auto simp: explained_def cs_inv_def)
  have i1: "cs_inv sha s1" using step_of_inv [OF st inv] by blast
  note A = step_of_aged(2) [OF st wf, of h]
  show ?thesis
  proof (cases "map_of (cs_plans s) h")
    case None
    with A have "map_of (cs_plans s1) h = None" by (cases "map_of (cs_plans s1) h") auto
    with None ex i1 show ?thesis by (simp add: explained_def)
  next
    case (Some e)
    have "map_of (cs_plans s1) h \<noteq> None"
      using st ne Some by (auto simp: step_of_def not_evicted_def)
    then obtain e1 where e1: "map_of (cs_plans s1) h = Some e1" by blast
    with A Some have "pe_cursor e1 = pe_cursor e \<and> pe_steps e1 = pe_steps e" by (auto simp: aged_def)
    with Some e1 ex i1 show ?thesis by (simp add: explained_def)
  qed
qed

lemma explained_step:
  assumes ex: "explained sha h evs s" and run: "cs_exec sha edv x (r, s) = ((r', s'), ev)"
    and ne: "not_evicted sha h (r, s) (fst x)"
  shows "explained sha h (evs @ (case ev of None \<Rightarrow> [] | Some v \<Rightarrow> [v])) s'"
proof -
  from run obtain s1 c where st: "step_of sha (fst x) r s s1 c s'" and cn: "consumes (cs_plans s1) c ev"
    by (rule cs_exec_step)
  have e1: "explained sha h evs s1" by (rule explained_aged [OF ex st ne])
  have inv': "cs_inv sha s'" using step_of_inv [OF st] ex by (simp add: explained_def)
  have ap: "applied (cs_plans s1) c (cs_plans s')" using st by (simp add: step_of_def)
  show ?thesis
  proof (cases "named c = Some h")
    case False
    then have "of_plan h (case ev of None \<Rightarrow> [] | Some v \<Rightarrow> [v]) = []"
      using cn by (auto simp: consumes_def of_plan_def split: option.splits)
    then have "of_plan h (evs @ (case ev of None \<Rightarrow> [] | Some v \<Rightarrow> [v])) = of_plan h evs"
      unfolding of_plan_append by simp
    with False applied_other [OF ap] e1 inv' show ?thesis by (simp add: explained_def split: option.splits)
  next
    case True
    show ?thesis
    proof (cases "\<exists>h'. c = ConsumedC h'")
      case c: True
      with True have c: "c = ConsumedC h" by auto
      then obtain a rs ph where ev: "ev = Some (h, a, rs, ph)" using cn by (auto simp: consumes_def split: option.splits)
      with c ap cn obtain e where e: "map_of (cs_plans s1) h = Some e" "pe_cursor e < length (pe_steps e)"
          "cs_plans s' = put h (e\<lparr>pe_cursor := pe_cursor e + 1\<rparr>) (cs_plans s1)"
          "pe_steps e ! pe_cursor e = \<lparr>st_Action = a, st_Resource = rs, st_ParamsHash = ph\<rparr>"
        by (auto simp: consumes_def)
      have "of_plan h [(h, a, rs, ph)] = as_steps [pe_steps e ! pe_cursor e]"
        using e(4) by (simp add: of_plan_def as_steps_def)
      with e e1 inv' show ?thesis
        by (simp add: ev explained_def of_plan_append take_Suc_conv_app_nth as_steps_def)
    next
      case other: False
      then have "ev = None" using cn by (auto simp: consumes_def split: option.splits)
      with True other ap e1 inv' show ?thesis
        by (cases c) (auto simp: explained_def as_steps_def entry_ok_def cs_inv_def)
    qed
  qed
qed

lemma explained_run:
  "explained sha h evs (snd st) \<Longrightarrow> never_evicted sha edv h st xs \<Longrightarrow>
     explained sha h (evs @ fst (cs_run sha edv st xs)) (snd (snd (cs_run sha edv st xs)))"
proof (induction xs arbitrary: evs st)
  case Nil
  then show ?case by simp
next
  case (Cons x xs)
  obtain r s where st: "st = (r, s)" by (cases st)
  obtain r1 s1 ev where run: "cs_exec sha edv x (r, s) = ((r1, s1), ev)" by (metis surj_pair)
  have ne: "not_evicted sha h (r, s) (fst x)" "never_evicted sha edv h (r1, s1) xs"
    using Cons.prems(2) st run by auto
  have "explained sha h evs s" using Cons.prems(1) st by simp
  from explained_step [OF this run ne(1)]
  have "explained sha h (evs @ (case ev of None \<Rightarrow> [] | Some v \<Rightarrow> [v])) (snd (r1, s1))" by simp
  from Cons.IH [OF this ne(2)] show ?case
    by (simp add: st run case_prod_beta)
qed

lemma NewContractStore_inv: "NewContractStore sha opts = Some s \<Longrightarrow> cs_inv sha s \<and> cs_plans s = []"
  by (auto simp: NewContractStore_def cs_inv_def Let_def split: if_splits option.splits)

text \<open>A revoked plan consumes nothing for as long as it is kept.\<close>

lemma revoked_step:
  assumes inv: "cs_inv sha s" and run: "cs_exec sha edv x (r, s) = ((r', s'), ev)"
    and ne: "not_evicted sha h (r, s) (fst x)"
    and rv: "map_of (cs_plans s) h = Some e" "pe_status e = PlanRevoked"
  shows "(\<exists>e'. map_of (cs_plans s') h = Some e' \<and> pe_status e' = PlanRevoked) \<and> (\<forall>v. ev = Some v \<longrightarrow> fst v \<noteq> h)"
proof -
  from run obtain s1 c where st: "step_of sha (fst x) r s s1 c s'" and cn: "consumes (cs_plans s1) c ev"
    by (rule cs_exec_step)
  have wf: "wf_map (cs_plans s)" using inv by (simp add: cs_inv_def)
  have "map_of (cs_plans s1) h \<noteq> None" using st ne rv(1) by (auto simp: step_of_def not_evicted_def)
  then obtain e1 where e1: "map_of (cs_plans s1) h = Some e1" "pe_status e1 = PlanRevoked"
    using step_of_aged(2) [OF st wf, of h] rv by (auto simp: aged_def)
  have ap: "applied (cs_plans s1) c (cs_plans s')" using st by (simp add: step_of_def)
  have "named c \<noteq> Some h" using ap e1 by (cases c) (auto simp: is_tomb_def)
  with applied_other [OF ap] e1 have "\<exists>e'. map_of (cs_plans s') h = Some e' \<and> pe_status e' = PlanRevoked" by auto
  moreover have "\<forall>v. ev = Some v \<longrightarrow> fst v \<noteq> h"
    using cn \<open>named c \<noteq> Some h\<close> by (auto simp: consumes_def)
  ultimately show ?thesis by blast
qed

lemma revoked_run:
  "cs_inv sha (snd st) \<Longrightarrow> map_of (cs_plans (snd st)) h = Some e \<Longrightarrow> pe_status e = PlanRevoked \<Longrightarrow>
     never_evicted sha edv h st xs \<Longrightarrow> of_plan h (fst (cs_run sha edv st xs)) = []"
proof (induction xs arbitrary: st e)
  case Nil
  then show ?case by (simp add: of_plan_def)
next
  case (Cons x xs)
  obtain r s where st: "st = (r, s)" by (cases st)
  obtain r1 s1 ev where run: "cs_exec sha edv x (r, s) = ((r1, s1), ev)" by (metis surj_pair)
  have ne: "not_evicted sha h (r, s) (fst x)" "never_evicted sha edv h (r1, s1) xs"
    using Cons.prems(4) st run by auto
  obtain e' where e': "map_of (cs_plans s1) h = Some e'" "pe_status e' = PlanRevoked" and v: "\<forall>v. ev = Some v \<longrightarrow> fst v \<noteq> h"
    using revoked_step [OF _ run ne(1)] Cons.prems st by auto
  have "of_plan h (fst (cs_run sha edv (r1, s1) xs)) = []"
    using Cons.IH [of "(r1, s1)", OF _ _ e'(2) ne(2)] e'(1) cs_exec_inv [OF _ run] Cons.prems(1) st by simp
  with v show ?case by (auto simp: st run case_prod_beta of_plan_append of_plan_def split: option.splits)
qed

subsection \<open>Approvals\<close>

lemma signedBy_Some:
  "signedBy sha edv keys msg sig = Some kid \<Longrightarrow> \<exists>pub \<in> set keys. edv pub msg sig \<and> kid = KeyIDFromPublicKey sha pub"
  by (induction keys) (auto split: if_splits)

definition valid_signer ::
  "(bytes \<Rightarrow> bytes) \<Rightarrow> (bytes \<Rightarrow> bytes \<Rightarrow> bytes \<Rightarrow> bool) \<Rightarrow> bytes list \<Rightarrow> bytes \<Rightarrow> bytes \<Rightarrow> bytes \<Rightarrow> bool" where
  "valid_signer sha edv keys msg kid sig \<longleftrightarrow> (\<exists>pub \<in> set keys. edv pub msg sig \<and> kid = KeyIDFromPublicKey sha pub)"

lemma check_approvals_ok:
  "check_approvals sha edv s e msg used sigs = Inr kids \<Longrightarrow>
     distinct kids \<and> set kids \<inter> set used = {} \<and> pe_submitter e \<notin> Some ` set kids \<and>
     list_all2 (valid_signer sha edv (cs_approverKeys s) msg) kids sigs"
proof (induction sha edv s e msg used sigs arbitrary: kids rule: check_approvals.induct)
  case (1 sha edv s e msg used)
  then show ?case by simp
next
  case (2 sha edv s e msg used sig sigs)
  from "2.prems" obtain kid kids' where k: "signedBy sha edv (cs_approverKeys s) msg sig = Some kid"
    "pe_submitter e \<noteq> Some kid" "kid \<notin> set used"
    "check_approvals sha edv s e msg (kid # used) sigs = Inr kids'" "kids = kid # kids'"
    by (auto split: option.splits if_splits sum.splits)
  from "2.IH" [OF k(1,2,3,4)] k signedBy_Some [OF k(1)] show ?case
    by (auto simp: valid_signer_def)
qed

definition contract_leaf :: "(bytes \<Rightarrow> bytes) \<Rightarrow> ContractStore \<Rightarrow> bytes \<Rightarrow> time \<Rightarrow> leaf" where
  "contract_leaf sha s record now = sealed_leaf sha KindContract (cs_cellID s) (cs_salt s) record (unix_nano now)"

lemma cs_append_log:
  "cs_append sha r s record now = (r', True) \<Longrightarrow> unix_nano now \<noteq> 0 \<Longrightarrow> rg_log r' = rg_log r @ [contract_leaf sha s record now]"
  by (auto simp: cs_append_def contract_leaf_def split: prod.splits sum.splits dest!: AppendLeaf_ok)

lemma write_approvals_log:
  "write_approvals sha r s h expiry xs now = (r', True) \<Longrightarrow> unix_nano now \<noteq> 0 \<Longrightarrow>
     rg_log r' = rg_log r @ map (\<lambda>(kid, sig). contract_leaf sha s (signedRecord planEventApprove h kid expiry sig) now) xs"
proof (induction xs arbitrary: r)
  case Nil
  then show ?case by simp
next
  case (Cons x xs)
  obtain kid sig where x: "x = (kid, sig)" by (cases x)
  from Cons.prems x obtain r1 where "cs_append sha r s (signedRecord planEventApprove h kid expiry sig) now = (r1, True)"
    "write_approvals sha r1 s h expiry xs now = (r', True)"
    by (auto split: prod.splits bool.splits)
  with Cons x cs_append_log show ?case by fastforce
qed

text \<open>A plan that a call turns into an approved one.\<close>

lemma becomes_approved:
  assumes inv: "cs_inv sha s" and run: "cs_exec sha edv (now, op) (r, s) = ((r', s'), ev)"
    and before: "\<nexists>e. map_of (cs_plans s) h = Some e \<and> pe_status e = PlanApproved"
    and after: "map_of (cs_plans s') h = Some e'" "pe_status e' = PlanApproved"
  obtains expiry sigs al where "op = CApprove h expiry sigs" "ApproveAll sha edv r s h expiry sigs now = (r', s', al, Inr ())"
proof -
  from run obtain s1 c where st: "step_of sha (fst (now, op)) r s s1 c s'"
    and app: "\<forall>h t. c = ApprovedC h t \<longrightarrow> (\<exists>e sigs. snd (now, op) = CApprove h e sigs)"
    by (rule cs_exec_step)
  have wf: "wf_map (cs_plans s)" using inv by (simp add: cs_inv_def)
  have ap: "applied (cs_plans s1) c (cs_plans s')" using st by (simp add: step_of_def)
  have b1: "pe_status e1 \<noteq> PlanApproved" if "map_of (cs_plans s1) h = Some e1" for e1
    using step_of_aged(2) [OF st wf that] before by (auto simp: aged_def)
  have "named c = Some h" using applied_other [OF ap, of h] after b1 by fastforce
  then have c: "\<exists>t. c = ApprovedC h t" using ap after b1 by (cases c) auto
  then obtain expiry sigs where op: "op = CApprove h expiry sigs" using app by auto
  obtain r2 s2 al out where aa: "ApproveAll sha edv r s h expiry sigs now = (r2, s2, al, out)" by (metis prod_cases4)
  with run op have eq: "r2 = r'" "s2 = s'" by (auto simp: cs_exec_def)
  obtain r1 s1' al1 where ex: "expireLocked sha r s now = (r1, s1', al1)" by (metis prod_cases3)
  from ex aa have "out = Inr ()"
  proof (cases rule: ApproveAll_cases)
    case (refused err)
    then have "map_of (cs_plans s1') h = Some e'" using after eq by simp
    from expireLocked_plans(3) [OF ex wf this] show ?thesis using before after(2) by (auto simp: aged_def)
  qed auto
  with op aa eq show thesis by (intro that) auto
qed

subsection \<open>Bounded memory\<close>

definition countp :: "(planEntry \<Rightarrow> bool) \<Rightarrow> (bytes, planEntry) gomap \<Rightarrow> nat" where
  "countp P ps = length (filter (\<lambda>x. P (snd x)) ps)"

lemma countp_put_new: "map_of ps h = None \<Longrightarrow> countp P (put h e ps) = countp P ps + (if P e then 1 else 0)"
  by (induction ps) (auto simp: countp_def put_def split: if_splits)

lemma countp_put_old:
  "wf_map ps \<Longrightarrow> map_of ps h = Some e0 \<Longrightarrow> countp P (put h e ps) + (if P e0 then 1 else 0) = countp P ps + (if P e then 1 else 0)"
  by (induction ps) (auto simp: countp_def put_def wf_map_def split: if_splits)

lemma countp_aged:
  assumes "list_all2 (\<lambda>x y. fst y = fst x \<and> aged now (snd x) (snd y)) ps qs"
    and "\<And>e. P (e\<lparr>pe_expired := True\<rparr>) \<Longrightarrow> P e"
  shows "countp P qs \<le> countp P ps"
  using assms by (induction rule: list_all2_induct) (auto simp: countp_def aged_def)

lemma countp_filter: "countp P (filter Q ps) \<le> countp P ps"
  by (induction ps) (auto simp: countp_def)

lemma countp_evict: "countp P (evictTombstones mx ps) \<le> countp P ps"
  by (simp add: evictTombstones_def Let_def countp_filter)

lemma evict_bound:
  assumes "wf_map ps" and "0 \<le> mx"
  shows "int (countp is_tomb (evictTombstones mx ps)) \<le> mx"
proof -
  let ?t = "filter (\<lambda>(h, e). is_tomb e) ps"
  let ?k = "length ?t - nat mx"
  let ?s = "sort_key (\<lambda>(h, e). pe_submittedAt e) ?t"
  have t: "?t = filter (\<lambda>x. is_tomb (snd x)) ps" by (simp add: case_prod_unfold)
  show ?thesis
  proof (cases "int (length ?t) \<le> mx")
    case True
    then show ?thesis by (simp add: evictTombstones_def countp_def case_prod_unfold)
  next
    case False
    let ?gone = "set (map fst (take ?k ?s))"
    have d: "distinct (map fst ?s)"
    proof -
      have "distinct (map fst ?t)" using assms(1) by (simp add: wf_map_def distinct_map_filter)
      then show ?thesis by (metis mset_map mset_sort mset_eq_imp_distinct_iff)
    qed
    have "fst ` set (drop ?k ?s) \<inter> ?gone = {}"
      using d by (metis append_take_drop_id distinct_append inf_commute list.set_map map_append)
    then have "filter (\<lambda>x. fst x \<notin> ?gone) (drop ?k ?s) = drop ?k ?s" by (intro filter_True) auto
    moreover have "filter (\<lambda>x. fst x \<notin> ?gone) (take ?k ?s) = []" by (auto simp: filter_empty_conv)
    ultimately have "filter (\<lambda>x. fst x \<notin> ?gone) ?s = drop ?k ?s"
      by (metis append_Nil append_take_drop_id filter_append)
    moreover have "length (filter (\<lambda>x. fst x \<notin> ?gone) ?s) = length (filter (\<lambda>x. fst x \<notin> ?gone) ?t)"
    proof -
      have "mset (filter (\<lambda>x. fst x \<notin> ?gone) ?s) = mset (filter (\<lambda>x. fst x \<notin> ?gone) ?t)"
        by (simp only: mset_filter mset_sort)
      then show ?thesis by (rule mset_eq_length)
    qed
    ultimately have "length (filter (\<lambda>x. fst x \<notin> ?gone) ?t) = nat mx" using False by simp
    moreover have "countp is_tomb (evictTombstones mx ps) = length (filter (\<lambda>x. fst x \<notin> ?gone) ?t)"
      using False by (simp add: evictTombstones_def countp_def Let_def case_prod_unfold conj_commute)
    ultimately show ?thesis using assms(2) by simp
  qed
qed

abbreviation live :: "plan_status \<Rightarrow> planEntry \<Rightarrow> bool" where
  "live st \<equiv> \<lambda>e. pe_status e = st \<and> \<not> pe_expired e"

lemma countStatus_countp: "countStatus s st = int (countp (live st) (cs_plans s))"
  by (simp add: countStatus_def countp_def case_prod_unfold)

definition bounded :: "ContractStore \<Rightarrow> bool" where
  "bounded s \<longleftrightarrow> 0 \<le> cs_maxTombstones s \<and> int (countp (live PlanPending) (cs_plans s)) \<le> cs_maxPending s \<and>
     int (countp (live PlanApproved) (cs_plans s)) \<le> cs_maxApproved s \<and>
     int (countp is_tomb (cs_plans s)) \<le> cs_maxTombstones s + 1 \<and> length (cs_submissions s) \<le> maxSubmissionReplay"

lemma plans_partition: "length ps = countp is_tomb ps + countp (live PlanPending) ps + countp (live PlanApproved) ps"
proof (induction ps)
  case Nil
  then show ?case by (simp add: countp_def)
next
  case (Cons x ps)
  then show ?case by (cases "pe_status (snd x)") (auto simp: countp_def is_tomb_def)
qed

lemma expireLocked_counts:
  assumes ex: "expireLocked sha r s now = (r1, s1, al)" and wf: "wf_map (cs_plans s)" and t: "0 \<le> cs_maxTombstones s"
  shows "countp (live st) (cs_plans s1) \<le> countp (live st) (cs_plans s)"
    and "int (countp is_tomb (cs_plans s1)) \<le> cs_maxTombstones s"
proof -
  obtain ps where lo: "expire_loop sha s now r (cs_plans s) = (r1, ps, al)"
    and s1: "s1 = s\<lparr>cs_plans := evictTombstones (cs_maxTombstones s) ps\<rparr>"
    using ex by (auto simp: expireLocked_def split: prod.splits)
  have "wf_map ps" using expire_loop_keys [OF lo] wf by (simp add: wf_map_def)
  then show "int (countp is_tomb (cs_plans s1)) \<le> cs_maxTombstones s" using t s1 evict_bound by simp
  have "countp (live st) ps \<le> countp (live st) (cs_plans s)"
    by (rule countp_aged [OF expire_loop_aged [OF lo]]) simp
  with countp_evict [of "live st" "cs_maxTombstones s" ps] s1
  show "countp (live st) (cs_plans s1) \<le> countp (live st) (cs_plans s)" by simp
qed

lemma countp_put_old_le:
  "wf_map ps \<Longrightarrow> map_of ps h = Some e0 \<Longrightarrow> countp P (put h e ps) \<le> countp P ps + (if P e \<and> \<not> P e0 then 1 else 0)"
  using countp_put_old [of ps h e0 P e] by (auto split: if_splits)

lemma applied_counts:
  assumes ap: "applied ps c qs" and wf: "wf_map ps"
  shows "countp (live PlanPending) qs \<le> countp (live PlanPending) ps + (if \<exists>h e. c = Added h e then 1 else 0)"
    and "countp (live PlanApproved) qs \<le> countp (live PlanApproved) ps + (if \<exists>h t. c = ApprovedC h t then 1 else 0)"
    and "countp is_tomb qs \<le> countp is_tomb ps + 1"
proof -
  note old = countp_put_old_le [OF wf]
  show "countp (live PlanPending) qs \<le> countp (live PlanPending) ps + (if \<exists>h e. c = Added h e then 1 else 0)"
    using ap by (cases c) (auto simp: countp_put_new intro!: order_trans [OF old])
  show "countp (live PlanApproved) qs \<le> countp (live PlanApproved) ps + (if \<exists>h t. c = ApprovedC h t then 1 else 0)"
    using ap by (cases c) (auto simp: countp_put_new intro!: order_trans [OF old])
  show "countp is_tomb qs \<le> countp is_tomb ps + 1"
    using ap by (cases c) (auto simp: countp_put_new is_tomb_def intro!: order_trans [OF old])
qed

lemma bounded_step:
  assumes inv: "cs_inv sha s" and b: "bounded s" and st: "step_of sha now r s s1 c s'"
  shows "bounded s'"
proof -
  have wf: "wf_map (cs_plans s)" and t: "0 \<le> cs_maxTombstones s" using inv b by (auto simp: cs_inv_def bounded_def)
  note cfg = same_configD [OF conjunct2 [OF step_of_config [OF st]]]
  have ap: "applied (cs_plans s1) c (cs_plans s')" and wf1: "wf_map (cs_plans s1)"
    using st step_of_aged(1) [OF st wf] by (auto simp: step_of_def)
  note N = applied_counts [OF ap wf1]
  have sub: "length (cs_submissions s') \<le> maxSubmissionReplay" using st b by (auto simp: step_of_def bounded_def)
  show ?thesis
  proof (cases "s1 = s \<and> c = Unchanged")
    case True
    with ap b cfg sub show ?thesis by (simp add: bounded_def)
  next
    case False
    with st obtain r1 al where ex: "expireLocked sha r s now = (r1, s1, al)" by (auto simp: step_of_def)
    note E = expireLocked_counts [OF ex wf t]
    have p: "int (countp (live PlanPending) (cs_plans s')) \<le> cs_maxPending s"
      using N(1) E(1) [of PlanPending] b st by (auto simp: bounded_def step_of_def countStatus_countp split: if_splits)
    have a: "int (countp (live PlanApproved) (cs_plans s')) \<le> cs_maxApproved s"
      using N(2) E(1) [of PlanApproved] b st by (auto simp: bounded_def step_of_def countStatus_countp split: if_splits)
    show ?thesis using p a N(3) E(2) sub cfg t by (simp add: bounded_def)
  qed
qed

lemma cs_run_inv: "cs_inv sha (snd st) \<Longrightarrow> cs_inv sha (snd (snd (cs_run sha edv st xs)))"
proof (induction xs arbitrary: st)
  case Nil
  then show ?case by simp
next
  case (Cons x xs)
  obtain r s where st: "st = (r, s)" by (cases st)
  obtain r1 s1 ev where run: "cs_exec sha edv x (r, s) = ((r1, s1), ev)" by (metis surj_pair)
  from Cons.IH [of "(r1, s1)"] cs_exec_inv [OF _ run] Cons.prems st run show ?case by (simp add: case_prod_beta)
qed

lemma bounded_run:
  "cs_inv sha (snd st) \<Longrightarrow> bounded (snd st) \<Longrightarrow> bounded (snd (snd (cs_run sha edv st xs))) \<and>
     same_config (snd st) (snd (snd (cs_run sha edv st xs)))"
proof (induction xs arbitrary: st)
  case Nil
  then show ?case by simp
next
  case (Cons x xs)
  obtain r s where st: "st = (r, s)" by (cases st)
  obtain r1 s1 ev where run: "cs_exec sha edv x (r, s) = ((r1, s1), ev)" by (metis surj_pair)
  from run obtain s0 c where so: "step_of sha (fst x) r s s0 c s1" by (rule cs_exec_step)
  have "bounded s1" "cs_inv sha s1" "same_config s s1"
    using bounded_step [OF _ _ so] step_of_inv [OF so] step_of_config [OF so] Cons.prems st by auto
  with Cons.IH [of "(r1, s1)"] same_config_trans st run show ?case by (fastforce simp: case_prod_beta)
qed

subsection \<open>Properties\<close>

text \<open>C7: the execution follows the approved plan.  In any history of a plan store that does not
  evict the plan, the steps consumed under a plan hash are, in order, without gap, repetition or
  substitution, the first steps of the plan sealed by that hash (actions, resources and hashes of
  the parameters presented), as many as its cursor says.\<close>

theorem plan_steps_in_order:
  assumes "NewContractStore sha opts = Some s0" and "never_evicted sha edv h (r0, s0) ops"
    and "cs_run sha edv (r0, s0) ops = (evs, r, s)" and "map_of (cs_plans s) h = Some e"
  shows "of_plan h evs = as_steps (take (pe_cursor e) (pe_steps e)) \<and> pe_cursor e \<le> length (pe_steps e) \<and>
    h = HashPlan sha (cs_cellID s) (pe_subject e) (pe_submittedAt e) (cs_policyID s) (pe_steps e)"
proof -
  have "explained sha h [] s0" using NewContractStore_inv [OF assms(1)] by (simp add: explained_def of_plan_def)
  from explained_run [of sha h "[]" "(r0, s0)" edv ops] this assms(2,3)
  have "explained sha h evs s" by simp
  then show ?thesis using assms(4) by (auto simp: explained_def cs_inv_def entry_ok_def sealed_entry_def)
qed

text \<open>C8: an approval is k distinct operators.  Whatever call turns a plan into an approved one, it
  is an approval of that plan hash, the plan was pending and not expired, every signature given
  verifies over the approval message of that plan and that expiry under a key holding the approval
  role, the signers are pairwise distinct, at least as many as the plan requires, none of them is
  the submitter of a signed submission, the expiry is at least 60 seconds away and within the
  configured window, and the log ends with one attributed leaf per signer.\<close>

theorem approved_only_by_distinct_operators:
  assumes "cs_inv sha s" and "unix_nano now \<noteq> 0"
    and "cs_exec sha edv (now, op) (r, s) = ((r', s'), ev)"
    and "\<nexists>e. map_of (cs_plans s) h = Some e \<and> pe_status e = PlanApproved"
    and "map_of (cs_plans s') h = Some e'" and "pe_status e' = PlanApproved"
  shows "\<exists>e expiry sigs kids. op = CApprove h expiry sigs \<and> map_of (cs_plans s) h = Some e \<and>
    pe_status e = PlanPending \<and> \<not> pe_expired e \<and>
    list_all2 (valid_signer sha edv (cs_approverKeys s) (ApprovalMessage h expiry)) kids sigs \<and>
    distinct kids \<and> 1 \<le> pe_required e \<and> pe_required e \<le> int (length kids) \<and> pe_submitter e \<notin> Some ` set kids \<and>
    60 * second \<le> time_sub expiry now \<and> time_sub expiry now \<le> cs_approvalTTL s \<and>
    suffix (map (\<lambda>(kid, sig). contract_leaf sha s (signedRecord planEventApprove h kid expiry sig) now) (zip kids sigs)) (rg_log r')"
proof -
  from assms(1,3-6) obtain expiry sigs al where op: "op = CApprove h expiry sigs"
    and aa: "ApproveAll sha edv r s h expiry sigs now = (r', s', al, Inr ())"
    by (rule becomes_approved)
  obtain r1 s1 al1 where ex: "expireLocked sha r s now = (r1, s1, al1)" by (metis prod_cases3)
  have cfg: "cs_approverKeys s1 = cs_approverKeys s" "cs_approvalTTL s1 = cs_approvalTTL s"
      "cs_cellID s1 = cs_cellID s" "cs_salt s1 = cs_salt s"
    by (subst expireLocked_config [OF ex], simp)+
  from ex aa show ?thesis
  proof (cases rule: ApproveAll_cases)
    case (approved e kids)
    have e: "map_of (cs_plans s) h = Some e"
      using expireLocked_plans(3) [OF ex _ approved(2)] approved(3) assms(1) by (auto simp: aged_def cs_inv_def)
    then have "1 \<le> pe_required e" using assms(1) by (auto simp: cs_inv_def entry_ok_def)
    moreover have "contract_leaf sha s1 = contract_leaf sha s" by (simp add: contract_leaf_def fun_eq_iff cfg)
    then have "suffix (map (\<lambda>(kid, sig). contract_leaf sha s (signedRecord planEventApprove h kid expiry sig) now) (zip kids sigs)) (rg_log r')"
      using write_approvals_log [OF approved(11) assms(2)] by (simp add: suffix_def)
    ultimately show ?thesis
      using op e approved check_approvals_ok [OF approved(8)] cfg
      by (intro exI [of _ e] exI [of _ expiry] exI [of _ sigs] exI [of _ kids]) (auto simp: MinApprovalTTL_def)
  qed auto
qed

text \<open>a revoked plan never runs again.  From the moment an operator's revocation succeeds, no
  step of that plan is consumed in any later history of the store that keeps the plan.\<close>

lemma revoked_plan_never_runs:
  assumes "NewContractStore sha opts = Some s0" and "cs_run sha edv (r0, s0) before = (evs0, r, s)"
    and "Revoke sha edv r s h expiry sig now = (r1, s1, al, Inr ())"
    and "never_evicted sha edv h (r1, s1) later"
  shows "of_plan h (fst (cs_run sha edv (r1, s1) later)) = []"
proof -
  have inv: "cs_inv sha s" using cs_run_inv [of sha "(r0, s0)" edv before] NewContractStore_inv [OF assms(1)] assms(2) by simp
  have "cs_exec sha edv (now, CRevoke h expiry sig) (r, s) = ((r1, s1), None)"
    using assms(3) by (simp add: cs_exec_def)
  from cs_exec_inv [OF inv this] have inv1: "cs_inv sha s1" .
  obtain ra sa ala where ex: "expireLocked sha r s now = (ra, sa, ala)" by (metis prod_cases3)
  from ex assms(3) obtain e where "map_of (cs_plans s1) h = Some e" "pe_status e = PlanRevoked"
    by (cases rule: Revoke_cases) auto
  with inv1 assms(4) show ?thesis by (intro revoked_run) auto
qed

text \<open>the store is bounded.  In any history of a fresh store the live pending plans and the live
  approved plans stay within their quotas, the whole table stays within the quotas plus the
  tombstones kept for inspection plus one, and the memory of signed submissions within 1024.\<close>

lemma plan_store_bounded:
  assumes "NewContractStore sha opts = Some s0" and "cs_run sha edv (r0, s0) ops = (evs, r, s)"
  shows "countStatus s PlanPending \<le> cs_maxPending s0 \<and> countStatus s PlanApproved \<le> cs_maxApproved s0 \<and>
    int (length (cs_plans s)) \<le> cs_maxPending s0 + cs_maxApproved s0 + cs_maxTombstones s0 + 1 \<and>
    length (cs_submissions s) \<le> 1024"
proof -
  have "bounded s0" using assms(1)
    by (auto simp: NewContractStore_def bounded_def countp_def Let_def not_less split: if_splits option.splits)
  then have "bounded s" "same_config s0 s"
    using bounded_run [of sha "(r0, s0)" edv ops] NewContractStore_inv [OF assms(1)] assms(2) by auto
  then show ?thesis
    using same_configD [of s0 s] plans_partition [of "cs_plans s"]
    by (simp add: bounded_def countStatus_countp maxSubmissionReplay_def)
qed

subsection \<open>A concrete store\<close>

text \<open>One operator, one plan of one step, submitted at 1000, approved at 1010 until 1100 and executed
  at 1020; a constant function stands for the hash and a permissive one for the signature check.\<close>

definition sha_ex :: "bytes \<Rightarrow> bytes" where "sha_ex b = zeros 32"
definition edv_ex :: "bytes \<Rightarrow> bytes \<Rightarrow> bytes \<Rightarrow> bool" where "edv_ex p m s \<longleftrightarrow> True"

definition opts_ex :: ContractOptions where
  "opts_ex = \<lparr>co_CellID = ''cell-a'', co_PolicyID = zeros 32, co_OperatorKeys = [zeros 32], co_ApproverKeys = None,
     co_RevokerKeys = None, co_SubmitterKeys = None, co_SeparateDuties = False, co_ApprovalsRequired = None,
     co_Salt = zeros 16, co_MaxPending = 0, co_MaxApproved = 0, co_MaxTombstones = 0, co_ApprovalTTL = 0, co_PendingTTL = 0\<rparr>"

definition store_ex :: "(bytes, planEntry) gomap \<Rightarrow> ContractStore" where
  "store_ex ps = \<lparr>cs_cellID = ''cell-a'', cs_policyID = zeros 32, cs_operatorKeys = [zeros 32], cs_approverKeys = [zeros 32],
     cs_revokerKeys = [zeros 32], cs_submitterKeys = [zeros 32], cs_separate = False, cs_submissions = [],
     cs_approvalsReq = None, cs_distinctKeys = 1, cs_salt = zeros 16, cs_maxPending = 64, cs_maxApproved = 64,
     cs_maxTombstones = 128, cs_approvalTTL = 3600 * second, cs_pendingTTL = 900 * second, cs_plans = ps\<rparr>"

lemma store_ex_fields:
  "cs_cellID (store_ex ps) = ''cell-a''" "cs_policyID (store_ex ps) = zeros 32" "cs_operatorKeys (store_ex ps) = [zeros 32]"
  "cs_approverKeys (store_ex ps) = [zeros 32]" "cs_revokerKeys (store_ex ps) = [zeros 32]"
  "cs_separate (store_ex ps) = False" "cs_approvalsReq (store_ex ps) = None"
  "cs_distinctKeys (store_ex ps) = 1" "cs_salt (store_ex ps) = zeros 16" "cs_maxPending (store_ex ps) = 64"
  "cs_maxApproved (store_ex ps) = 64" "cs_maxTombstones (store_ex ps) = 128" "cs_approvalTTL (store_ex ps) = 3600 * second"
  "cs_pendingTTL (store_ex ps) = 900 * second" "cs_plans (store_ex ps) = ps" "(store_ex ps)\<lparr>cs_plans := qs\<rparr> = store_ex qs"
  by (simp_all add: store_ex_def)

lemma store_ex_new: "NewContractStore sha_ex opts_ex = Some (store_ex [])"
  by (simp add: NewContractStore_def opts_ex_def or_default_def roleKeys_def store_ex_def countDistinctKeys_def
      DefaultMaxPendingPlans_def DefaultMaxApprovedPlans_def DefaultMaxTombstones_def DefaultApprovalTTL_def
      DefaultPendingTTL_def MinApprovalTTL_def MaxApprovalTTL_def maxPlanActionLen_def PublicKeySize_def second_def Let_def)

definition entry_ex :: "plan_status \<Rightarrow> time \<Rightarrow> nat \<Rightarrow> planEntry" where
  "entry_ex st t k = \<lparr>pe_subject = ''agent'', pe_steps = [step_ex ''read''], pe_submittedAt = of_unix 1000, pe_expiresAt = t,
     pe_status = st, pe_required = 1, pe_submitter = None, pe_cursor = k, pe_expired = False\<rparr>"

definition logged :: "leaf list \<Rightarrow> registry" where "logged ls = reg_ex\<lparr>rg_log := ls\<rparr>"

lemma cs_append_ex:
  assumes "0 < t" "t \<le> 2000"
  obtains ls' where "cs_append sha_ex (logged ls) (store_ex ps) record (of_unix t) = (logged ls', True)"
proof -
  have "unix_nano (of_unix t) \<noteq> 0" using assms by (simp add: unix_nano_def of_unix_def second_def int64_def)
  then have "\<exists>ls'. cs_append sha_ex (logged ls) (store_ex ps) record (of_unix t) = (logged ls', True)"
    by (simp add: cs_append_def store_ex_def logged_def AppendLeaf_plain plain_def reg_ex_def known_kind_def)
  with that show thesis by blast
qed

lemma expire_ex_none: "expireLocked sha_ex r (store_ex []) now = (r, store_ex [], [])"
  by (simp add: expireLocked_def evictTombstones_def store_ex_def)

lemma expire_ex:
  "now \<le> t \<Longrightarrow> expireLocked sha_ex r (store_ex [(h, entry_ex st t k)]) now = (r, store_ex [(h, entry_ex st t k)], [])"
  by (simp add: expireLocked_def evictTombstones_def store_ex_def entry_ex_def)

lemma submit_ex: "\<exists>ls. cs_exec sha_ex edv_ex (of_unix 1000, CSubmit ''agent'' [step_ex ''read'']) (logged [], store_ex []) =
    ((logged ls, store_ex [(zeros 32, entry_ex PlanPending (of_unix 1900) 0)]), None)"
proof -
  obtain ls where ap: "cs_append sha_ex (logged []) (store_ex []) (contractRecord planEventSubmit (zeros 32) 1 1 ''ok'') (of_unix 1000) = (logged ls, True)"
    by (rule cs_append_ex [of 1000]) auto
  have v: "ValidatePlan ''agent'' [step_ex ''read'']" by (simp add: ValidatePlan_def plan_bounds step_ex_def)
  have t: "of_unix 1000 + 900 * second = of_unix 1900" by (simp add: of_unix_def)
  have "submitLocked sha_ex (logged []) (store_ex []) ''agent'' [step_ex ''read''] None (of_unix 1000) =
      (logged ls, store_ex [(zeros 32, entry_ex PlanPending (of_unix 1900) 0)], [], Inr (zeros 32))"
    using ap by (simp add: submitLocked_def HashPlan_def sha_ex_def required_approvals_def approversApartFrom_def
        countStatus_def store_ex_fields put_def entry_ex_def t Let_def)
  then show ?thesis by (auto simp: cs_exec_def Submit_def v expire_ex_none raising_def store_ex_fields)
qed

lemma approve_ex: "\<exists>ls'. cs_exec sha_ex edv_ex (of_unix 1010, CApprove (zeros 32) (of_unix 1100) [''sig''])
      (logged ls, store_ex [(zeros 32, entry_ex PlanPending (of_unix 1900) 0)]) =
    ((logged ls', store_ex [(zeros 32, entry_ex PlanApproved (of_unix 1100) 0)]), None)"
proof -
  let ?s = "store_ex [(zeros 32, entry_ex PlanPending (of_unix 1900) 0)]"
  obtain ls' where ap: "cs_append sha_ex (logged ls) ?s (signedRecord planEventApprove (zeros 32) (zeros 16) (of_unix 1100) ''sig'') (of_unix 1010) = (logged ls', True)"
    by (rule cs_append_ex [of 1010]) auto
  have ex: "expireLocked sha_ex (logged ls) ?s (of_unix 1010) = (logged ls, ?s, [])"
    by (rule expire_ex) (simp add: of_unix_def second_def)
  have kid: "KeyIDFromPublicKey sha_ex (zeros 32) = zeros 16"
    by (simp add: KeyIDFromPublicKey_def sha_ex_def) (simp add: zeros_def)
  have ttl: "time_sub (of_unix 1100) (of_unix 1010) = 90 * second" "MinApprovalTTL = 60 * second" "0 < second"
    by (simp_all add: time_sub_def of_unix_def second_def MinApprovalTTL_def)
  have "ApproveAll sha_ex edv_ex (logged ls) ?s (zeros 32) (of_unix 1100) [''sig''] (of_unix 1010) =
      (logged ls', store_ex [(zeros 32, entry_ex PlanApproved (of_unix 1100) 0)], [], Inr ())"
    unfolding ApproveAll_def ex using ap
    by (simp add: raising_def plan_bounds store_ex_fields countStatus_def ttl edv_ex_def kid)
      (simp add: entry_ex_def put_def)
  then show ?thesis by (auto simp: cs_exec_def)
qed

definition binding_ex :: bytes where "binding_ex = ''TBPB1'' @ zeros 32 @ be 2 0"

lemma binding_ex_parse: "parseBinding binding_ex = (zeros 32, Some [])"
  by (rule parse_BuildBinding) (simp_all add: BuildBinding_def binding_ex_def plan_bounds)

lemma verify_step_ex: "\<exists>ls'. VerifyStep sha_ex (logged ls) (store_ex [(zeros 32, entry_ex PlanApproved (of_unix 1100) 0)]) ''agent'' binding_ex
      ''read'' ''db'' (of_unix 1020) =
    (logged ls', store_ex [(zeros 32, entry_ex PlanApproved (of_unix 1100) 1)], [], Inr (zeros 32))"
proof -
  let ?s = "store_ex [(zeros 32, entry_ex PlanApproved (of_unix 1100) 0)]"
  obtain ls' where ap: "cs_append sha_ex (logged ls) ?s (contractRecord planEventConsume (zeros 32) 0 1 ''ok'') (of_unix 1020) = (logged ls', True)"
    by (rule cs_append_ex [of 1020]) auto
  have ex: "expireLocked sha_ex (logged ls) ?s (of_unix 1020) = (logged ls, ?s, [])"
    by (rule expire_ex) (simp add: of_unix_def second_def)
  have "VerifyStep sha_ex (logged ls) ?s ''agent'' binding_ex ''read'' ''db'' (of_unix 1020) =
      (logged ls', store_ex [(zeros 32, entry_ex PlanApproved (of_unix 1100) 1)], [], Inr (zeros 32))"
    unfolding VerifyStep_def ex binding_ex_parse using ap
    by (simp add: raising_def store_ex_fields HashParams_def sha_ex_def)
      (simp add: entry_ex_def step_ex_def put_def Let_def store_ex_fields)
  then show ?thesis by blast
qed

lemma consume_ex: "\<exists>ls'. cs_exec sha_ex edv_ex (of_unix 1020, CVerify ''agent'' binding_ex ''read'' ''db'')
      (logged ls, store_ex [(zeros 32, entry_ex PlanApproved (of_unix 1100) 0)]) =
    ((logged ls', store_ex [(zeros 32, entry_ex PlanApproved (of_unix 1100) 1)]), Some (zeros 32, ''read'', ''db'', zeros 32))"
  using verify_step_ex [of ls] by (auto simp: cs_exec_def binding_ex_parse HashParams_def sha_ex_def)

definition ops_ex :: "(time \<times> cs_op) list" where
  "ops_ex = [(of_unix 1000, CSubmit ''agent'' [step_ex ''read'']),
     (of_unix 1010, CApprove (zeros 32) (of_unix 1100) [''sig'']),
     (of_unix 1020, CVerify ''agent'' binding_ex ''read'' ''db'')]"

lemma ops_ex_run: "\<exists>ls. cs_run sha_ex edv_ex (logged [], store_ex []) ops_ex =
    ([(zeros 32, ''read'', ''db'', zeros 32)], logged ls, store_ex [(zeros 32, entry_ex PlanApproved (of_unix 1100) 1)])"
proof -
  obtain l1 where 1: "cs_exec sha_ex edv_ex (of_unix 1000, CSubmit ''agent'' [step_ex ''read'']) (logged [], store_ex []) =
    ((logged l1, store_ex [(zeros 32, entry_ex PlanPending (of_unix 1900) 0)]), None)" using submit_ex by blast
  obtain l2 where 2: "cs_exec sha_ex edv_ex (of_unix 1010, CApprove (zeros 32) (of_unix 1100) [''sig''])
      (logged l1, store_ex [(zeros 32, entry_ex PlanPending (of_unix 1900) 0)]) =
    ((logged l2, store_ex [(zeros 32, entry_ex PlanApproved (of_unix 1100) 0)]), None)" using approve_ex by blast
  obtain l3 where 3: "cs_exec sha_ex edv_ex (of_unix 1020, CVerify ''agent'' binding_ex ''read'' ''db'')
      (logged l2, store_ex [(zeros 32, entry_ex PlanApproved (of_unix 1100) 0)]) =
    ((logged l3, store_ex [(zeros 32, entry_ex PlanApproved (of_unix 1100) 1)]), Some (zeros 32, ''read'', ''db'', zeros 32))"
    using consume_ex by blast
  have "cs_run sha_ex edv_ex (logged [], store_ex []) ops_ex =
    ([(zeros 32, ''read'', ''db'', zeros 32)], logged l3, store_ex [(zeros 32, entry_ex PlanApproved (of_unix 1100) 1)])"
    by (simp add: ops_ex_def 1 2 3)
  then show ?thesis by blast
qed

lemma ops_ex_kept: "never_evicted sha_ex edv_ex (zeros 32) (logged [], store_ex []) ops_ex"
proof -
  obtain l1 where 1: "cs_exec sha_ex edv_ex (of_unix 1000, CSubmit ''agent'' [step_ex ''read'']) (logged [], store_ex []) =
    ((logged l1, store_ex [(zeros 32, entry_ex PlanPending (of_unix 1900) 0)]), None)" using submit_ex by blast
  obtain l2 where 2: "cs_exec sha_ex edv_ex (of_unix 1010, CApprove (zeros 32) (of_unix 1100) [''sig''])
      (logged l1, store_ex [(zeros 32, entry_ex PlanPending (of_unix 1900) 0)]) =
    ((logged l2, store_ex [(zeros 32, entry_ex PlanApproved (of_unix 1100) 0)]), None)" using approve_ex by blast
  have "of_unix 1010 \<le> of_unix 1900" "of_unix 1020 \<le> of_unix 1100" by (simp_all add: of_unix_def second_def)
  then show ?thesis
    by (simp add: ops_ex_def 1 2 not_evicted_def expire_ex) (simp add: store_ex_def)
qed

theorem plan_steps_in_order_witness:
  "\<exists>evs r s. cs_run sha_ex edv_ex (logged [], store_ex []) ops_ex = (evs, r, s) \<and>
     of_plan (zeros 32) evs = as_steps (take 1 [step_ex ''read''])"
proof -
  obtain ls where run: "cs_run sha_ex edv_ex (logged [], store_ex []) ops_ex =
    ([(zeros 32, ''read'', ''db'', zeros 32)], logged ls, store_ex [(zeros 32, entry_ex PlanApproved (of_unix 1100) 1)])"
    using ops_ex_run by blast
  from plan_steps_in_order [OF store_ex_new ops_ex_kept run, of "entry_ex PlanApproved (of_unix 1100) 1"] run show ?thesis
    by (simp add: store_ex_def entry_ex_def)
qed

lemma pending_ex_inv: "cs_inv sha_ex (store_ex [(zeros 32, entry_ex PlanPending (of_unix 1900) 0)])"
  by (auto simp: cs_inv_def wf_map_def store_ex_fields entry_ok_def sealed_entry_def HashPlan_def sha_ex_def entry_ex_def
      split: if_splits)

theorem approved_only_by_distinct_operators_witness:
  "\<exists>kids. distinct kids \<and> 1 \<le> int (length kids) \<and>
     list_all2 (valid_signer sha_ex edv_ex [zeros 32] (ApprovalMessage (zeros 32) (of_unix 1100))) kids [''sig'']"
proof -
  let ?s = "store_ex [(zeros 32, entry_ex PlanPending (of_unix 1900) 0)]"
  obtain ls' where run: "cs_exec sha_ex edv_ex (of_unix 1010, CApprove (zeros 32) (of_unix 1100) [''sig'']) (logged [], ?s) =
      ((logged ls', store_ex [(zeros 32, entry_ex PlanApproved (of_unix 1100) 0)]), None)" using approve_ex by blast
  have "unix_nano (of_unix 1010) \<noteq> 0" by (simp add: unix_nano_def of_unix_def second_def int64_def)
  moreover have "\<nexists>e. map_of (cs_plans ?s) (zeros 32) = Some e \<and> pe_status e = PlanApproved"
    by (simp add: store_ex_fields entry_ex_def)
  ultimately show ?thesis
    using approved_only_by_distinct_operators [OF pending_ex_inv _ run, of "zeros 32" "entry_ex PlanApproved (of_unix 1100) 0"]
    by (fastforce simp: store_ex_fields entry_ex_def)
qed

lemma revoke_ex: "\<exists>ls'. Revoke sha_ex edv_ex (logged ls) (store_ex [(zeros 32, entry_ex PlanPending (of_unix 1900) 0)])
      (zeros 32) (of_unix 1100) ''sig'' (of_unix 1010) =
    (logged ls', store_ex [(zeros 32, entry_ex PlanRevoked (of_unix 1900) 0)], [], Inr ())"
proof -
  let ?s = "store_ex [(zeros 32, entry_ex PlanPending (of_unix 1900) 0)]"
  obtain ls' where ap: "cs_append sha_ex (logged ls) ?s (signedRecord planEventRevoke (zeros 32) (zeros 16) (of_unix 1100) ''sig'') (of_unix 1010) = (logged ls', True)"
    by (rule cs_append_ex [of 1010]) auto
  have ex: "expireLocked sha_ex (logged ls) ?s (of_unix 1010) = (logged ls, ?s, [])"
    by (rule expire_ex) (simp add: of_unix_def second_def)
  have kid: "KeyIDFromPublicKey sha_ex (zeros 32) = zeros 16"
    by (simp add: KeyIDFromPublicKey_def sha_ex_def) (simp add: zeros_def)
  have ttl: "time_sub (of_unix 1100) (of_unix 1010) = 90 * second" "0 < second" "\<not> second \<le> 0"
    by (simp_all add: time_sub_def of_unix_def second_def)
  show ?thesis
    unfolding Revoke_def ex using ap
    by (auto simp: raising_def store_ex_fields ttl edv_ex_def kid entry_ex_def put_def Let_def)
qed


end
