(* ===== verification/Mode_Control.thy ===== *)
theory Mode_Control
  imports Fail_Closed Validator
begin

text \<open>
  The enforcement posture of a PEP (\<open>src/src/pep/mode.go\<close>): monitor, closed, and the refused
  posture of a restart; governed changes under a full quorum, and the reduced quorum that may
  only restrict.  The postures are ordered by strictness, and that order is the library's
  \<open>linorder\<close> on the type.
\<close>

subsection \<open>Postures\<close>

datatype PEPMode = ModeMonitor | ModeClosed | ModeRefused

fun mode_num :: "PEPMode \<Rightarrow> nat" where
  "mode_num ModeMonitor = 0"
| "mode_num ModeClosed = 1"
| "mode_num ModeRefused = 2"

lemma mode_num_inj: "mode_num m = mode_num n \<longleftrightarrow> m = n"
  by (cases m; cases n) auto

instantiation PEPMode :: linorder
begin

definition less_eq_PEPMode :: "PEPMode \<Rightarrow> PEPMode \<Rightarrow> bool" where
  "less_eq_PEPMode m n \<longleftrightarrow> mode_num m \<le> mode_num n"

definition less_PEPMode :: "PEPMode \<Rightarrow> PEPMode \<Rightarrow> bool" where
  "less_PEPMode m n \<longleftrightarrow> mode_num m < mode_num n"

instance
  by standard (auto simp: less_eq_PEPMode_def less_PEPMode_def mode_num_inj)

end

definition mode_String :: "PEPMode \<Rightarrow> string" where
  "mode_String m = (case m of ModeClosed \<Rightarrow> ''closed'' | ModeRefused \<Rightarrow> ''refused'' | ModeMonitor \<Rightarrow> ''monitor'')"

definition ParsePEPMode :: "string \<Rightarrow> PEPMode option" where
  "ParsePEPMode s = (if s = ''monitor'' then Some ModeMonitor
     else if s = ''closed'' then Some ModeClosed else None)"

subsection \<open>The controller\<close>

definition ReasonModeReducedQuorum :: string where "ReasonModeReducedQuorum = ''mode-closed-reduced-quorum''"

record ModeController =
  mc_cellID :: string
  mc_salt :: bytes
  mc_mode :: PEPMode
  mc_verifier :: "QuorumVerifier option"
  mc_restrict :: "QuorumVerifier option"
  mc_state :: "QuorumState option"

datatype mode_error =
    MeInvalid | MeVerifierMissing | MeRejected | MeStateMissing | MeState quorum_state_error | MeReplayed

definition modeChangeRecord :: "PEPMode \<Rightarrow> bytes" where
  "modeChangeRecord m = ''TBPM1'' @ [byte (mode_num m)]"

definition modeReducedRecord :: "PEPMode \<Rightarrow> bytes" where
  "modeReducedRecord m = ''TBPM2'' @ [byte (mode_num m), byte 1]"

definition mc_writeLeaf ::
  "(bytes \<Rightarrow> bytes) \<Rightarrow> registry \<Rightarrow> ModeController \<Rightarrow> bytes \<Rightarrow> time \<Rightarrow> registry \<times> string list" where
  "mc_writeLeaf sha r c record now =
     (case AppendLeaf sha r KindTelemetry (mc_cellID c) (mc_salt c) record (unix_nano now) of
        (r', Inl e) \<Rightarrow> (r', [ReasonLeafWriteFailed])
      | (r', Inr i) \<Rightarrow> (r', []))"

definition NewModeController ::
  "(bytes \<Rightarrow> bytes) \<Rightarrow> string \<Rightarrow> bytes \<Rightarrow> registry option \<Rightarrow> QuorumVerifier option \<Rightarrow> QuorumVerifier option
     \<Rightarrow> QuorumState option \<Rightarrow> bool \<Rightarrow> time \<Rightarrow> (registry \<times> ModeController \<times> string list) option" where
  "NewModeController sha cellID salt leaves verifier restrict state startRefused now =
     (if cellID = [] then None
      else if length salt < 16 then None
      else case leaves of None \<Rightarrow> None
      | Some r \<Rightarrow>
          let c = \<lparr>mc_cellID = cellID, mc_salt = salt, mc_mode = ModeMonitor, mc_verifier = verifier,
                   mc_restrict = restrict, mc_state = state\<rparr>
          in if startRefused
             then let c' = c\<lparr>mc_mode := ModeRefused\<rparr>;
                      (r', al) = mc_writeLeaf sha r c' (modeChangeRecord ModeRefused) now
                  in Some (r', c', al @ [''mode-refused-restart''])
             else Some (r, c, []))"

definition mode_condition :: "PEPMode \<Rightarrow> string" where
  "mode_condition m = ''mode-'' @ mode_String m"

text \<open>The two verifications of a proof for a change to \<open>m\<close>: the full quorum, and the reduced one,
  consulted only when the full one refuses, for monitor to closed and nothing else.\<close>

definition full_quorum ::
  "(bytes \<Rightarrow> bytes \<Rightarrow> bytes \<Rightarrow> bool) \<Rightarrow> ModeController \<Rightarrow> PEPMode \<Rightarrow> QuorumProof \<Rightarrow> time \<Rightarrow> bool" where
  "full_quorum edv c m p now \<longleftrightarrow>
     (case mc_verifier c of None \<Rightarrow> False | Some qv \<Rightarrow> quorum_verify edv qv now (mode_condition m) p)"

definition reduced_quorum ::
  "(bytes \<Rightarrow> bytes \<Rightarrow> bytes \<Rightarrow> bool) \<Rightarrow> ModeController \<Rightarrow> PEPMode \<Rightarrow> QuorumProof \<Rightarrow> time \<Rightarrow> bool" where
  "reduced_quorum edv c m p now \<longleftrightarrow> \<not> full_quorum edv c m p now \<and> mc_mode c = ModeMonitor \<and> m = ModeClosed \<and>
     (case mc_restrict c of None \<Rightarrow> False | Some rv \<Rightarrow> quorum_verify edv rv now (mode_condition m) p)"

definition SetMode ::
  "(bytes \<Rightarrow> bytes) \<Rightarrow> (bytes \<Rightarrow> bytes \<Rightarrow> bytes \<Rightarrow> bool) \<Rightarrow> registry \<Rightarrow> ModeController \<Rightarrow> PEPMode \<Rightarrow> QuorumProof
     \<Rightarrow> time \<Rightarrow> registry \<times> ModeController \<times> string list \<times> mode_error option" where
  "SetMode sha edv r c m proof now =
     (if m \<noteq> ModeMonitor \<and> m \<noteq> ModeClosed then (r, c, [], Some MeInvalid)
      else if mc_mode c = m then (r, c, [], None)
      else if mc_verifier c = None then (r, c, [], Some MeVerifierMissing)
      else if \<not> full_quorum edv c m proof now \<and> \<not> reduced_quorum edv c m proof now
      then (r, c, [], Some MeRejected)
      else case mc_state c of None \<Rightarrow> (r, c, [], Some MeStateMissing)
      | Some qs \<Rightarrow>
        (case Consume_floor qs (mode_condition m) (unix (Expiry proof)) of
           (Inl e, qs') \<Rightarrow> (r, c\<lparr>mc_state := Some qs'\<rparr>, [], Some (MeState e))
         | (Inr False, qs') \<Rightarrow> (r, c\<lparr>mc_state := Some qs'\<rparr>, [], Some MeReplayed)
         | (Inr True, qs') \<Rightarrow>
             let c' = c\<lparr>mc_state := Some qs', mc_mode := m\<rparr>;
                 (r1, al1) = mc_writeLeaf sha r c' (modeChangeRecord m) now;
                 al2 = al1 @ [mode_condition m]
             in if reduced_quorum edv c m proof now
                then let (r2, al3) = mc_writeLeaf sha r1 c' (modeReducedRecord m) now
                     in (r2, c', al2 @ al3 @ [ReasonModeReducedQuorum], None)
                else (r1, c', al2, None)))"

definition mc_Allows :: "ModeController \<Rightarrow> Decision \<Rightarrow> bool" where
  "mc_Allows c d = (case mc_mode c of ModeMonitor \<Rightarrow> True | ModeClosed \<Rightarrow> Allow d | ModeRefused \<Rightarrow> False)"

subsection \<open>What a change can do\<close>

definition mc_floor :: "ModeController \<Rightarrow> string \<Rightarrow> int option" where
  "mc_floor c n = (case mc_state c of None \<Rightarrow> None | Some qs \<Rightarrow> qs_floor qs n)"

lemma SetMode_cases:
  assumes "SetMode sha edv r c m p now = (r', c', al, res)"
  obtains (same) "mc_mode c' = mc_mode c" "mc_floor c' = mc_floor c" "mc_verifier c' = mc_verifier c"
      "r' = r" "res = None \<Longrightarrow> mc_mode c = m"
  | (changed) "mc_mode c \<noteq> m" "m \<noteq> ModeRefused" "res = None" "mc_mode c' = m" "mc_verifier c' = mc_verifier c"
      "full_quorum edv c m p now \<or> reduced_quorum edv c m p now \<and> ReasonModeReducedQuorum \<in> set al"
      "mode_condition m \<in> set al"
      "mc_floor c' = (mc_floor c)(mode_condition m \<mapsto> unix (Expiry p))"
      "\<forall>e. mc_floor c (mode_condition m) = Some e \<longrightarrow> e < unix (Expiry p)"
proof -
  have keep: "mc_floor (c\<lparr>mc_state := Some qs'\<rparr>) = mc_floor c"
    if "mc_state c = Some qs" "Consume_floor qs n e = (x, qs')" "x \<noteq> Inr True" for qs n e x qs'
    using that qfile.consume_frame by (fastforce simp: mc_floor_def fun_eq_iff)
  let ?q = "full_quorum edv c m p now \<or> reduced_quorum edv c m p now"
  consider (idle) "m = ModeRefused \<or> mc_mode c = m \<or> mc_verifier c = None \<or> \<not> ?q \<or> mc_state c = None"
    | (store) qs x qs' where "m \<noteq> ModeRefused" "mc_mode c \<noteq> m" "mc_verifier c \<noteq> None" "?q" "mc_state c = Some qs"
        "Consume_floor qs (mode_condition m) (unix (Expiry p)) = (x, qs')"
    by (metis option.exhaust surj_pair)
  then show thesis
  proof cases
    case idle
    with assms show thesis by (cases m) (auto simp: SetMode_def split: if_splits option.splits intro!: same)
  next
    case store
    have g: "m = ModeMonitor \<or> m = ModeClosed" using store(1) by (cases m) auto
    show thesis
    proof (cases "x = Inr True")
      case False
      with assms store g have "res \<noteq> None" "c' = c\<lparr>mc_state := Some qs'\<rparr>" "r' = r"
        by (auto simp: SetMode_def split: sum.splits bool.splits if_splits)
      with keep [OF store(5,6) False] show thesis by (intro same) auto
    next
      case True
      note F = qfile.consume_raises [OF store(6) [unfolded True]]
      from assms store g True have "res = None" "mode_condition m \<in> set al" "c' = c\<lparr>mc_state := Some qs', mc_mode := m\<rparr>"
        "reduced_quorum edv c m p now \<longrightarrow> ReasonModeReducedQuorum \<in> set al"
        by (auto simp: SetMode_def Let_def split: prod.splits if_splits)
      moreover have "mc_floor (c\<lparr>mc_state := Some qs', mc_mode := m\<rparr>) =
          (mc_floor c)(mode_condition m \<mapsto> unix (Expiry p))"
        using F store(5) by (simp add: mc_floor_def fun_eq_iff)
      ultimately show thesis
        using store F by (intro changed) (auto simp: mc_floor_def)
    qed
  qed
qed

subsection \<open>Runs\<close>

primrec mode_run ::
  "(bytes \<Rightarrow> bytes) \<Rightarrow> (bytes \<Rightarrow> bytes \<Rightarrow> bytes \<Rightarrow> bool) \<Rightarrow> registry \<times> ModeController
     \<Rightarrow> (time \<times> PEPMode \<times> QuorumProof) list \<Rightarrow> registry \<times> ModeController" where
  "mode_run sha edv s [] = s"
| "mode_run sha edv s (x # xs) =
     (let (r, c, al, res) = SetMode sha edv (fst s) (snd s) (fst (snd x)) (snd (snd x)) (fst x)
      in mode_run sha edv (r, c) xs)"

lemma full_quorum_verifier:
  "mc_verifier c' = mc_verifier c \<Longrightarrow> full_quorum edv c' m p now = full_quorum edv c m p now"
  by (simp add: full_quorum_def)

lemma reduced_quorum_modes: "reduced_quorum edv c m p now \<Longrightarrow> mc_mode c = ModeMonitor \<and> m = ModeClosed"
  by (simp add: reduced_quorum_def)

lemma mode_run_unquorate:
  assumes "\<forall>x \<in> set xs. \<not> full_quorum edv c (fst (snd x)) (snd (snd x)) (fst x)"
  shows "mc_mode (snd (mode_run sha edv (r, c) xs)) = mc_mode c \<or>
    mc_mode c = ModeMonitor \<and> mc_mode (snd (mode_run sha edv (r, c) xs)) = ModeClosed"
  using assms
proof (induction xs arbitrary: r c)
  case Nil
  then show ?case by simp
next
  case (Cons x xs)
  obtain r1 c1 al res where st: "SetMode sha edv r c (fst (snd x)) (snd (snd x)) (fst x) = (r1, c1, al, res)"
    by (metis prod_cases4)
  then have v: "mc_verifier c1 = mc_verifier c" by (cases rule: SetMode_cases) auto
  with Cons.prems have "\<forall>x \<in> set xs. \<not> full_quorum edv c1 (fst (snd x)) (snd (snd x)) (fst x)"
    by (simp add: full_quorum_verifier [OF v])
  note IH = Cons.IH [OF this, of r1]
  have nf: "\<not> full_quorum edv c (fst (snd x)) (snd (snd x)) (fst x)" using Cons.prems by simp
  from st have "mc_mode c1 = mc_mode c \<or> mc_mode c = ModeMonitor \<and> mc_mode c1 = ModeClosed"
  proof (cases rule: SetMode_cases)
    case changed
    with nf reduced_quorum_modes show ?thesis by metis
  qed simp
  with IH show ?case by (auto simp: st)
qed

lemma SetMode_floor:
  assumes "SetMode sha edv r c m p now = (r', c', al, res)" and "mc_floor c n = Some e"
  shows "\<exists>e'. mc_floor c' n = Some e' \<and> e \<le> e'"
  using assms(1) by (cases rule: SetMode_cases) (use assms(2) in auto)

lemma mode_run_floor:
  "mc_floor c n = Some e \<Longrightarrow> \<exists>e'. mc_floor (snd (mode_run sha edv (r, c) xs)) n = Some e' \<and> e \<le> e'"
proof (induction xs arbitrary: r c e)
  case Nil
  then show ?case by simp
next
  case (Cons x xs)
  obtain r1 c1 al res where st: "SetMode sha edv r c (fst (snd x)) (snd (snd x)) (fst x) = (r1, c1, al, res)"
    by (metis prod_cases4)
  obtain e1 where e1: "mc_floor c1 n = Some e1" "e \<le> e1" using SetMode_floor [OF st Cons.prems] by blast
  obtain e2 where "mc_floor (snd (mode_run sha edv (r1, c1) xs)) n = Some e2" "e1 \<le> e2"
    using Cons.IH [OF e1(1)] by blast
  with st e1(2) show ?case by auto
qed

subsection \<open>Properties\<close>

text \<open>without a full quorum the posture can only become stricter.  Through any sequence of
  mode changes in which no proof passes the full quorum verifier, the posture never becomes less
  strict; the only change possible is from monitor to closed, and a change made that way raises
  the alarm of the reduced quorum.\<close>

lemma posture_never_relaxes_without_quorum:
  assumes "\<forall>x \<in> set xs. \<not> full_quorum edv c (fst (snd x)) (snd (snd x)) (fst x)"
  shows "mc_mode c \<le> mc_mode (snd (mode_run sha edv (r, c) xs)) \<and>
    (mc_mode c \<noteq> ModeMonitor \<longrightarrow> mc_mode (snd (mode_run sha edv (r, c) xs)) = mc_mode c) \<and>
    (SetMode sha edv r0 c m p now = (r1, c1, al, res) \<and> \<not> full_quorum edv c m p now \<and> mc_mode c1 \<noteq> mc_mode c
       \<longrightarrow> ReasonModeReducedQuorum \<in> set al)"
proof (intro conjI impI; (elim conjE)?)
  note M = mode_run_unquorate [OF assms, of sha r]
  show "mc_mode c \<le> mc_mode (snd (mode_run sha edv (r, c) xs))"
    using M by (auto simp: less_eq_PEPMode_def)
  show "mc_mode c \<noteq> ModeMonitor \<Longrightarrow> mc_mode (snd (mode_run sha edv (r, c) xs)) = mc_mode c"
    using M by auto
  show "ReasonModeReducedQuorum \<in> set al"
    if "SetMode sha edv r0 c m p now = (r1, c1, al, res)" "\<not> full_quorum edv c m p now" "mc_mode c1 \<noteq> mc_mode c"
    using that(1) by (cases rule: SetMode_cases) (use that in auto)
qed

definition mode_ex :: ModeController where
  "mode_ex = \<lparr>mc_cellID = ''cell-a'', mc_salt = zeros 16, mc_mode = ModeClosed,
     mc_verifier = Some \<lparr>qv_cell = ''cell-a'', qv_keys = [(''k1'', ''p1''), (''k2'', ''p2'')], qv_k = 2, qv_maxTTL = 300 * second\<rparr>,
     mc_restrict = Some \<lparr>qv_cell = ''cell-a'', qv_keys = [(''k1'', ''p1''), (''k2'', ''p2'')], qv_k = 1, qv_maxTTL = 300 * second\<rparr>,
     mc_state = Some \<lparr>qs_file = [], qs_env = []\<rparr>\<rparr>"

definition one_signature :: QuorumProof where
  "one_signature = \<lparr>Expiry = 100 * second, Signatures = [(''k1'', ''s''), (''k1'', ''s'')]\<rparr>"

lemma one_signature_not_full: "\<not> full_quorum (\<lambda>p m s. True) mode_ex m one_signature (50 * second)"
  by (simp add: full_quorum_def mode_ex_def one_signature_def quorum_verify_def zero_time_def second_def)

text \<open>a restart never wakes up in a permissive posture.  A controller started on an existing
  cell raises the restart alarm and lets nothing through, not even an allowed decision, through
  any sequence of mode changes none of which carries a proof of the full quorum.\<close>

lemma restart_refuses_until_quorum:
  assumes "NewModeController sha cid salt leaves vf rs st True now = Some (r, c, al)"
    and "\<forall>x \<in> set xs. \<not> full_quorum edv c (fst (snd x)) (snd (snd x)) (fst x)"
  shows "''mode-refused-restart'' \<in> set al \<and> \<not> mc_Allows (snd (mode_run sha edv (r, c) xs)) d"
proof -
  from assms(1) have c: "mc_mode c = ModeRefused" "''mode-refused-restart'' \<in> set al"
    by (auto simp: NewModeController_def Let_def split: if_splits option.splits prod.splits)
  with mode_run_unquorate [OF assms(2), of sha r] show ?thesis by (simp add: mc_Allows_def)
qed

definition restart_ex :: "registry \<times> ModeController \<times> string list" where
  "restart_ex = the (NewModeController (\<lambda>b. zeros 32) ''cell-a'' (zeros 16) (Some reg_ex) (mc_verifier mode_ex) None None True 5)"

text \<open>a proof changes the posture once.  After a change to a posture with some proof, and
  whatever changes follow, another change to the same posture with a proof that does not expire
  strictly later is refused.\<close>

lemma mode_proof_not_replayed:
  assumes "SetMode sha edv r c m p now = (r1, c1, al, None)" and "mc_mode c \<noteq> m"
    and "mode_run sha edv (r1, c1) xs = (r2, c2)"
    and "SetMode sha edv r2 c2 m p' now' = (r3, c3, al', res)" and "mc_mode c2 \<noteq> m"
    and "unix (Expiry p') \<le> unix (Expiry p)"
  shows "res \<noteq> None"
proof
  assume ok: "res = None"
  from assms(1) have "mc_floor c1 (mode_condition m) = Some (unix (Expiry p))"
    by (cases rule: SetMode_cases) (use assms(2) in auto)
  from mode_run_floor [OF this, of sha edv r1 xs] assms(3) obtain e where
    e: "mc_floor c2 (mode_condition m) = Some e" "unix (Expiry p) \<le> e" by auto
  from assms(4) show False
    by (cases rule: SetMode_cases) (use ok e assms(5,6) in auto)
qed

definition full_proof :: "int \<Rightarrow> QuorumProof" where
  "full_proof e = \<lparr>Expiry = e * second, Signatures = [(''k1'', ''s''), (''k2'', ''s'')]\<rparr>"

end
