(* ===== verification/Clock_Watchdog.thy ===== *)
theory Clock_Watchdog
  imports Fail_Closed
begin

text \<open>
  The clock watchdog (\<open>src/src/pep/clock.go\<close>): the state of the kernel clock, read by a probe,
  drives an explicit degraded mode in front of the validator.  \<open>Check\<close> releases its read lock
  between its effects so that readers are never held up by a leaf; it is modelled as the list of
  states such a reader can see, in order, of which \<open>Check\<close> returns the last.  The probe
  (\<open>ntp_adjtime\<close>) is an argument.
\<close>

subsection \<open>State and operations\<close>

definition DefaultSkewBound :: int where "DefaultSkewBound = 50000000"
definition ReasonClockUnsync :: string where "ReasonClockUnsync = ''clock-unsync''"
definition ReasonClockSkew :: string where "ReasonClockSkew = ''clock-skew''"
definition ReasonClockResync :: string where "ReasonClockResync = ''clock-resync''"
definition ReasonClockProbeError :: string where "ReasonClockProbeError = ''clock-probe-error''"
definition ClockPriorityInfo :: nat where "ClockPriorityInfo = 0"
definition ClockPriorityHigh :: nat where "ClockPriorityHigh = 1"

lemmas clock_reasons = ReasonClockUnsync_def ReasonClockSkew_def ReasonClockResync_def ReasonClockProbeError_def

datatype ClockMode = ClockModeNormal | ClockModeDegraded

datatype clock_probe = ProbeError | ClockSample bool int

record ClockWatchdog =
  cw_skewBound :: int
  cw_localIssuer :: string
  cw_cellID :: string
  cw_salt :: bytes
  cw_mode :: ClockMode
  cw_reason :: string

definition NewClockWatchdog ::
  "string \<Rightarrow> string \<Rightarrow> bytes \<Rightarrow> int \<Rightarrow> int \<Rightarrow> ClockWatchdog option" where
  "NewClockWatchdog localIssuer cellID salt interval skewBound =
     (if localIssuer = [] then None else if cellID = [] then None else if length salt < 16 then None
      else if interval < 0 then None else if skewBound < 0 then None
      else Some \<lparr>cw_skewBound = (if skewBound = 0 then DefaultSkewBound else skewBound),
                 cw_localIssuer = localIssuer, cw_cellID = cellID, cw_salt = salt,
                 cw_mode = ClockModeNormal, cw_reason = []\<rparr>)"

definition clockAlarmRecord :: "string \<Rightarrow> nat \<Rightarrow> bytes" where
  "clockAlarmRecord reason priority = ''TBPC1'' @ [byte (length reason)] @ reason @ [byte priority]"

definition cw_writeLeaf ::
  "(bytes \<Rightarrow> bytes) \<Rightarrow> registry \<Rightarrow> ClockWatchdog \<Rightarrow> string \<Rightarrow> nat \<Rightarrow> time \<Rightarrow> registry \<times> string list" where
  "cw_writeLeaf sha r w reason priority now =
     (case AppendLeaf sha r KindTelemetry (cw_cellID w) (cw_salt w) (clockAlarmRecord reason priority) (unix_nano now) of
        (r', Inl e) \<Rightarrow> (r', [ReasonLeafWriteFailed])
      | (r', Inr i) \<Rightarrow> (r', []))"

text \<open>The switch of \<open>Check\<close>: the reason to be degraded, or none.\<close>

definition clk_reason :: "ClockWatchdog \<Rightarrow> clock_probe \<Rightarrow> string option" where
  "clk_reason w probe =
     (case probe of ProbeError \<Rightarrow> Some ReasonClockProbeError
      | ClockSample unsync estError \<Rightarrow>
          if unsync then Some ReasonClockUnsync
          else if estError > cw_skewBound w then Some ReasonClockSkew
          else None)"

type_synonym clock_view = "registry \<times> ClockWatchdog \<times> string list"

definition Check_views ::
  "(bytes \<Rightarrow> bytes) \<Rightarrow> registry \<Rightarrow> ClockWatchdog \<Rightarrow> clock_probe \<Rightarrow> time \<Rightarrow> clock_view list" where
  "Check_views sha r w probe now =
     (case clk_reason w probe of
        None \<Rightarrow>
          if cw_mode w = ClockModeNormal then [(r, w, [])]
          else let (r', al) = cw_writeLeaf sha r w ReasonClockResync ClockPriorityInfo now
               in [(r, w, []), (r', w, al),
                   (r', w\<lparr>cw_mode := ClockModeNormal, cw_reason := []\<rparr>, al)]
      | Some reason \<Rightarrow>
          if cw_mode w = ClockModeDegraded \<and> cw_reason w = reason then [(r, w, [])]
          else let trips = (if reason = ReasonClockSkew \<and>
                               \<not> (cw_mode w = ClockModeDegraded \<and> cw_reason w = ReasonClockSkew)
                            then [ReasonClockSkew] else []);
                   w' = w\<lparr>cw_mode := ClockModeDegraded, cw_reason := reason\<rparr>;
                   (r', al) = cw_writeLeaf sha r w' reason ClockPriorityHigh now
               in [(r, w, []), (r, w, trips), (r, w', trips), (r', w', trips @ al)])"

definition Check :: "(bytes \<Rightarrow> bytes) \<Rightarrow> registry \<Rightarrow> ClockWatchdog \<Rightarrow> clock_probe \<Rightarrow> time \<Rightarrow> clock_view" where
  "Check sha r w probe now = last (Check_views sha r w probe now)"

definition NaturalLanguageAllowed :: "ClockWatchdog \<Rightarrow> bool" where
  "NaturalLanguageAllowed w \<longleftrightarrow> cw_mode w = ClockModeNormal"

definition IssuerAllowed :: "ClockWatchdog \<Rightarrow> string \<Rightarrow> bool" where
  "IssuerAllowed w iss \<longleftrightarrow> (if cw_mode w = ClockModeNormal then True else iss = cw_localIssuer w)"

subsection \<open>Behaviour\<close>

definition clock_healthy :: "ClockWatchdog \<Rightarrow> clock_probe \<Rightarrow> bool" where
  "clock_healthy w probe \<longleftrightarrow> (\<exists>e. probe = ClockSample False e \<and> e \<le> cw_skewBound w)"

lemma clk_reason_None_iff: "clk_reason w probe = None \<longleftrightarrow> clock_healthy w probe"
  by (cases probe) (auto simp: clk_reason_def clock_healthy_def)

lemma Check_mode:
  assumes "Check sha r w probe now = (r', w', al)"
  shows "cw_mode w' = ClockModeNormal \<longleftrightarrow> clock_healthy w probe"
    and "cw_localIssuer w' = cw_localIssuer w" and "cw_skewBound w' = cw_skewBound w"
    and "clk_reason w probe = Some reason \<Longrightarrow> cw_reason w' = reason"
  using assms
  by (auto simp: Check_def Check_views_def clk_reason_None_iff [symmetric] Let_def
      split: option.splits if_splits prod.splits)

lemma Check_settled:
  assumes "Check sha r w probe now = (r', w', al)"
  shows "Check sha r' w' probe now' = (r', w', [])"
proof -
  have same: "clk_reason w' probe = clk_reason w probe"
    using Check_mode(3) [OF assms] by (cases probe) (simp_all add: clk_reason_def)
  show ?thesis
  proof (cases "clk_reason w probe")
    case None
    then have "cw_mode w' = ClockModeNormal" using Check_mode(1) [OF assms] by (simp add: clk_reason_None_iff)
    with None same show ?thesis by (simp add: Check_def Check_views_def)
  next
    case (Some reason)
    then have "cw_mode w' = ClockModeDegraded" "cw_reason w' = reason"
      using Check_mode(1,4) [OF assms] by (metis ClockMode.exhaust clk_reason_None_iff option.distinct(1), simp)
    with Some same show ?thesis by (simp add: Check_def Check_views_def)
  qed
qed

subsection \<open>Properties\<close>

text \<open>the clock gate follows the last probe.  After a check, natural language is let through
  if and only if the probe answered, the kernel was synchronised and its estimated error was
  within the bound; otherwise only tokens of the local issuer pass; and checking the same state
  again changes nothing and writes no second leaf.\<close>

lemma clock_gate_follows_probe:
  assumes "Check sha r w probe now = (r', w', al)"
  shows "(NaturalLanguageAllowed w' \<longleftrightarrow> clock_healthy w probe) \<and>
    (IssuerAllowed w' iss \<longleftrightarrow> clock_healthy w probe \<or> iss = cw_localIssuer w) \<and>
    Check sha r' w' probe now' = (r', w', [])"
  using Check_mode [OF assms] Check_settled [OF assms]
  by (auto simp: NaturalLanguageAllowed_def IssuerAllowed_def)

text \<open>stricter before its leaf, looser after it.  In no state a concurrent reader can see
  during a check has a degraded clock gone back to normal before the resynchronisation leaf was
  submitted; and no degradation leaf is in the log of a state whose gate is still normal.  A
  first entry into degradation for skew trips the fail-closed point.\<close>

lemma clock_relaxes_only_after_leaf:
  assumes "(r1, w1, al1) \<in> set (Check_views sha r w probe now)"
  shows "(cw_mode w = ClockModeDegraded \<and> cw_mode w1 = ClockModeNormal \<longrightarrow>
           r1 = fst (cw_writeLeaf sha r w ReasonClockResync ClockPriorityInfo now)) \<and>
    (\<not> clock_healthy w probe \<and> r1 \<noteq> r \<longrightarrow> cw_mode w1 = ClockModeDegraded) \<and>
    (clk_reason w probe = Some ReasonClockSkew \<and> cw_mode w1 = ClockModeDegraded \<and> cw_mode w = ClockModeNormal \<longrightarrow>
       ReasonClockSkew \<in> set al1)"
proof (intro conjI impI; elim conjE)
  show "r1 = fst (cw_writeLeaf sha r w ReasonClockResync ClockPriorityInfo now)"
    if "cw_mode w = ClockModeDegraded" "cw_mode w1 = ClockModeNormal"
    using assms that
    by (cases "cw_writeLeaf sha r w ReasonClockResync ClockPriorityInfo now")
      (auto simp: Check_views_def Let_def split: option.splits if_splits prod.splits)
  show "cw_mode w1 = ClockModeDegraded" if "\<not> clock_healthy w probe" "r1 \<noteq> r"
    using assms that by (auto simp: Check_views_def Let_def clk_reason_None_iff [symmetric]
        split: option.splits if_splits prod.splits)
  show "ReasonClockSkew \<in> set al1"
    if "clk_reason w probe = Some ReasonClockSkew" "cw_mode w1 = ClockModeDegraded" "cw_mode w = ClockModeNormal"
    using assms that by (auto simp: Check_views_def Let_def split: if_splits prod.splits)
qed

end
