(* ===== verification/Auto_Clear.thy ===== *)
theory Auto_Clear
  imports Fail_Closed
begin

text \<open>
  Bounded automatic recovery of the fail-closed point after an OPA fault
  (\<open>src/src/pep/opa_autoclear.go\<close>): \<open>Tick\<close> lifts candidate conditions after enough consecutive
  healthy probes, doubles the requirement when a condition flaps, and never lifts class W.  The
  probe's answer is an argument of the tick; the fail-closed point it meets may have been changed
  by anyone between ticks.
\<close>

subsection \<open>State and operations\<close>

definition DefaultOPAAutoClearProbes :: int where "DefaultOPAAutoClearProbes = 3"
definition autoClearFlapWindow :: int where "autoClearFlapWindow = 60 * second"
definition autoClearMaxFactor :: int where "autoClearMaxFactor = 8"

record OPAAutoClearer =
  ac_cands :: "string list"
  ac_probes :: int
  ac_streak :: int
  ac_required :: int
  ac_engaged :: bool
  ac_factor :: int
  ac_lastClear :: time

definition NewOPAAutoClearer :: "string list \<Rightarrow> int \<Rightarrow> int \<Rightarrow> OPAAutoClearer option" where
  "NewOPAAutoClearer conditions probes interval =
     (if conditions = [] then None
      else if probes < 0 \<or> interval < 0 then None
      else Some \<lparr>ac_cands = conditions, ac_probes = (if probes = 0 then DefaultOPAAutoClearProbes else probes),
                 ac_streak = 0, ac_required = 0, ac_engaged = False, ac_factor = 1, ac_lastClear = zero_time\<rparr>)"

definition ac_candidates :: "OPAAutoClearer \<Rightarrow> FailClosed \<Rightarrow> string list" where
  "ac_candidates a f = map cd_Name (filter (\<lambda>c. cd_Name c \<in> set (ac_cands a) \<and> cd_Class c \<noteq> ClassW) (fc_Tripped f))"

text \<open>A new recovery cycle fixes its requirement; a running one keeps it.\<close>

definition ac_engage :: "OPAAutoClearer \<Rightarrow> time \<Rightarrow> OPAAutoClearer" where
  "ac_engage a now =
     (if ac_engaged a then a
      else let factor =
             (if ac_lastClear a \<noteq> zero_time \<and> time_sub now (ac_lastClear a) < autoClearFlapWindow
              then (if ac_factor a < autoClearMaxFactor then ac_factor a * 2 else ac_factor a)
              else 1)
           in a\<lparr>ac_engaged := True, ac_streak := 0, ac_factor := factor, ac_required := ac_probes a * factor\<rparr>)"

primrec ac_clear_all ::
  "(bytes \<Rightarrow> bytes) \<Rightarrow> time \<Rightarrow> registry \<Rightarrow> FailClosed \<Rightarrow> string list \<Rightarrow> registry \<times> FailClosed \<times> string list \<times> bool" where
  "ac_clear_all sha now r f [] = (r, f, [], False)"
| "ac_clear_all sha now r f (n # ns) =
     (let (r1, f1, al1, err) = fc_AutoClear sha r f n now;
          (r2, f2, al2, cleared) = ac_clear_all sha now r1 f1 ns
      in (r2, f2, al1 @ al2, err = None \<or> cleared))"

definition Tick ::
  "(bytes \<Rightarrow> bytes) \<Rightarrow> registry \<Rightarrow> FailClosed \<Rightarrow> OPAAutoClearer \<Rightarrow> bool \<Rightarrow> time \<Rightarrow> time
     \<Rightarrow> registry \<times> FailClosed \<times> string list \<times> OPAAutoClearer" where
  "Tick sha r f a healthy now now' =
     (let tripped = ac_candidates a f
      in if tripped = [] then (r, f, [], a\<lparr>ac_engaged := False, ac_streak := 0\<rparr>)
         else let a1 = ac_engage a now
           in if \<not> healthy then (r, f, [], a1\<lparr>ac_streak := 0\<rparr>)
              else let a2 = a1\<lparr>ac_streak := ac_streak a1 + 1\<rparr>
                in if ac_streak a2 < ac_required a2 then (r, f, [], a2)
                   else let (r', f', al, cleared) = ac_clear_all sha now' r f tripped;
                            a3 = (if cleared then a2\<lparr>ac_lastClear := now'\<rparr> else a2)
                        in (r', f', al, a3\<lparr>ac_engaged := False, ac_streak := 0\<rparr>))"

subsection \<open>Runs\<close>

record tick =
  tk_reg :: registry
  tk_fc :: FailClosed
  tk_healthy :: bool
  tk_now :: time
  tk_now' :: time

primrec ac_run :: "(bytes \<Rightarrow> bytes) \<Rightarrow> OPAAutoClearer \<Rightarrow> tick list \<Rightarrow> OPAAutoClearer" where
  "ac_run sha a [] = a"
| "ac_run sha a (t # ts) =
     ac_run sha (snd (snd (snd (Tick sha (tk_reg t) (tk_fc t) a (tk_healthy t) (tk_now t) (tk_now' t))))) ts"

text \<open>The number of healthy probes at the end of a history.\<close>

definition recent_healthy :: "tick list \<Rightarrow> int" where
  "recent_healthy ts = int (length (takeWhile tk_healthy (rev ts)))"

lemma recent_healthy_snoc: "recent_healthy (ts @ [t]) = (if tk_healthy t then recent_healthy ts + 1 else 0)"
  by (simp add: recent_healthy_def)

definition ac_inv :: "int \<Rightarrow> OPAAutoClearer \<Rightarrow> int \<Rightarrow> bool" where
  "ac_inv probes a healthy \<longleftrightarrow> ac_probes a = probes \<and> 0 < probes \<and> 1 \<le> ac_factor a \<and> ac_factor a \<le> 8 \<and>
     ac_factor a \<in> {1, 2, 4, 8} \<and>
     0 \<le> ac_streak a \<and> ac_streak a \<le> healthy \<and> (\<not> ac_engaged a \<longrightarrow> ac_streak a = 0) \<and>
     (ac_engaged a \<longrightarrow> probes \<le> ac_required a \<and> ac_required a \<le> 8 * probes)"

lemma ac_engage_inv:
  assumes "ac_inv p a h"
  shows "ac_inv p (ac_engage a now) h \<and> ac_engaged (ac_engage a now)"
proof (cases "ac_engaged a")
  case True
  with assms show ?thesis by (simp add: ac_engage_def)
next
  case False
  let ?F = "ac_factor (ac_engage a now)"
  have "?F \<in> {1, 2, 4, 8}"
    using assms False by (auto simp: ac_inv_def ac_engage_def autoClearMaxFactor_def Let_def)
  then have "p \<le> p * ?F \<and> p * ?F \<le> 8 * p" using assms by (auto simp: ac_inv_def)
  with assms False \<open>?F \<in> {1, 2, 4, 8}\<close> show ?thesis
    by (auto simp: ac_inv_def ac_engage_def Let_def)
qed

lemma Tick_inv:
  assumes "ac_inv p a h" and "0 \<le> h" and "Tick sha r f a healthy now now' = (r', f', al, a')"
  shows "ac_inv p a' (if healthy then h + 1 else 0)"
    and "f' \<noteq> f \<or> r' \<noteq> r \<Longrightarrow> healthy \<and> p \<le> h + 1"
proof -
  let ?a = "ac_engage a now"
  have E: "ac_inv p ?a h" "ac_engaged ?a" using ac_engage_inv [OF assms(1), of now] by auto
  consider (none) "ac_candidates a f = []" | (sick) "ac_candidates a f \<noteq> []" "\<not> healthy"
    | (wait) "ac_candidates a f \<noteq> []" "healthy" "ac_streak ?a + 1 < ac_required ?a"
    | (clear) "ac_candidates a f \<noteq> []" "healthy" "ac_required ?a \<le> ac_streak ?a + 1"
    by linarith
  then have "ac_inv p a' (if healthy then h + 1 else 0) \<and> (f' \<noteq> f \<or> r' \<noteq> r \<longrightarrow> healthy \<and> p \<le> h + 1)"
  proof cases
    case none
    with assms show ?thesis by (auto simp: Tick_def ac_inv_def)
  next
    case sick
    with assms(3) have "a' = ?a\<lparr>ac_streak := 0\<rparr>" "f' = f" "r' = r" by (auto simp: Tick_def Let_def)
    with sick E show ?thesis by (simp add: ac_inv_def)
  next
    case wait
    with assms(3) have "a' = ?a\<lparr>ac_streak := ac_streak ?a + 1\<rparr>" "f' = f" "r' = r" by (auto simp: Tick_def Let_def)
    with wait E show ?thesis by (simp add: ac_inv_def)
  next
    case clear
    obtain r2 f2 al2 b where "ac_clear_all sha now' r f (ac_candidates a f) = (r2, f2, al2, b)" by (metis prod_cases4)
    with clear assms(3) have "ac_probes a' = ac_probes ?a" "ac_factor a' = ac_factor ?a" "\<not> ac_engaged a'" "ac_streak a' = 0"
      by (auto simp: Tick_def Let_def)
    moreover have "p \<le> h + 1" using clear E by (simp add: ac_inv_def)
    ultimately show ?thesis using clear E assms(2) by (simp add: ac_inv_def)
  qed
  then show "ac_inv p a' (if healthy then h + 1 else 0)" and "f' \<noteq> f \<or> r' \<noteq> r \<Longrightarrow> healthy \<and> p \<le> h + 1"
    by blast+
qed

lemma ac_run_snoc: "ac_run sha a (ts @ [t]) =
    snd (snd (snd (Tick sha (tk_reg t) (tk_fc t) (ac_run sha a ts) (tk_healthy t) (tk_now t) (tk_now' t))))"
  by (induction ts arbitrary: a) auto

lemma ac_run_inv: "ac_inv p a 0 \<Longrightarrow> ac_inv p (ac_run sha a ts) (recent_healthy ts)"
proof (induction ts rule: rev_induct)
  case Nil
  then show ?case by (simp add: recent_healthy_def)
next
  case (snoc t ts)
  obtain r' f' al a' where st: "Tick sha (tk_reg t) (tk_fc t) (ac_run sha a ts) (tk_healthy t) (tk_now t) (tk_now' t) = (r', f', al, a')"
    by (metis prod_cases4)
  have "0 \<le> recent_healthy ts" by (simp add: recent_healthy_def)
  from Tick_inv(1) [OF snoc.IH [OF snoc.prems] this st] st show ?case
    by (simp add: ac_run_snoc recent_healthy_snoc)
qed

lemma ac_clear_all_keeps:
  "ac_clear_all sha now r f ns = (r', f', al, b) \<Longrightarrow> fc_keeps f f' (\<lambda>n. False)"
proof (induction ns arbitrary: r f r' f' al b)
  case Nil
  then show ?case by (simp add: fc_keeps_refl)
next
  case (Cons n ns)
  obtain r1 f1 al1 err where st: "fc_AutoClear sha r f n now = (r1, f1, al1, err)" by (metis prod_cases4)
  obtain r2 f2 al2 c where rest: "ac_clear_all sha now r1 f1 ns = (r2, f2, al2, c)" by (metis prod_cases4)
  have "fc_keeps f f1 (\<lambda>n. False)" by (rule fc_AutoClear_keeps [OF st])
  from fc_keeps_trans [OF this Cons.IH [OF rest]] have "fc_keeps f f2 (\<lambda>n. False)" by simp
  then show ?case using Cons.prems st rest by simp
qed

lemma Tick_keeps: "Tick sha r f a healthy now now' = (r', f', al, a') \<Longrightarrow> fc_keeps f f' (\<lambda>n. False)"
  by (auto simp: Tick_def Let_def fc_keeps_refl ac_clear_all_keeps split: if_splits prod.splits)

subsection \<open>Properties\<close>

text \<open>no lift on a reflex.  Whatever happens to the fail-closed point between ticks, a tick
  that lifts anything (or writes anything) saw a healthy probe, and so did each of the ticks just
  before it, for at least the configured number of consecutive probes in all; and no tick ever
  lifts a tripped class W condition.\<close>

lemma autoclear_needs_consecutive_probes:
  assumes "NewOPAAutoClearer conds n interval = Some a0"
    and "Tick sha r f (ac_run sha a0 ts) healthy now now' = (r', f', al, a')"
  shows "(f' \<noteq> f \<or> r' \<noteq> r \<longrightarrow> healthy \<and> ac_probes a0 \<le> recent_healthy ts + 1) \<and>
    (is_classW f c \<and> is_tripped f c \<longrightarrow> is_tripped f' c)"
proof (intro conjI impI; (elim conjE)?)
  from assms(1) have "ac_inv (ac_probes a0) a0 0"
    by (auto simp: NewOPAAutoClearer_def ac_inv_def DefaultOPAAutoClearProbes_def split: if_splits)
  note inv = ac_run_inv [OF this, of sha ts]
  have "0 \<le> recent_healthy ts" by (simp add: recent_healthy_def)
  from Tick_inv(2) [OF inv this assms(2)]
  show "f' \<noteq> f \<or> r' \<noteq> r \<Longrightarrow> healthy" "f' \<noteq> f \<or> r' \<noteq> r \<Longrightarrow> ac_probes a0 \<le> recent_healthy ts + 1" by blast+
  show "is_classW f c \<Longrightarrow> is_tripped f c \<Longrightarrow> is_tripped f' c"
    using Tick_keeps [OF assms(2)] by (auto simp: fc_keeps_def)
qed

end
