(* ===== verification/Cluster_Votes.thy ===== *)
theory Cluster_Votes
  imports Registry
begin

text \<open>
  What the theories of the cluster share: hexadecimal text as Go's \<open>encoding/hex\<close> reads and
  writes it, the co-signature of a controller, and the loop over co-signatures that the epoch
  tracker (\<open>verifyQuorumLocked\<close> of \<open>src/src/cluster/epoch.go\<close>), the class W gate
  (\<open>VerifyClassW\<close> of \<open>quorum.go\<close>) and the anchors (\<open>parseAnchors\<close> of \<open>anchors.go\<close>) each run:
  it stops at the first fault and counts the valid signatures of distinct controllers.
\<close>

subsection \<open>Hexadecimal text\<close>

definition hex_digit :: "nat \<Rightarrow> char" where
  "hex_digit n = (''0123456789abcdef'') ! n"

definition hex_value :: "char \<Rightarrow> nat option" where
  "hex_value c =
     (let n = of_char c
      in if 48 \<le> n \<and> n \<le> 57 then Some (n - 48)
         else if 97 \<le> n \<and> n \<le> 102 then Some (n - 87)
         else if 65 \<le> n \<and> n \<le> 70 then Some (n - 55)
         else None)"

definition hex_encode :: "bytes \<Rightarrow> string" where
  "hex_encode bs = concat (map (\<lambda>b. [hex_digit (of_char b div 16), hex_digit (of_char b mod 16)]) bs)"

fun hex_decode :: "string \<Rightarrow> bytes option" where
  "hex_decode [] = Some []"
| "hex_decode [c] = None"
| "hex_decode (c # d # s) =
     (case (hex_value c, hex_value d) of
        (Some h, Some l) \<Rightarrow> map_option ((#) (byte (16 * h + l))) (hex_decode s)
      | _ \<Rightarrow> None)"

lemma hex_value_digit: "n < 16 \<Longrightarrow> hex_value (hex_digit n) = Some n"
proof -
  have "list_all (\<lambda>n. hex_value (hex_digit n) = Some n) [0..<16]" by code_simp
  then show "n < 16 \<Longrightarrow> hex_value (hex_digit n) = Some n" by (simp add: list_all_iff)
qed

lemma hex_decode_encode [simp]: "hex_decode (hex_encode bs) = Some bs"
proof (induction bs)
  case Nil
  then show ?case by (simp add: hex_encode_def)
next
  case (Cons b bs)
  have "(of_char b :: nat) div 16 < 16"
    using of_char_lt_256 [of b] by (simp add: less_mult_imp_div_less)
  moreover have "byte (16 * (of_char b div 16) + of_char b mod 16) = b"
    by (simp add: mult_div_mod_eq)
  ultimately show ?case
    using Cons.IH by (simp add: hex_encode_def hex_value_digit)
qed

lemma hex_encode_inj: "hex_encode a = hex_encode b \<longleftrightarrow> a = b"
  by (metis hex_decode_encode option.inject)

lemma hex_decode_length: "hex_decode s = Some b \<Longrightarrow> length s = 2 * length b"
  by (induction s arbitrary: b rule: hex_decode.induct) (auto split: option.splits)

subsection \<open>Co-signatures\<close>

record ControllerSignature =
  sg_KeyID :: int
  sg_Sig :: string

definition SignatureSize :: nat where "SignatureSize = 64"

datatype vote_fault = DuplicateSigner | UnknownSigner | BadSignature

text \<open>A fault comes with the number of signatures already found valid, which the class W gate
  writes in its refusal leaf.\<close>

fun controller_votes ::
  "(bytes \<Rightarrow> bytes \<Rightarrow> bytes \<Rightarrow> bool) \<Rightarrow> (int, bytes) gomap \<Rightarrow> bytes \<Rightarrow> int list \<Rightarrow> nat
     \<Rightarrow> ControllerSignature list \<Rightarrow> (nat \<times> vote_fault) + nat" where
  "controller_votes edv ctrls msg used valid [] = Inr valid"
| "controller_votes edv ctrls msg used valid (s # sigs) =
     (if sg_KeyID s \<in> set used then Inl (valid, DuplicateSigner)
      else case map_of ctrls (sg_KeyID s) of None \<Rightarrow> Inl (valid, UnknownSigner)
      | Some pub \<Rightarrow>
        (case hex_decode (sg_Sig s) of None \<Rightarrow> Inl (valid, BadSignature)
         | Some sig \<Rightarrow>
             if length sig \<noteq> SignatureSize then Inl (valid, BadSignature)
             else if \<not> edv pub msg sig then Inl (valid, BadSignature)
             else controller_votes edv ctrls msg (sg_KeyID s # used) (Suc valid) sigs))"

text \<open>A signature that counts.\<close>

definition vote_ok ::
  "(bytes \<Rightarrow> bytes \<Rightarrow> bytes \<Rightarrow> bool) \<Rightarrow> (int, bytes) gomap \<Rightarrow> bytes \<Rightarrow> ControllerSignature \<Rightarrow> bool" where
  "vote_ok edv ctrls msg s \<longleftrightarrow>
     (\<exists>pub sig. map_of ctrls (sg_KeyID s) = Some pub \<and> hex_decode (sg_Sig s) = Some sig \<and>
        length sig = SignatureSize \<and> edv pub msg sig)"

text \<open>The loop succeeds exactly when every signature counts and no controller signs twice; it
  then returns their number.\<close>

lemma controller_votes_iff:
  "controller_votes edv ctrls msg used valid sigs = Inr n \<longleftrightarrow>
     n = valid + length sigs \<and> list_all (vote_ok edv ctrls msg) sigs \<and>
     distinct (map sg_KeyID sigs) \<and> set (map sg_KeyID sigs) \<inter> set used = {}"
proof (induction sigs arbitrary: used valid)
  case Nil
  then show ?case by auto
next
  case (Cons s sigs)
  show ?case
  proof (cases "sg_KeyID s \<notin> set used \<and> vote_ok edv ctrls msg s")
    case True
    then have "controller_votes edv ctrls msg used valid (s # sigs) =
        controller_votes edv ctrls msg (sg_KeyID s # used) (Suc valid) sigs"
      by (auto simp: vote_ok_def)
    with Cons.IH [of "sg_KeyID s # used" "Suc valid"] True show ?thesis by auto
  next
    case False
    then have "\<forall>m. controller_votes edv ctrls msg used valid (s # sigs) \<noteq> Inr m"
      by (auto simp: vote_ok_def split: option.splits)
    with False show ?thesis by auto
  qed
qed

declare controller_votes.simps [simp del]

text \<open>The number of controllers behind a list of signatures.\<close>

lemma votes_card: "distinct (map sg_KeyID sigs) \<Longrightarrow> card (sg_KeyID ` set sigs) = length sigs"
  by (metis distinct_card length_map list.set_map)

text \<open>A signature for examples.\<close>

definition vote_ex :: ControllerSignature where
  "vote_ex = \<lparr>sg_KeyID = 1, sg_Sig = replicate 128 (CHR ''0'')\<rparr>"

lemma hex_decode_zeros: "hex_decode (replicate (2 * n) (CHR ''0'')) = Some (replicate n (byte 0))"
  by (induction n) (auto simp: hex_value_def)

lemma vote_ex_ok: "map_of ctrls 1 = Some k \<Longrightarrow> vote_ok (\<lambda>p m s. True) ctrls msg vote_ex"
  using hex_decode_zeros [of 64] by (simp add: vote_ok_def vote_ex_def SignatureSize_def)

lemma vote_ex_counts:
  "controller_votes (\<lambda>p m s. True) [(1, k)] msg [] 0 [vote_ex] = Inr 1"
  using vote_ex_ok [of "[(1, k)]" k msg] by (simp add: controller_votes_iff vote_ex_def)

end
