(* ===== verification/Cluster_Epoch.thy ===== *)
theory Cluster_Epoch
  imports Cluster_Votes
begin

text \<open>
  The epoch tracker of a cell (\<open>src/src/cluster/epoch.go\<close>): leases signed by a quorum of
  controllers, strictly growing epoch numbers, one authority at a time, a budget of automatic
  failovers, and the quarantine of revoked cells.

  JSON and RFC 3339 are read and written by Go's standard library; the record \<open>json_codec\<close> holds
  the three functions the tracker uses of it, and no property of them is assumed.  \<open>Accept\<close> reads
  the clock once for its decision and once more for the date of its leaf.
\<close>

subsection \<open>Data\<close>

record EpochPayload =
  ep_N :: int
  ep_Authority :: string
  ep_IssuedAt :: string
  ep_TTLSeconds :: int
  ep_Mode :: string
  ep_Roster :: "string list option"

record EpochToken =
  et_Payload :: EpochPayload
  et_Quorum :: string
  et_Signatures :: "ControllerSignature list"

record json_codec =
  jc_token :: "bytes \<Rightarrow> EpochToken option"
  jc_payload :: "EpochPayload \<Rightarrow> bytes option"
  jc_time :: "string \<Rightarrow> time option"

definition DefaultMaxAutoFailoversPerHour :: int where "DefaultMaxAutoFailoversPerHour = 3"
definition DefaultMinTTLSeconds :: int where "DefaultMinTTLSeconds = 10"
definition DefaultMaxTTLSeconds :: int where "DefaultMaxTTLSeconds = 300"
definition maxIssuedAtSkew :: int where "maxIssuedAtSkew = 5 * second"
definition hour :: int where "hour = 3600 * second"
definition ModeAuto :: string where "ModeAuto = ''auto''"
definition ModeManual :: string where "ModeManual = ''manual''"

definition epochEventAccept :: nat where "epochEventAccept = 1"
definition epochEventRefuse :: nat where "epochEventRefuse = 2"
definition epochEventEquivocate :: nat where "epochEventEquivocate = 3"
definition epochEventRevoke :: nat where "epochEventRevoke = 4"
definition epochEventBudget :: nat where "epochEventBudget = 5"

record epochState =
  es_payload :: EpochPayload
  es_hash :: bytes
  es_issuedAt :: time
  es_expiresAt :: time
  es_notBefore :: time

record Tracker =
  tr_cellID :: string
  tr_salt :: bytes
  tr_ctrls :: "(int, bytes) gomap"
  tr_quorum :: int
  tr_members :: "string list"
  tr_maxAutoHr :: int
  tr_minTTL :: int
  tr_maxTTL :: int
  tr_current :: "epochState option"
  tr_quarantined :: "string list"
  tr_autoLog :: "time list"

record TrackerConfig =
  tc_CellID :: string
  tc_Salt :: bytes
  tc_Controllers :: "(int, bytes) gomap"
  tc_Quorum :: int
  tc_Members :: "string list"
  tc_MaxAutoFailoversPerHour :: int
  tc_MinTTLSeconds :: int
  tc_MaxTTLSeconds :: int

definition NewTracker :: "TrackerConfig \<Rightarrow> Tracker option" where
  "NewTracker cfg =
     (let maxAuto = (if tc_MaxAutoFailoversPerHour cfg = 0 then DefaultMaxAutoFailoversPerHour
                     else tc_MaxAutoFailoversPerHour cfg);
          minTTL = (if tc_MinTTLSeconds cfg = 0 then DefaultMinTTLSeconds else tc_MinTTLSeconds cfg);
          maxTTL = (if tc_MaxTTLSeconds cfg = 0 then DefaultMaxTTLSeconds else tc_MaxTTLSeconds cfg)
      in if tc_CellID cfg = [] then None
         else if length (tc_Salt cfg) < 16 then None
         else if length (tc_Controllers cfg) = 0 then None
         else if tc_Quorum cfg < 1 \<or> tc_Quorum cfg > int (length (tc_Controllers cfg)) then None
         else if length (tc_Members cfg) = 0 then None
         else if [] \<in> set (tc_Members cfg) then None
         else if tc_CellID cfg \<notin> set (tc_Members cfg) then None
         else if maxAuto < 0 then None
         else if minTTL < 1 \<or> maxTTL < minTTL then None
         else if \<not> list_all (\<lambda>(i, pub). length pub = 32) (tc_Controllers cfg) then None
         else Some \<lparr>tr_cellID = tc_CellID cfg, tr_salt = tc_Salt cfg, tr_ctrls = tc_Controllers cfg,
                    tr_quorum = tc_Quorum cfg, tr_members = remdups (tc_Members cfg),
                    tr_maxAutoHr = maxAuto, tr_minTTL = minTTL, tr_maxTTL = maxTTL,
                    tr_current = None, tr_quarantined = [], tr_autoLog = []\<rparr>)"

subsection \<open>Leaves\<close>

datatype epoch_error = EpRefused string | EpUntraced string | EpLeaf reg_error

definition epochRecord :: "nat \<Rightarrow> int \<Rightarrow> string \<Rightarrow> string \<Rightarrow> bytes" where
  "epochRecord event n authority reason =
     ''TBPE1'' @ [byte event] @ be64 (if n < 0 then 0 else n) @ [byte (length authority)] @ authority @
     [byte (length reason)] @ reason"

definition epochLeaf ::
  "(bytes \<Rightarrow> bytes) \<Rightarrow> registry \<Rightarrow> Tracker \<Rightarrow> nat \<Rightarrow> int \<Rightarrow> string \<Rightarrow> string \<Rightarrow> time
     \<Rightarrow> registry \<times> reg_error option" where
  "epochLeaf sha r t event n authority reason lnow =
     (case AppendLeaf sha r KindEpoch (tr_cellID t) (tr_salt t) (epochRecord event n authority reason) (unix_nano lnow) of
        (r', Inl e) \<Rightarrow> (r', Some e) | (r', Inr i) \<Rightarrow> (r', None))"

definition epochRefuse ::
  "(bytes \<Rightarrow> bytes) \<Rightarrow> registry \<Rightarrow> Tracker \<Rightarrow> nat \<Rightarrow> int \<Rightarrow> string \<Rightarrow> string \<Rightarrow> time
     \<Rightarrow> registry \<times> Tracker \<times> string list \<times> epoch_error option" where
  "epochRefuse sha r t event n authority reason lnow =
     (case epochLeaf sha r t event n authority reason lnow of
        (r', Some e) \<Rightarrow> (r', t, [], Some (EpUntraced reason))
      | (r', None) \<Rightarrow> (r', t, [], Some (EpRefused reason)))"

subsection \<open>Acceptance\<close>

definition verifyQuorum ::
  "(bytes \<Rightarrow> bytes \<Rightarrow> bytes \<Rightarrow> bool) \<Rightarrow> json_codec \<Rightarrow> Tracker \<Rightarrow> EpochPayload \<Rightarrow> ControllerSignature list \<Rightarrow> bool" where
  "verifyQuorum edv jc t p sigs =
     (case jc_payload jc p of None \<Rightarrow> False
      | Some canonical \<Rightarrow>
        (case controller_votes edv (tr_ctrls t) canonical [] 0 sigs of
           Inl _ \<Rightarrow> False | Inr valid \<Rightarrow> \<not> int valid < tr_quorum t))"

definition consumeAutoBudget :: "Tracker \<Rightarrow> time \<Rightarrow> Tracker \<times> bool" where
  "consumeAutoBudget t now =
     (let kept = filter (\<lambda>ts. ts > now - hour) (tr_autoLog t)
      in if int (length kept) \<ge> tr_maxAutoHr t then (t\<lparr>tr_autoLog := kept\<rparr>, False)
         else (t\<lparr>tr_autoLog := kept @ [now]\<rparr>, True))"

definition lease_end :: "EpochPayload \<Rightarrow> time \<Rightarrow> time" where
  "lease_end p issuedAt = issuedAt + wrap64 (ep_TTLSeconds p * second)"

definition payload_mode :: "EpochPayload \<Rightarrow> string" where
  "payload_mode p = (if ep_Mode p = [] then ModeManual else ep_Mode p)"

text \<open>The checks on the form and the signatures of a token, in the order of the code: the reason to
  refuse it, or none.\<close>

definition token_fault ::
  "(bytes \<Rightarrow> bytes \<Rightarrow> bytes \<Rightarrow> bool) \<Rightarrow> json_codec \<Rightarrow> Tracker \<Rightarrow> EpochToken \<Rightarrow> time \<Rightarrow> string option" where
  "token_fault edv jc t tok now =
     (let p = et_Payload tok
      in if ep_N p < 0 \<or> ep_Authority p = [] \<or> length (ep_Authority p) > 255 then Some ''schema-violation''
         else if ep_TTLSeconds p < tr_minTTL t \<or> ep_TTLSeconds p > tr_maxTTL t then Some ''ttl-out-of-range''
         else case jc_time jc (ep_IssuedAt p) of None \<Rightarrow> Some ''issued-at-unparseable''
         | Some issuedAt \<Rightarrow>
             if issuedAt > now + maxIssuedAtSkew then Some ''epoch-from-future''
             else if ep_Authority p \<notin> set (tr_members t) then Some ''authority-not-member''
             else if payload_mode p \<noteq> ModeAuto \<and> payload_mode p \<noteq> ModeManual then Some ''unknown-mode''
             else if \<not> verifyQuorum edv jc t p (et_Signatures tok) then Some ''epoch-quorum-insufficient''
             else if jc_payload jc p = None then Some ''payload-unserializable''
             else None)"

text \<open>The checks on the roster, made after the budget has been charged.\<close>

definition roster_fault :: "Tracker \<Rightarrow> EpochPayload \<Rightarrow> string option" where
  "roster_fault t p =
     (case ep_Roster p of None \<Rightarrow> None
      | Some ros \<Rightarrow>
          if length ros = 0 then Some ''empty-roster''
          else if \<not> set ros \<subseteq> set (tr_members t) then Some ''roster-unknown-cell''
          else if ep_Authority p \<notin> set ros then Some ''authority-not-in-roster''
          else None)"

definition revoked_by :: "Tracker \<Rightarrow> EpochPayload \<Rightarrow> string list" where
  "revoked_by t p =
     (case ep_Roster p of None \<Rightarrow> []
      | Some ros \<Rightarrow> filter (\<lambda>m. m \<notin> set ros \<and> m \<notin> set (tr_quarantined t)) (tr_members t))"

text \<open>The bascule itself: the new lease starts when the current one ends, if that one still runs.\<close>

definition install ::
  "(bytes \<Rightarrow> bytes) \<Rightarrow> json_codec \<Rightarrow> Tracker \<Rightarrow> EpochPayload \<Rightarrow> time \<Rightarrow> time \<Rightarrow> Tracker" where
  "install sha jc t p issuedAt now =
     (let notBefore = (case tr_current t of None \<Rightarrow> issuedAt
            | Some e \<Rightarrow> if now < es_expiresAt e \<and> es_expiresAt e > issuedAt then es_expiresAt e else issuedAt)
      in t\<lparr>tr_current := Some \<lparr>es_payload = p, es_hash = sha (the (jc_payload jc p)), es_issuedAt = issuedAt,
             es_expiresAt = lease_end p issuedAt, es_notBefore = notBefore\<rparr>,
           tr_quarantined := tr_quarantined t @ revoked_by t p\<rparr>)"

definition Accept ::
  "(bytes \<Rightarrow> bytes) \<Rightarrow> (bytes \<Rightarrow> bytes \<Rightarrow> bytes \<Rightarrow> bool) \<Rightarrow> json_codec \<Rightarrow> registry \<Rightarrow> Tracker \<Rightarrow> bytes \<Rightarrow> time \<Rightarrow> time
     \<Rightarrow> registry \<times> Tracker \<times> string list \<times> epoch_error option" where
  "Accept sha edv jc r t tokenJSON now lnow =
     (case jc_token jc tokenJSON of
        None \<Rightarrow> epochRefuse sha r t epochEventRefuse 0 [] ''malformed-epoch-token'' lnow
      | Some tok \<Rightarrow>
        let p = et_Payload tok; issuedAt = the (jc_time jc (ep_IssuedAt p));
            refuse = (\<lambda>t' event reason. epochRefuse sha r t' event (ep_N p) (ep_Authority p) reason lnow)
        in (case token_fault edv jc t tok now of Some reason \<Rightarrow> refuse t epochEventRefuse reason
        | None \<Rightarrow>
          if (case tr_current t of None \<Rightarrow> False | Some e \<Rightarrow> ep_N p < ep_N (es_payload e))
          then refuse t epochEventRefuse ''epoch-regression''
          else if (case tr_current t of None \<Rightarrow> False | Some e \<Rightarrow> ep_N p = ep_N (es_payload e))
          then (if sha (the (jc_payload jc p)) = es_hash (the (tr_current t)) then (r, t, [], None)
                else case refuse t epochEventEquivocate ''epoch-equivocation'' of
                       (r', t', al, res) \<Rightarrow> (r', t', ''epoch-equivocation'' # al, res))
          else if tr_current t \<noteq> None \<and> \<not> now < lease_end p issuedAt
          then refuse t epochEventRefuse ''epoch-token-expired''
          else (case (if payload_mode p = ModeAuto then consumeAutoBudget t now else (t, True)) of
             (t1, False) \<Rightarrow>
               (case refuse t1 epochEventBudget ''failover-budget-exhausted'' of
                  (r', t', al, res) \<Rightarrow> (r', t', ''failover-budget-exhausted'' # al, res))
           | (t1, True) \<Rightarrow>
               (case roster_fault t1 p of Some reason \<Rightarrow> refuse t1 epochEventRefuse reason
                | None \<Rightarrow>
                  (case epochLeaf sha r t1 (if ep_Roster p = None then epochEventAccept else epochEventRevoke)
                          (ep_N p) (ep_Authority p) ''ok'' lnow of
                     (r', e) \<Rightarrow> (r', install sha jc t1 p issuedAt now, [], map_option EpLeaf e))))))"

subsection \<open>Service\<close>

datatype serve_error = ErrNoEpoch | ErrCellQuarantined | ErrNotAuthority | ErrEpochNotYetEffective | ErrEpochExpired

definition CurrentEpoch :: "Tracker \<Rightarrow> time \<Rightarrow> serve_error + u64" where
  "CurrentEpoch t now =
     (case tr_current t of None \<Rightarrow> Inl ErrNoEpoch
      | Some e \<Rightarrow>
          if tr_cellID t \<in> set (tr_quarantined t) then Inl ErrCellQuarantined
          else if ep_Authority (es_payload e) \<noteq> tr_cellID t then Inl ErrNotAuthority
          else if now < es_notBefore e then Inl ErrEpochNotYetEffective
          else if \<not> now < es_expiresAt e then Inl ErrEpochExpired
          else Inr (word_of_int (ep_N (es_payload e))))"

definition ObservedEpoch :: "Tracker \<Rightarrow> int \<times> bool" where
  "ObservedEpoch t = (case tr_current t of None \<Rightarrow> (0, False) | Some e \<Rightarrow> (ep_N (es_payload e), True))"

definition Quarantined :: "Tracker \<Rightarrow> string list" where
  "Quarantined t = sort (tr_quarantined t)"

record TrackerStatus =
  ts_Epoch :: int
  ts_Authority :: string
  ts_NotBefore :: time
  ts_ExpiresAt :: time
  ts_Quarantined :: "string list"
  ts_AutoFailoversHour :: nat

definition tr_Status :: "Tracker \<Rightarrow> TrackerStatus" where
  "tr_Status t =
     (case tr_current t of
        None \<Rightarrow> \<lparr>ts_Epoch = - 1, ts_Authority = [], ts_NotBefore = zero_time, ts_ExpiresAt = zero_time,
                 ts_Quarantined = sort (tr_quarantined t), ts_AutoFailoversHour = length (tr_autoLog t)\<rparr>
      | Some e \<Rightarrow> \<lparr>ts_Epoch = ep_N (es_payload e), ts_Authority = ep_Authority (es_payload e),
                 ts_NotBefore = es_notBefore e, ts_ExpiresAt = es_expiresAt e,
                 ts_Quarantined = sort (tr_quarantined t), ts_AutoFailoversHour = length (tr_autoLog t)\<rparr>)"

subsection \<open>Histories\<close>

record delivery =
  dl_json :: bytes
  dl_now :: time
  dl_leaf :: time

text \<open>A tracker fed with a sequence of deliveries; the history lists the leases it installed, each
  with the instant of its acceptance.\<close>

primrec tr_run ::
  "(bytes \<Rightarrow> bytes) \<Rightarrow> (bytes \<Rightarrow> bytes \<Rightarrow> bytes \<Rightarrow> bool) \<Rightarrow> json_codec \<Rightarrow> registry \<times> Tracker \<Rightarrow> delivery list
     \<Rightarrow> (time \<times> epochState) list \<times> registry \<times> Tracker" where
  "tr_run sha edv jc rt [] = ([], rt)"
| "tr_run sha edv jc rt (d # ds) =
     (let (r', t', al, res) = Accept sha edv jc (fst rt) (snd rt) (dl_json d) (dl_now d) (dl_leaf d);
          (h, rt') = tr_run sha edv jc (r', t') ds
      in ((if tr_current t' = tr_current (snd rt) then [] else [(dl_now d, the (tr_current t'))]) @ h, rt'))"

definition same_cluster :: "Tracker \<Rightarrow> Tracker \<Rightarrow> bool" where
  "same_cluster t t' \<longleftrightarrow> tr_cellID t' = tr_cellID t \<and> tr_members t' = tr_members t \<and> tr_maxAutoHr t' = tr_maxAutoHr t"

lemma epochRefuse_tracker: "epochRefuse sha r t ev n a reason lnow = (r', t', al, res) \<Longrightarrow> t' = t \<and> res \<noteq> None"
  by (auto simp: epochRefuse_def split: prod.splits option.splits)

lemma consumeAutoBudget_frame:
  assumes "consumeAutoBudget t now = (t', b)"
  shows "tr_current t' = tr_current t" "tr_quarantined t' = tr_quarantined t" "same_cluster t t'"
  using assms by (auto simp: consumeAutoBudget_def same_cluster_def Let_def split: if_splits)

text \<open>What one delivery does: nothing but possibly charge the budget, or install the lease of a
  well-formed token that outranks the current one.\<close>

lemma Accept_cases:
  assumes "Accept sha edv jc r t js now lnow = (r', t', al, res)"
  obtains (kept) t1 where "t1 = t \<or> t1 = fst (consumeAutoBudget t now)" "t' = t1"
      "res = None \<Longrightarrow> \<exists>e tok. tr_current t = Some e \<and> jc_token jc js = Some tok \<and> ep_N (et_Payload tok) = ep_N (es_payload e)"
  | (installed) tok p t1 issuedAt where "jc_token jc js = Some tok" "p = et_Payload tok"
      "token_fault edv jc t tok now = None" "jc_time jc (ep_IssuedAt p) = Some issuedAt"
      "\<And>e. tr_current t = Some e \<Longrightarrow> ep_N (es_payload e) < ep_N p \<and> now < lease_end p issuedAt"
      "if payload_mode p = ModeAuto then consumeAutoBudget t now = (t1, True) else t1 = t"
      "roster_fault t1 p = None" "t' = install sha jc t1 p issuedAt now"
proof (cases "jc_token jc js")
  case None
  then have "t' = t \<and> res \<noteq> None" using assms by (auto simp: Accept_def dest: epochRefuse_tracker)
  then show ?thesis by (intro kept [of t]) auto
next
  case tok: (Some tok)
  let ?p = "et_Payload tok"
  show ?thesis
  proof (cases "token_fault edv jc t tok now")
    case (Some reason)
    then have "t' = t \<and> res \<noteq> None" using assms tok by (auto simp: Accept_def Let_def dest: epochRefuse_tracker)
    then show ?thesis by (intro kept [of t]) auto
  next
    case fine: None
    then obtain issuedAt where issued: "jc_time jc (ep_IssuedAt ?p) = Some issuedAt"
      by (auto simp: token_fault_def Let_def split: if_splits option.splits)
    obtain t1 b where budget: "(if payload_mode ?p = ModeAuto then consumeAutoBudget t now else (t, True)) = (t1, b)"
      by (meson prod.exhaust)
    then have t1: "t1 = t \<or> t1 = fst (consumeAutoBudget t now)" by (auto split: if_splits)
    consider (old) e where "tr_current t = Some e" "ep_N ?p \<le> ep_N (es_payload e)"
      | (dead) "tr_current t \<noteq> None" "\<not> now < lease_end ?p issuedAt" "\<And>e. tr_current t = Some e \<Longrightarrow> ep_N (es_payload e) < ep_N ?p"
      | (broke) "b = False" "\<And>e. tr_current t = Some e \<Longrightarrow> ep_N (es_payload e) < ep_N ?p \<and> now < lease_end ?p issuedAt"
      | (roster) "b = True" "roster_fault t1 ?p \<noteq> None" "\<And>e. tr_current t = Some e \<Longrightarrow> ep_N (es_payload e) < ep_N ?p \<and> now < lease_end ?p issuedAt"
      | (good) "b = True" "roster_fault t1 ?p = None" "\<And>e. tr_current t = Some e \<Longrightarrow> ep_N (es_payload e) < ep_N ?p \<and> now < lease_end ?p issuedAt"
      by (cases "tr_current t"; force)
    then show ?thesis
    proof cases
      case old
      then have "t' = t \<and> (res = None \<longrightarrow> ep_N ?p = ep_N (es_payload e))"
        using assms tok fine issued
        by (auto simp: Accept_def Let_def split: if_splits prod.splits dest!: epochRefuse_tracker)
      with old tok show ?thesis by (intro kept [of t]) auto
    next
      case dead
      then have "t' = t \<and> res \<noteq> None"
        using assms tok fine issued
        by (auto simp: Accept_def Let_def split: if_splits prod.splits option.splits dest!: epochRefuse_tracker)
      then show ?thesis by (intro kept [of t]) auto
    next
      case broke
      then have "t' = t1 \<and> res \<noteq> None"
        using assms tok fine issued budget
        by (auto simp: Accept_def Let_def split: if_splits prod.splits option.splits dest!: epochRefuse_tracker)
      with t1 show ?thesis by (intro kept [of t1]) auto
    next
      case roster
      then have "t' = t1 \<and> res \<noteq> None"
        using assms tok fine issued budget
        by (auto simp: Accept_def Let_def split: if_splits prod.splits option.splits dest!: epochRefuse_tracker)
      with t1 show ?thesis by (intro kept [of t1]) auto
    next
      case good
      then have "t' = install sha jc t1 ?p issuedAt now"
        using assms tok fine issued budget
        by (fastforce simp: Accept_def Let_def split: if_splits prod.splits option.splits)
      moreover have "if payload_mode ?p = ModeAuto then consumeAutoBudget t now = (t1, True) else t1 = t"
        using budget good by (auto split: if_splits)
      ultimately show ?thesis using installed [OF tok refl fine issued good(3) _ good(2)] by blast
    qed
  qed
qed

lemma install_fields:
  "tr_quarantined (install sha jc t p i now) = tr_quarantined t @ revoked_by t p"
  "tr_autoLog (install sha jc t p i now) = tr_autoLog t" "same_cluster t (install sha jc t p i now)"
  "es_payload (the (tr_current (install sha jc t p i now))) = p"
  "es_issuedAt (the (tr_current (install sha jc t p i now))) = i"
  "es_expiresAt (the (tr_current (install sha jc t p i now))) = lease_end p i"
  "tr_current (install sha jc t p i now) \<noteq> None"
  by (simp_all add: install_def same_cluster_def Let_def)

text \<open>The first instant at which a lease of the history can be served.\<close>

definition lease_start :: "time \<times> epochState \<Rightarrow> time" where
  "lease_start x = max (fst x) (es_notBefore (snd x))"

definition lease_ok :: "json_codec \<Rightarrow> epochState \<Rightarrow> bool" where
  "lease_ok jc e \<longleftrightarrow> jc_time jc (ep_IssuedAt (es_payload e)) = Some (es_issuedAt e) \<and>
     es_expiresAt e = lease_end (es_payload e) (es_issuedAt e)"

text \<open>The history explains the tracker: its last lease is the current one, the epoch numbers grow,
  each lease starts after the previous one has run out.\<close>

definition leases_inv :: "json_codec \<Rightarrow> (time \<times> epochState) list \<Rightarrow> Tracker \<Rightarrow> bool" where
  "leases_inv jc h t \<longleftrightarrow>
     tr_current t = (if h = [] then None else Some (snd (last h))) \<and>
     list_all (\<lambda>x. lease_ok jc (snd x)) h \<and>
     successively (\<lambda>x y. ep_N (es_payload (snd x)) < ep_N (es_payload (snd y)) \<and>
        es_expiresAt (snd x) \<le> lease_start y) h"

lemma leases_inv_same: "tr_current t' = tr_current t \<Longrightarrow> leases_inv jc h t' \<longleftrightarrow> leases_inv jc h t"
  by (simp add: leases_inv_def)

lemma leases_inv_install:
  assumes inv: "leases_inv jc h t" and issued: "jc_time jc (ep_IssuedAt p) = Some i"
    and rank: "\<And>e. tr_current t = Some e \<Longrightarrow> ep_N (es_payload e) < ep_N p"
    and "tr_current t1 = tr_current t"
  shows "leases_inv jc (h @ [(now, the (tr_current (install sha jc t1 p i now)))]) (install sha jc t1 p i now)"
    and "tr_current (install sha jc t1 p i now) \<noteq> tr_current t"
proof -
  let ?e = "the (tr_current (install sha jc t1 p i now))"
  have p: "es_payload ?e = p" by (simp add: install_fields)
  have "lease_ok jc ?e" using issued by (simp add: lease_ok_def install_fields)
  moreover have "es_expiresAt e \<le> lease_start (now, ?e)" if "tr_current t = Some e" for e
    using that assms(4) by (auto simp: install_def lease_start_def Let_def max_def)
  ultimately show "leases_inv jc (h @ [(now, ?e)]) (install sha jc t1 p i now)"
    using inv rank p install_fields(7) [of sha jc t1 p i now]
    by (auto simp: leases_inv_def successively_append_iff split: if_splits)
  show "tr_current (install sha jc t1 p i now) \<noteq> tr_current t"
    using rank p by (metis install_fields(7) less_irrefl option.exhaust_sel)
qed

lemma Accept_leases:
  assumes "Accept sha edv jc r t js now lnow = (r', t', al, res)" and "leases_inv jc h t"
  shows "leases_inv jc (h @ (if tr_current t' = tr_current t then [] else [(now, the (tr_current t'))])) t'"
  using assms(1)
proof (cases rule: Accept_cases)
  case (kept t1)
  have "tr_current (fst (consumeAutoBudget t now)) = tr_current t"
    by (cases "consumeAutoBudget t now") (simp add: consumeAutoBudget_frame(1))
  with kept(1,2) have "tr_current t' = tr_current t" by auto
  with assms(2) show ?thesis by (simp add: leases_inv_same [of t' t])
next
  case (installed tok p t1 issuedAt)
  then have "tr_current t1 = tr_current t"
    using consumeAutoBudget_frame(1) by (auto split: if_splits)
  from leases_inv_install [OF assms(2) installed(4) _ this, where sha = sha and now = now] installed(5,8)
  show ?thesis by auto
qed

lemma tr_run_leases:
  assumes "tr_run sha edv jc (r, t) ds = (h', r', t')" and "leases_inv jc h t"
  shows "leases_inv jc (h @ h') t'"
  using assms
proof (induction ds arbitrary: r t h h')
  case Nil
  then show ?case by simp
next
  case (Cons d ds)
  obtain r1 t1 al res where st: "Accept sha edv jc r t (dl_json d) (dl_now d) (dl_leaf d) = (r1, t1, al, res)"
    by (metis prod_cases4)
  obtain h1 where run: "tr_run sha edv jc (r1, t1) ds = (h1, r', t')"
    and h': "h' = (if tr_current t1 = tr_current t then [] else [(dl_now d, the (tr_current t1))]) @ h1"
    using Cons.prems(1) st by (auto simp: Let_def split: prod.splits)
  from Cons.IH [OF run Accept_leases [OF st Cons.prems(2)]] show ?case by (simp add: h')
qed

lemma tr_run_instants:
  assumes "tr_run sha edv jc (r, t) ds = (h, r', t')"
  shows "fst ` set h \<subseteq> dl_now ` set ds \<and> same_cluster t t'"
  using assms
proof (induction ds arbitrary: r t h)
  case Nil
  then show ?case by (simp add: same_cluster_def)
next
  case (Cons d ds)
  obtain r1 t1 al res where st: "Accept sha edv jc r t (dl_json d) (dl_now d) (dl_leaf d) = (r1, t1, al, res)"
    by (metis prod_cases4)
  obtain h1 where run: "tr_run sha edv jc (r1, t1) ds = (h1, r', t')"
    and h': "h = (if tr_current t1 = tr_current t then [] else [(dl_now d, the (tr_current t1))]) @ h1"
    using Cons.prems st by (auto simp: Let_def split: prod.splits)
  have "same_cluster t t1"
    using st
  proof (cases rule: Accept_cases)
    case (kept t2)
    then show ?thesis
      using consumeAutoBudget_frame(3) [of t "dl_now d"] by (cases "consumeAutoBudget t (dl_now d)") (auto simp: same_cluster_def)
  next
    case (installed tok p t2 i)
    then have "same_cluster t t2" using consumeAutoBudget_frame(3) by (auto simp: same_cluster_def split: if_splits)
    then show ?thesis using installed(8) install_fields(3) [of t2 sha jc p i "dl_now d"] by (simp add: same_cluster_def)
  qed
  with Cons.IH [OF run] h' show ?case by (auto simp: same_cluster_def)
qed

lemma NewTracker_leases: "NewTracker cfg = Some t \<Longrightarrow> leases_inv jc [] t"
  by (auto simp: NewTracker_def leases_inv_def Let_def split: if_splits)

text \<open>When leases do not shorten, every earlier lease has run out when a later one starts.\<close>

lemma earlier_lease_over:
  assumes "leases_inv jc (h @ [y]) t" and "sorted (map (es_expiresAt \<circ> snd) (h @ [y]))" and "x \<in> set h"
  shows "es_expiresAt (snd x) \<le> lease_start y"
proof -
  from assms(3) have ne: "h \<noteq> []" by auto
  have "es_expiresAt (snd x) \<le> es_expiresAt (snd (last h))"
    using assms(2,3) ne by (induction h rule: rev_induct) (auto simp: sorted_append)
  also have "\<dots> \<le> lease_start y"
    using assms(1) ne by (auto simp: leases_inv_def successively_append_iff)
  finally show ?thesis .
qed

lemma CurrentEpoch_Inr:
  "CurrentEpoch t x = Inr n \<longleftrightarrow>
     (\<exists>e. tr_current t = Some e \<and> tr_cellID t \<notin> set (tr_quarantined t) \<and> ep_Authority (es_payload e) = tr_cellID t \<and>
        es_notBefore e \<le> x \<and> x < es_expiresAt e \<and> n = word_of_int (ep_N (es_payload e)))"
  by (auto simp: CurrentEpoch_def split: option.splits if_splits)

subsection \<open>One authority at a time\<close>

text \<open>C10: two cells never serve at once.  Take two cells of a cluster, each fed with its own sequence
  of lease tokens.  At an instant not before the deliveries of the second, if the second has also
  received the lease under which the first stands, and the leases it received never shorten, then
  both can only serve if they are the same cell under the same epoch.\<close>

theorem one_authority_at_a_time:
  assumes "NewTracker cfgA = Some a0" and "tr_run sha edv jc (rA, a0) dsA = (hA, rA', a)"
    and "NewTracker cfgB = Some b0" and "tr_run sha edv jc (rB, b0) dsB = (hB, rB', b)"
    and "\<forall>d \<in> set dsB. dl_now d \<le> x"
    and "sorted (map (es_expiresAt \<circ> snd) hB)"
    and "map_option es_payload (tr_current a) \<in> (Some \<circ> es_payload \<circ> snd) ` set hB"
    and "CurrentEpoch a x = Inr nA" and "CurrentEpoch b x = Inr nB"
  shows "tr_cellID a = tr_cellID b \<and> nA = nB"
proof -
  from tr_run_leases [OF assms(2) NewTracker_leases [OF assms(1)]] have la: "leases_inv jc hA a" by simp
  from tr_run_leases [OF assms(4) NewTracker_leases [OF assms(3)]] have lb: "leases_inv jc hB b" by simp
  from assms(8) obtain ea where ea: "tr_current a = Some ea" "x < es_expiresAt ea"
      "ep_Authority (es_payload ea) = tr_cellID a" "nA = word_of_int (ep_N (es_payload ea))"
    by (auto simp: CurrentEpoch_Inr)
  from assms(9) obtain eb where eb: "tr_current b = Some eb" "es_notBefore eb \<le> x"
      "ep_Authority (es_payload eb) = tr_cellID b" "nB = word_of_int (ep_N (es_payload eb))"
    by (auto simp: CurrentEpoch_Inr)
  from assms(7) ea(1) obtain y where y: "y \<in> set hB" "es_payload (snd y) = es_payload ea" by auto
  have "lease_ok jc ea" using la ea(1) by (auto simp: leases_inv_def list_all_iff split: if_splits)
  moreover have "lease_ok jc (snd y)" using lb y(1) by (auto simp: leases_inv_def list_all_iff)
  ultimately have same: "es_expiresAt (snd y) = es_expiresAt ea" using y(2) by (simp add: lease_ok_def)
  obtain h z where hB: "hB = h @ [z]" using y(1) by (cases hB rule: rev_cases) auto
  then have z: "snd z = eb" using lb eb(1) by (simp add: leases_inv_def)
  have "fst z \<le> x" using tr_run_instants [OF assms(4)] assms(5) hB by force
  then have "lease_start z \<le> x" using z eb(2) by (simp add: lease_start_def)
  then have "y \<notin> set h" using earlier_lease_over [of jc h z b y] lb assms(6) hB ea(2) same by force
  then have "snd y = eb" using y(1) hB z by auto
  with y(2) ea eb show ?thesis by simp
qed

subsection \<open>Revocation\<close>

text \<open>Nothing takes a cell out of quarantine, and a tracker never forgets that it has an epoch.\<close>

lemma Accept_keeps:
  assumes "Accept sha edv jc r t js now lnow = (r', t', al, res)"
  shows "set (tr_quarantined t) \<subseteq> set (tr_quarantined t')" and "tr_current t \<noteq> None \<Longrightarrow> tr_current t' \<noteq> None"
proof -
  have frame: "tr_current (fst (consumeAutoBudget t now)) = tr_current t"
      "tr_quarantined (fst (consumeAutoBudget t now)) = tr_quarantined t"
    by (cases "consumeAutoBudget t now", simp add: consumeAutoBudget_frame)+
  from assms have "set (tr_quarantined t) \<subseteq> set (tr_quarantined t') \<and> (tr_current t \<noteq> None \<longrightarrow> tr_current t' \<noteq> None)"
  proof (cases rule: Accept_cases)
    case (kept t1)
    with frame show ?thesis by auto
  next
    case (installed tok p t1 i)
    then have "tr_quarantined t1 = tr_quarantined t"
      using consumeAutoBudget_frame(2) by (auto split: if_splits)
    then show ?thesis using installed(8) by (simp add: install_fields)
  qed
  then show "set (tr_quarantined t) \<subseteq> set (tr_quarantined t')" "tr_current t \<noteq> None \<Longrightarrow> tr_current t' \<noteq> None"
    by auto
qed

lemma tr_run_keeps:
  assumes "tr_run sha edv jc (r, t) ds = (h, r', t')"
  shows "set (tr_quarantined t) \<subseteq> set (tr_quarantined t') \<and> (tr_current t \<noteq> None \<longrightarrow> tr_current t' \<noteq> None)"
  using assms
proof (induction ds arbitrary: r t h)
  case Nil
  then show ?case by simp
next
  case (Cons d ds)
  obtain r1 t1 al res where st: "Accept sha edv jc r t (dl_json d) (dl_now d) (dl_leaf d) = (r1, t1, al, res)"
    by (metis prod_cases4)
  obtain h1 where "tr_run sha edv jc (r1, t1) ds = (h1, r', t')"
    using Cons.prems st by (auto simp: Let_def split: prod.splits)
  from Cons.IH [OF this] Accept_keeps [OF st] show ?case by blast
qed

text \<open>C29: a revoked cell never serves again.  Once a lease that carries a roster has been installed,
  every member left out of it is in quarantine, whatever leases are delivered afterwards; and if it
  is the cell that runs the tracker, it is given no epoch at any instant.\<close>

theorem revoked_cell_never_serves:
  assumes "Accept sha edv jc r t js now lnow = (r1, t1, al, res)" and "tr_current t1 \<noteq> tr_current t"
    and "jc_token jc js = Some tok" and "ep_Roster (et_Payload tok) = Some ros"
    and "c \<in> set (tr_members t)" and "c \<notin> set ros"
    and "tr_run sha edv jc (r1, t1) ds = (h, r2, t2)"
  shows "c \<in> set (Quarantined t2) \<and> (tr_cellID t2 = c \<longrightarrow> CurrentEpoch t2 x = Inl ErrCellQuarantined)"
proof -
  have "c \<in> set (tr_quarantined t1) \<and> tr_current t1 \<noteq> None"
    using assms(1)
  proof (cases rule: Accept_cases)
    case (kept t2)
    then have "tr_current t1 = tr_current t"
      by (cases "consumeAutoBudget t now") (auto dest: consumeAutoBudget_frame(1))
    with assms(2) show ?thesis by simp
  next
    case (installed tok' p t2 i)
    have "tr_members t2 = tr_members t"
      using installed(6) consumeAutoBudget_frame(3) [of t now t2] by (auto simp: same_cluster_def split: if_splits)
    with installed assms(3-6) show ?thesis
      by (auto simp: install_fields revoked_by_def)
  qed
  with tr_run_keeps [OF assms(7)] have "c \<in> set (tr_quarantined t2)" "tr_current t2 \<noteq> None" by auto
  then show ?thesis by (auto simp: Quarantined_def CurrentEpoch_def)
qed

subsection \<open>The budget of automatic failovers\<close>

definition autos :: "(time \<times> epochState) list \<Rightarrow> time list" where
  "autos h = map fst (filter (\<lambda>x. payload_mode (es_payload (snd x)) = ModeAuto) h)"

definition after :: "time \<Rightarrow> time list \<Rightarrow> nat" where
  "after c ts = length (filter (\<lambda>t. t > c) ts)"

text \<open>Every automatic failover of the last hour is still in the tracker's log, and no hour of the
  history has seen more of them than the budget.\<close>

definition budget_inv :: "(time \<times> epochState) list \<Rightarrow> Tracker \<Rightarrow> time \<Rightarrow> bool" where
  "budget_inv h t latest \<longleftrightarrow>
     (\<forall>a \<in> set (autos h). a \<le> latest) \<and> int (length (tr_autoLog t)) \<le> tr_maxAutoHr t \<and>
     (\<forall>c \<ge> latest - hour. after c (autos h) \<le> after c (tr_autoLog t)) \<and>
     (\<forall>T. int (length (filter (\<lambda>a. T - hour < a \<and> a \<le> T) (autos h))) \<le> tr_maxAutoHr t)"

lemma after_filter: "c' \<le> c \<Longrightarrow> after c (filter (\<lambda>t. t > c') ts) = after c ts"
  unfolding after_def by (induction ts) auto

lemma after_le: "after c ts \<le> length ts"
  by (simp add: after_def)

lemma window_after: "length (filter (\<lambda>a. c < a \<and> a \<le> T) ts) \<le> after c ts"
  unfolding after_def by (induction ts) auto

lemma consumeAutoBudget_log:
  assumes "consumeAutoBudget t now = (t', b)" and "int (length (tr_autoLog t)) \<le> tr_maxAutoHr t"
  shows "int (length (tr_autoLog t')) \<le> tr_maxAutoHr t"
    and "now - hour \<le> c \<Longrightarrow> after c (tr_autoLog t') = after c (tr_autoLog t) + (if b \<and> c < now then 1 else 0)"
proof -
  have "int (length (filter (\<lambda>ts. ts > now - hour) (tr_autoLog t))) \<le> int (length (tr_autoLog t))" by simp
  also note assms(2)
  finally show "int (length (tr_autoLog t')) \<le> tr_maxAutoHr t"
    using assms(1) by (auto simp: consumeAutoBudget_def Let_def split: if_splits)
  show "after c (tr_autoLog t') = after c (tr_autoLog t) + (if b \<and> c < now then 1 else 0)" if "now - hour \<le> c"
    using assms(1) after_filter [OF that, of "tr_autoLog t"]
    by (auto simp: consumeAutoBudget_def Let_def after_def split: if_splits)
qed

lemma budget_inv_kept:
  assumes "budget_inv h t latest" and "latest \<le> now" and "t' = t \<or> t' = fst (consumeAutoBudget t now)"
  shows "budget_inv h t' now"
proof -
  obtain t1 b where c: "consumeAutoBudget t now = (t1, b)" by force
  have "tr_maxAutoHr t1 = tr_maxAutoHr t" using consumeAutoBudget_frame(3) [OF c] by (simp add: same_cluster_def)
  moreover have "after x (autos h) \<le> after x (tr_autoLog t1)" if "now - hour \<le> x" for x
  proof -
    have "after x (autos h) \<le> after x (tr_autoLog t)" using assms(1,2) that by (simp add: budget_inv_def)
    also have "\<dots> \<le> after x (tr_autoLog t1)"
      using consumeAutoBudget_log(2) [OF c _ that] assms(1) by (simp add: budget_inv_def)
    finally show ?thesis .
  qed
  ultimately show ?thesis
    using assms consumeAutoBudget_log(1) [OF c] c
    by (auto simp: budget_inv_def intro: order_trans)
qed

lemma budget_inv_auto:
  assumes inv: "budget_inv h t latest" and later: "latest \<le> now" and c: "consumeAutoBudget t now = (t1, True)"
    and t': "tr_autoLog t' = tr_autoLog t1" "tr_maxAutoHr t' = tr_maxAutoHr t"
    and e: "payload_mode (es_payload e) = ModeAuto"
  shows "budget_inv (h @ [(now, e)]) t' now"
proof -
  have h: "autos (h @ [(now, e)]) = autos h @ [now]" using e by (simp add: autos_def)
  have old: "int (length (tr_autoLog t)) \<le> tr_maxAutoHr t" using inv by (simp add: budget_inv_def)
  have log: "after x (autos h @ [now]) \<le> after x (tr_autoLog t')" if "now - hour \<le> x" for x
    using consumeAutoBudget_log(2) [OF c old that] inv later that t' by (auto simp: budget_inv_def after_def)
  have "int (length (filter (\<lambda>a. T - hour < a \<and> a \<le> T) (autos h @ [now]))) \<le> tr_maxAutoHr t" for T
  proof (cases "now \<le> T")
    case True
    have "length (filter (\<lambda>a. T - hour < a \<and> a \<le> T) (autos h @ [now])) \<le> after (T - hour) (tr_autoLog t')"
      using window_after log [of "T - hour"] True by (metis diff_right_mono le_trans)
    also have "\<dots> \<le> length (tr_autoLog t1)" using t'(1) after_le by simp
    finally show ?thesis using consumeAutoBudget_log(1) [OF c old] by linarith
  next
    case False
    with inv show ?thesis by (simp add: budget_inv_def)
  qed
  with inv later log consumeAutoBudget_log(1) [OF c old] t' h show ?thesis
    by (auto simp: budget_inv_def intro: order_trans)
qed

lemma Accept_budget:
  assumes st: "Accept sha edv jc r t js now lnow = (r', t', al, res)"
    and inv: "leases_inv jc h t" "budget_inv h t latest" and later: "latest \<le> now"
  shows "budget_inv (h @ (if tr_current t' = tr_current t then [] else [(now, the (tr_current t'))])) t' now"
  using st
proof (cases rule: Accept_cases)
  case (kept t1)
  have "tr_current (fst (consumeAutoBudget t now)) = tr_current t"
    by (cases "consumeAutoBudget t now") (simp add: consumeAutoBudget_frame(1))
  with kept(1,2) have "tr_current t' = tr_current t" by auto
  with budget_inv_kept [OF inv(2) later] kept(1,2) show ?thesis by simp
next
  case (installed tok p t1 i)
  have cur: "tr_current t1 = tr_current t"
    using installed(6) consumeAutoBudget_frame(1) by (auto split: if_splits)
  from leases_inv_install(2) [OF inv(1) installed(4) _ cur, where sha = sha and now = now] installed(5,8)
  have new: "tr_current t' \<noteq> tr_current t" by auto
  have p: "es_payload (the (tr_current t')) = p" using installed(8) by (simp add: install_fields)
  have fields: "tr_autoLog t' = tr_autoLog t1" "tr_maxAutoHr t' = tr_maxAutoHr t1"
    using installed(8) install_fields(3) [of t1 sha jc p i now] by (simp_all add: same_cluster_def install_fields(2))
  show ?thesis
  proof (cases "payload_mode p = ModeAuto")
    case True
    then have c: "consumeAutoBudget t now = (t1, True)" using installed(6) by simp
    have "tr_maxAutoHr t' = tr_maxAutoHr t" using consumeAutoBudget_frame(3) [OF c] fields by (simp add: same_cluster_def)
    from budget_inv_auto [OF inv(2) later c fields(1) this, of "the (tr_current t')"] True p new show ?thesis by simp
  next
    case False
    then have t1: "t1 = t" using installed(6) by simp
    have "autos (h @ [(now, the (tr_current t'))]) = autos h" using False p by (simp add: autos_def)
    with budget_inv_kept [OF inv(2) later, of t] fields t1 new show ?thesis by (simp add: budget_inv_def)
  qed
qed

lemma tr_run_budget:
  assumes "tr_run sha edv jc (r, t) ds = (h', r', t')" and "leases_inv jc h t" "budget_inv h t latest"
    and "sorted (latest # map dl_now ds)"
  shows "\<exists>latest'. budget_inv (h @ h') t' latest'"
  using assms
proof (induction ds arbitrary: r t h h' latest)
  case Nil
  then show ?case by auto
next
  case (Cons d ds)
  obtain r1 t1 al res where st: "Accept sha edv jc r t (dl_json d) (dl_now d) (dl_leaf d) = (r1, t1, al, res)"
    by (metis prod_cases4)
  let ?new = "if tr_current t1 = tr_current t then [] else [(dl_now d, the (tr_current t1))]"
  obtain h1 where run: "tr_run sha edv jc (r1, t1) ds = (h1, r', t')" and h': "h' = ?new @ h1"
    using Cons.prems(1) st by (auto simp: Let_def split: prod.splits)
  have "budget_inv (h @ ?new) t1 (dl_now d)"
    using Accept_budget [OF st Cons.prems(2,3)] Cons.prems(4) by simp
  from Cons.IH [OF run Accept_leases [OF st Cons.prems(2)] this] Cons.prems(4) h' show ?case by simp
qed

text \<open>at most so many failovers an hour without a human.  In any history of a tracker whose clock
  does not go back, every window of one hour holds at most the configured number of automatic
  failovers, whatever tokens were refused in between.\<close>

lemma failover_budget_per_hour:
  assumes "NewTracker cfg = Some t0" and "sorted (map dl_now ds)"
    and "tr_run sha edv jc (r0, t0) ds = (h, r, t)"
  shows "int (length (filter (\<lambda>a. T - hour < a \<and> a \<le> T) (autos h))) \<le> tr_maxAutoHr t0"
proof -
  define latest where "latest = (case ds of [] \<Rightarrow> 0 | d # _ \<Rightarrow> dl_now d)"
  have "sorted (latest # map dl_now ds)" using assms(2) by (cases ds) (auto simp: latest_def)
  moreover have "budget_inv [] t0 latest"
    using assms(1) by (auto simp: NewTracker_def budget_inv_def autos_def after_def Let_def split: if_splits)
  ultimately obtain latest' where "budget_inv h t latest'"
    using tr_run_budget [OF assms(3) NewTracker_leases [OF assms(1)]] by auto
  then show ?thesis
    using tr_run_instants [OF assms(3)] by (simp add: budget_inv_def same_cluster_def)
qed

subsection \<open>Concrete leases\<close>

text \<open>A decoder for examples: a token is named by its number, an instant by one octet that counts
  seconds.\<close>

definition lease_ex :: "int \<Rightarrow> string \<Rightarrow> nat \<Rightarrow> int \<Rightarrow> string \<Rightarrow> string list option \<Rightarrow> EpochToken" where
  "lease_ex n authority issued ttl mode roster =
     \<lparr>et_Payload = \<lparr>ep_N = n, ep_Authority = authority, ep_IssuedAt = [byte issued], ep_TTLSeconds = ttl, ep_Mode = mode,
        ep_Roster = roster\<rparr>, et_Quorum = ''1-of-1'', et_Signatures = [vote_ex]\<rparr>"

definition jc_ex :: json_codec where
  "jc_ex = \<lparr>jc_token = (\<lambda>js.
       if js = ''1'' then Some (lease_ex 1 ''a'' 10 240 [] None)
       else if js = ''2'' then Some (lease_ex 2 ''b'' 15 10 [] None)
       else if js = ''3'' then Some (lease_ex 3 ''c'' 26 60 ''auto'' None)
       else if js = ''4'' then Some (lease_ex 4 ''a'' 26 60 [] (Some [''a'', ''b'']))
       else None),
     jc_payload = (\<lambda>p. Some [byte (nat (ep_N p))]),
     jc_time = (\<lambda>s. case s of [c] \<Rightarrow> Some (of_unix (int (of_char c))) | _ \<Rightarrow> None)\<rparr>"

definition cfg_ex :: "string \<Rightarrow> TrackerConfig" where
  "cfg_ex cell = \<lparr>tc_CellID = cell, tc_Salt = zeros 16, tc_Controllers = [(1, zeros 32)], tc_Quorum = 1,
     tc_Members = [''a'', ''b'', ''c''], tc_MaxAutoFailoversPerHour = 0, tc_MinTTLSeconds = 0, tc_MaxTTLSeconds = 0\<rparr>"

definition tracker_ex :: "string \<Rightarrow> Tracker" where
  "tracker_ex cell = the (NewTracker (cfg_ex cell))"

definition storage_ex :: "outcome list \<Rightarrow> registry" where
  "storage_ex env = \<lparr>rg_log = [], rg_journal = None, rg_engaged = False, rg_clock = of_unix 1, rg_env = env\<rparr>"

definition at_ex :: "string \<Rightarrow> int \<Rightarrow> delivery" where
  "at_ex js s = \<lparr>dl_json = js, dl_now = of_unix s, dl_leaf = of_unix s\<rparr>"

definition run_ex :: "string \<Rightarrow> delivery list \<Rightarrow> (time \<times> epochState) list \<times> registry \<times> Tracker" where
  "run_ex cell ds = tr_run (\<lambda>b. b) (\<lambda>p m s. True) jc_ex (storage_ex [], tracker_ex cell) ds"

abbreviation tracker_after :: "string \<Rightarrow> delivery list \<Rightarrow> Tracker" where
  "tracker_after cell ds \<equiv> snd (snd (run_ex cell ds))"

lemma tracker_ex_eq: "tracker_ex cell = \<lparr>tr_cellID = cell, tr_salt = zeros 16, tr_ctrls = [(1, zeros 32)], tr_quorum = 1,
     tr_members = [''a'', ''b'', ''c''], tr_maxAutoHr = 3, tr_minTTL = 10, tr_maxTTL = 300, tr_current = None,
     tr_quarantined = [], tr_autoLog = []\<rparr>" if "cell \<in> {''a'', ''c''}"
  using that by (auto simp: tracker_ex_def NewTracker_def cfg_ex_def Let_def DefaultMaxAutoFailoversPerHour_def
      DefaultMinTTLSeconds_def DefaultMaxTTLSeconds_def)

lemma tracker_ex_new: "NewTracker (cfg_ex ''a'') = Some (tracker_ex ''a'')" "NewTracker (cfg_ex ''c'') = Some (tracker_ex ''c'')"
  by (simp_all add: tracker_ex_def NewTracker_def cfg_ex_def Let_def DefaultMaxAutoFailoversPerHour_def
      DefaultMinTTLSeconds_def DefaultMaxTTLSeconds_def)

lemma run_ex_eq: "tr_run (\<lambda>b. b) (\<lambda>p m s. True) jc_ex (storage_ex [], tracker_ex cell) ds =
    (fst (run_ex cell ds), fst (snd (run_ex cell ds)), tracker_after cell ds)"
  by (simp add: run_ex_def)

text \<open>Whatever the registry, the tracker after an acceptance is the one with the lease installed.\<close>

lemma Accept_installs:
  assumes "jc_token jc js = Some tok" and "token_fault edv jc t tok now = None"
    and "jc_time jc (ep_IssuedAt (et_Payload tok)) = Some i"
    and "case tr_current t of None \<Rightarrow> True
       | Some e \<Rightarrow> ep_N (es_payload e) < ep_N (et_Payload tok) \<and> now < lease_end (et_Payload tok) i"
    and "(if payload_mode (et_Payload tok) = ModeAuto then consumeAutoBudget t now else (t, True)) = (t1, True)"
    and "roster_fault t1 (et_Payload tok) = None"
  shows "fst (snd (Accept sha edv jc r t js now lnow)) = install sha jc t1 (et_Payload tok) i now"
  using assms by (auto simp: Accept_def Let_def split: option.splits prod.splits if_splits)

definition held_ex :: "int \<Rightarrow> string \<Rightarrow> nat \<Rightarrow> int \<Rightarrow> string \<Rightarrow> string list option \<Rightarrow> int \<Rightarrow> epochState" where
  "held_ex n authority issued ttl mode roster start =
     \<lparr>es_payload = et_Payload (lease_ex n authority issued ttl mode roster), es_hash = [byte (nat n)],
      es_issuedAt = of_unix (int issued), es_expiresAt = of_unix (int issued + ttl), es_notBefore = of_unix start\<rparr>"

lemmas ex_defs = jc_ex_def lease_ex_def held_ex_def token_fault_def verifyQuorum_def vote_ex_counts payload_mode_def
  ModeAuto_def ModeManual_def maxIssuedAtSkew_def of_unix_def second_def lease_end_def wrap64_def roster_fault_def
  install_def revoked_by_def tracker_ex_eq Let_def

lemma accept_ex1:
  assumes "cell \<in> {''a'', ''c''}" and "s = 11 \<or> s = 12"
  shows "fst (snd (Accept (\<lambda>b. b) (\<lambda>p m s. True) jc_ex r (tracker_ex cell) ''1'' (of_unix s) l)) =
    (tracker_ex cell)\<lparr>tr_current := Some (held_ex 1 ''a'' 10 240 [] None 10)\<rparr>"
  by (subst Accept_installs [where tok = "lease_ex 1 ''a'' 10 240 [] None" and i = "of_unix 10" and ?t1.0 = "tracker_ex cell"])
    (use assms in \<open>auto simp: ex_defs\<close>)

lemma accept_ex2:
  "fst (snd (Accept (\<lambda>b. b) (\<lambda>p m s. True) jc_ex r
     ((tracker_ex ''c'')\<lparr>tr_current := Some (held_ex 1 ''a'' 10 240 [] None 10)\<rparr>) ''2'' (of_unix 16) l)) =
   (tracker_ex ''c'')\<lparr>tr_current := Some (held_ex 2 ''b'' 15 10 [] None 250)\<rparr>"
  by (subst Accept_installs [where tok = "lease_ex 2 ''b'' 15 10 [] None" and i = "of_unix 15"
        and ?t1.0 = "(tracker_ex ''c'')\<lparr>tr_current := Some (held_ex 1 ''a'' 10 240 [] None 10)\<rparr>"])
    (auto simp: ex_defs)

lemma accept_ex3:
  "fst (snd (Accept (\<lambda>b. b) (\<lambda>p m s. True) jc_ex r
     ((tracker_ex ''c'')\<lparr>tr_current := Some (held_ex 2 ''b'' 15 10 [] None 250)\<rparr>) ''3'' (of_unix 30) l)) =
   (tracker_ex ''c'')\<lparr>tr_current := Some (held_ex 3 ''c'' 26 60 ''auto'' None 26), tr_autoLog := [of_unix 30]\<rparr>"
  by (subst Accept_installs [where tok = "lease_ex 3 ''c'' 26 60 ''auto'' None" and i = "of_unix 26"
        and ?t1.0 = "(tracker_ex ''c'')\<lparr>tr_current := Some (held_ex 2 ''b'' 15 10 [] None 250), tr_autoLog := [of_unix 30]\<rparr>"])
    (auto simp: ex_defs consumeAutoBudget_def)

lemma accept_ex4:
  "fst (snd (Accept (\<lambda>b. b) (\<lambda>p m s. True) jc_ex r
     ((tracker_ex ''c'')\<lparr>tr_current := Some (held_ex 1 ''a'' 10 240 [] None 10)\<rparr>) ''4'' (of_unix 30) l)) =
   (tracker_ex ''c'')\<lparr>tr_current := Some (held_ex 4 ''a'' 26 60 [] (Some [''a'', ''b'']) 250), tr_quarantined := [''c'']\<rparr>"
  by (subst Accept_installs [where tok = "lease_ex 4 ''a'' 26 60 [] (Some [''a'', ''b''])" and i = "of_unix 26"
        and ?t1.0 = "(tracker_ex ''c'')\<lparr>tr_current := Some (held_ex 1 ''a'' 10 240 [] None 10)\<rparr>"])
    (auto simp: ex_defs)

lemmas runs_ex = run_ex_def at_ex_def accept_ex1 accept_ex2 accept_ex3 accept_ex4 case_prod_beta Let_def

lemma tracker_current_ex [simp]: "tr_current (tracker_ex ''a'') = None" "tr_current (tracker_ex ''c'') = None"
  by (simp_all add: tracker_ex_eq)

lemma run_ex_1:
  assumes "s = 11 \<or> s = 12"
  shows "tracker_after ''a'' [at_ex ''1'' s] = (tracker_ex ''a'')\<lparr>tr_current := Some (held_ex 1 ''a'' 10 240 [] None 10)\<rparr>"
    and "fst (run_ex ''a'' [at_ex ''1'' s]) = [(of_unix s, held_ex 1 ''a'' 10 240 [] None 10)]"
  using assms by (auto simp: runs_ex)

lemma run_ex_3: "tracker_after ''c'' [at_ex ''1'' 12, at_ex ''2'' 16, at_ex ''3'' 30] =
    (tracker_ex ''c'')\<lparr>tr_current := Some (held_ex 3 ''c'' 26 60 ''auto'' None 26), tr_autoLog := [of_unix 30]\<rparr>"
  by (simp add: runs_ex)

lemma serves_ex1: "of_unix 10 \<le> x \<Longrightarrow> x < of_unix 250 \<Longrightarrow>
    CurrentEpoch ((tracker_ex ''a'')\<lparr>tr_current := Some (held_ex 1 ''a'' 10 240 [] None 10)\<rparr>) x = Inr 1"
  by (simp add: CurrentEpoch_def ex_defs)

theorem one_authority_at_a_time_witness:
  "tr_cellID (tracker_after ''a'' [at_ex ''1'' 12]) = tr_cellID (tracker_after ''a'' [at_ex ''1'' 11]) \<and>
   CurrentEpoch (tracker_after ''a'' [at_ex ''1'' 12]) (of_unix 20) = CurrentEpoch (tracker_after ''a'' [at_ex ''1'' 11]) (of_unix 20)"
proof -
  have serve: "CurrentEpoch (tracker_after ''a'' [at_ex ''1'' 12]) (of_unix 20) = Inr 1"
    "CurrentEpoch (tracker_after ''a'' [at_ex ''1'' 11]) (of_unix 20) = Inr 1"
    by (simp_all add: run_ex_1 serves_ex1 of_unix_def second_def)
  have "tr_cellID (tracker_after ''a'' [at_ex ''1'' 12]) = tr_cellID (tracker_after ''a'' [at_ex ''1'' 11]) \<and> (1 :: u64) = 1"
    by (rule one_authority_at_a_time [OF tracker_ex_new(1) run_ex_eq tracker_ex_new(1) run_ex_eq _ _ _ serve])
      (simp_all add: run_ex_1, simp add: at_ex_def of_unix_def second_def)
  with serve show ?thesis by simp
qed



theorem revoked_cell_never_serves_witness:
  "CurrentEpoch (tracker_after ''c'' [at_ex ''1'' 12, at_ex ''4'' 30]) (of_unix 300) = Inl ErrCellQuarantined"
proof -
  let ?t = "(tracker_ex ''c'')\<lparr>tr_current := Some (held_ex 1 ''a'' 10 240 [] None 10)\<rparr>"
  define acc where "acc = Accept (\<lambda>b. b) (\<lambda>p m s. True) jc_ex (storage_ex []) ?t ''4'' (of_unix 30) (of_unix 30)"
  have tr: "fst (snd acc) = (tracker_ex ''c'')\<lparr>tr_current := Some (held_ex 4 ''a'' 26 60 [] (Some [''a'', ''b'']) 250),
      tr_quarantined := [''c'']\<rparr>" by (simp add: acc_def accept_ex4)
  have 1: "Accept (\<lambda>b. b) (\<lambda>p m s. True) jc_ex (storage_ex []) ?t ''4'' (of_unix 30) (of_unix 30) =
      (fst acc, fst (snd acc), fst (snd (snd acc)), snd (snd (snd acc)))" by (simp add: acc_def)
  have 2: "tr_current (fst (snd acc)) \<noteq> tr_current ?t" by (simp add: tr held_ex_def lease_ex_def)
  have 3: "jc_token jc_ex ''4'' = Some (lease_ex 4 ''a'' 26 60 [] (Some [''a'', ''b'']))" by (simp add: jc_ex_def)
  have 4: "ep_Roster (et_Payload (lease_ex 4 ''a'' 26 60 [] (Some [''a'', ''b'']))) = Some [''a'', ''b'']" by (simp add: lease_ex_def)
  have 5: "''c'' \<in> set (tr_members ?t)" by (simp add: tracker_ex_eq)
  have 6: "''c'' \<notin> set [''a'', ''b'']" by simp
  have 7: "tr_run (\<lambda>b. b) (\<lambda>p m s. True) jc_ex (fst acc, fst (snd acc)) [] = ([], fst acc, fst (snd acc))" by simp
  have "tracker_after ''c'' [at_ex ''1'' 12, at_ex ''4'' 30] = fst (snd acc)" by (simp add: runs_ex tr)
  moreover have "tr_cellID (fst (snd acc)) = ''c''" by (simp add: tr tracker_ex_eq)
  ultimately show ?thesis using revoked_cell_never_serves [OF 1 2 3 4 5 6 7, of "of_unix 300"] by simp
qed

end
