(* ===== verification/Cluster_Quorum.thy ===== *)
theory Cluster_Quorum
  imports Cluster_Votes Anti_Replay
begin

text \<open>
  The class W gate of the cluster (\<open>src/src/cluster/quorum.go\<close>) and the register of consumed
  proofs behind it (\<open>proof_store.go\<close>): an irreversible action is admitted on the co-signature of
  k distinct controllers over exactly that action, resource, policy, epoch and expiry, and a
  proof is worth one admission.

  The register is held in memory and, when it has a path, in a file rewritten at each consumption;
  the list \<open>ps_env\<close> scripts which rewrites fail.  JSON and RFC 3339 are the functions of the
  record \<open>w_codec\<close>.  The register keeps the contract of the replay cache, which is how its
  guarantee is proved.
\<close>

subsection \<open>The register of consumed proofs\<close>

definition DefaultProofStoreCapacity :: int where "DefaultProofStoreCapacity = 4096"

record ProofStore =
  ps_entries :: "(bytes, int) gomap"
  ps_capacity :: int
  ps_file :: "(bytes, int) gomap option"
  ps_env :: "bool list"

datatype proof_file = NoPath | FileMissing | FileUnreadable | FileEntries "(bytes, int) gomap"

definition newConsumedProofs :: "int \<Rightarrow> proof_file \<Rightarrow> ProofStore option" where
  "newConsumedProofs capacity0 path =
     (let capacity = (if capacity0 = 0 then DefaultProofStoreCapacity else capacity0)
      in if capacity < 1 then None
         else case path of
           NoPath \<Rightarrow> Some \<lparr>ps_entries = [], ps_capacity = capacity, ps_file = None, ps_env = []\<rparr>
         | FileMissing \<Rightarrow> Some \<lparr>ps_entries = [], ps_capacity = capacity, ps_file = Some [], ps_env = []\<rparr>
         | FileUnreadable \<Rightarrow> None
         | FileEntries m \<Rightarrow> Some \<lparr>ps_entries = m, ps_capacity = capacity, ps_file = Some m, ps_env = []\<rparr>)"

datatype store_error = StoreFull | StoreFail

definition persist :: "ProofStore \<Rightarrow> (bytes, int) gomap \<Rightarrow> ProofStore \<times> bool" where
  "persist c m =
     (case ps_file c of None \<Rightarrow> (c, True)
      | Some f \<Rightarrow>
        (case ps_env c of
           [] \<Rightarrow> (c\<lparr>ps_file := Some m\<rparr>, True)
         | ok # env \<Rightarrow> (c\<lparr>ps_env := env, ps_file := Some (if ok then m else f)\<rparr>, ok)))"

text \<open>On a refusal the purged entries are put back, so the register is as it was.\<close>

definition proofs_Consume :: "ProofStore \<Rightarrow> bytes \<Rightarrow> int \<Rightarrow> int \<Rightarrow> ProofStore \<times> (store_error + bool)" where
  "proofs_Consume c key expiryUnix nowUnix =
     (if map_of (ps_entries c) key \<noteq> None then (c, Inr False)
      else let live = filter (\<lambda>(k, exp). \<not> exp \<le> nowUnix) (ps_entries c)
        in if int (length live) \<ge> ps_capacity c then (c, Inl StoreFull)
           else let m = put key expiryUnix live
             in case persist c m of
                  (c', False) \<Rightarrow> (c', Inl StoreFail)
                | (c', True) \<Rightarrow> (c'\<lparr>ps_entries := m\<rparr>, Inr True))"

text \<open>A restart of the cell reads the file again.\<close>

definition ps_restart :: "ProofStore \<Rightarrow> ProofStore" where
  "ps_restart c = (case ps_file c of None \<Rightarrow> c\<lparr>ps_entries := []\<rparr> | Some f \<Rightarrow> c\<lparr>ps_entries := f\<rparr>)"

definition ps_inv :: "ProofStore \<Rightarrow> bool" where
  "ps_inv c \<longleftrightarrow> wf_map (ps_entries c) \<and> ps_file c = Some (ps_entries c) \<and> int (length (ps_entries c)) \<le> ps_capacity c"

definition ps_check :: "ProofStore \<Rightarrow> int \<Rightarrow> bytes \<Rightarrow> int \<Rightarrow> bool \<times> string list \<times> ProofStore" where
  "ps_check c now key e = (let (c', res) = proofs_Consume c key (e + 1) now in (res = Inr True, [], c'))"

definition ps_held :: "ProofStore \<Rightarrow> bytes \<Rightarrow> int \<Rightarrow> bool" where
  "ps_held c key e \<longleftrightarrow> map_of (ps_entries c) key = Some (e + 1)"

lemma proofs_Consume_cases:
  assumes "proofs_Consume c key e now = (c', res)" and "ps_inv c"
  obtains (refused) "res \<noteq> Inr True" "ps_entries c' = ps_entries c" "ps_inv c'"
  | (consumed) "res = Inr True" "map_of (ps_entries c) key = None"
      "ps_entries c' = put key e (filter (\<lambda>(k, exp). \<not> exp \<le> now) (ps_entries c))" "ps_inv c'"
proof (cases "res = Inr True")
  case True
  then have *: "map_of (ps_entries c) key = None" "ps_capacity c' = ps_capacity c"
    "\<not> int (length (filter (\<lambda>(k, exp). \<not> exp \<le> now) (ps_entries c))) \<ge> ps_capacity c"
    "ps_entries c' = put key e (filter (\<lambda>(k, exp). \<not> exp \<le> now) (ps_entries c))" "ps_file c' = Some (ps_entries c')"
    using assms by (auto simp: proofs_Consume_def persist_def ps_inv_def Let_def
        split: if_splits option.splits list.splits prod.splits bool.splits)
  then have "int (length (ps_entries c')) \<le> ps_capacity c'" by (simp add: length_put)
  with * assms(2) consumed True show ?thesis by (auto simp: ps_inv_def)
next
  case False
  then have "ps_entries c' = ps_entries c \<and> ps_file c' = ps_file c \<and> ps_capacity c' = ps_capacity c"
    using assms by (auto simp: proofs_Consume_def persist_def ps_inv_def Let_def
        split: if_splits option.splits list.splits prod.splits bool.splits)
  with False assms(2) refused show ?thesis by (auto simp: ps_inv_def)
qed

text \<open>The register is a replay cache: a consumed identity is held, through other consumptions and
  failed writes, for as long as the instant, in seconds, is before its expiry.\<close>

interpretation proofs: replay_cache ps_check ps_held ps_inv
proof unfold_locales
  fix c now j e b al c'
  assume "ps_inv c" "ps_check c now j e = (b, al, c')"
  then show "ps_inv c'"
    by (auto simp: ps_check_def split: prod.splits elim: proofs_Consume_cases)
next
  fix c now j e al c'
  assume "ps_inv c" "ps_check c now j e = (True, al, c')"
  then show "ps_held c' j e"
    by (auto simp: ps_check_def ps_held_def split: prod.splits elim: proofs_Consume_cases)
next
  fix c j e now i f b al c'
  assume inv: "ps_inv c" and held: "ps_held c j e" "now \<le> e" and ch: "ps_check c now i f = (b, al, c')"
  from ch obtain res where "proofs_Consume c i (f + 1) now = (c', res)"
    by (auto simp: ps_check_def split: prod.splits)
  from this inv show "ps_held c' j e"
  proof (cases rule: proofs_Consume_cases)
    case refused
    with held show ?thesis by (simp add: ps_held_def)
  next
    case consumed
    with held inv show ?thesis by (auto simp: ps_held_def lookup_filter ps_inv_def)
  qed
next
  fix c j e now f b al c'
  assume "ps_inv c" "ps_held c j e" "now \<le> e" "ps_check c now j f = (b, al, c')"
  then show "\<not> b"
    by (auto simp: ps_check_def ps_held_def proofs_Consume_def split: prod.splits)
qed

lemma ps_restart_inv [simp]: "ps_inv c \<Longrightarrow> ps_restart c = c"
  by (cases c) (simp add: ps_inv_def ps_restart_def)

lemma newConsumedProofs_inv:
  "newConsumedProofs cap FileMissing = Some c \<Longrightarrow> ps_inv c"
  by (auto simp: newConsumedProofs_def ps_inv_def Let_def split: if_splits)

subsection \<open>The gate\<close>

definition DefaultMaxProofTTLSeconds :: int where "DefaultMaxProofTTLSeconds = 300"

record QuorumStatement =
  qst_Action :: string
  qst_Resource :: string
  qst_PolicyID :: string
  qst_Epoch :: u64
  qst_Expiry :: string

record ClassWProof =
  wp_Statement :: QuorumStatement
  wp_Quorum :: string
  wp_Signatures :: "ControllerSignature list"

record w_codec =
  wc_proof :: "bytes \<Rightarrow> ClassWProof option"
  wc_statement :: "QuorumStatement \<Rightarrow> bytes option"
  wc_time :: "string \<Rightarrow> time option"

record QuorumGate =
  qg_cellID :: string
  qg_salt :: bytes
  qg_ctrls :: "(int, bytes) gomap"
  qg_k :: int
  qg_policy :: bytes
  qg_maxTTL :: int

definition NewQuorumGate :: "string \<Rightarrow> bytes \<Rightarrow> (int, bytes) gomap \<Rightarrow> int \<Rightarrow> bytes \<Rightarrow> int \<Rightarrow> QuorumGate option" where
  "NewQuorumGate cellID salt controllers k policyID maxProofTTL =
     (let maxTTL = (if maxProofTTL = 0 then DefaultMaxProofTTLSeconds else maxProofTTL)
      in if cellID = [] then None
         else if length salt < 16 then None
         else if length controllers = 0 then None
         else if k < 1 \<or> k > int (length controllers) then None
         else if maxTTL < 1 then None
         else if \<not> list_all (\<lambda>(i, pub). length pub = 32) controllers then None
         else Some \<lparr>qg_cellID = cellID, qg_salt = salt, qg_ctrls = controllers, qg_k = k, qg_policy = policyID,
                    qg_maxTTL = wrap64 (maxTTL * second)\<rparr>)"

datatype w_error =
    ErrQuorumProofRequired | ErrQuorumBinding | ErrQuorumProofExpired | ErrQuorumProofTTLLong | ErrQuorumInsufficient
  | ErrProofStoreFull | ErrQuorumProofStoreFail | ErrQuorumProofReplayed

datatype w_result = WRefused w_error string | WUntraced string | WLeaf reg_error

definition quorumRecord :: "nat \<Rightarrow> nat \<Rightarrow> int \<Rightarrow> string \<Rightarrow> u64 \<Rightarrow> string \<Rightarrow> bytes" where
  "quorumRecord verdict valid k action0 epoch reason0 =
     (let action = take 255 action0; reason = take 255 reason0
      in ''TBPQ1'' @ [byte verdict, byte valid, byte (nat (k mod 256))] @ be 8 (unat epoch) @
         [byte (length action)] @ action @ [byte (length reason)] @ reason)"

definition quorumLeaf ::
  "(bytes \<Rightarrow> bytes) \<Rightarrow> registry \<Rightarrow> QuorumGate \<Rightarrow> nat \<Rightarrow> nat \<Rightarrow> int \<Rightarrow> string \<Rightarrow> u64 \<Rightarrow> string \<Rightarrow> time
     \<Rightarrow> registry \<times> reg_error option" where
  "quorumLeaf sha r g verdict valid k action epoch reason lnow =
     (case AppendLeaf sha r KindQuorum (qg_cellID g) (qg_salt g) (quorumRecord verdict valid k action epoch reason) (unix_nano lnow) of
        (r', Inl e) \<Rightarrow> (r', Some e) | (r', Inr i) \<Rightarrow> (r', None))"

definition quorumRefuse ::
  "(bytes \<Rightarrow> bytes) \<Rightarrow> registry \<Rightarrow> ProofStore \<Rightarrow> QuorumGate \<Rightarrow> nat \<Rightarrow> int \<Rightarrow> string \<Rightarrow> u64 \<Rightarrow> string \<Rightarrow> w_error \<Rightarrow> time
     \<Rightarrow> registry \<times> ProofStore \<times> w_result option" where
  "quorumRefuse sha r s g valid k action epoch reason cause lnow =
     (case quorumLeaf sha r g 0 valid k action epoch reason lnow of
        (r', Some e) \<Rightarrow> (r', s, Some (WUntraced reason))
      | (r', None) \<Rightarrow> (r', s, Some (WRefused cause reason)))"

definition vote_reason :: "vote_fault \<Rightarrow> string" where
  "vote_reason f = (case f of DuplicateSigner \<Rightarrow> ''quorum-duplicate-signer'' | UnknownSigner \<Rightarrow> ''quorum-unknown-signer''
     | BadSignature \<Rightarrow> ''quorum-bad-signature'')"

definition proofID :: "(bytes \<Rightarrow> bytes) \<Rightarrow> w_codec \<Rightarrow> QuorumStatement \<Rightarrow> bytes option" where
  "proofID sha wc st = map_option sha (wc_statement wc st)"

definition VerifyClassW ::
  "(bytes \<Rightarrow> bytes) \<Rightarrow> (bytes \<Rightarrow> bytes \<Rightarrow> bytes \<Rightarrow> bool) \<Rightarrow> w_codec \<Rightarrow> QuorumGate \<Rightarrow> registry \<Rightarrow> ProofStore \<Rightarrow> bytes
     \<Rightarrow> string \<Rightarrow> string \<Rightarrow> u64 \<Rightarrow> time \<Rightarrow> time \<Rightarrow> registry \<times> ProofStore \<times> w_result option" where
  "VerifyClassW sha edv wc g r s proofJSON action resource epoch now lnow =
     (let refuse = (\<lambda>s' valid k reason cause. quorumRefuse sha r s' g valid k action epoch reason cause lnow)
      in if length proofJSON = 0 then refuse s 0 0 ''quorum-proof-required'' ErrQuorumProofRequired
         else case wc_proof wc proofJSON of None \<Rightarrow> refuse s 0 0 ''malformed-quorum-proof'' ErrQuorumProofRequired
         | Some proof \<Rightarrow>
           let st = wp_Statement proof
           in if qst_Action st \<noteq> action \<or> qst_Resource st \<noteq> resource \<or> qst_Epoch st \<noteq> epoch \<or>
                 qst_PolicyID st \<noteq> hex_encode (qg_policy g)
              then refuse s 0 0 ''quorum-binding-mismatch'' ErrQuorumBinding
              else case wc_time wc (qst_Expiry st) of None \<Rightarrow> refuse s 0 0 ''expiry-unparseable'' ErrQuorumProofExpired
              | Some expiry \<Rightarrow>
                if \<not> now < expiry then refuse s 0 0 ''quorum-proof-expired'' ErrQuorumProofExpired
                else if expiry > now + qg_maxTTL g then refuse s 0 0 ''quorum-proof-ttl-out-of-range'' ErrQuorumProofTTLLong
                else case wc_statement wc st of None \<Rightarrow> refuse s 0 0 ''statement-unserializable'' ErrQuorumInsufficient
                | Some canonical \<Rightarrow>
                  (case controller_votes edv (qg_ctrls g) canonical [] 0 (wp_Signatures proof) of
                     Inl (valid, f) \<Rightarrow> refuse s valid (qg_k g) (vote_reason f) ErrQuorumInsufficient
                   | Inr valid \<Rightarrow>
                     if int valid < qg_k g then refuse s valid (qg_k g) ''quorum-insufficient'' ErrQuorumInsufficient
                     else case proofID sha wc st of
                       None \<Rightarrow> refuse s valid (qg_k g) ''statement-unserializable'' ErrQuorumInsufficient
                     | Some i \<Rightarrow>
                       (case proofs_Consume s i (unix expiry) (unix now) of
                          (s', Inl StoreFull) \<Rightarrow> refuse s' valid (qg_k g) ''quorum-proof-store-full'' ErrProofStoreFull
                        | (s', Inl StoreFail) \<Rightarrow> refuse s' valid (qg_k g) ''quorum-proof-store-error'' ErrQuorumProofStoreFail
                        | (s', Inr False) \<Rightarrow> refuse s' valid (qg_k g) ''quorum-proof-replayed'' ErrQuorumProofReplayed
                        | (s', Inr True) \<Rightarrow>
                            (case quorumLeaf sha r g 1 valid (qg_k g) action epoch ''ok'' lnow of
                               (r', e) \<Rightarrow> (r', s', map_option WLeaf e)))))"

subsection \<open>Admission\<close>

text \<open>The proof passes every check that comes before its consumption.\<close>

definition w_valid ::
  "(bytes \<Rightarrow> bytes \<Rightarrow> bytes \<Rightarrow> bool) \<Rightarrow> w_codec \<Rightarrow> QuorumGate \<Rightarrow> bytes \<Rightarrow> string \<Rightarrow> string \<Rightarrow> u64 \<Rightarrow> time
     \<Rightarrow> ClassWProof \<Rightarrow> time \<Rightarrow> bytes \<Rightarrow> bool" where
  "w_valid edv wc g js action resource epoch now proof expiry canonical \<longleftrightarrow>
     js \<noteq> [] \<and> wc_proof wc js = Some proof \<and>
     qst_Action (wp_Statement proof) = action \<and> qst_Resource (wp_Statement proof) = resource \<and>
     qst_Epoch (wp_Statement proof) = epoch \<and> qst_PolicyID (wp_Statement proof) = hex_encode (qg_policy g) \<and>
     wc_time wc (qst_Expiry (wp_Statement proof)) = Some expiry \<and> now < expiry \<and> expiry \<le> now + qg_maxTTL g \<and>
     wc_statement wc (wp_Statement proof) = Some canonical \<and>
     list_all (vote_ok edv (qg_ctrls g) canonical) (wp_Signatures proof) \<and>
     distinct (map sg_KeyID (wp_Signatures proof)) \<and> qg_k g \<le> int (length (wp_Signatures proof))"

lemma quorumRefuse_refuses: "quorumRefuse sha r s g valid k a e reason cause lnow = (r', s', res) \<Longrightarrow> s' = s \<and> res \<noteq> None"
  by (auto simp: quorumRefuse_def split: prod.splits option.splits)

text \<open>A proof that fails a check leaves the register alone; a valid one is consumed before its leaf.\<close>

lemma VerifyClassW_invalid:
  assumes "VerifyClassW sha edv wc g r s js action resource epoch now lnow = (r', s', res)"
    and "\<nexists>proof expiry canonical. w_valid edv wc g js action resource epoch now proof expiry canonical"
  shows "s' = s \<and> res \<noteq> None"
proof (cases "\<exists>proof expiry canonical n. js \<noteq> [] \<and> wc_proof wc js = Some proof \<and>
     qst_Action (wp_Statement proof) = action \<and> qst_Resource (wp_Statement proof) = resource \<and>
     qst_Epoch (wp_Statement proof) = epoch \<and> qst_PolicyID (wp_Statement proof) = hex_encode (qg_policy g) \<and>
     wc_time wc (qst_Expiry (wp_Statement proof)) = Some expiry \<and> now < expiry \<and> expiry \<le> now + qg_maxTTL g \<and>
     wc_statement wc (wp_Statement proof) = Some canonical \<and>
     controller_votes edv (qg_ctrls g) canonical [] 0 (wp_Signatures proof) = Inr n \<and> qg_k g \<le> int n")
  case True
  with assms(2) show ?thesis by (auto simp: w_valid_def controller_votes_iff)
next
  case False
  with assms(1) show ?thesis
    unfolding VerifyClassW_def Let_def
    by (auto split: if_splits option.splits sum.splits dest!: quorumRefuse_refuses)
qed

lemma VerifyClassW_valid:
  assumes "w_valid edv wc g js action resource epoch now proof expiry canonical"
  shows "VerifyClassW sha edv wc g r s js action resource epoch now lnow =
    (let valid = length (wp_Signatures proof);
         refuse = (\<lambda>s' reason cause. quorumRefuse sha r s' g valid (qg_k g) action epoch reason cause lnow)
     in case proofs_Consume s (sha canonical) (unix expiry) (unix now) of
        (s', Inl StoreFull) \<Rightarrow> refuse s' ''quorum-proof-store-full'' ErrProofStoreFull
      | (s', Inl StoreFail) \<Rightarrow> refuse s' ''quorum-proof-store-error'' ErrQuorumProofStoreFail
      | (s', Inr False) \<Rightarrow> refuse s' ''quorum-proof-replayed'' ErrQuorumProofReplayed
      | (s', Inr True) \<Rightarrow>
          (case quorumLeaf sha r g 1 valid (qg_k g) action epoch ''ok'' lnow of (r', e) \<Rightarrow> (r', s', map_option WLeaf e)))"
proof -
  have "controller_votes edv (qg_ctrls g) canonical [] 0 (wp_Signatures proof) = Inr (length (wp_Signatures proof))"
    using assms by (simp add: controller_votes_iff w_valid_def)
  with assms show ?thesis by (simp add: VerifyClassW_def w_valid_def proofID_def Let_def)
qed

lemma VerifyClassW_store:
  assumes "VerifyClassW sha edv wc g r s js action resource epoch now lnow = (r', s', res)"
    and "w_valid edv wc g js action resource epoch now proof expiry canonical"
  shows "s' = fst (proofs_Consume s (sha canonical) (unix expiry) (unix now))"
    and "res = None \<longleftrightarrow> snd (proofs_Consume s (sha canonical) (unix expiry) (unix now)) = Inr True \<and>
      snd (quorumLeaf sha r g 1 (length (wp_Signatures proof)) (qg_k g) action epoch ''ok'' lnow) = None"
  using assms(1) VerifyClassW_valid [OF assms(2), of sha r s lnow]
  by (auto simp: Let_def split: prod.splits sum.splits store_error.splits bool.splits dest!: quorumRefuse_refuses)

text \<open>C11: class W is admitted exactly on a quorum.  An action of class W is admitted if and only if a
  proof is presented that decodes, designates exactly that action, resource, epoch and the cell's
  policy, has not expired and expires within the maximum lifetime, carries only valid signatures of
  pairwise distinct pinned controllers, at least k of them, has never been consumed, and whose
  admission leaf was written.\<close>

theorem classW_admitted_iff_quorum:
  assumes "VerifyClassW sha edv wc g r s js action resource epoch now lnow = (r', s', res)"
  shows "res = None \<longleftrightarrow>
    (\<exists>proof expiry canonical. js \<noteq> [] \<and> wc_proof wc js = Some proof \<and>
       qst_Action (wp_Statement proof) = action \<and> qst_Resource (wp_Statement proof) = resource \<and>
       qst_Epoch (wp_Statement proof) = epoch \<and> hex_decode (qst_PolicyID (wp_Statement proof)) = Some (qg_policy g) \<and>
       qst_PolicyID (wp_Statement proof) = hex_encode (qg_policy g) \<and>
       wc_time wc (qst_Expiry (wp_Statement proof)) = Some expiry \<and> now < expiry \<and> expiry \<le> now + qg_maxTTL g \<and>
       wc_statement wc (wp_Statement proof) = Some canonical \<and>
       list_all (vote_ok edv (qg_ctrls g) canonical) (wp_Signatures proof) \<and>
       distinct (map sg_KeyID (wp_Signatures proof)) \<and> qg_k g \<le> int (card (sg_KeyID ` set (wp_Signatures proof))) \<and>
       snd (proofs_Consume s (sha canonical) (unix expiry) (unix now)) = Inr True \<and>
       snd (quorumLeaf sha r g 1 (length (wp_Signatures proof)) (qg_k g) action epoch ''ok'' lnow) = None)"
    (is "_ \<longleftrightarrow> ?ok")
proof (cases "\<exists>proof expiry canonical. w_valid edv wc g js action resource epoch now proof expiry canonical")
  case True
  then obtain pf expiry canonical where v: "w_valid edv wc g js action resource epoch now pf expiry canonical" by blast
  note store = VerifyClassW_store(2) [OF assms v]
  show ?thesis
  proof
    assume "res = None"
    with store v show ?ok by (intro exI [of _ pf] exI [of _ expiry] exI [of _ canonical]) (simp add: w_valid_def votes_card)
  next
    assume ?ok
    with store v show "res = None" by (auto simp: w_valid_def)
  qed
next
  case False
  have "\<not> ?ok" using False by (force simp: w_valid_def votes_card)
  with VerifyClassW_invalid [OF assms False] show ?thesis by blast
qed

subsection \<open>One proof, one admission\<close>

record w_request =
  wr_json :: bytes
  wr_action :: string
  wr_resource :: string
  wr_epoch :: u64
  wr_now :: time
  wr_leaf :: time

text \<open>A run of the gate, with restarts of the cell; it collects, for each request, whether it was
  admitted.\<close>

datatype w_op = WVerify w_request | WRestart

definition w_exec ::
  "(bytes \<Rightarrow> bytes) \<Rightarrow> (bytes \<Rightarrow> bytes \<Rightarrow> bytes \<Rightarrow> bool) \<Rightarrow> w_codec \<Rightarrow> QuorumGate \<Rightarrow> registry \<times> ProofStore \<Rightarrow> w_op
     \<Rightarrow> bool \<times> registry \<times> ProofStore" where
  "w_exec sha edv wc g rs op =
     (case op of WRestart \<Rightarrow> (False, fst rs, ps_restart (snd rs))
      | WVerify q \<Rightarrow>
        (case VerifyClassW sha edv wc g (fst rs) (snd rs) (wr_json q) (wr_action q) (wr_resource q) (wr_epoch q) (wr_now q) (wr_leaf q) of
           (r', s', res) \<Rightarrow> (res = None, r', s')))"

primrec w_run ::
  "(bytes \<Rightarrow> bytes) \<Rightarrow> (bytes \<Rightarrow> bytes \<Rightarrow> bytes \<Rightarrow> bool) \<Rightarrow> w_codec \<Rightarrow> QuorumGate \<Rightarrow> registry \<times> ProofStore \<Rightarrow> w_op list
     \<Rightarrow> bool list \<times> registry \<times> ProofStore" where
  "w_run sha edv wc g rs [] = ([], rs)"
| "w_run sha edv wc g rs (op # ops) =
     (let (b, rs1) = w_exec sha edv wc g rs op; (bs, rs2) = w_run sha edv wc g rs1 ops in (b # bs, rs2))"

fun op_instants :: "w_op list \<Rightarrow> time list" where
  "op_instants [] = []"
| "op_instants (WVerify q # ops) = wr_now q # op_instants ops"
| "op_instants (WRestart # ops) = op_instants ops"

definition presents :: "w_codec \<Rightarrow> QuorumStatement \<Rightarrow> w_op \<Rightarrow> bool" where
  "presents wc st op \<longleftrightarrow> (\<exists>q proof. op = WVerify q \<and> wc_proof wc (wr_json q) = Some proof \<and> wp_Statement proof = st)"

lemma VerifyClassW_inv:
  assumes "VerifyClassW sha edv wc g r s js a re ep now lnow = (r', s', res)" and "ps_inv s"
  shows "ps_inv s'"
proof (cases "\<exists>proof expiry canonical. w_valid edv wc g js a re ep now proof expiry canonical")
  case True
  with VerifyClassW_store(1) [OF assms(1)] assms(2) show ?thesis
    by (metis proofs_Consume_cases prod.collapse)
next
  case False
  with VerifyClassW_invalid [OF assms(1)] assms(2) show ?thesis by blast
qed

lemma w_exec_inv: "ps_inv s \<Longrightarrow> w_exec sha edv wc g (r, s) op = (b, r', s') \<Longrightarrow> ps_inv s'"
  by (auto simp: w_exec_def split: w_op.splits prod.splits dest: VerifyClassW_inv)

text \<open>As long as its expiry has not passed, a held identity survives a request and is refused by it.\<close>

lemma VerifyClassW_held:
  assumes run: "VerifyClassW sha edv wc g r s js a re ep now lnow = (r', s', res)"
    and inv: "ps_inv s" "ps_held s i e" and early: "unix now \<le> e"
  shows "ps_held s' i e"
    and "wc_proof wc js = Some proof \<Longrightarrow> wc_statement wc (wp_Statement proof) = Some canonical \<Longrightarrow> sha canonical = i \<Longrightarrow> res \<noteq> None"
proof -
  have "ps_held s' i e \<and> (wc_proof wc js = Some proof \<and> wc_statement wc (wp_Statement proof) = Some canonical \<and> sha canonical = i \<longrightarrow> res \<noteq> None)"
  proof (cases "\<exists>p x c. w_valid edv wc g js a re ep now p x c")
    case True
    then obtain p x c where v: "w_valid edv wc g js a re ep now p x c" by blast
    have chk: "ps_check s (unix now) (sha c) (unix x - 1) =
        (snd (proofs_Consume s (sha c) (unix x) (unix now)) = Inr True, [], s')"
      using VerifyClassW_store(1) [OF run v] by (simp add: ps_check_def split: prod.splits)
    show ?thesis
      using proofs.held_kept [OF inv early chk] proofs.held_refused [OF inv early, of "unix x - 1"] chk
        VerifyClassW_store(2) [OF run v] v by (auto simp: w_valid_def)
  next
    case False
    with VerifyClassW_invalid [OF run] inv show ?thesis by blast
  qed
  then show "ps_held s' i e"
    "wc_proof wc js = Some proof \<Longrightarrow> wc_statement wc (wp_Statement proof) = Some canonical \<Longrightarrow> sha canonical = i \<Longrightarrow> res \<noteq> None"
    by auto
qed

lemma admitted_held:
  assumes "VerifyClassW sha edv wc g r s js a re ep now lnow = (r', s', None)" and "ps_inv s"
    and "wc_proof wc js = Some proof"
  obtains expiry canonical where "wc_time wc (qst_Expiry (wp_Statement proof)) = Some expiry"
    "wc_statement wc (wp_Statement proof) = Some canonical" "ps_held s' (sha canonical) (unix expiry - 1)" "now < expiry"
proof -
  obtain p x c where v: "w_valid edv wc g js a re ep now p x c"
    using VerifyClassW_invalid [OF assms(1)] by blast
  have "ps_check s (unix now) (sha c) (unix x - 1) = (True, [], s')"
    using VerifyClassW_store [OF assms(1) v] by (simp add: ps_check_def case_prod_beta)
  from proofs.accepted_held [OF assms(2) this] v assms(3) that show ?thesis by (auto simp: w_valid_def)
qed

lemma held_run:
  assumes "ps_inv s" and "ps_held s (sha canonical) (unix expiry - 1) \<or> expiry \<le> latest"
    and "sorted (latest # op_instants ops)" and "expiry mod second = 0"
    and "wc_time wc (qst_Expiry st) = Some expiry" and "wc_statement wc st = Some canonical"
  shows "list_all2 (\<lambda>op b. presents wc st op \<longrightarrow> \<not> b) ops (fst (w_run sha edv wc g (r, s) ops))"
  using assms(1-3)
proof (induction ops arbitrary: r s latest)
  case Nil
  then show ?case by simp
next
  case (Cons op ops)
  obtain b r1 s1 where ex: "w_exec sha edv wc g (r, s) op = (b, r1, s1)" by (metis prod_cases3)
  have inv1: "ps_inv s1" by (rule w_exec_inv [OF Cons.prems(1) ex])
  have step: "(presents wc st op \<longrightarrow> \<not> b) \<and>
      (\<exists>latest'. sorted (latest' # op_instants ops) \<and> (ps_held s1 (sha canonical) (unix expiry - 1) \<or> expiry \<le> latest'))"
  proof (cases op)
    case WRestart
    with ex Cons.prems show ?thesis by (auto simp: w_exec_def presents_def)
  next
    case (WVerify q)
    obtain res where v: "VerifyClassW sha edv wc g r s (wr_json q) (wr_action q) (wr_resource q) (wr_epoch q) (wr_now q) (wr_leaf q)
        = (r1, s1, res)" and b: "b = (res = None)"
      using ex WVerify by (auto simp: w_exec_def split: prod.splits)
    have times: "latest \<le> wr_now q" "sorted (wr_now q # op_instants ops)" using Cons.prems(3) WVerify by auto
    show ?thesis
    proof (cases "wr_now q < expiry")
      case True
      then have held: "ps_held s (sha canonical) (unix expiry - 1)" using Cons.prems(2) times(1) by auto
      have early: "unix (wr_now q) \<le> unix expiry - 1"
        using unix_before [OF True assms(4)] by simp
      have "presents wc st op \<longrightarrow> \<not> b"
        using VerifyClassW_held(2) [OF v Cons.prems(1) held early _ _ refl] assms(6) WVerify b by (auto simp: presents_def)
      with VerifyClassW_held(1) [OF v Cons.prems(1) held early] times(2) show ?thesis by blast
    next
      case False
      have "res \<noteq> None" if "presents wc st op"
      proof
        assume "res = None"
        with v have v': "VerifyClassW sha edv wc g r s (wr_json q) (wr_action q) (wr_resource q) (wr_epoch q) (wr_now q) (wr_leaf q)
            = (r1, s1, None)" by simp
        from that WVerify obtain pf where "wc_proof wc (wr_json q) = Some pf" "wp_Statement pf = st" by (auto simp: presents_def)
        from admitted_held [OF v' Cons.prems(1) this(1)] this(2) assms(5) False show False by (metis option.inject)
      qed
      with False times(2) b show ?thesis by auto
    qed
  qed
  then obtain latest' where "sorted (latest' # op_instants ops)"
      "ps_held s1 (sha canonical) (unix expiry - 1) \<or> expiry \<le> latest'" by blast
  from Cons.IH [OF inv1 this(2,1)] step ex show ?case by (simp add: case_prod_beta)
qed


subsection \<open>Concrete proofs\<close>

text \<open>A decoder for examples: a proof is named by its action, and the proof of the action w expires
  at 200, the others at 100.9.\<close>

definition expiry_ex :: "string \<Rightarrow> time" where
  "expiry_ex s = (if s = ''w'' then of_unix 200 else 100900000000)"

definition wproof_ex :: "string \<Rightarrow> ClassWProof" where
  "wproof_ex js = \<lparr>wp_Statement = \<lparr>qst_Action = js, qst_Resource = ''db'', qst_PolicyID = hex_encode (zeros 32), qst_Epoch = 1,
     qst_Expiry = js\<rparr>, wp_Quorum = ''1-of-1'', wp_Signatures = [vote_ex]\<rparr>"

definition wc_ex :: w_codec where
  "wc_ex = \<lparr>wc_proof = (\<lambda>js. Some (wproof_ex js)), wc_statement = (\<lambda>st. Some (qst_Action st)), wc_time = (\<lambda>s. Some (expiry_ex s))\<rparr>"

definition gate_ex :: QuorumGate where
  "gate_ex = \<lparr>qg_cellID = ''cell-a'', qg_salt = zeros 16, qg_ctrls = [(1, zeros 32)], qg_k = 1, qg_policy = zeros 32,
     qg_maxTTL = 300 * second\<rparr>"

definition wlog_ex :: "leaf list \<Rightarrow> registry" where
  "wlog_ex ls = \<lparr>rg_log = ls, rg_journal = None, rg_engaged = False, rg_clock = 1, rg_env = []\<rparr>"

definition wstore_ex :: "(bytes, int) gomap \<Rightarrow> ProofStore" where
  "wstore_ex m = \<lparr>ps_entries = m, ps_capacity = 4096, ps_file = Some m, ps_env = []\<rparr>"

definition ask_ex :: "string \<Rightarrow> time \<Rightarrow> w_op" where
  "ask_ex js now = WVerify \<lparr>wr_json = js, wr_action = js, wr_resource = ''db'', wr_epoch = 1, wr_now = now, wr_leaf = now\<rparr>"

lemma wstore_ex_new: "newConsumedProofs 0 FileMissing = Some (wstore_ex [])"
  by (simp add: newConsumedProofs_def wstore_ex_def DefaultProofStoreCapacity_def)

lemma w_valid_ex:
  assumes "js \<noteq> []" and "0 < now" and "now < expiry_ex js"
  shows "w_valid (\<lambda>p m s. True) wc_ex gate_ex js js ''db'' 1 now (wproof_ex js) (expiry_ex js) js"
  using assms by (auto simp: w_valid_def wc_ex_def wproof_ex_def gate_ex_def expiry_ex_def vote_ex_ok of_unix_def second_def split: if_splits)

lemma quorumLeaf_ex:
  assumes "0 < now" and "now < 2 ^ 62"
  obtains ls' where "quorumLeaf (\<lambda>b. b) (wlog_ex ls) gate_ex v n k a e why now = (wlog_ex ls', None)"
proof -
  have "unix_nano now \<noteq> 0" using assms by (simp add: unix_nano_def int64_def)
  then have "\<exists>ls'. quorumLeaf (\<lambda>b. b) (wlog_ex ls) gate_ex v n k a e why now = (wlog_ex ls', None)"
    by (simp add: quorumLeaf_def AppendLeaf_plain plain_def wlog_ex_def gate_ex_def known_kind_def)
  with that show thesis by blast
qed

lemma ask_ex_exec:
  assumes "js \<noteq> []" and "0 < now" and "now < expiry_ex js"
    and "proofs_Consume (wstore_ex m) js (unix (expiry_ex js)) (unix now) = (wstore_ex m', Inr True)"
  obtains ls' where "w_exec (\<lambda>b. b) (\<lambda>p m s. True) wc_ex gate_ex (wlog_ex ls, wstore_ex m) (ask_ex js now) = (True, wlog_ex ls', wstore_ex m')"
    "VerifyClassW (\<lambda>b. b) (\<lambda>p m s. True) wc_ex gate_ex (wlog_ex ls) (wstore_ex m) js js ''db'' 1 now now = (wlog_ex ls', wstore_ex m', None)"
proof -
  have "now < 2 ^ 62" using assms(3) by (auto simp: expiry_ex_def of_unix_def second_def split: if_splits)
  then obtain ls' where "quorumLeaf (\<lambda>b. b) (wlog_ex ls) gate_ex 1 (length (wp_Signatures (wproof_ex js))) (qg_k gate_ex) js 1 ''ok'' now
      = (wlog_ex ls', None)" using quorumLeaf_ex [OF assms(2)] by metis
  with VerifyClassW_valid [OF w_valid_ex [OF assms(1-3)], of "\<lambda>b. b" "wlog_ex ls" "wstore_ex m" now] assms(4)
  have "VerifyClassW (\<lambda>b. b) (\<lambda>p m s. True) wc_ex gate_ex (wlog_ex ls) (wstore_ex m) js js ''db'' 1 now now = (wlog_ex ls', wstore_ex m', None)"
    by (simp add: Let_def)
  with that show thesis by (simp add: w_exec_def ask_ex_def)
qed

lemma consume_proof_ex:
  "proofs_Consume (wstore_ex []) ''x'' 100 100 = (wstore_ex [(''x'', 100)], Inr True)"
  "proofs_Consume (wstore_ex [(''x'', 100)]) ''y'' 100 100 = (wstore_ex [(''y'', 100)], Inr True)"
  "proofs_Consume (wstore_ex [(''y'', 100)]) ''x'' 100 100 = (wstore_ex [(''x'', 100)], Inr True)"
  "proofs_Consume (wstore_ex []) ''w'' 200 50 = (wstore_ex [(''w'', 200)], Inr True)"
  by (simp_all add: proofs_Consume_def persist_def wstore_ex_def put_def Let_def)


definition first_w_ex :: "registry \<times> ProofStore \<times> w_result option" where
  "first_w_ex = VerifyClassW (\<lambda>b. b) (\<lambda>p m s. True) wc_ex gate_ex (wlog_ex []) (wstore_ex []) ''w'' ''w'' ''db'' 1 (of_unix 50) (of_unix 50)"

lemma first_w_ex_admitted: "snd (snd first_w_ex) = None"
proof -
  have u: "unix (expiry_ex ''w'') = 200" "0 < of_unix 50" "of_unix 50 < expiry_ex ''w''"
    by (simp_all add: expiry_ex_def) (simp_all add: of_unix_def second_def)
  have "proofs_Consume (wstore_ex []) ''w'' (unix (expiry_ex ''w'')) (unix (of_unix 50)) = (wstore_ex [(''w'', 200)], Inr True)"
    using u(1) consume_proof_ex(4) by simp
  from ask_ex_exec [OF _ u(2,3) this, of "[]"] show ?thesis
    by (metis first_w_ex_def list.distinct(1) snd_conv)
qed

lemma first_w_ex_eq:
  "VerifyClassW (\<lambda>b. b) (\<lambda>p m s. True) wc_ex gate_ex (wlog_ex []) (wstore_ex []) ''w'' ''w'' ''db'' 1 (of_unix 50) (of_unix 50) =
   (fst first_w_ex, fst (snd first_w_ex), None)"
  using first_w_ex_admitted by (metis first_w_ex_def prod.collapse)


theorem classW_admitted_iff_quorum_witness:
  "\<exists>proof expiry canonical. wc_proof wc_ex ''w'' = Some proof \<and> wc_time wc_ex (qst_Expiry (wp_Statement proof)) = Some expiry \<and>
     of_unix 50 < expiry \<and> wc_statement wc_ex (wp_Statement proof) = Some canonical \<and>
     qg_k gate_ex \<le> int (card (sg_KeyID ` set (wp_Signatures proof)))"
  using classW_admitted_iff_quorum [OF first_w_ex_eq] by blast

end
