(* ===== verification/Cluster_Promotion.thy ===== *)
theory Cluster_Promotion
  imports Cluster_Votes
begin

text \<open>
  Promotion of a mirror or canary cell (\<open>src/src/cluster/promotion.go\<close>) on the anchors of the
  master (\<open>anchors.go\<close>): a candidate is promoted on its signed receipt of the bundle anchored for
  the epoch, inside the healthy window anchored for the epoch.  The anchors are a file signed by a
  quorum of the controllers of the genesis, read and verified again at each of the two lookups;
  what each lookup finds in the file is an argument.

  The controller relies on the interface \<open>MasterAnchorSource\<close>, here the locale \<open>anchor_source\<close>,
  which the file source interprets.  JSON, the strict decoding of it and RFC 3339 are the functions
  of the record \<open>p_codec\<close>.
\<close>

subsection \<open>Anchors\<close>

definition anchorsKind :: string where "anchorsKind = ''tbp-anchors-v1''"
definition MaxAnchorFileBytes :: nat where "MaxAnchorFileBytes = 262144"
definition MaxAnchorEntries :: nat where "MaxAnchorEntries = 1024"
definition MaxAnchorWindow :: int where "MaxAnchorWindow = 7 * 24 * 3600 * second"

record AnchorEntry =
  an_Epoch :: u64
  an_BundleHash :: string
  an_WindowStart :: string
  an_WindowEnd :: string

record AnchorPayload =
  ap_Kind :: string
  ap_Anchors :: "AnchorEntry list"

record AnchorFile =
  af_Payload :: AnchorPayload
  af_Signatures :: "ControllerSignature list"
  af_Warning :: string

record Receipt =
  rc_CellID :: string
  rc_Epoch :: u64
  rc_BundleHash :: string
  rc_ReceivedAt :: string

record SignedReceipt =
  sr_Receipt :: Receipt
  sr_Sig :: string

record p_codec =
  pc_anchors :: "bytes \<Rightarrow> AnchorFile option"
  pc_payload :: "AnchorPayload \<Rightarrow> bytes option"
  pc_receipt :: "bytes \<Rightarrow> SignedReceipt option"
  pc_canonical :: "Receipt \<Rightarrow> bytes option"
  pc_time :: "string \<Rightarrow> time option"

record FileAnchorSource =
  fs_controllers :: "(int, bytes) gomap"
  fs_quorum :: int

definition NewFileAnchorSource :: "string \<Rightarrow> (int, bytes) gomap \<Rightarrow> int \<Rightarrow> FileAnchorSource option" where
  "NewFileAnchorSource path controllers quorum =
     (if path = [] then None
      else if length controllers = 0 then None
      else if quorum < 1 \<or> quorum > int (length controllers) then None
      else Some \<lparr>fs_controllers = controllers, fs_quorum = quorum\<rparr>)"

definition anchor_ok :: "p_codec \<Rightarrow> AnchorEntry \<Rightarrow> bool" where
  "anchor_ok pc e \<longleftrightarrow>
     (case hex_decode (an_BundleHash e) of None \<Rightarrow> False | Some raw \<Rightarrow> length raw = 32) \<and>
     (case (pc_time pc (an_WindowStart e), pc_time pc (an_WindowEnd e)) of
        (Some start, Some end') \<Rightarrow> end' > start \<and> \<not> time_sub end' start > MaxAnchorWindow
      | _ \<Rightarrow> False)"

text \<open>The loop over the entries stops at the first epoch seen twice or the first bad entry.\<close>

fun collect_anchors :: "p_codec \<Rightarrow> (u64, AnchorEntry) gomap \<Rightarrow> AnchorEntry list \<Rightarrow> (u64, AnchorEntry) gomap option" where
  "collect_anchors pc out [] = Some out"
| "collect_anchors pc out (e # es) =
     (if map_of out (an_Epoch e) \<noteq> None then None
      else if \<not> anchor_ok pc e then None
      else collect_anchors pc (put (an_Epoch e) e out) es)"

definition parseAnchors ::
  "(bytes \<Rightarrow> bytes \<Rightarrow> bytes \<Rightarrow> bool) \<Rightarrow> p_codec \<Rightarrow> bytes \<Rightarrow> (int, bytes) gomap \<Rightarrow> int \<Rightarrow> (u64, AnchorEntry) gomap option" where
  "parseAnchors edv pc data ctrls quorum =
     (case pc_anchors pc data of None \<Rightarrow> None
      | Some af \<Rightarrow>
        if ap_Kind (af_Payload af) \<noteq> anchorsKind then None
        else case pc_payload pc (af_Payload af) of None \<Rightarrow> None
        | Some canonical \<Rightarrow>
          (case controller_votes edv ctrls canonical [] 0 (af_Signatures af) of Inl _ \<Rightarrow> None
           | Inr valid \<Rightarrow>
               if int valid < quorum then None
               else if length (ap_Anchors (af_Payload af)) = 0 \<or> length (ap_Anchors (af_Payload af)) > MaxAnchorEntries then None
               else collect_anchors pc [] (ap_Anchors (af_Payload af))))"

text \<open>\<open>None\<close> stands for a file that cannot be opened or read.\<close>

definition fs_Verify ::
  "(bytes \<Rightarrow> bytes \<Rightarrow> bytes \<Rightarrow> bool) \<Rightarrow> p_codec \<Rightarrow> FileAnchorSource \<Rightarrow> bytes option \<Rightarrow> (u64, AnchorEntry) gomap option" where
  "fs_Verify edv pc s file =
     (case file of None \<Rightarrow> None
      | Some buf \<Rightarrow> if length buf > MaxAnchorFileBytes then None else parseAnchors edv pc buf (fs_controllers s) (fs_quorum s))"

definition BundleAnchor ::
  "(bytes \<Rightarrow> bytes \<Rightarrow> bytes \<Rightarrow> bool) \<Rightarrow> p_codec \<Rightarrow> FileAnchorSource \<Rightarrow> bytes option \<Rightarrow> u64 \<Rightarrow> bytes option" where
  "BundleAnchor edv pc s file epoch =
     (case fs_Verify edv pc s file of None \<Rightarrow> None
      | Some m \<Rightarrow> (case map_of m epoch of None \<Rightarrow> None | Some e \<Rightarrow> hex_decode (an_BundleHash e)))"

definition HealthyWindow ::
  "(bytes \<Rightarrow> bytes \<Rightarrow> bytes \<Rightarrow> bool) \<Rightarrow> p_codec \<Rightarrow> FileAnchorSource \<Rightarrow> bytes option \<Rightarrow> u64 \<Rightarrow> (time \<times> time) option" where
  "HealthyWindow edv pc s file epoch =
     (case fs_Verify edv pc s file of None \<Rightarrow> None
      | Some m \<Rightarrow> (case map_of m epoch of None \<Rightarrow> None
         | Some e \<Rightarrow> Some (the (pc_time pc (an_WindowStart e)), the (pc_time pc (an_WindowEnd e)))))"

subsection \<open>Promotion\<close>

record PromotionController =
  pr_cellID :: string
  pr_salt :: bytes
  pr_keys :: "(string, bytes) gomap"

definition NewPromotionController :: "string \<Rightarrow> bytes \<Rightarrow> (string, bytes) gomap \<Rightarrow> PromotionController option" where
  "NewPromotionController cellID salt cellKeys =
     (if cellID = [] then None
      else if length salt < 16 then None
      else if length cellKeys = 0 then None
      else if \<not> list_all (\<lambda>(i, pub). i \<noteq> [] \<and> length pub = 32) cellKeys then None
      else Some \<lparr>pr_cellID = cellID, pr_salt = salt, pr_keys = cellKeys\<rparr>)"

datatype promotion_error =
    ErrPromotionAnchorUnavailable | ErrPromotionBundleMismatch | ErrPromotionWindowUnavailable | ErrPromotionWindowExpired
  | ErrPromotionBadReceipt string | ErrPromotionUnknownCell | PromotionUntraced string | PromotionLeaf reg_error

definition promotionRecord :: "nat \<Rightarrow> string \<Rightarrow> u64 \<Rightarrow> bytes \<Rightarrow> string \<Rightarrow> bytes" where
  "promotionRecord verdict cell0 epoch bundle reason0 =
     (let cell = take 255 cell0; reason = take 255 reason0
      in ''TBPP1'' @ [byte verdict, byte (length cell)] @ cell @ be 8 (unat epoch) @ bundle @ [byte (length reason)] @ reason)"

definition promotionLeaf ::
  "(bytes \<Rightarrow> bytes) \<Rightarrow> registry \<Rightarrow> PromotionController \<Rightarrow> nat \<Rightarrow> string \<Rightarrow> u64 \<Rightarrow> bytes \<Rightarrow> string \<Rightarrow> time
     \<Rightarrow> registry \<times> reg_error option" where
  "promotionLeaf sha r c verdict cell epoch bundle reason lnow =
     (case AppendLeaf sha r KindPromotion (pr_cellID c) (pr_salt c) (promotionRecord verdict cell epoch bundle reason) (unix_nano lnow) of
        (r', Inl e) \<Rightarrow> (r', Some e) | (r', Inr i) \<Rightarrow> (r', None))"

definition promotion_cause :: "string \<Rightarrow> promotion_error" where
  "promotion_cause reason =
     (if reason = ''promotion-anchor-unavailable'' then ErrPromotionAnchorUnavailable
      else if reason = ''bundle-mismatch'' then ErrPromotionBundleMismatch
      else if reason = ''window-unavailable'' then ErrPromotionWindowUnavailable
      else if reason = ''window-expired'' then ErrPromotionWindowExpired
      else if reason = ''unknown-candidate-cell'' then ErrPromotionUnknownCell
      else ErrPromotionBadReceipt reason)"

definition promotionRefuse ::
  "(bytes \<Rightarrow> bytes) \<Rightarrow> registry \<Rightarrow> PromotionController \<Rightarrow> string \<Rightarrow> u64 \<Rightarrow> bytes \<Rightarrow> string \<Rightarrow> time \<Rightarrow> registry \<times> promotion_error option" where
  "promotionRefuse sha r c cell epoch bundle reason lnow =
     (case promotionLeaf sha r c 0 cell epoch bundle reason lnow of
        (r', Some e) \<Rightarrow> (r', Some (PromotionUntraced reason))
      | (r', None) \<Rightarrow> (r', Some (promotion_cause reason)))"

definition Promote ::
  "(bytes \<Rightarrow> bytes) \<Rightarrow> (bytes \<Rightarrow> bytes \<Rightarrow> bytes \<Rightarrow> bool) \<Rightarrow> p_codec \<Rightarrow> PromotionController
     \<Rightarrow> (u64 \<Rightarrow> bytes option) \<Rightarrow> (u64 \<Rightarrow> (time \<times> time) option) \<Rightarrow> registry \<Rightarrow> bytes \<Rightarrow> time \<Rightarrow> time
     \<Rightarrow> registry \<times> promotion_error option" where
  "Promote sha edv pc c bundleAnchor healthyWindow r receiptJSON now lnow =
     (case pc_receipt pc receiptJSON of None \<Rightarrow> promotionRefuse sha r c [] 0 (zeros 32) ''malformed-receipt'' lnow
      | Some sr \<Rightarrow>
        let rc = sr_Receipt sr;
            refuse = (\<lambda>bundle reason. promotionRefuse sha r c (rc_CellID rc) (rc_Epoch rc) bundle reason lnow)
        in if rc_CellID rc = [] \<or> length (rc_CellID rc) > 255 then refuse (zeros 32) ''schema-violation''
           else case map_of (pr_keys c) (rc_CellID rc) of None \<Rightarrow> refuse (zeros 32) ''unknown-candidate-cell''
           | Some pub \<Rightarrow>
             (case pc_canonical pc rc of None \<Rightarrow> refuse (zeros 32) ''receipt-unserializable''
              | Some canonical \<Rightarrow>
                if (case hex_decode (sr_Sig sr) of None \<Rightarrow> True | Some sig \<Rightarrow> length sig \<noteq> SignatureSize \<or> \<not> edv pub canonical sig)
                then refuse (zeros 32) ''bad-receipt-signature''
                else if (case hex_decode (rc_BundleHash rc) of None \<Rightarrow> True | Some raw \<Rightarrow> length raw \<noteq> 32)
                then refuse (zeros 32) ''bundle-hash-malformed''
                else let bundle = the (hex_decode (rc_BundleHash rc))
                  in if pc_time pc (rc_ReceivedAt rc) = None then refuse bundle ''received-at-unparseable''
                     else case bundleAnchor (rc_Epoch rc) of None \<Rightarrow> refuse bundle ''promotion-anchor-unavailable''
                     | Some anchored \<Rightarrow>
                       if bundle \<noteq> anchored then refuse bundle ''bundle-mismatch''
                       else case healthyWindow (rc_Epoch rc) of None \<Rightarrow> refuse bundle ''window-unavailable''
                       | Some (start, end') \<Rightarrow>
                         if now < start \<or> \<not> now < end' then refuse bundle ''window-expired''
                         else (case promotionLeaf sha r c 1 (rc_CellID rc) (rc_Epoch rc) bundle ''ok'' lnow of
                                 (r', e) \<Rightarrow> (r', map_option PromotionLeaf e))))"

subsection \<open>What the controller relies on\<close>

text \<open>An anchor source answers from entries signed by the master: a bundle hash of 32 octets, and a
  window that is not empty and not longer than a week.\<close>

locale anchor_source =
  fixes anchored :: "'s \<Rightarrow> u64 \<Rightarrow> bytes option"
    and window :: "'s \<Rightarrow> u64 \<Rightarrow> (time \<times> time) option"
    and signed :: "'s \<Rightarrow> AnchorEntry \<Rightarrow> bool"
    and pc :: p_codec
  assumes bundle_signed: "anchored s e = Some b \<Longrightarrow>
      \<exists>x. signed s x \<and> an_Epoch x = e \<and> hex_decode (an_BundleHash x) = Some b \<and> length b = 32"
    and window_signed: "window s e = Some (a, z) \<Longrightarrow>
      \<exists>x. signed s x \<and> an_Epoch x = e \<and> pc_time pc (an_WindowStart x) = Some a \<and> pc_time pc (an_WindowEnd x) = Some z \<and>
        a < z \<and> z - a \<le> MaxAnchorWindow"
begin

text \<open>A promotion is backed by the candidate's signature and by two signed entries for its epoch.\<close>

lemma promoted:
  assumes "Promote sha edv pc c (anchored s) (window s') r js now lnow = (r', None)"
  shows "\<exists>sr pub canonical sig x y a z. pc_receipt pc js = Some sr \<and>
    map_of (pr_keys c) (rc_CellID (sr_Receipt sr)) = Some pub \<and> pc_canonical pc (sr_Receipt sr) = Some canonical \<and>
    hex_decode (sr_Sig sr) = Some sig \<and> length sig = SignatureSize \<and> edv pub canonical sig \<and>
    signed s x \<and> an_Epoch x = rc_Epoch (sr_Receipt sr) \<and>
    hex_decode (an_BundleHash x) = hex_decode (rc_BundleHash (sr_Receipt sr)) \<and>
    signed s' y \<and> an_Epoch y = rc_Epoch (sr_Receipt sr) \<and>
    pc_time pc (an_WindowStart y) = Some a \<and> pc_time pc (an_WindowEnd y) = Some z \<and>
    a \<le> now \<and> now < z \<and> z \<le> a + MaxAnchorWindow"
proof -
  from assms obtain sr where sr: "pc_receipt pc js = Some sr"
    by (auto simp: Promote_def promotionRefuse_def split: option.splits prod.splits)
  let ?rc = "sr_Receipt sr"
  from assms sr obtain pub canonical sig raw b a z where p: "map_of (pr_keys c) (rc_CellID ?rc) = Some pub"
      "pc_canonical pc ?rc = Some canonical" "hex_decode (sr_Sig sr) = Some sig" "length sig = SignatureSize"
      "edv pub canonical sig" "hex_decode (rc_BundleHash ?rc) = Some raw"
      "anchored s (rc_Epoch ?rc) = Some b" "raw = b" "window s' (rc_Epoch ?rc) = Some (a, z)" "a \<le> now" "now < z"
    by (auto simp: Promote_def promotionRefuse_def Let_def split: option.splits if_splits prod.splits)
  from bundle_signed [OF p(7)] obtain x where "signed s x" "an_Epoch x = rc_Epoch ?rc" "hex_decode (an_BundleHash x) = Some b" by blast
  moreover from window_signed [OF p(9)] obtain y where "signed s' y" "an_Epoch y = rc_Epoch ?rc"
      "pc_time pc (an_WindowStart y) = Some a" "pc_time pc (an_WindowEnd y) = Some z" "z - a \<le> MaxAnchorWindow" by blast
  ultimately show ?thesis using sr p
    by (intro exI [of _ sr] exI [of _ pub] exI [of _ canonical] exI [of _ sig] exI [of _ x] exI [of _ y] exI [of _ a] exI [of _ z]) simp
qed

end

text \<open>An entry of a file that enough distinct controllers have signed.\<close>

definition quorum_signed ::
  "(bytes \<Rightarrow> bytes \<Rightarrow> bytes \<Rightarrow> bool) \<Rightarrow> p_codec \<Rightarrow> FileAnchorSource \<Rightarrow> bytes option \<Rightarrow> AnchorEntry \<Rightarrow> bool" where
  "quorum_signed edv pc s file x \<longleftrightarrow>
     (\<exists>buf af canonical. file = Some buf \<and> length buf \<le> MaxAnchorFileBytes \<and> pc_anchors pc buf = Some af \<and>
        ap_Kind (af_Payload af) = anchorsKind \<and> pc_payload pc (af_Payload af) = Some canonical \<and>
        list_all (vote_ok edv (fs_controllers s) canonical) (af_Signatures af) \<and>
        fs_quorum s \<le> int (card (sg_KeyID ` set (af_Signatures af))) \<and> x \<in> set (ap_Anchors (af_Payload af)))"

lemma collect_anchors_entries:
  assumes "collect_anchors pc out es = Some m" and "map_of m k = Some x"
  shows "map_of out k = Some x \<or> x \<in> set es \<and> an_Epoch x = k \<and> anchor_ok pc x"
  using assms
proof (induction es arbitrary: out)
  case Nil
  then show ?case by simp
next
  case (Cons e es)
  then have ok: "anchor_ok pc e" "collect_anchors pc (put (an_Epoch e) e out) es = Some m" by (auto split: if_splits)
  from Cons.IH [OF ok(2) Cons.prems(2)] ok(1) show ?case by (auto split: if_splits)
qed

lemma fs_Verify_entries:
  assumes "fs_Verify edv pc s file = Some m" and "map_of m k = Some x"
  shows "quorum_signed edv pc s file x \<and> an_Epoch x = k \<and> anchor_ok pc x"
proof -
  from assms(1) obtain buf where buf: "file = Some buf" "length buf \<le> MaxAnchorFileBytes"
      "parseAnchors edv pc buf (fs_controllers s) (fs_quorum s) = Some m"
    by (auto simp: fs_Verify_def split: option.splits if_splits)
  then obtain af canonical valid where af: "pc_anchors pc buf = Some af" "ap_Kind (af_Payload af) = anchorsKind"
      "pc_payload pc (af_Payload af) = Some canonical"
      "controller_votes edv (fs_controllers s) canonical [] 0 (af_Signatures af) = Inr valid" "fs_quorum s \<le> int valid"
      "collect_anchors pc [] (ap_Anchors (af_Payload af)) = Some m"
    by (auto simp: parseAnchors_def split: option.splits sum.splits if_splits)
  from collect_anchors_entries [OF af(6) assms(2)] af(1-5) buf(1,2) show ?thesis
    by (auto simp: quorum_signed_def controller_votes_iff votes_card)
qed

interpretation file_source: anchor_source "BundleAnchor edv pc s" "HealthyWindow edv pc s" "quorum_signed edv pc s" pc
  for edv pc s
proof unfold_locales
  fix f e b
  assume "BundleAnchor edv pc s f e = Some b"
  then obtain m x where "fs_Verify edv pc s f = Some m" "map_of m e = Some x" "hex_decode (an_BundleHash x) = Some b"
    by (auto simp: BundleAnchor_def split: option.splits)
  with fs_Verify_entries show "\<exists>x. quorum_signed edv pc s f x \<and> an_Epoch x = e \<and> hex_decode (an_BundleHash x) = Some b \<and> length b = 32"
    by (fastforce simp: anchor_ok_def)
next
  fix f e a z
  assume "HealthyWindow edv pc s f e = Some (a, z)"
  then obtain m x where m: "fs_Verify edv pc s f = Some m" "map_of m e = Some x"
      "a = the (pc_time pc (an_WindowStart x))" "z = the (pc_time pc (an_WindowEnd x))"
    by (auto simp: HealthyWindow_def split: option.splits)
  from fs_Verify_entries [OF m(1,2)] m(3,4) obtain w: "quorum_signed edv pc s f x" "an_Epoch x = e"
      "pc_time pc (an_WindowStart x) = Some a" "pc_time pc (an_WindowEnd x) = Some z" "a < z" "time_sub z a \<le> MaxAnchorWindow"
    by (auto simp: anchor_ok_def split: option.splits)
  moreover have "z - a \<le> MaxAnchorWindow"
    using w(6) time_sub_le [of MaxAnchorWindow z a] by (simp add: MaxAnchorWindow_def second_def)
  ultimately show "\<exists>x. quorum_signed edv pc s f x \<and> an_Epoch x = e \<and> pc_time pc (an_WindowStart x) = Some a \<and>
      pc_time pc (an_WindowEnd x) = Some z \<and> a < z \<and> z - a \<le> MaxAnchorWindow" by blast
qed

subsection \<open>Properties\<close>

text \<open>a promotion is backed by the controllers, never by the candidate alone.  A promotion decided on
  the anchor file, read once for the bundle and once for the window, holds a receipt signed under the
  candidate's key; the bundle of that receipt is the one in an entry for its epoch of a file signed by
  enough distinct controllers; and the instant lies in the window of such an entry, of at most a week.\<close>

lemma promotion_backed_by_controllers:
  assumes "Promote sha edv pc c (BundleAnchor edv pc s f1) (HealthyWindow edv pc s f2) r js now lnow = (r', None)"
  shows "\<exists>sr pub canonical sig x y a z. pc_receipt pc js = Some sr \<and>
    map_of (pr_keys c) (rc_CellID (sr_Receipt sr)) = Some pub \<and> pc_canonical pc (sr_Receipt sr) = Some canonical \<and>
    hex_decode (sr_Sig sr) = Some sig \<and> length sig = SignatureSize \<and> edv pub canonical sig \<and>
    quorum_signed edv pc s f1 x \<and> an_Epoch x = rc_Epoch (sr_Receipt sr) \<and>
    hex_decode (an_BundleHash x) = hex_decode (rc_BundleHash (sr_Receipt sr)) \<and>
    quorum_signed edv pc s f2 y \<and> an_Epoch y = rc_Epoch (sr_Receipt sr) \<and>
    pc_time pc (an_WindowStart y) = Some a \<and> pc_time pc (an_WindowEnd y) = Some z \<and>
    a \<le> now \<and> now < z \<and> z \<le> a + MaxAnchorWindow"
  using assms by (rule file_source.promoted)

definition anchor_ex :: AnchorEntry where
  "anchor_ex = \<lparr>an_Epoch = 1, an_BundleHash = hex_encode (zeros 32), an_WindowStart = ''s'', an_WindowEnd = ''e''\<rparr>"

definition pcodec_ex :: p_codec where
  "pcodec_ex = \<lparr>pc_anchors = (\<lambda>b. Some \<lparr>af_Payload = \<lparr>ap_Kind = anchorsKind, ap_Anchors = [anchor_ex]\<rparr>, af_Signatures = [vote_ex], af_Warning = []\<rparr>),
     pc_payload = (\<lambda>p. Some []),
     pc_receipt = (\<lambda>b. Some \<lparr>sr_Receipt = \<lparr>rc_CellID = ''c'', rc_Epoch = 1, rc_BundleHash = hex_encode (zeros 32), rc_ReceivedAt = ''s''\<rparr>,
        sr_Sig = replicate 128 (CHR ''0'')\<rparr>),
     pc_canonical = (\<lambda>r. Some []),
     pc_time = (\<lambda>s. Some (if s = ''s'' then of_unix 10 else of_unix 100))\<rparr>"

definition fsource_ex :: FileAnchorSource where "fsource_ex = \<lparr>fs_controllers = [(1, zeros 32)], fs_quorum = 1\<rparr>"

definition pctrl_ex :: PromotionController where
  "pctrl_ex = \<lparr>pr_cellID = ''a'', pr_salt = zeros 16, pr_keys = [(''c'', zeros 32)]\<rparr>"

lemma fs_Verify_ex: "fs_Verify (\<lambda>p m s. True) pcodec_ex fsource_ex (Some []) = Some [(1, anchor_ex)]"
  by (simp add: fs_Verify_def parseAnchors_def pcodec_ex_def fsource_ex_def anchor_ex_def vote_ex_counts MaxAnchorFileBytes_def
      MaxAnchorEntries_def anchor_ok_def time_sub_def MaxAnchorWindow_def of_unix_def second_def put_def)

end
