(* ===== verification/OPA_Admission.thy ===== *)
theory OPA_Admission
  imports TBP_Prelude "HOL-Library.Multiset"
begin

text \<open>
  The bounded queue in front of the policy engine (\<open>src/src/pep/opa_admission.go\<close>): at most
  \<open>maxInflight\<close> requests run, the surplus waits in arrival order up to \<open>maxQueue\<close>, a subject holds at
  most its share of both, and a freed place goes to the waiting subject that has the fewest requests
  running.

  A call of \<open>acquire\<close> blocks between its entry and its outcome, so it is several steps of a transition
  system: the entry, the reception of the verdict on the channel of the waiter, or the end of the
  caller's context.  Every step runs under the lock of the queue.  The channel of a waiter has room
  for its one message; messages sent and not yet received are part of the state of the system.
  The clock is read several times inside one dispatch; it is a sequence of readings.
\<close>

subsection \<open>State\<close>

definition counter :: "('k, int) gomap \<Rightarrow> 'k \<Rightarrow> int" where
  "counter m k = (case map_of m k of None \<Rightarrow> 0 | Some n \<Rightarrow> n)"

definition incr :: "'k \<Rightarrow> ('k, int) gomap \<Rightarrow> ('k, int) gomap" where
  "incr k m = put k (counter m k + 1) m"

text \<open>A counter that reaches zero is deleted.\<close>

definition decr :: "'k \<Rightarrow> ('k, int) gomap \<Rightarrow> ('k, int) gomap" where
  "decr k m = (let n = counter m k - 1 in if n = 0 then del k m else put k n m)"

definition shedQueueFull :: string where "shedQueueFull = ''queue-full''"
definition shedSubjectShare :: string where "shedSubjectShare = ''subject-share''"
definition shedExpired :: string where "shedExpired = ''expired-in-queue''"

record AdmissionOptions =
  ao_MaxInflight :: int
  ao_MaxQueue :: int
  ao_SubjectShare :: int
  ao_MinService :: int

record AdmissionStats =
  as_Inflight :: int
  as_Queued :: int
  as_Admitted :: u64
  as_ShedQueueFull :: u64
  as_ShedSubjectShare :: u64
  as_ShedExpired :: u64
  as_SinceLastShedMS :: int

text \<open>The identity of a waiter is its address; here a number given in order of arrival.\<close>

record waiter =
  w_id :: nat
  w_subject :: string
  w_deadline :: time

record admission =
  ad_maxInflight :: int
  ad_maxQueue :: int
  ad_subjectCap :: int
  ad_minService :: int
  ad_inflight :: int
  ad_queue :: "waiter list"
  ad_perSubject :: "(string, int) gomap"
  ad_running :: "(string, int) gomap"
  ad_stats :: AdmissionStats
  ad_lastShed :: time

definition zeroStats :: AdmissionStats where
  "zeroStats = \<lparr>as_Inflight = 0, as_Queued = 0, as_Admitted = 0, as_ShedQueueFull = 0,
     as_ShedSubjectShare = 0, as_ShedExpired = 0, as_SinceLastShedMS = 0\<rparr>"

definition newAdmission :: "AdmissionOptions \<Rightarrow> admission option" where
  "newAdmission opts =
     (if ao_MaxInflight opts \<le> 0 then None
      else let share = (if ao_SubjectShare opts \<le> 0 \<or> ao_SubjectShare opts > 100 then 100 else ao_SubjectShare opts);
               capacity = ao_MaxInflight opts + ao_MaxQueue opts;
               cap = (capacity * share + 99) div 100;
               ms = (if ao_MinService opts \<le> 0 then second div 1000 else ao_MinService opts)
        in Some \<lparr>ad_maxInflight = ao_MaxInflight opts, ad_maxQueue = ao_MaxQueue opts,
                 ad_subjectCap = (if cap < 1 then 1 else cap), ad_minService = ms, ad_inflight = 0,
                 ad_queue = [], ad_perSubject = [], ad_running = [], ad_stats = zeroStats,
                 ad_lastShed = zero_time\<rparr>)"

subsection \<open>Operations under the lock\<close>

definition shed_expired :: "admission \<Rightarrow> waiter \<Rightarrow> time \<Rightarrow> admission" where
  "shed_expired a w t =
     a\<lparr>ad_queue := filter (\<lambda>x. w_id x \<noteq> w_id w) (ad_queue a),
       ad_perSubject := decr (w_subject w) (ad_perSubject a),
       ad_stats := (ad_stats a)\<lparr>as_ShedExpired := as_ShedExpired (ad_stats a) + 1\<rparr>,
       ad_lastShed := t\<rparr>"

definition grant :: "admission \<Rightarrow> waiter \<Rightarrow> admission" where
  "grant a w =
     a\<lparr>ad_queue := filter (\<lambda>x. w_id x \<noteq> w_id w) (ad_queue a), ad_inflight := ad_inflight a + 1,
       ad_running := incr (w_subject w) (ad_running a),
       ad_stats := (ad_stats a)\<lparr>as_Admitted := as_Admitted (ad_stats a) + 1\<rparr>\<rparr>"

text \<open>One pass over the waiters: the ones with too little time left are told so and removed; of the
  others the first of those with the fewest running requests is kept.\<close>

fun scan ::
  "(nat \<Rightarrow> time) \<Rightarrow> nat \<Rightarrow> admission \<Rightarrow> waiter option \<Rightarrow> waiter list
     \<Rightarrow> nat \<times> admission \<times> waiter option \<times> (waiter \<times> bool) list" where
  "scan clk i a best [] = (i, a, best, [])"
| "scan clk i a best (w # ws) =
     (if time_sub (w_deadline w) (clk i) < ad_minService a
      then case scan clk (i + 2) (shed_expired a w (clk (i + 1))) best ws of
             (i', a', best', mail) \<Rightarrow> (i', a', best', (w, False) # mail)
      else if best = None \<or> counter (ad_running a) (w_subject w) < counter (ad_running a) (w_subject (the best))
      then scan clk (i + 1) a (Some w) ws
      else scan clk (i + 1) a best ws)"

lemma scan_queue:
  "scan clk i a best ws = (i', a', best', mail) \<Longrightarrow>
     (\<exists>P. ad_queue a' = filter P (ad_queue a)) \<and> (best' = best \<or> best' \<in> Some ` set ws)"
proof (induction clk i a best ws arbitrary: i' a' best' mail rule: scan.induct)
  case (2 clk i a best w ws)
  show ?case
  proof (cases "time_sub (w_deadline w) (clk i) < ad_minService a")
    case True
    with "2.prems" obtain mail' where
      "scan clk (i + 2) (shed_expired a w (clk (i + 1))) best ws = (i', a', best', mail')"
      by (auto split: prod.splits)
    from "2.IH"(1) [OF True this] show ?thesis
      by (auto simp: shed_expired_def filter_filter)
  next
    case False
    show ?thesis
    proof (cases "best = None \<or> counter (ad_running a) (w_subject w) < counter (ad_running a) (w_subject (the best))")
      case less: True
      with False "2.prems" have "scan clk (i + 1) a (Some w) ws = (i', a', best', mail)" by simp
      from "2.IH"(2) [OF False less this] show ?thesis by auto
    next
      case more: False
      with False "2.prems" have "scan clk (i + 1) a best ws = (i', a', best', mail)" by simp
      from "2.IH"(3) [OF False more this] show ?thesis by auto
    qed
  qed
qed (auto intro!: exI [of _ "\<lambda>x. True"])

function dispatchLocked ::
  "(nat \<Rightarrow> time) \<Rightarrow> nat \<Rightarrow> admission \<Rightarrow> nat \<times> admission \<times> (waiter \<times> bool) list" where
  "dispatchLocked clk i a =
     (if \<not> ad_inflight a < ad_maxInflight a then (i, a, [])
      else case scan clk i a None (ad_queue a) of
        (i1, a1, None, mail) \<Rightarrow> (i1, a1, mail)
      | (i1, a1, Some w, mail) \<Rightarrow>
          (case dispatchLocked clk i1 (grant a1 w) of
             (i2, a2, mail2) \<Rightarrow> (i2, a2, mail @ (w, True) # mail2)))"
  by pat_completeness auto
termination
proof (relation "measure (\<lambda>(clk, i, a). length (ad_queue a))")
  fix clk :: "nat \<Rightarrow> time" and i i1 a y a1 x best mail and w :: waiter
  assume "(i1, y) = scan clk i a None (ad_queue a)" "(a1, x) = y" "(best, mail) = x" "best = Some w"
  then have "scan clk i a None (ad_queue a) = (i1, a1, Some w, mail)" by auto
  from scan_queue [OF this] obtain P where q: "ad_queue a1 = filter P (ad_queue a)" and w: "w \<in> set (ad_queue a)"
    by auto
  have "length (filter (\<lambda>x. w_id x \<noteq> w_id w) (filter P (ad_queue a))) < length (ad_queue a)"
    using w by (auto simp: filter_filter intro!: length_filter_less)
  then show "((clk, i1, grant a1 w), clk, i, a) \<in> measure (\<lambda>(clk, i, a). length (ad_queue a))"
    by (simp add: grant_def q)
qed auto

declare dispatchLocked.simps [simp del]

datatype acquired = Granted | Shed string | Waiting

definition admit :: "admission \<Rightarrow> string \<Rightarrow> admission" where
  "admit a subject =
     a\<lparr>ad_inflight := ad_inflight a + 1, ad_running := incr subject (ad_running a),
       ad_perSubject := incr subject (ad_perSubject a),
       ad_stats := (ad_stats a)\<lparr>as_Admitted := as_Admitted (ad_stats a) + 1\<rparr>\<rparr>"

definition enqueue :: "admission \<Rightarrow> waiter \<Rightarrow> admission" where
  "enqueue a w = a\<lparr>ad_queue := ad_queue a @ [w], ad_perSubject := incr (w_subject w) (ad_perSubject a)\<rparr>"

definition acquire_enter :: "admission \<Rightarrow> string \<Rightarrow> time \<Rightarrow> nat \<Rightarrow> time \<Rightarrow> admission \<times> acquired" where
  "acquire_enter a subject deadline wid now =
     (if counter (ad_perSubject a) subject \<ge> ad_subjectCap a
      then (a\<lparr>ad_stats := (ad_stats a)\<lparr>as_ShedSubjectShare := as_ShedSubjectShare (ad_stats a) + 1\<rparr>,
              ad_lastShed := now\<rparr>, Shed shedSubjectShare)
      else if ad_inflight a < ad_maxInflight a \<and> length (ad_queue a) = 0 then (admit a subject, Granted)
      else if int (length (ad_queue a)) \<ge> ad_maxQueue a
      then (a\<lparr>ad_stats := (ad_stats a)\<lparr>as_ShedQueueFull := as_ShedQueueFull (ad_stats a) + 1\<rparr>,
              ad_lastShed := now\<rparr>, Shed shedQueueFull)
      else (enqueue a \<lparr>w_id = wid, w_subject = subject, w_deadline = deadline\<rparr>, Waiting))"

definition leave :: "admission \<Rightarrow> string \<Rightarrow> admission" where
  "leave a subject =
     a\<lparr>ad_inflight := ad_inflight a - 1, ad_running := decr subject (ad_running a),
       ad_perSubject := decr subject (ad_perSubject a)\<rparr>"

definition releaser :: "(nat \<Rightarrow> time) \<Rightarrow> admission \<Rightarrow> string \<Rightarrow> nat \<times> admission \<times> (waiter \<times> bool) list" where
  "releaser clk a subject = dispatchLocked clk 0 (leave a subject)"

text \<open>The caller's context ends while the waiter is still queued.\<close>

definition abandon :: "admission \<Rightarrow> waiter \<Rightarrow> time \<Rightarrow> admission" where
  "abandon a w now = shed_expired a w now"

text \<open>The caller's context ends after a place was granted: the place is given back.\<close>

definition give_back :: "(nat \<Rightarrow> time) \<Rightarrow> admission \<Rightarrow> string \<Rightarrow> admission \<times> (waiter \<times> bool) list" where
  "give_back clk a subject =
     (case releaser clk a subject of
        (i, a', mail) \<Rightarrow>
          (a'\<lparr>ad_stats := (ad_stats a')\<lparr>as_ShedExpired := as_ShedExpired (ad_stats a') + 1\<rparr>, ad_lastShed := clk i\<rparr>, mail))"

text \<open>Go truncates towards zero.\<close>

definition milliseconds :: "int \<Rightarrow> int" where
  "milliseconds d = (if d < 0 then - (- d div (second div 1000)) else d div (second div 1000))"

definition snapshot :: "admission \<Rightarrow> time \<Rightarrow> AdmissionStats" where
  "snapshot a now =
     (ad_stats a)\<lparr>as_Inflight := ad_inflight a, as_Queued := int (length (ad_queue a)),
        as_SinceLastShedMS := (if ad_lastShed a = zero_time then - 1
          else milliseconds (time_sub now (ad_lastShed a)))\<rparr>"

subsection \<open>The waiters and the places as a transition system\<close>

record adm_system =
  sy_adm :: admission
  sy_mail :: "(waiter \<times> bool) list"
  sy_held :: "string list"
  sy_next :: nat

inductive adm_step :: "adm_system \<Rightarrow> adm_system \<Rightarrow> bool" where
  arrives_shed:
    "acquire_enter (sy_adm s) subject deadline (sy_next s) now = (a, Shed why) \<Longrightarrow> adm_step s (s\<lparr>sy_adm := a\<rparr>)"
| arrives_served:
    "acquire_enter (sy_adm s) subject deadline (sy_next s) now = (a, Granted) \<Longrightarrow>
     adm_step s (s\<lparr>sy_adm := a, sy_held := subject # sy_held s\<rparr>)"
| arrives_waits:
    "acquire_enter (sy_adm s) subject deadline (sy_next s) now = (a, Waiting) \<Longrightarrow>
     adm_step s (s\<lparr>sy_adm := a, sy_next := Suc (sy_next s)\<rparr>)"
| told:
    "(w, ok) \<in> set (sy_mail s) \<Longrightarrow>
     adm_step s (s\<lparr>sy_mail := remove1 (w, ok) (sy_mail s),
                   sy_held := (if ok then w_subject w # sy_held s else sy_held s)\<rparr>)"
| gives_up:
    "w \<in> set (ad_queue (sy_adm s)) \<Longrightarrow> adm_step s (s\<lparr>sy_adm := abandon (sy_adm s) w now\<rparr>)"
| served_too_late:
    "(w, True) \<in> set (sy_mail s) \<Longrightarrow> give_back clk (sy_adm s) (w_subject w) = (a, mail) \<Longrightarrow>
     adm_step s (s\<lparr>sy_adm := a, sy_mail := remove1 (w, True) (sy_mail s) @ mail\<rparr>)"
| leaves:
    "subject \<in> set (sy_held s) \<Longrightarrow> releaser clk (sy_adm s) subject = (i, a, mail) \<Longrightarrow>
     adm_step s (s\<lparr>sy_adm := a, sy_held := remove1 subject (sy_held s), sy_mail := sy_mail s @ mail\<rparr>)"

inductive adm_reachable :: "AdmissionOptions \<Rightarrow> adm_system \<Rightarrow> bool" for opts where
  start: "newAdmission opts = Some a \<Longrightarrow>
     adm_reachable opts \<lparr>sy_adm = a, sy_mail = [], sy_held = [], sy_next = 0\<rparr>"
| step: "adm_reachable opts s \<Longrightarrow> adm_step s s' \<Longrightarrow> adm_reachable opts s'"

text \<open>The subjects of the requests that run (a place held, or granted and not yet received), and of
  those that wait.\<close>

definition serving :: "string list \<Rightarrow> (waiter \<times> bool) list \<Rightarrow> string multiset" where
  "serving held mail = mset held + image_mset (w_subject \<circ> fst) (mset (filter snd mail))"

definition waiting :: "admission \<Rightarrow> string multiset" where
  "waiting a = image_mset w_subject (mset (ad_queue a))"

text \<open>The counters tell the truth, and the limits hold.\<close>

definition adm_counts :: "admission \<Rightarrow> string multiset \<Rightarrow> bool" where
  "adm_counts a S \<longleftrightarrow> ad_inflight a = int (size S) \<and>
     (\<forall>s. counter (ad_running a) s = int (count S s)) \<and>
     (\<forall>s. counter (ad_perSubject a) s = int (count (S + waiting a) s)) \<and>
     (\<forall>s. int (count (S + waiting a) s) \<le> ad_subjectCap a) \<and>
     ad_inflight a \<le> ad_maxInflight a \<and> int (length (ad_queue a)) \<le> max 0 (ad_maxQueue a) \<and>
     sorted_wrt (<) (map w_id (ad_queue a))"

definition adm_inv :: "adm_system \<Rightarrow> bool" where
  "adm_inv s \<longleftrightarrow> adm_counts (sy_adm s) (serving (sy_held s) (sy_mail s)) \<and>
     (\<forall>w \<in> set (ad_queue (sy_adm s)). w_id w < sy_next s) \<and>
     (ad_queue (sy_adm s) \<noteq> [] \<longrightarrow> ad_inflight (sy_adm s) = ad_maxInflight (sy_adm s))"

lemma counter_incr [simp]: "counter (incr k m) j = counter m j + (if j = k then 1 else 0)"
  by (simp add: counter_def incr_def)

lemma counter_decr [simp]: "counter (decr k m) j = counter m j - (if j = k then 1 else 0)"
  by (simp add: counter_def decr_def Let_def split: option.splits)

lemma remove_by_id:
  assumes "sorted_wrt (<) (map w_id q)" "w \<in> set q"
  shows "filter (\<lambda>x. w_id x \<noteq> w_id w) q = remove1 w q"
  using assms
proof (induction q)
  case (Cons x q)
  have "\<forall>y \<in> set q. w_id x < w_id y" using Cons.prems by auto
  then show ?case
    using Cons by (cases "w = x") (auto intro!: filter_True)
qed simp

lemma remove_sorted: "sorted_wrt (<) (map w_id q) \<Longrightarrow> sorted_wrt (<) (map w_id (filter P q))"
  by (induction q) auto

lemma waiting_remove:
  "w \<in> set (ad_queue a) \<Longrightarrow> ad_queue a' = remove1 w (ad_queue a) \<Longrightarrow> waiting a = add_mset (w_subject w) (waiting a')"
  by (simp add: waiting_def flip: image_mset_add_mset)

lemma adm_countsD:
  assumes "adm_counts a S"
  shows "ad_inflight a = int (size S)" "counter (ad_running a) x = int (count S x)"
    "counter (ad_perSubject a) x = int (count S x) + int (count (waiting a) x)"
    "int (count S x) + int (count (waiting a) x) \<le> ad_subjectCap a"
    "ad_inflight a \<le> ad_maxInflight a" "int (length (ad_queue a)) \<le> max 0 (ad_maxQueue a)"
    "sorted_wrt (<) (map w_id (ad_queue a))"
  using assms by (auto simp: adm_counts_def)

lemma adm_countsI:
  assumes "ad_inflight a = int (size S)" "\<And>x. counter (ad_running a) x = int (count S x)"
    "\<And>x. counter (ad_perSubject a) x = int (count S x) + int (count (waiting a) x)"
    "\<And>x. int (count S x) + int (count (waiting a) x) \<le> ad_subjectCap a"
    "ad_inflight a \<le> ad_maxInflight a" "int (length (ad_queue a)) \<le> max 0 (ad_maxQueue a)"
    "sorted_wrt (<) (map w_id (ad_queue a))"
  shows "adm_counts a S"
  using assms by (auto simp: adm_counts_def)

lemma queue_without:
  assumes "adm_counts a S" "w \<in> set (ad_queue a)" "ad_queue a' = filter (\<lambda>x. w_id x \<noteq> w_id w) (ad_queue a)"
  shows "waiting a = add_mset (w_subject w) (waiting a')" "sorted_wrt (<) (map w_id (ad_queue a'))"
    "int (length (ad_queue a')) \<le> max 0 (ad_maxQueue a)"
proof -
  note c = adm_countsD [OF assms(1)]
  have q: "ad_queue a' = remove1 w (ad_queue a)" using remove_by_id [OF c(7) assms(2)] assms(3) by simp
  show "waiting a = add_mset (w_subject w) (waiting a')" by (rule waiting_remove [OF assms(2) q])
  show "sorted_wrt (<) (map w_id (ad_queue a'))" using c(7) by (simp add: assms(3) remove_sorted)
  show "int (length (ad_queue a')) \<le> max 0 (ad_maxQueue a)"
    using c(6) length_filter_le [of "\<lambda>x. w_id x \<noteq> w_id w" "ad_queue a"] unfolding assms(3) by linarith
qed

lemma shed_expired_counts:
  assumes "adm_counts a S" "w \<in> set (ad_queue a)"
  shows "adm_counts (shed_expired a w t) S"
proof -
  note c = adm_countsD [OF assms(1)]
  have q: "ad_queue (shed_expired a w t) = filter (\<lambda>x. w_id x \<noteq> w_id w) (ad_queue a)" by (simp add: shed_expired_def)
  note r = queue_without [OF assms q]
  show ?thesis
  proof (rule adm_countsI)
    fix x
    show "counter (ad_perSubject (shed_expired a w t)) x = int (count S x) + int (count (waiting (shed_expired a w t)) x)"
      using c(3) [of x] r(1) by (auto simp: shed_expired_def)
    show "int (count S x) + int (count (waiting (shed_expired a w t)) x) \<le> ad_subjectCap (shed_expired a w t)"
      using c(4) [of x] r(1) by (auto simp: shed_expired_def split: if_splits)
  qed (use c r in \<open>auto simp: shed_expired_def\<close>)
qed

lemma grant_counts:
  assumes "adm_counts a S" "w \<in> set (ad_queue a)" "ad_inflight a < ad_maxInflight a"
  shows "adm_counts (grant a w) (add_mset (w_subject w) S)"
proof -
  note c = adm_countsD [OF assms(1)]
  have q: "ad_queue (grant a w) = filter (\<lambda>x. w_id x \<noteq> w_id w) (ad_queue a)" by (simp add: grant_def)
  note r = queue_without [OF assms(1,2) q]
  show ?thesis
  proof (rule adm_countsI)
    fix x
    show "counter (ad_perSubject (grant a w)) x =
        int (count (add_mset (w_subject w) S) x) + int (count (waiting (grant a w)) x)"
      using c(3) [of x] r(1) by (auto simp: grant_def)
    show "int (count (add_mset (w_subject w) S) x) + int (count (waiting (grant a w)) x) \<le> ad_subjectCap (grant a w)"
      using c(4) [of x] r(1) by (auto simp: grant_def split: if_splits)
  qed (use c r assms(3) in \<open>auto simp: grant_def\<close>)
qed

text \<open>What a pass does: it moves no place, tells only waiters of the list, and keeps a candidate
  whenever one is left.\<close>

definition same_places :: "admission \<Rightarrow> admission \<Rightarrow> bool" where
  "same_places a b \<longleftrightarrow> ad_running b = ad_running a \<and> ad_inflight b = ad_inflight a \<and>
     ad_maxInflight b = ad_maxInflight a \<and> ad_maxQueue b = ad_maxQueue a \<and> ad_subjectCap b = ad_subjectCap a \<and>
     ad_minService b = ad_minService a"

lemma same_places_refl [simp]: "same_places a a"
  by (simp add: same_places_def)

lemma shed_expired_places [simp]: "same_places (shed_expired a w t) b = same_places a b"
  by (auto simp: same_places_def shed_expired_def)

lemma shed_expired_set:
  assumes "adm_counts a S" "w \<in> set (ad_queue a)"
  shows "set (ad_queue (shed_expired a w t)) = set (ad_queue a) - {w}"
proof -
  have "distinct (map w_id (ad_queue a))"
    using adm_countsD(7) [OF assms(1)] strict_sorted_iff [of "map w_id (ad_queue a)"] by simp
  then show ?thesis using assms(2) by (auto simp: shed_expired_def distinct_map inj_on_def)
qed

lemma scan_spec:
  assumes "scan clk i a best ws = (i', a', best', mail)" "adm_counts a S"
    "distinct ws" "set_option best \<union> set ws \<subseteq> set (ad_queue a)" "set_option best \<inter> set ws = {}"
  shows "adm_counts a' S \<and> same_places a a' \<and> set mail \<subseteq> set ws \<times> {False} \<and>
    set (ad_queue a') = set (ad_queue a) - {w. (w, False) \<in> set mail} \<and>
    (best' = None \<longrightarrow> best = None \<and> set ws \<times> {False} \<subseteq> set mail) \<and> set_option best' \<subseteq> set (ad_queue a')"
  using assms
proof (induction clk i a best ws arbitrary: i' a' best' mail rule: scan.induct)
  case (2 clk i a best w ws)
  have w: "w \<in> set (ad_queue a)" "w \<notin> set ws" "distinct ws" using "2.prems" by auto
  show ?case
  proof (cases "time_sub (w_deadline w) (clk i) < ad_minService a")
    case True
    with "2.prems" obtain mail' where m: "mail = (w, False) # mail'" and
      sc: "scan clk (i + 2) (shed_expired a w (clk (i + 1))) best ws = (i', a', best', mail')"
      by (auto split: prod.splits)
    note q = shed_expired_set [OF "2.prems"(2) w(1), of "clk (i + 1)"]
    have "set_option best \<union> set ws \<subseteq> set (ad_queue (shed_expired a w (clk (i + 1))))"
      using "2.prems"(4,5) w(2) unfolding q by auto
    from "2.IH"(1) [OF True sc shed_expired_counts [OF "2.prems"(2) w(1)] w(3) this] "2.prems"(5) q
    show ?thesis by (auto simp: m)
  next
    case False
    show ?thesis
    proof (cases "best = None \<or> counter (ad_running a) (w_subject w) < counter (ad_running a) (w_subject (the best))")
      case less: True
      with False "2.prems" have sc: "scan clk (i + 1) a (Some w) ws = (i', a', best', mail)" by simp
      have "set_option (Some w) \<union> set ws \<subseteq> set (ad_queue a)" using "2.prems"(4) by simp
      from "2.IH"(2) [OF False less sc "2.prems"(2) w(3) this] w(2) show ?thesis by auto
    next
      case more: False
      with False "2.prems" have sc: "scan clk (i + 1) a best ws = (i', a', best', mail)" by simp
      have "set_option best \<union> set ws \<subseteq> set (ad_queue a)" "set_option best \<inter> set ws = {}" using "2.prems"(4,5) by auto
      from "2.IH"(3) [OF False more sc "2.prems"(2) w(3) this] more show ?thesis by auto
    qed
  qed
qed auto

lemma scan_told: "scan clk i a best ws = (i', a', best', mail) \<Longrightarrow> (w, ok) \<in> set mail \<Longrightarrow> w \<in> set ws"
  by (induction clk i a best ws arbitrary: i' a' best' mail rule: scan.induct)
    (auto split: if_splits prod.splits)

text \<open>The candidate kept is the least by running requests, then by arrival.\<close>

definition ahead :: "admission \<Rightarrow> waiter \<Rightarrow> waiter \<Rightarrow> bool" where
  "ahead a b w \<longleftrightarrow> counter (ad_running a) (w_subject b) < counter (ad_running a) (w_subject w) \<or>
     counter (ad_running a) (w_subject b) = counter (ad_running a) (w_subject w) \<and> w_id b \<le> w_id w"

lemma scan_ahead:
  assumes "scan clk i a best ws = (i', a', best', mail)" "best' = Some b"
    "sorted_wrt (<) (map w_id ws)" "\<forall>x \<in> set_option best. \<forall>w \<in> set ws. w_id x < w_id w"
    "w \<in> set_option best \<union> set ws" "(w, False) \<notin> set mail"
  shows "ahead a b w"
  using assms
proof (induction clk i a best ws arbitrary: i' a' best' mail w rule: scan.induct)
  case (2 clk i a best x ws)
  have so: "sorted_wrt (<) (map w_id ws)" "\<forall>y \<in> set ws. w_id x < w_id y" using "2.prems"(3) by auto
  show ?case
  proof (cases "time_sub (w_deadline x) (clk i) < ad_minService a")
    case True
    with "2.prems" obtain mail' where m: "mail = (x, False) # mail'" and
      sc: "scan clk (i + 2) (shed_expired a x (clk (i + 1))) best ws = (i', a', best', mail')"
      by (auto split: prod.splits)
    have "\<forall>y \<in> set_option best. \<forall>w \<in> set ws. w_id y < w_id w" "w \<in> set_option best \<union> set ws" "(w, False) \<notin> set mail'"
      using "2.prems"(4-6) m by auto
    from "2.IH"(1) [OF True sc "2.prems"(2) so(1) this] show ?thesis by (simp add: ahead_def shed_expired_def)
  next
    case False
    show ?thesis
    proof (cases "best = None \<or> counter (ad_running a) (w_subject x) < counter (ad_running a) (w_subject (the best))")
      case less: True
      with False "2.prems" have sc: "scan clk (i + 1) a (Some x) ws = (i', a', best', mail)" by simp
      have dom: "\<forall>y \<in> set_option (Some x). \<forall>w \<in> set ws. w_id y < w_id w" using so by simp
      note ih = "2.IH"(2) [OF False less sc "2.prems"(2) so(1) dom]
      show ?thesis
      proof (cases "w \<in> set_option best")
        case True
        then have "counter (ad_running a) (w_subject x) < counter (ad_running a) (w_subject w)" using less by auto
        moreover have "ahead a b x" using ih [of x] scan_told [OF sc] so(2) by auto
        ultimately show ?thesis by (auto simp: ahead_def)
      next
        case f: False
        then show ?thesis using ih [of w] "2.prems"(5,6) by auto
      qed
    next
      case more: False
      with False "2.prems" have sc: "scan clk (i + 1) a best ws = (i', a', best', mail)" by simp
      have dom: "\<forall>y \<in> set_option best. \<forall>w \<in> set ws. w_id y < w_id w" using "2.prems"(4) by auto
      note ih = "2.IH"(3) [OF False more sc "2.prems"(2) so(1) dom]
      obtain y where y: "best = Some y" using more by auto
      show ?thesis
      proof (cases "w = x")
        case True
        have "ahead a b y" using ih [of y] scan_told [OF sc] "2.prems"(4) y by auto
        moreover have "ahead a y x" using more y "2.prems"(4) by (auto simp: ahead_def)
        ultimately show ?thesis using True by (auto simp: ahead_def)
      next
        case f: False
        then show ?thesis using ih [of w] "2.prems"(5,6) by auto
      qed
    qed
  qed
qed (auto simp: ahead_def)

lemma serving_append: "serving held (m @ n) = serving held m + image_mset (w_subject \<circ> fst) (mset (filter snd n))"
  by (simp add: serving_def)

lemma serving_told:
  assumes "(w, ok) \<in> set mail"
  shows "serving (if ok then w_subject w # held else held) (remove1 (w, ok) mail) = serving held mail"
proof -
  define rest where "rest = remove1 (w, ok) mail"
  have "mset mail = add_mset (w, ok) (mset rest)" using assms by (simp add: rest_def)
  then have "mset (filter snd mail) = (if ok then add_mset (w, ok) (mset (filter snd rest)) else mset (filter snd rest))"
    by (simp add: mset_filter)
  then show ?thesis unfolding serving_def rest_def [symmetric] by simp
qed

lemma no_grant: "set n \<subseteq> A \<times> {False} \<Longrightarrow> filter snd n = []"
  by (force simp: filter_empty_conv)

lemma sorted_distinct: "adm_counts a S \<Longrightarrow> distinct (ad_queue a)"
  using adm_countsD(7) [of a S] strict_sorted_iff [of "map w_id (ad_queue a)"] by (auto simp: distinct_map)

lemma scan_queue_spec:
  assumes "scan clk i a None (ad_queue a) = (i', a', best, mail)" "adm_counts a S"
  shows "adm_counts a' S" "same_places a a'" "filter snd mail = []"
    "set (ad_queue a') = set (ad_queue a) - {w. (w, False) \<in> set mail}"
    "best = None \<Longrightarrow> ad_queue a' = []" "set_option best \<subseteq> set (ad_queue a')"
  using scan_spec [OF assms(1,2) sorted_distinct [OF assms(2)]] by (auto dest: no_grant)

lemma dispatch_spec:
  assumes "dispatchLocked clk i a = (i', a', mail)" "adm_counts a S"
  shows "adm_counts a' (S + image_mset (w_subject \<circ> fst) (mset (filter snd mail))) \<and>
    ad_maxInflight a' = ad_maxInflight a \<and> ad_maxQueue a' = ad_maxQueue a \<and> ad_subjectCap a' = ad_subjectCap a \<and>
    ad_minService a' = ad_minService a \<and> set (ad_queue a') \<subseteq> set (ad_queue a) \<and> fst ` set mail \<subseteq> set (ad_queue a) \<and>
    (ad_queue a' \<noteq> [] \<longrightarrow> ad_inflight a' = ad_maxInflight a')"
  using assms
proof (induction clk i a arbitrary: S i' a' mail rule: dispatchLocked.induct)
  case (1 clk i a)
  show ?case
  proof (cases "ad_inflight a < ad_maxInflight a")
    case False
    with "1.prems"(1) have "a' = a" "mail = []" by (auto simp: dispatchLocked.simps [of clk i a])
    with False adm_countsD(5) [OF "1.prems"(2)] "1.prems"(2) show ?thesis by auto
  next
    case True
    obtain i1 a1 best mail1 where sc: "scan clk i a None (ad_queue a) = (i1, a1, best, mail1)" by (metis prod_cases4)
    note sp = scan_queue_spec [OF sc "1.prems"(2)]
    have told: "fst ` set mail1 \<subseteq> set (ad_queue a)" using scan_told [OF sc] by auto
    show ?thesis
    proof (cases best)
      case None
      with "1.prems"(1) True sc have "a' = a1" "mail = mail1" by (auto simp: dispatchLocked.simps [of clk i a])
      with sp None told show ?thesis by (auto simp: same_places_def)
    next
      case (Some w)
      obtain i2 a2 mail2 where d: "dispatchLocked clk i1 (grant a1 w) = (i2, a2, mail2)" by (metis prod_cases3)
      with "1.prems"(1) True sc Some have r: "a' = a2" "mail = mail1 @ (w, True) # mail2"
        by (auto simp: dispatchLocked.simps [of clk i a])
      have w: "w \<in> set (ad_queue a1)" using sp(6) Some by simp
      have g: "adm_counts (grant a1 w) (add_mset (w_subject w) S)"
        by (rule grant_counts [OF sp(1) w]) (use True sp(2) in \<open>simp add: same_places_def\<close>)
      have "set (ad_queue (grant a1 w)) \<subseteq> set (ad_queue a1)" by (auto simp: grant_def)
      with "1.IH" [OF _ sc [symmetric] refl refl Some d g] True sp w told show ?thesis
        by (auto simp: r same_places_def grant_def)
    qed
  qed
qed

lemma leave_counts:
  assumes "adm_counts a (add_mset subject S)"
  shows "adm_counts (leave a subject) S"
proof -
  note c = adm_countsD [OF assms]
  have q: "waiting (leave a subject) = waiting a" by (simp add: waiting_def leave_def)
  show ?thesis
  proof (rule adm_countsI)
    fix x
    show "int (count S x) + int (count (waiting (leave a subject)) x) \<le> ad_subjectCap (leave a subject)"
      using c(4) [of x] by (auto simp: q) (auto simp: leave_def split: if_splits)
  qed (use c q in \<open>auto simp: leave_def split: if_splits\<close>)
qed

lemma releaser_spec:
  assumes "releaser clk a subject = (i, a', mail)" "adm_counts a (add_mset subject S)"
  shows "adm_counts a' (S + image_mset (w_subject \<circ> fst) (mset (filter snd mail))) \<and>
    set (ad_queue a') \<subseteq> set (ad_queue a) \<and> (ad_queue a' \<noteq> [] \<longrightarrow> ad_inflight a' = ad_maxInflight a')"
  using dispatch_spec [OF assms(1) [unfolded releaser_def] leave_counts [OF assms(2)]]
  by (simp add: leave_def)

lemma give_back_spec:
  assumes "give_back clk a subject = (a', mail)" "adm_counts a (add_mset subject S)"
  shows "adm_counts a' (S + image_mset (w_subject \<circ> fst) (mset (filter snd mail))) \<and>
    set (ad_queue a') \<subseteq> set (ad_queue a) \<and> (ad_queue a' \<noteq> [] \<longrightarrow> ad_inflight a' = ad_maxInflight a')"
proof -
  obtain i b where r: "releaser clk a subject = (i, b, mail)"
    and a': "a' = b\<lparr>ad_stats := (ad_stats b)\<lparr>as_ShedExpired := as_ShedExpired (ad_stats b) + 1\<rparr>, ad_lastShed := clk i\<rparr>"
    using assms(1) by (auto simp: give_back_def split: prod.splits)
  from releaser_spec [OF r assms(2)] show ?thesis by (auto simp: a' adm_counts_def waiting_def)
qed

lemma admit_counts:
  assumes "adm_counts a S" "counter (ad_perSubject a) subject < ad_subjectCap a" "ad_inflight a < ad_maxInflight a"
  shows "adm_counts (admit a subject) (add_mset subject S)"
proof -
  note c = adm_countsD [OF assms(1)]
  have q: "waiting (admit a subject) = waiting a" by (simp add: waiting_def admit_def)
  show ?thesis
  proof (rule adm_countsI)
    fix x
    show "int (count (add_mset subject S) x) + int (count (waiting (admit a subject)) x) \<le> ad_subjectCap (admit a subject)"
      using c(3) [of subject] c(4) [of x] assms(2) by (auto simp: q) (auto simp: admit_def)
  qed (use c q assms(3) in \<open>auto simp: admit_def\<close>)
qed

lemma enqueue_counts:
  assumes "adm_counts a S" "counter (ad_perSubject a) (w_subject w) < ad_subjectCap a"
    "int (length (ad_queue a)) < ad_maxQueue a" "\<forall>x \<in> set (ad_queue a). w_id x < w_id w"
  shows "adm_counts (enqueue a w) S"
proof -
  note c = adm_countsD [OF assms(1)]
  have q: "waiting (enqueue a w) = add_mset (w_subject w) (waiting a)" by (simp add: waiting_def enqueue_def)
  show ?thesis
  proof (rule adm_countsI)
    fix x
    show "int (count S x) + int (count (waiting (enqueue a w)) x) \<le> ad_subjectCap (enqueue a w)"
      using c(3) [of "w_subject w"] c(4) [of x] assms(2) by (auto simp: q) (auto simp: enqueue_def)
    show "sorted_wrt (<) (map w_id (ad_queue (enqueue a w)))" using c(7) assms(4) by (simp add: enqueue_def sorted_wrt_append)
  qed (use c q assms(3) in \<open>auto simp: enqueue_def\<close>)
qed

lemma acquire_enter_cases:
  assumes "acquire_enter a subject deadline wid now = (a', res)"
  obtains (shed) why st t where "res = Shed why" "a' = a\<lparr>ad_stats := st, ad_lastShed := t\<rparr>"
  | (admitted) "res = Granted" "a' = admit a subject" "counter (ad_perSubject a) subject < ad_subjectCap a"
      "ad_inflight a < ad_maxInflight a" "ad_queue a = []"
  | (queued) "res = Waiting" "a' = enqueue a \<lparr>w_id = wid, w_subject = subject, w_deadline = deadline\<rparr>"
      "counter (ad_perSubject a) subject < ad_subjectCap a" "int (length (ad_queue a)) < ad_maxQueue a"
      "ad_inflight a < ad_maxInflight a \<longrightarrow> ad_queue a \<noteq> []"
  using assms by (auto simp: acquire_enter_def split: if_splits)

lemma adm_step_inv:
  assumes "adm_step s s'" "adm_inv s"
  shows "adm_inv s'"
  using assms
proof (induction rule: adm_step.induct)
  case (arrives_shed s subject deadline now a why)
  from arrives_shed(1) show ?case
    by (cases rule: acquire_enter_cases) (use arrives_shed(2) in \<open>auto simp: adm_inv_def adm_counts_def waiting_def\<close>)
next
  case (arrives_served s subject deadline now a)
  from arrives_served(1) show ?case
    by (cases rule: acquire_enter_cases)
      (use arrives_served(2) in \<open>auto simp: adm_inv_def serving_def dest: admit_counts simp: admit_def [THEN arg_cong, of ad_queue]\<close>)
next
  case (arrives_waits s subject deadline now a)
  from arrives_waits(1) show ?case
  proof (cases rule: acquire_enter_cases)
    case queued
    have "adm_counts a (serving (sy_held s) (sy_mail s))"
      unfolding queued(2) using arrives_waits(2) queued(3,4) by (intro enqueue_counts) (auto simp: adm_inv_def)
    moreover have "ad_inflight (sy_adm s) = ad_maxInflight (sy_adm s)"
      using arrives_waits(2) queued(5) adm_countsD(5) by (fastforce simp: adm_inv_def)
    ultimately show ?thesis
      using arrives_waits(2) by (auto simp: adm_inv_def queued(2) enqueue_def less_SucI)
  qed auto
next
  case (told w ok s)
  have "serving (if ok then w_subject w # sy_held s else sy_held s) (remove1 (w, ok) (sy_mail s)) = serving (sy_held s) (sy_mail s)"
    using serving_told [OF told(1)] by simp
  then show ?case using told(2) by (simp add: adm_inv_def)
next
  case (gives_up w s now)
  then have "adm_counts (abandon (sy_adm s) w now) (serving (sy_held s) (sy_mail s))"
    by (simp add: abandon_def adm_inv_def shed_expired_counts)
  with gives_up(2) show ?case by (auto simp: adm_inv_def abandon_def shed_expired_def filter_empty_conv)
next
  case (served_too_late w s clk a mail)
  have "serving (sy_held s) (sy_mail s) = add_mset (w_subject w) (serving (sy_held s) (remove1 (w, True) (sy_mail s)))"
    using serving_told [OF served_too_late(1)] by (simp add: serving_def)
  with give_back_spec [OF served_too_late(2)] served_too_late(3) show ?case
    by (auto simp: adm_inv_def serving_append)
next
  case (leaves subject s clk i a mail)
  have "serving (sy_held s) (sy_mail s) = add_mset subject (serving (remove1 subject (sy_held s)) (sy_mail s))"
    using leaves(1) by (simp add: serving_def)
  with releaser_spec [OF leaves(2)] leaves(3) show ?case
    by (auto simp: adm_inv_def serving_append)
qed

text \<open>The limits themselves never change.\<close>

definition limits :: "admission \<Rightarrow> int \<times> int \<times> int" where
  "limits a = (ad_maxInflight a, ad_maxQueue a, ad_subjectCap a)"

lemma releaser_limits:
  assumes "releaser clk a subject = (i, a', mail)" "adm_counts a (add_mset subject S)"
  shows "limits a' = limits a"
  using dispatch_spec [OF assms(1) [unfolded releaser_def] leave_counts [OF assms(2)]]
  by (simp add: leave_def limits_def)

lemma adm_step_limits: "adm_step s s' \<Longrightarrow> adm_inv s \<Longrightarrow> limits (sy_adm s') = limits (sy_adm s)"
proof (induction rule: adm_step.induct)
  case (served_too_late w s clk a mail)
  have "serving (sy_held s) (sy_mail s) = add_mset (w_subject w) (serving (sy_held s) (remove1 (w, True) (sy_mail s)))"
    using serving_told [OF served_too_late(1)] by (simp add: serving_def)
  moreover obtain i b where "releaser clk (sy_adm s) (w_subject w) = (i, b, mail)" "limits a = limits b"
    using served_too_late(2) by (auto simp: give_back_def limits_def split: prod.splits)
  ultimately show ?case using releaser_limits served_too_late(3) by (auto simp: adm_inv_def)
next
  case (leaves subject s clk i a mail)
  have "serving (sy_held s) (sy_mail s) = add_mset subject (serving (remove1 subject (sy_held s)) (sy_mail s))"
    using leaves(1) by (simp add: serving_def)
  with releaser_limits [OF leaves(2)] leaves(3) show ?case by (auto simp: adm_inv_def)
qed (auto elim!: acquire_enter_cases simp: limits_def admit_def enqueue_def abandon_def shed_expired_def)

lemma newAdmission_inv:
  assumes "newAdmission opts = Some a"
  shows "adm_inv \<lparr>sy_adm = a, sy_mail = [], sy_held = [], sy_next = 0\<rparr>"
    "limits a = (ao_MaxInflight opts, ao_MaxQueue opts, ad_subjectCap a)"
  using assms
  by (auto simp: newAdmission_def adm_inv_def adm_counts_def serving_def waiting_def counter_def limits_def Let_def
      split: if_splits)

lemma reachable_inv:
  assumes "adm_reachable opts s"
  shows "adm_inv s \<and> limits (sy_adm s) = limits (the (newAdmission opts))"
  using assms
proof induction
  case (step s s')
  then show ?case using adm_step_inv adm_step_limits by metis
qed (simp add: newAdmission_inv)

text \<open>A release frees one place, which goes to one waiter at most.\<close>

lemma releaser_grants:
  assumes "adm_inv s" "subject \<in> set (sy_held s)" "releaser clk (sy_adm s) subject = (i, a', mail)"
    "(w, True) \<in> set mail"
  obtains i1 a1 mail1 where
    "scan clk 0 (leave (sy_adm s) subject) None (ad_queue (sy_adm s)) = (i1, a1, Some w, mail1)"
    "a' = grant a1 w" "mail = mail1 @ [(w, True)]"
proof -
  let ?b = "leave (sy_adm s) subject"
  have S: "adm_counts (sy_adm s) (add_mset subject (serving (remove1 subject (sy_held s)) (sy_mail s)))"
    using assms(1,2) by (simp add: adm_inv_def serving_def)
  note b = leave_counts [OF S]
  have d: "dispatchLocked clk 0 ?b = (i, a', mail)" using assms(3) by (simp add: releaser_def)
  have ne: "ad_queue (sy_adm s) \<noteq> []" using dispatch_spec [OF d b] assms(4) by (auto simp: leave_def)
  then have full: "ad_inflight ?b + 1 = ad_maxInflight ?b" using assms(1) by (simp add: adm_inv_def leave_def)
  obtain i1 a1 best mail1 where sc: "scan clk 0 ?b None (ad_queue ?b) = (i1, a1, best, mail1)" by (metis prod_cases4)
  note sp = scan_queue_spec [OF sc b]
  have nt: "(x, True) \<notin> set mail1" for x using sp(3) by (auto simp: filter_empty_conv)
  show ?thesis
  proof (cases best)
    case None
    then have "mail = mail1" using d full sc by (simp add: dispatchLocked.simps [of clk 0])
    with nt assms(4) show ?thesis by simp
  next
    case (Some v)
    have "ad_inflight (grant a1 v) = ad_maxInflight (grant a1 v)"
      using full sp(2) by (simp add: grant_def same_places_def)
    then have "dispatchLocked clk i1 (grant a1 v) = (i1, grant a1 v, [])" by (simp add: dispatchLocked.simps [of clk i1])
    then have "mail = mail1 @ [(v, True)]" "a' = grant a1 v" using d full sc Some by (simp_all add: dispatchLocked.simps [of clk 0])
    moreover have "w = v" using assms(4) nt calculation(1) by auto
    ultimately show ?thesis using that sc Some by (simp add: leave_def)
  qed
qed

subsection \<open>Properties\<close>

text \<open>C14: the queue in front of the policy engine keeps its limits and wastes no place.  In every state
  reachable by any interleaving of arrivals, verdicts, cancellations and releases, the requests that
  run are counted exactly and never exceed the maximum, the waiters never exceed the queue, no
  subject holds more than its share of both together, and nobody waits while a place is free.\<close>

theorem admission_limits_hold:
  assumes "newAdmission opts = Some a0" and "adm_reachable opts s"
  shows "ad_inflight (sy_adm s) = int (size (serving (sy_held s) (sy_mail s))) \<and>
    ad_inflight (sy_adm s) \<le> ao_MaxInflight opts \<and>
    int (length (ad_queue (sy_adm s))) \<le> max 0 (ao_MaxQueue opts) \<and>
    int (count (serving (sy_held s) (sy_mail s) + waiting (sy_adm s)) subject) \<le> ad_subjectCap a0 \<and>
    (ad_queue (sy_adm s) = [] \<or> ad_inflight (sy_adm s) = ao_MaxInflight opts)"
proof -
  from reachable_inv [OF assms(2)] have "adm_inv s" "limits (sy_adm s) = limits a0" by (simp_all add: assms(1))
  moreover have "adm_counts (sy_adm s) (serving (sy_held s) (sy_mail s))" using calculation by (simp add: adm_inv_def)
  note adm_countsD [OF this]
  ultimately show ?thesis
    using newAdmission_inv(2) [OF assms(1)] by (simp add: adm_inv_def limits_def) metis
qed

text \<open>One place and two seats in the queue: the first request runs, two others wait.\<close>

definition opts_ex :: AdmissionOptions where
  "opts_ex = \<lparr>ao_MaxInflight = 1, ao_MaxQueue = 2, ao_SubjectShare = 33, ao_MinService = 1\<rparr>"

definition adm_ex :: admission where "adm_ex = the (newAdmission opts_ex)"

definition waiter_ex :: waiter where "waiter_ex = \<lparr>w_id = 0, w_subject = ''b'', w_deadline = 100\<rparr>"

definition waiter_ex2 :: waiter where "waiter_ex2 = \<lparr>w_id = 1, w_subject = ''c'', w_deadline = 100\<rparr>"

definition sys_ex :: adm_system where
  "sys_ex = \<lparr>sy_adm = enqueue (enqueue (admit adm_ex ''a'') waiter_ex) waiter_ex2, sy_mail = [], sy_held = [''a''], sy_next = 2\<rparr>"

lemma adm_ex_new: "newAdmission opts_ex = Some adm_ex"
  by (simp add: adm_ex_def newAdmission_def opts_ex_def Let_def)

lemma adm_ex_fields: "ad_subjectCap adm_ex = 1" "ad_maxInflight adm_ex = 1" "ad_maxQueue adm_ex = 2" "ad_inflight adm_ex = 0"
    "ad_queue adm_ex = []" "ad_perSubject adm_ex = []" "ad_running adm_ex = []" "ad_minService adm_ex = 1"
  by (simp_all add: adm_ex_def newAdmission_def opts_ex_def Let_def)

lemma sys_ex_reachable: "adm_reachable opts_ex sys_ex"
proof -
  let ?s0 = "\<lparr>sy_adm = adm_ex, sy_mail = [], sy_held = [], sy_next = 0\<rparr>"
  let ?s1 = "?s0\<lparr>sy_adm := admit adm_ex ''a'', sy_held := [''a'']\<rparr>"
  let ?s2 = "?s1\<lparr>sy_adm := enqueue (admit adm_ex ''a'') waiter_ex, sy_next := 1\<rparr>"
  have "acquire_enter (sy_adm ?s0) ''a'' 100 (sy_next ?s0) 0 = (admit adm_ex ''a'', Granted)"
    by (simp add: acquire_enter_def adm_ex_fields counter_def)
  from arrives_served [OF this] have 1: "adm_step ?s0 ?s1" by simp
  have "acquire_enter (sy_adm ?s1) ''b'' 100 (sy_next ?s1) 0 = (enqueue (admit adm_ex ''a'') waiter_ex, Waiting)"
    by (simp add: acquire_enter_def adm_ex_fields admit_def waiter_ex_def counter_def incr_def put_def)
  from arrives_waits [OF this] have 2: "adm_step ?s1 ?s2" by simp
  have "acquire_enter (sy_adm ?s2) ''c'' 100 (sy_next ?s2) 0 =
      (enqueue (enqueue (admit adm_ex ''a'') waiter_ex) waiter_ex2, Waiting)"
    by (simp add: acquire_enter_def adm_ex_fields admit_def waiter_ex_def waiter_ex2_def enqueue_def counter_def incr_def put_def)
  from arrives_waits [OF this] have 3: "adm_step ?s2 sys_ex" by (simp add: sys_ex_def numeral_2_eq_2)
  from adm_reachable.step [OF adm_reachable.step [OF adm_reachable.step [OF adm_reachable.start [OF adm_ex_new] 1] 2] 3]
  show ?thesis .
qed

theorem admission_limits_hold_witness:
  "ad_queue (sy_adm sys_ex) \<noteq> [] \<and> ad_inflight (sy_adm sys_ex) = 1 \<and>
   int (count (serving (sy_held sys_ex) (sy_mail sys_ex) + waiting (sy_adm sys_ex)) ''b'') \<le> 1"
  using admission_limits_hold [OF adm_ex_new sys_ex_reachable, of "''b''"]
  by (simp add: adm_ex_fields opts_ex_def) (simp add: sys_ex_def enqueue_def)

text \<open>a freed place goes to the subject served least.  When a request ends, at most one waiter is
  given its place; of everyone left in the queue, none has a subject with fewer requests running, and
  none with as few arrived before.\<close>

lemma freed_place_goes_to_least_served:
  assumes "adm_reachable opts s" and "subject \<in> set (sy_held s)"
    and "releaser clk (sy_adm s) subject = (i, a', mail)" and "(w, True) \<in> set mail"
  shows "length (filter snd mail) = 1 \<and>
    (\<forall>w' \<in> set (ad_queue a'). ahead (leave (sy_adm s) subject) w w' \<and> w \<noteq> w')"
proof -
  from reachable_inv [OF assms(1)] have inv: "adm_inv s" by simp
  from releaser_grants [OF inv assms(2-4)] obtain i1 a1 mail1 where
    sc: "scan clk 0 (leave (sy_adm s) subject) None (ad_queue (leave (sy_adm s) subject)) = (i1, a1, Some w, mail1)"
    and a': "a' = grant a1 w" and m: "mail = mail1 @ [(w, True)]"
    by (auto simp: leave_def)
  have "adm_counts (leave (sy_adm s) subject) (serving (remove1 subject (sy_held s)) (sy_mail s))"
    using inv assms(2) by (intro leave_counts) (simp add: adm_inv_def serving_def)
  note sp = scan_queue_spec [OF sc this] and srt = adm_countsD(7) [OF this]
  have "ahead (leave (sy_adm s) subject) w w' \<and> w \<noteq> w'" if "w' \<in> set (ad_queue a')" for w'
    using that sp(4) scan_ahead [OF sc refl srt] by (auto simp: a' grant_def)
  with sp(3) show ?thesis by (simp add: m)
qed

end
