(* ===== verification/OPA_Client.thy ===== *)
theory OPA_Client
  imports OPA_Admission Quota_Ledger Cluster_Votes
begin

text \<open>
  The client of the policy engine (\<open>src/src/pep/opa_client.go\<close>): the request it sends, the
  classification of every way the exchange can end, the decision leaf, the counter of consecutive
  faults that trips the fail-closed point, and the detection of an engine that no longer answers.

  The engine is not part of the repository.  What one call observes of it is an \<open>exchange\<close>: whether
  the request could be built and sent, the status and body of the answer, and which of the two
  contexts had ended when an error was looked at.  A call is given the function from the request it
  builds to the exchange that follows.  The admission queue in front of the engine is modelled in
  \<open>OPA_Admission\<close>; a call is given the outcome of its \<open>acquire\<close>.
\<close>

subsection \<open>Requests and answers\<close>

definition EvalTimeout :: int where "EvalTimeout = 5 * (second div 1000)"
definition minUnansweredForStall :: int where "minUnansweredForStall = 3"
definition overloadedHoldMS :: int where "overloadedHoldMS = 5000"

definition ReasonOPADeny :: string where "ReasonOPADeny = ''opa-deny''"
definition ReasonOPAUndefined :: string where "ReasonOPAUndefined = ''opa-undefined''"
definition ReasonOPATimeout :: string where "ReasonOPATimeout = ''opa-timeout''"
definition ReasonOPAUnreachable :: string where "ReasonOPAUnreachable = ''opa-unreachable''"
definition ReasonOPAError :: string where "ReasonOPAError = ''opa-error''"
definition ReasonOPABadResponse :: string where "ReasonOPABadResponse = ''opa-bad-response''"
definition ReasonOPACallerCancelled :: string where "ReasonOPACallerCancelled = ''opa-caller-cancelled''"
definition ReasonOPAOverloaded :: string where "ReasonOPAOverloaded = ''opa-overloaded''"
definition ReasonOPAStalled :: string where "ReasonOPAStalled = ''opa-stalled''"

lemmas opa_reasons = ReasonOPADeny_def ReasonOPAUndefined_def ReasonOPATimeout_def ReasonOPAUnreachable_def
  ReasonOPAError_def ReasonOPABadResponse_def ReasonOPACallerCancelled_def ReasonOPAOverloaded_def
  ReasonOPAStalled_def ReasonOK_def ReasonLeafWriteFailed_def

record DryRunEntry =
  de_Object :: string
  de_Field :: string
  de_Kind :: string

record DryRunInput =
  dr_Available :: bool
  dr_DiffHash :: string
  dr_EntryCount :: nat
  dr_Entries :: "DryRunEntry list"

record SkillInput =
  sk_RiskTier :: string
  sk_ScopeSize :: nat

record OPAInput =
  oi_JTI :: bytes
  oi_Subject :: string
  oi_Action :: string
  oi_Resource :: string
  oi_Class :: Class
  oi_Epoch :: u64
  oi_DryRun :: "DryRunInput option"
  oi_Skill :: "SkillInput option"

fun class_num :: "Class \<Rightarrow> nat" where
  "class_num ClassF = 0" | "class_num ClassI = 1" | "class_num ClassW = 2" | "class_num ClassOut = 3"

record opaRequest =
  or_JTI :: string
  or_Subject :: string
  or_Action :: string
  or_Resource :: string
  or_Class :: nat
  or_Epoch :: u64
  or_DryRun :: "DryRunInput option"
  or_Skill :: "SkillInput option"

definition request_of :: "OPAInput \<Rightarrow> opaRequest" where
  "request_of i = \<lparr>or_JTI = hex_encode (oi_JTI i), or_Subject = oi_Subject i, or_Action = oi_Action i,
     or_Resource = oi_Resource i, or_Class = class_num (oi_Class i), or_Epoch = oi_Epoch i,
     or_DryRun = oi_DryRun i, or_Skill = oi_Skill i\<rparr>"

text \<open>The body of an answer: not decodable, without \<open>result\<close>, without \<open>allow\<close>, or a verdict.\<close>

datatype opaResponse = Undecodable | ResultNil | AllowNil | AllowIs bool

record exchange =
  ex_marshalled :: bool
  ex_built :: bool
  ex_answer :: "(nat \<times> opaResponse) option"
  ex_caller_done :: bool
  ex_deadline :: bool

subsection \<open>The client\<close>

record OPADecision =
  od_Allow :: bool
  od_Reason :: string
  od_LeafWritten :: bool
  od_LeafErr :: "reg_error option"

record OPAOptions =
  oo_Endpoint :: string
  oo_Timeout :: int
  oo_CellID :: string
  oo_Salt :: bytes
  oo_TripAfter :: int
  oo_Admission :: AdmissionOptions
  oo_StallWindow :: int

record OPAClient =
  oc_timeout :: int
  oc_cellID :: string
  oc_salt :: bytes
  oc_tripAfter :: int
  oc_faults :: int
  oc_adm :: "admission option"
  oc_stallWindow :: int
  oc_lastAlive :: int
  oc_unanswered :: int

definition NewOPAClient :: "OPAOptions \<Rightarrow> time \<Rightarrow> OPAClient option" where
  "NewOPAClient opts now =
     (let a = oo_Admission opts
      in if oo_Endpoint opts = [] then None
         else if oo_CellID opts = [] then None
         else if length (oo_Salt opts) < 16 then None
         else if oo_Timeout opts < 0 then None
         else if oo_TripAfter opts < 0 then None
         else if oo_StallWindow opts < 0 then None
         else if ao_MaxInflight a < 0 \<or> ao_MaxQueue a < 0 \<or> ao_SubjectShare a < 0 \<or> ao_SubjectShare a > 100 \<or>
                 ao_MinService a < 0 then None
         else Some \<lparr>oc_timeout = (if oo_Timeout opts = 0 then EvalTimeout else oo_Timeout opts),
            oc_cellID = oo_CellID opts, oc_salt = oo_Salt opts,
            oc_tripAfter = (if oo_TripAfter opts = 0 then 1 else oo_TripAfter opts), oc_faults = 0,
            oc_adm = newAdmission a, oc_stallWindow = oo_StallWindow opts, oc_lastAlive = unix_nano now,
            oc_unanswered = 0\<rparr>)"

text \<open>Who ended: the caller's context first, then the budget of the call.\<close>

definition classifyContextFault :: "exchange \<Rightarrow> string option" where
  "classifyContextFault e =
     (if ex_caller_done e then Some ReasonOPACallerCancelled
      else if ex_deadline e then Some ReasonOPATimeout else None)"

definition Stalled :: "OPAClient \<Rightarrow> time \<Rightarrow> bool" where
  "Stalled c now \<longleftrightarrow> \<not> oc_stallWindow c \<le> 0 \<and> oc_unanswered c \<ge> minUnansweredForStall \<and>
     time_sub now (oc_lastAlive c) \<ge> oc_stallWindow c"

definition noteAlive :: "OPAClient \<Rightarrow> time \<Rightarrow> OPAClient" where
  "noteAlive c now = c\<lparr>oc_lastAlive := unix_nano now, oc_unanswered := 0\<rparr>"

definition noteUnanswered :: "OPAClient \<Rightarrow> time \<Rightarrow> OPAClient \<times> string list" where
  "noteUnanswered c now =
     (let c' = c\<lparr>oc_unanswered := wrap64 (oc_unanswered c + 1)\<rparr>
      in (c', if Stalled c' now then [ReasonOPAStalled] else []))"

text \<open>The counter of faults, then the leaf; an allow without its leaf is a refusal.\<close>

definition count_fault :: "OPAClient \<Rightarrow> string \<Rightarrow> OPAClient \<times> string list" where
  "count_fault c reason =
     (if reason = ReasonOPATimeout \<or> reason = ReasonOPAUnreachable \<or> reason = ReasonOPAError
      then let n = wrap64 (oc_faults c + 1)
           in (c\<lparr>oc_faults := n\<rparr>, if n \<ge> oc_tripAfter c then [reason] else [])
      else if reason = ReasonOPABadResponse
      then (c\<lparr>oc_faults := wrap64 (oc_faults c + 1)\<rparr>, [reason])
      else if reason = ReasonOPACallerCancelled \<or> reason = ReasonOPAOverloaded then (c, [])
      else (c\<lparr>oc_faults := 0\<rparr>, []))"

definition opa_finish ::
  "(bytes \<Rightarrow> bytes) \<Rightarrow> registry \<Rightarrow> OPAClient \<Rightarrow> bytes \<Rightarrow> bool \<Rightarrow> string \<Rightarrow> time
     \<Rightarrow> registry \<times> OPAClient \<times> string list \<times> OPADecision" where
  "opa_finish sha r c jti allow reason now =
     (let (c', al) = count_fault c reason
      in case AppendLeaf sha r KindDecision (oc_cellID c) (oc_salt c) (decisionLeafRecord jti allow reason) (unix_nano now) of
           (r', Inl e) \<Rightarrow> (r', c', al, \<lparr>od_Allow = False, od_Reason = (if allow then ReasonLeafWriteFailed else reason),
                                     od_LeafWritten = False, od_LeafErr = Some e\<rparr>)
         | (r', Inr _) \<Rightarrow> (r', c', al, \<lparr>od_Allow = allow, od_Reason = reason, od_LeafWritten = True, od_LeafErr = None\<rparr>))"

text \<open>The outcome of the exchange, with what it shows about the life of the engine.\<close>

datatype life = Alive | Silent | Unknown

definition outcome_of :: "exchange \<Rightarrow> life \<times> bool \<times> string" where
  "outcome_of e =
     (if \<not> ex_marshalled e then (Unknown, False, ReasonOPABadResponse)
      else if \<not> ex_built e then (Unknown, False, ReasonOPAUnreachable)
      else case ex_answer e of
        None \<Rightarrow>
          let reason = (case classifyContextFault e of Some why \<Rightarrow> why | None \<Rightarrow> ReasonOPAUnreachable)
          in (if reason \<noteq> ReasonOPACallerCancelled then Silent else Unknown, False, reason)
      | Some (status, body) \<Rightarrow>
          if status \<noteq> 200 then (Alive, False, ReasonOPAError)
          else (case body of
             Undecodable \<Rightarrow> (Alive, False, (case classifyContextFault e of Some why \<Rightarrow> why | None \<Rightarrow> ReasonOPABadResponse))
           | ResultNil \<Rightarrow> (Alive, False, ReasonOPAUndefined)
           | AllowNil \<Rightarrow> (Alive, False, ReasonOPABadResponse)
           | AllowIs b \<Rightarrow> if b then (Alive, True, ReasonOK) else (Alive, False, ReasonOPADeny)))"

definition Eval ::
  "(bytes \<Rightarrow> bytes) \<Rightarrow> registry \<Rightarrow> OPAClient \<Rightarrow> OPAInput \<Rightarrow> acquired \<Rightarrow> bool \<Rightarrow> (opaRequest \<Rightarrow> exchange) \<Rightarrow> time \<Rightarrow> time
     \<Rightarrow> registry \<times> OPAClient \<times> string list \<times> OPADecision" where
  "Eval sha r c i acq caller_done ask now lnow =
     (if oc_adm c \<noteq> None \<and> acq \<noteq> Granted
      then opa_finish sha r c (oi_JTI i) False
             (if caller_done then ReasonOPACallerCancelled else ReasonOPAOverloaded) lnow
      else case outcome_of (ask (request_of i)) of
        (life, allow, reason) \<Rightarrow>
          let (c1, al1) = (case life of Alive \<Rightarrow> (noteAlive c now, []) | Silent \<Rightarrow> noteUnanswered c now | Unknown \<Rightarrow> (c, []))
          in case opa_finish sha r c1 (oi_JTI i) allow reason lnow of
               (r', c2, al2, d) \<Rightarrow> (r', c2, al1 @ al2, d))"

record OPAStatus =
  os_State :: string
  os_Stalled :: bool
  os_SilentMS :: int
  os_Unanswered :: int
  os_ConsecutiveFaults :: int
  os_Admission :: "AdmissionStats option"

definition opa_Status :: "OPAClient \<Rightarrow> time \<Rightarrow> OPAStatus" where
  "opa_Status c now =
     \<lparr>os_State = (if Stalled c now then ''stalled''
        else case oc_adm c of None \<Rightarrow> ''healthy''
        | Some a \<Rightarrow> let s = snapshot a now
            in if as_Queued s > 0 \<or> as_SinceLastShedMS s \<ge> 0 \<and> as_SinceLastShedMS s < overloadedHoldMS
               then ''overloaded'' else ''healthy''),
      os_Stalled = Stalled c now, os_SilentMS = milliseconds (time_sub now (oc_lastAlive c)),
      os_Unanswered = oc_unanswered c, os_ConsecutiveFaults = oc_faults c,
      os_Admission = map_option (\<lambda>a. snapshot a now) (oc_adm c)\<rparr>"

subsection \<open>What a call decides\<close>

lemma outcome_allow: "outcome_of e = (l, True, reason) \<longleftrightarrow>
    ex_marshalled e \<and> ex_built e \<and> ex_answer e = Some (200, AllowIs True) \<and> l = Alive \<and> reason = ReasonOK"
  by (auto simp: outcome_of_def Let_def split: option.splits opaResponse.splits if_splits)

text \<open>The reason a call gives before its leaf, whether the queue or the exchange gave it.\<close>

definition raw_outcome :: "OPAClient \<Rightarrow> OPAInput \<Rightarrow> acquired \<Rightarrow> bool \<Rightarrow> (opaRequest \<Rightarrow> exchange) \<Rightarrow> bool \<times> string" where
  "raw_outcome c i acq caller_done ask =
     (if oc_adm c \<noteq> None \<and> acq \<noteq> Granted
      then (False, if caller_done then ReasonOPACallerCancelled else ReasonOPAOverloaded)
      else snd (outcome_of (ask (request_of i))))"

definition noted :: "OPAClient \<Rightarrow> OPAClient \<Rightarrow> bool" where
  "noted c c' \<longleftrightarrow> oc_cellID c' = oc_cellID c \<and> oc_salt c' = oc_salt c \<and> oc_tripAfter c' = oc_tripAfter c \<and>
     oc_faults c' = oc_faults c \<and> oc_adm c' = oc_adm c"

lemma Eval_finish:
  assumes "Eval sha r c i acq caller_done ask now lnow = (r', c', al, d)"
    "raw_outcome c i acq caller_done ask = (allow, reason)"
  obtains c1 al1 al2 where "noted c c1" "set al1 \<subseteq> {ReasonOPAStalled}" "al = al1 @ al2"
    "opa_finish sha r c1 (oi_JTI i) allow reason lnow = (r', c', al2, d)"
proof (cases "oc_adm c \<noteq> None \<and> acq \<noteq> Granted")
  case True
  with assms that [of c "[]" al] show ?thesis by (auto simp: Eval_def raw_outcome_def noted_def)
next
  case False
  obtain life where o: "outcome_of (ask (request_of i)) = (life, allow, reason)"
    using assms(2) False by (cases "outcome_of (ask (request_of i))") (auto simp: raw_outcome_def)
  obtain c1 al1 where n: "(case life of Alive \<Rightarrow> (noteAlive c now, []) | Silent \<Rightarrow> noteUnanswered c now | Unknown \<Rightarrow> (c, [])) = (c1, al1)"
    by fastforce
  obtain r2 c2 al2 d2 where f: "opa_finish sha r c1 (oi_JTI i) allow reason lnow = (r2, c2, al2, d2)" by (metis prod_cases4)
  have "noted c c1" "set al1 \<subseteq> {ReasonOPAStalled}"
    using n by (auto simp: noted_def noteAlive_def noteUnanswered_def Let_def split: life.splits)
  moreover have "(r', c', al, d) = (r2, c2, al1 @ al2, d2)"
    using assms(1) by (simp only: Eval_def False if_False o n f prod.case Let_def)
  ultimately show ?thesis using f that [of c1 al1 al2] by simp
qed

lemma opa_finish_cases:
  assumes "opa_finish sha r c jti allow reason now = (r', c', al, d)"
  obtains (written) n where "count_fault c reason = (c', al)"
      "AppendLeaf sha r KindDecision (oc_cellID c) (oc_salt c) (decisionLeafRecord jti allow reason) (unix_nano now) = (r', Inr n)"
      "d = \<lparr>od_Allow = allow, od_Reason = reason, od_LeafWritten = True, od_LeafErr = None\<rparr>"
  | (unwritten) e where "count_fault c reason = (c', al)"
      "AppendLeaf sha r KindDecision (oc_cellID c) (oc_salt c) (decisionLeafRecord jti allow reason) (unix_nano now) = (r', Inl e)"
      "d = \<lparr>od_Allow = False, od_Reason = (if allow then ReasonLeafWriteFailed else reason), od_LeafWritten = False, od_LeafErr = Some e\<rparr>"
  using assms by (auto simp: opa_finish_def split: prod.splits sum.splits)

lemma Eval_leaf:
  assumes "Eval sha r c i acq caller_done ask now lnow = (r', c', al, d)"
  shows "od_LeafWritten d \<longleftrightarrow> od_LeafErr d = None"
proof -
  obtain allow reason where raw: "raw_outcome c i acq caller_done ask = (allow, reason)" by fastforce
  obtain c1 al1 al2 where f: "opa_finish sha r c1 (oi_JTI i) allow reason lnow = (r', c', al2, d)"
    by (rule Eval_finish [OF assms raw])
  then show ?thesis by (cases rule: opa_finish_cases) auto
qed

lemma Eval_allow:
  assumes "Eval sha r c i acq caller_done ask now lnow = (r', c', al, d)" "od_Allow d"
  shows "ex_answer (ask (request_of i)) = Some (200, AllowIs True)"
proof -
  obtain allow reason where raw: "raw_outcome c i acq caller_done ask = (allow, reason)" by fastforce
  obtain c1 al1 al2 where f: "opa_finish sha r c1 (oi_JTI i) allow reason lnow = (r', c', al2, d)"
    by (rule Eval_finish [OF assms(1) raw])
  then have allow using assms(2) by (cases rule: opa_finish_cases) auto
  with raw show ?thesis
    using outcome_allow by (cases "outcome_of (ask (request_of i))") (auto simp: raw_outcome_def split: if_splits)
qed

text \<open>The streak of faults of a history of reasons: faults since the last sign of health, calls that never
  reached the engine left aside.\<close>

definition availability_fault :: "string \<Rightarrow> bool" where
  "availability_fault r \<longleftrightarrow> r \<in> {ReasonOPATimeout, ReasonOPAUnreachable, ReasonOPAError}"

definition engine_fault :: "string \<Rightarrow> bool" where
  "engine_fault r \<longleftrightarrow> availability_fault r \<or> r = ReasonOPABadResponse"

definition no_evidence :: "string \<Rightarrow> bool" where
  "no_evidence r \<longleftrightarrow> r \<in> {ReasonOPACallerCancelled, ReasonOPAOverloaded}"

definition streak :: "string list \<Rightarrow> nat" where
  "streak rs = length (filter engine_fault (takeWhile (\<lambda>r. engine_fault r \<or> no_evidence r) (rev rs)))"

lemma fault_kinds:
  "\<not> (engine_fault r \<and> no_evidence r)" "\<not> engine_fault ReasonOK" "\<not> no_evidence ReasonOK"
  "\<not> engine_fault ReasonLeafWriteFailed" "\<not> no_evidence ReasonLeafWriteFailed"
  "\<not> engine_fault ReasonOPAStalled" "\<not> availability_fault ReasonOPABadResponse"
  by (auto simp: engine_fault_def availability_fault_def no_evidence_def opa_reasons)

lemma streak_snoc:
  "streak (rs @ [r]) = (if engine_fault r then streak rs + 1 else if no_evidence r then streak rs else 0)"
  using fault_kinds(1) [of r] by (auto simp: streak_def)

lemma streak_le: "streak rs \<le> length rs"
  by (induction rs rule: rev_induct) (auto simp: streak_snoc streak_def)

lemma count_fault_kinds:
  "count_fault c reason =
     (if availability_fault reason
      then (c\<lparr>oc_faults := wrap64 (oc_faults c + 1)\<rparr>, if wrap64 (oc_faults c + 1) \<ge> oc_tripAfter c then [reason] else [])
      else if reason = ReasonOPABadResponse then (c\<lparr>oc_faults := wrap64 (oc_faults c + 1)\<rparr>, [reason])
      else if no_evidence reason then (c, []) else (c\<lparr>oc_faults := 0\<rparr>, []))"
  by (simp add: count_fault_def availability_fault_def no_evidence_def Let_def)

lemma count_fault_streak:
  assumes "count_fault c reason = (c', al)" "oc_faults c = int n" "int n < 2 ^ 63 - 1"
  shows "oc_faults c' = (if engine_fault reason then int n + 1 else if no_evidence reason then int n else 0)"
    "reason \<in> set al \<longleftrightarrow> reason = ReasonOPABadResponse \<or> availability_fault reason \<and> oc_tripAfter c \<le> int n + 1"
    "set al \<subseteq> {reason}" "oc_tripAfter c' = oc_tripAfter c" "oc_adm c' = oc_adm c"
proof -
  have "wrap64 (int n + 1) = int n + 1" using assms(3) by (simp add: int64_def)
  with assms(1,2) fault_kinds(1) [of reason] fault_kinds(7)
  show "oc_faults c' = (if engine_fault reason then int n + 1 else if no_evidence reason then int n else 0)"
    "reason \<in> set al \<longleftrightarrow> reason = ReasonOPABadResponse \<or> availability_fault reason \<and> oc_tripAfter c \<le> int n + 1"
    "set al \<subseteq> {reason}" "oc_tripAfter c' = oc_tripAfter c" "oc_adm c' = oc_adm c"
    by (auto simp: count_fault_kinds engine_fault_def split: if_splits)
qed

subsection \<open>Histories\<close>

record opa_call =
  cl_input :: OPAInput
  cl_acquired :: acquired
  cl_caller_done :: bool
  cl_ask :: "opaRequest \<Rightarrow> exchange"
  cl_now :: time
  cl_leaf_now :: time

primrec opa_run ::
  "(bytes \<Rightarrow> bytes) \<Rightarrow> registry \<times> OPAClient \<Rightarrow> opa_call list \<Rightarrow> string list \<times> registry \<times> OPAClient" where
  "opa_run sha rc [] = ([], rc)"
| "opa_run sha rc (q # qs) =
     (case Eval sha (fst rc) (snd rc) (cl_input q) (cl_acquired q) (cl_caller_done q) (cl_ask q) (cl_now q) (cl_leaf_now q) of
        (r, c, al, d) \<Rightarrow> (case opa_run sha (r, c) qs of (rs, rc') \<Rightarrow> (od_Reason d # rs, rc')))"

lemma raw_not_stalled:
  assumes "raw_outcome c i acq caller_done ask = (allow, reason)"
  shows "reason \<noteq> ReasonOPAStalled"
proof -
  have "snd (snd (outcome_of e)) \<noteq> ReasonOPAStalled" for e
    by (simp add: outcome_of_def classifyContextFault_def opa_reasons Let_def
        split: option.split opaResponse.split prod.split)
  from this [of "ask (request_of i)"] assms show ?thesis
    by (auto simp: raw_outcome_def opa_reasons split: if_splits)
qed

lemma Eval_fault_count:
  assumes "Eval sha r c i acq caller_done ask now lnow = (r', c', al, d)" "oc_faults c = int n" "int n < 2 ^ 63 - 1"
  shows "oc_faults c' = (if engine_fault (od_Reason d) then int n + 1 else if no_evidence (od_Reason d) then int n else 0)"
    "od_Reason d \<in> set al \<longleftrightarrow>
       od_Reason d = ReasonOPABadResponse \<or> availability_fault (od_Reason d) \<and> oc_tripAfter c \<le> int n + 1"
    "oc_tripAfter c' = oc_tripAfter c" "set al \<subseteq> {od_Reason d, ReasonOPAStalled}"
proof -
  obtain allow reason where raw: "raw_outcome c i acq caller_done ask = (allow, reason)" by fastforce
  obtain c1 al1 al2 where n: "noted c c1" "set al1 \<subseteq> {ReasonOPAStalled}" "al = al1 @ al2"
    and f: "opa_finish sha r c1 (oi_JTI i) allow reason lnow = (r', c', al2, d)"
    by (rule Eval_finish [OF assms(1) raw])
  have cf: "count_fault c1 reason = (c', al2)" using f by (cases rule: opa_finish_cases) auto
  have c1: "oc_faults c1 = int n" "oc_tripAfter c1 = oc_tripAfter c" using n(1) assms(2) by (simp_all add: noted_def)
  note k = count_fault_streak [OF cf c1(1) assms(3)]
  have ok: "reason = ReasonOK" if allow
    using raw that outcome_allow by (cases "outcome_of (ask (request_of i))") (auto simp: raw_outcome_def split: if_splits)
  have same: "od_Reason d = reason \<or> reason = ReasonOK \<and> od_Reason d = ReasonLeafWriteFailed"
    using f ok by (cases rule: opa_finish_cases) auto
  have st: "\<not> availability_fault ReasonOPAStalled" "ReasonOPAStalled \<noteq> ReasonOPABadResponse"
    using fault_kinds(6) by (auto simp: engine_fault_def)
  show "oc_faults c' = (if engine_fault (od_Reason d) then int n + 1 else if no_evidence (od_Reason d) then int n else 0)"
    using k(1) same fault_kinds(2-5) by auto
  show "set al \<subseteq> {od_Reason d, ReasonOPAStalled}"
    using k(2,3) same n(2,3) fault_kinds(2) by (auto simp: engine_fault_def)
  show "oc_tripAfter c' = oc_tripAfter c" using k(4) c1(2) by simp
  have "od_Reason d \<noteq> ReasonOPAStalled" using raw_not_stalled [OF raw] same by (auto simp: opa_reasons)
  then show "od_Reason d \<in> set al \<longleftrightarrow>
       od_Reason d = ReasonOPABadResponse \<or> availability_fault (od_Reason d) \<and> oc_tripAfter c \<le> int n + 1"
    using k(2,3) same n(2,3) fault_kinds(2-5) c1(2) by (auto simp: engine_fault_def)
qed

lemma opa_run_streak:
  assumes "opa_run sha (r0, c0) qs = (rs, r, c)" "oc_faults c0 = int (streak before)"
    "int (length (before @ rs)) < 2 ^ 63"
  shows "oc_faults c = int (streak (before @ rs)) \<and> oc_tripAfter c = oc_tripAfter c0 \<and> length rs = length qs"
  using assms
proof (induction qs arbitrary: r0 c0 before rs)
  case (Cons q qs)
  obtain r1 c1 al d where e: "Eval sha r0 c0 (cl_input q) (cl_acquired q) (cl_caller_done q) (cl_ask q) (cl_now q) (cl_leaf_now q) = (r1, c1, al, d)"
    by (metis prod_cases4)
  obtain rs' where rs: "rs = od_Reason d # rs'" and run: "opa_run sha (r1, c1) qs = (rs', r, c)"
    using Cons.prems(1) e by (auto split: prod.splits)
  have "int (streak before) < 2 ^ 63 - 1" using Cons.prems(3) streak_le [of before] rs by simp
  note k = Eval_fault_count [OF e Cons.prems(2) this]
  have "oc_faults c1 = int (streak (before @ [od_Reason d]))" using k(1) by (simp add: streak_snoc)
  with Cons.IH [OF run this] Cons.prems(3) rs k(3) show ?case by simp
qed auto

subsection \<open>Properties\<close>

text \<open>an action passes the policy engine only on its explicit word, and the word is on record.  A call
  allows exactly when it was admitted by the queue, the engine answered the exact facts of the request
  with status 200 and a body whose verdict is true, and the decision leaf was written; every other
  ending, from a cancelled caller to a missing field, refuses.\<close>

lemma opa_allows_iff_engine_allows:
  assumes "Eval sha r c i acq caller_done ask now lnow = (r', c', al, d)"
  shows "od_Allow d \<longleftrightarrow>
    (oc_adm c = None \<or> acq = Granted) \<and>
    ex_marshalled (ask (request_of i)) \<and> ex_built (ask (request_of i)) \<and>
    ex_answer (ask (request_of i)) = Some (200, AllowIs True) \<and>
    (\<exists>n. AppendLeaf sha r KindDecision (oc_cellID c) (oc_salt c) (decisionLeafRecord (oi_JTI i) True ReasonOK)
           (unix_nano lnow) = (r', Inr n))"
proof -
  obtain allow reason where raw: "raw_outcome c i acq caller_done ask = (allow, reason)" by fastforce
  obtain c1 al1 al2 where n: "noted c c1"
    and f: "opa_finish sha r c1 (oi_JTI i) allow reason lnow = (r', c', al2, d)"
    by (rule Eval_finish [OF assms raw])
  have a: "allow \<longleftrightarrow> (oc_adm c = None \<or> acq = Granted) \<and> ex_marshalled (ask (request_of i)) \<and>
      ex_built (ask (request_of i)) \<and> ex_answer (ask (request_of i)) = Some (200, AllowIs True)"
    and ok: "allow \<Longrightarrow> reason = ReasonOK"
    using raw outcome_allow [of "ask (request_of i)"]
    by (cases "outcome_of (ask (request_of i))"; auto simp: raw_outcome_def split: if_splits)+
  from f show ?thesis
  proof (cases rule: opa_finish_cases)
    case written
    with a ok n show ?thesis by (auto simp: noted_def)
  next
    case unwritten
    with a ok n show ?thesis by (auto simp: noted_def)
  qed
qed

text \<open>C15: the fail-closed point is tripped by a streak, not by an accident.  In any history of a client, a
  call raises the alarm of its own fault exactly when the engine broke its contract, or when it
  could not answer and this fault closes a streak of at least \<open>TripAfter\<close> faults with no sign of
  health in between; calls that never reached the engine neither lengthen nor break the streak.\<close>

theorem trip_iff_fault_streak:
  assumes "NewOPAClient opts start = Some c0" and "opa_run sha (r0, c0) qs = (rs, r, c)"
    and "int (length rs) < 2 ^ 62"
    and "Eval sha r c i acq caller_done ask now lnow = (r', c', al, d)"
  shows "od_Reason d \<in> set al \<longleftrightarrow>
    od_Reason d = ReasonOPABadResponse \<or>
    availability_fault (od_Reason d) \<and> max 1 (oo_TripAfter opts) \<le> int (streak (rs @ [od_Reason d]))"
proof -
  from assms(1) have c0: "oc_faults c0 = int (streak [])" "oc_tripAfter c0 = max 1 (oo_TripAfter opts)"
    by (auto simp: NewOPAClient_def streak_def Let_def split: if_splits)
  from opa_run_streak [OF assms(2) c0(1)] assms(3)
  have c: "oc_faults c = int (streak rs)" "oc_tripAfter c = oc_tripAfter c0" by simp_all
  have "int (streak rs) < 2 ^ 63 - 1" using streak_le [of rs] assms(3) by simp
  from Eval_fault_count(2) [OF assms(4) c(1) this] c(2) c0(2) show ?thesis
    by (auto simp: streak_snoc engine_fault_def)
qed

text \<open>A client that trips on the second fault in a row, an engine that answers, and one that does not.\<close>

definition oopts_ex :: OPAOptions where
  "oopts_ex = \<lparr>oo_Endpoint = ''u'', oo_Timeout = 0, oo_CellID = ''c'', oo_Salt = zeros 16, oo_TripAfter = 2,
     oo_Admission = \<lparr>ao_MaxInflight = 0, ao_MaxQueue = 0, ao_SubjectShare = 0, ao_MinService = 0\<rparr>, oo_StallWindow = 0\<rparr>"

definition oclient_ex :: "int \<Rightarrow> OPAClient" where
  "oclient_ex n = \<lparr>oc_timeout = EvalTimeout, oc_cellID = ''c'', oc_salt = zeros 16, oc_tripAfter = 2, oc_faults = n,
     oc_adm = None, oc_stallWindow = 0, oc_lastAlive = 5, oc_unanswered = n\<rparr>"

definition olog_ex :: "leaf list \<Rightarrow> registry" where
  "olog_ex ls = \<lparr>rg_log = ls, rg_journal = None, rg_engaged = False, rg_clock = 1, rg_env = []\<rparr>"

definition oinput_ex :: OPAInput where
  "oinput_ex = \<lparr>oi_JTI = zeros 16, oi_Subject = ''a'', oi_Action = ''pay'', oi_Resource = ''r'', oi_Class = ClassF,
     oi_Epoch = 1, oi_DryRun = None, oi_Skill = None\<rparr>"

definition answers_ex :: "opaRequest \<Rightarrow> exchange" where
  "answers_ex rq = \<lparr>ex_marshalled = True, ex_built = True, ex_answer = Some (200, AllowIs (or_Action rq = ''pay'')),
     ex_caller_done = False, ex_deadline = False\<rparr>"

definition times_out_ex :: "opaRequest \<Rightarrow> exchange" where
  "times_out_ex rq = \<lparr>ex_marshalled = True, ex_built = True, ex_answer = None, ex_caller_done = False, ex_deadline = True\<rparr>"

definition ocall_ex :: opa_call where
  "ocall_ex = \<lparr>cl_input = oinput_ex, cl_acquired = Granted, cl_caller_done = False, cl_ask = times_out_ex, cl_now = 7, cl_leaf_now = 7\<rparr>"

definition oleaf_ex :: "bool \<Rightarrow> string \<Rightarrow> leaf" where
  "oleaf_ex allow reason = sealed_leaf (\<lambda>b. b) 1 ''c'' (zeros 16) (decisionLeafRecord (zeros 16) allow reason) 7"

lemma oclient_ex_new: "NewOPAClient oopts_ex 5 = Some (oclient_ex 0)"
  by (simp add: NewOPAClient_def oopts_ex_def oclient_ex_def newAdmission_def unix_nano_def int64_def Let_def)

lemma oleaf_ex_written:
  "AppendLeaf (\<lambda>b. b) (olog_ex ls) (Suc 0) ''c'' (zeros 16) (decisionLeafRecord (zeros 16) allow reason) (unix_nano 7) =
     (olog_ex (ls @ [oleaf_ex allow reason]), Inr (length ls))"
  by (subst AppendLeaf_plain) (simp_all add: plain_def olog_ex_def known_kind_def unix_nano_def int64_def oleaf_ex_def)

lemma answers_ex_eval:
  "Eval (\<lambda>b. b) (olog_ex ls) (oclient_ex 0) oinput_ex Granted False answers_ex 7 7 =
     (olog_ex (ls @ [oleaf_ex True ReasonOK]), oclient_ex 0\<lparr>oc_lastAlive := 7\<rparr>, [],
      \<lparr>od_Allow = True, od_Reason = ReasonOK, od_LeafWritten = True, od_LeafErr = None\<rparr>)"
proof -
  have "outcome_of (answers_ex (request_of oinput_ex)) = (Alive, True, ReasonOK)"
    by (simp add: outcome_of_def answers_ex_def request_of_def oinput_ex_def)
  moreover have "count_fault (noteAlive (oclient_ex 0) 7) ReasonOK = (oclient_ex 0\<lparr>oc_lastAlive := 7\<rparr>, [])"
    by (simp add: count_fault_def opa_reasons noteAlive_def oclient_ex_def unix_nano_def int64_def)
  moreover have "oc_cellID (noteAlive (oclient_ex 0) 7) = ''c''" "oc_salt (noteAlive (oclient_ex 0) 7) = zeros 16"
      "oc_adm (oclient_ex 0) = None" "oi_JTI oinput_ex = zeros 16"
    by (simp_all add: noteAlive_def oclient_ex_def oinput_ex_def)
  ultimately show ?thesis by (simp add: Eval_def opa_finish_def oleaf_ex_written)
qed

lemma times_out_ex_eval:
  assumes "n = 0 \<or> n = 1"
  shows "Eval (\<lambda>b. b) (olog_ex ls) (oclient_ex n) oinput_ex Granted False times_out_ex 7 7 =
     (olog_ex (ls @ [oleaf_ex False ReasonOPATimeout]), oclient_ex (n + 1), if n = 1 then [ReasonOPATimeout] else [],
      \<lparr>od_Allow = False, od_Reason = ReasonOPATimeout, od_LeafWritten = True, od_LeafErr = None\<rparr>)"
proof -
  have "outcome_of (times_out_ex (request_of oinput_ex)) = (Silent, False, ReasonOPATimeout)"
    by (simp add: outcome_of_def times_out_ex_def classifyContextFault_def opa_reasons)
  moreover have w: "wrap64 (n + 1) = n + 1" using assms by (auto simp: int64_def)
  then have u: "noteUnanswered (oclient_ex n) 7 = (oclient_ex n\<lparr>oc_unanswered := n + 1\<rparr>, [])"
    by (simp add: noteUnanswered_def oclient_ex_def Stalled_def)
  moreover have "count_fault (oclient_ex n\<lparr>oc_unanswered := n + 1\<rparr>) ReasonOPATimeout =
      (oclient_ex (n + 1), if n = 1 then [ReasonOPATimeout] else [])"
    using assms w by (auto simp: count_fault_def oclient_ex_def)
  moreover have "oc_cellID (oclient_ex n\<lparr>oc_unanswered := n + 1\<rparr>) = ''c''" "oc_salt (oclient_ex n\<lparr>oc_unanswered := n + 1\<rparr>) = zeros 16"
      "oc_adm (oclient_ex n) = None" "oi_JTI oinput_ex = zeros 16"
    by (simp_all add: oclient_ex_def oinput_ex_def)
  ultimately show ?thesis by (simp add: Eval_def opa_finish_def oleaf_ex_written)
qed

theorem trip_iff_fault_streak_witness:
  "availability_fault ReasonOPATimeout \<and> 2 \<le> int (streak [ReasonOPATimeout, ReasonOPATimeout])"
proof -
  have run: "opa_run (\<lambda>b. b) (olog_ex [], oclient_ex 0) [ocall_ex] =
      ([ReasonOPATimeout], olog_ex [oleaf_ex False ReasonOPATimeout], oclient_ex 1)"
    using times_out_ex_eval [of 0 "[]"] by (simp add: ocall_ex_def)
  have "ReasonOPATimeout \<noteq> ReasonOPABadResponse" by (simp add: opa_reasons)
  then show ?thesis
    using trip_iff_fault_streak [OF oclient_ex_new run _ times_out_ex_eval [of 1 "[oleaf_ex False ReasonOPATimeout]"]]
    by (simp add: oopts_ex_def)
qed

end
