(* ===== verification/Strict_JSON.thy ===== *)
theory Strict_JSON
  imports TBP_Prelude
begin

text \<open>
  The strict decoding of a document (\<open>src/src/strictjson/strictjson.go\<close>): the requests, intents, anchors and
  keyrings of the network go through it, so that what a proxy or a reviewer reads is what a daemon applies.

  A document is read as the list of its lexical tokens; turning bytes into tokens (escapes, numbers) is the
  parameter \<open>lexer\<close>, which also says whether the tokens go to the end of the data.  On tokens, the two readers of
  the standard library the code uses are written out: the scanner behind \<open>Decoder.Decode\<close>, a machine with a
  stack of open arrays and objects, and \<open>Decoder.Token\<close>, a machine with a stack of states.  The Go types a
  document is decoded into are finite descriptions of what \<open>reflect\<close> shows of them.
\<close>

subsection \<open>Values and tokens\<close>

datatype jv = JNull | JBool bool | JNum string | JStr string | JArr "jv list" | JObj "(string \<times> jv) list"

datatype jtok = TLBrace | TRBrace | TLBrack | TRBrack | TColon | TComma | TStr string | TNum string | TBool bool | TNull

primrec sep_by :: "'a \<Rightarrow> 'a list list \<Rightarrow> 'a list" where
  "sep_by c [] = []"
| "sep_by c (x # xs) = x @ (if xs = [] then [] else c # sep_by c xs)"

fun toks :: "jv \<Rightarrow> jtok list" where
  "toks JNull = [TNull]"
| "toks (JBool b) = [TBool b]"
| "toks (JNum n) = [TNum n]"
| "toks (JStr s) = [TStr s]"
| "toks (JArr vs) = TLBrack # sep_by TComma (map toks vs) @ [TRBrack]"
| "toks (JObj ms) = TLBrace # sep_by TComma (map (\<lambda>m. TStr (fst m) # TColon # toks (snd m)) ms) @ [TRBrace]"

fun jdepth :: "jv \<Rightarrow> nat" where
  "jdepth (JArr vs) = Suc (foldr (\<lambda>v n. max (jdepth v) n) vs 0)"
| "jdepth (JObj ms) = Suc (foldr (\<lambda>m n. max (jdepth (snd m)) n) ms 0)"
| "jdepth v = 0"

subsection \<open>The scanner\<close>

text \<open>What is expected next: a value (the flag allows an array to close), a key (the flag allows an object to
  close), the colon, or what follows a value.\<close>

datatype jpos = PVal bool | PKey bool | PColon | PNext

datatype jframe = FArr "jv list" | FObj "(string \<times> jv) list" string

datatype jstep = Fail | Go jpos "jframe list" | Ret jv

definition maxNestingDepth :: nat where "maxNestingDepth = 10000"

fun emit :: "jframe list \<Rightarrow> jv \<Rightarrow> jstep" where
  "emit [] v = Ret v"
| "emit (FArr vs # r) v = Go PNext (FArr (vs @ [v]) # r)"
| "emit (FObj ms k # r) v = Go PNext (FObj (ms @ [(k, v)]) k # r)"

definition open_frame :: "jpos \<Rightarrow> jframe \<Rightarrow> jframe list \<Rightarrow> jstep" where
  "open_frame p f st = (if length st < maxNestingDepth then Go p (f # st) else Fail)"

fun scan_step :: "jpos \<Rightarrow> jframe list \<Rightarrow> jtok \<Rightarrow> jstep" where
  "scan_step (PVal c) st TLBrace = open_frame (PKey True) (FObj [] []) st"
| "scan_step (PVal c) st TLBrack = open_frame (PVal True) (FArr []) st"
| "scan_step (PVal True) (FArr vs # r) TRBrack = emit r (JArr vs)"
| "scan_step (PVal c) st (TStr s) = emit st (JStr s)"
| "scan_step (PVal c) st (TNum n) = emit st (JNum n)"
| "scan_step (PVal c) st (TBool b) = emit st (JBool b)"
| "scan_step (PVal c) st TNull = emit st JNull"
| "scan_step (PKey c) (FObj ms k0 # r) (TStr k) = Go PColon (FObj ms k # r)"
| "scan_step (PKey True) (FObj ms k # r) TRBrace = emit r (JObj ms)"
| "scan_step PColon (FObj ms k # r) TColon = Go (PVal False) (FObj ms k # r)"
| "scan_step PNext (FArr vs # r) TComma = Go (PVal False) (FArr vs # r)"
| "scan_step PNext (FArr vs # r) TRBrack = emit r (JArr vs)"
| "scan_step PNext (FObj ms k # r) TComma = Go (PKey False) (FObj ms k # r)"
| "scan_step PNext (FObj ms k # r) TRBrace = emit r (JObj ms)"
| "scan_step p st t = Fail"

text \<open>The first value of the tokens, and what follows it.\<close>

primrec read_value :: "jpos \<Rightarrow> jframe list \<Rightarrow> jtok list \<Rightarrow> (jv \<times> jtok list) option" where
  "read_value p st [] = None"
| "read_value p st (t # ts) = (case scan_step p st t of Fail \<Rightarrow> None | Go p' st' \<Rightarrow> read_value p' st' ts | Ret v \<Rightarrow> Some (v, ts))"

lemma sep_by_snoc: "sep_by c (xs @ [x]) = concat (map (\<lambda>y. y @ [c]) xs) @ x"
  by (induction xs) auto

subsection \<open>The scanner reads what is printed, and only that\<close>

definition member_toks :: "string \<times> jv \<Rightarrow> jtok list" where
  "member_toks m = TStr (fst m) # TColon # toks (snd m)"

lemma toks_obj: "toks (JObj ms) = TLBrace # sep_by TComma (map member_toks ms) @ [TRBrace]"
  by (simp add: member_toks_def [abs_def])

text \<open>The tokens read so far, from the stack: an open array has the elements before with their commas.\<close>

fun frame_toks :: "jframe \<Rightarrow> jtok list" where
  "frame_toks (FArr vs) = TLBrack # concat (map (\<lambda>v. toks v @ [TComma]) vs)"
| "frame_toks (FObj ms k) = TLBrace # concat (map (\<lambda>m. member_toks m @ [TComma]) ms) @ [TStr k, TColon]"

fun seen_toks :: "jpos \<Rightarrow> jframe list \<Rightarrow> jtok list" where
  "seen_toks (PVal c) st = concat (map frame_toks (rev st))"
| "seen_toks (PKey c) (FObj ms k # r) = concat (map frame_toks (rev r)) @ TLBrace # concat (map (\<lambda>m. member_toks m @ [TComma]) ms)"
| "seen_toks PColon (FObj ms k # r) = concat (map frame_toks (rev r)) @ TLBrace # concat (map (\<lambda>m. member_toks m @ [TComma]) ms) @ [TStr k]"
| "seen_toks PNext (FArr vs # r) = concat (map frame_toks (rev r)) @ TLBrack # sep_by TComma (map toks vs)"
| "seen_toks PNext (FObj ms k # r) = concat (map frame_toks (rev r)) @ TLBrace # sep_by TComma (map member_toks ms)"
| "seen_toks p st = []"

fun scan_ok :: "jpos \<Rightarrow> jframe list \<Rightarrow> bool" where
  "scan_ok (PVal c) st = (c \<longrightarrow> (\<exists>r. st = FArr [] # r))"
| "scan_ok (PKey c) (FObj ms k # r) = (c \<longrightarrow> ms = [])"
| "scan_ok PColon (FObj ms k # r) = True"
| "scan_ok PNext (FArr vs # r) = (vs \<noteq> [])"
| "scan_ok PNext (FObj ms k # r) = (ms \<noteq> [])"
| "scan_ok p st = False"

lemma sep_map_comma: "xs \<noteq> [] \<Longrightarrow> sep_by c (map f xs) @ [c] = concat (map (\<lambda>y. f y @ [c]) xs)"
  by (induction xs) auto

text \<open>A value that ends is appended to the innermost open frame.\<close>

lemma emit_toks:
  "(case emit st v of Fail \<Rightarrow> False | Go p st' \<Rightarrow> scan_ok p st' \<and> seen_toks p st' = seen_toks (PVal False) st @ toks v
    | Ret w \<Rightarrow> w = v \<and> st = [])"
  by (cases "(st, v)" rule: emit.cases) (simp_all add: sep_by_snoc member_toks_def comp_def)

lemma emit_step:
  "seen_toks (PVal False) st @ toks v = xs \<Longrightarrow>
   (case emit st v of Fail \<Rightarrow> True | Go p st' \<Rightarrow> scan_ok p st' \<and> seen_toks p st' = xs | Ret w \<Rightarrow> toks w = xs)"
  using emit_toks [of st v] by (auto split: jstep.splits)

lemma scan_step_toks:
  assumes "scan_ok p st"
  shows "(case scan_step p st t of Fail \<Rightarrow> True | Go p' st' \<Rightarrow> scan_ok p' st' \<and> seen_toks p' st' = seen_toks p st @ [t]
    | Ret w \<Rightarrow> toks w = seen_toks p st @ [t])"
  using assms
  by (cases "(p, st, t)" rule: scan_step.cases)
    (auto simp: open_frame_def sep_map_comma toks_obj simp del: toks.simps(6) intro!: emit_step)

lemma read_value_sound:
  "read_value p st ts = Some (v, rest) \<Longrightarrow> scan_ok p st \<Longrightarrow> seen_toks p st @ ts = toks v @ rest"
proof (induction ts arbitrary: p st)
  case (Cons t ts)
  show ?case
  proof (cases "scan_step p st t")
    case (Go p' st')
    then have "read_value p' st' ts = Some (v, rest)" "scan_ok p' st'" "seen_toks p' st' = seen_toks p st @ [t]"
      using Cons.prems scan_step_toks [OF Cons.prems(2), of t] by simp_all
    with Cons.IH [of p' st'] show ?thesis by simp
  next
    case (Ret w)
    then show ?thesis using Cons.prems scan_step_toks [OF Cons.prems(2), of t] by simp
  qed (use Cons.prems in simp)
qed simp

text \<open>Reading what was printed.\<close>

definition resume :: "jstep \<Rightarrow> jtok list \<Rightarrow> (jv \<times> jtok list) option" where
  "resume s ts = (case s of Fail \<Rightarrow> None | Go p st \<Rightarrow> read_value p st ts | Ret v \<Rightarrow> Some (v, ts))"

lemma read_value_Cons: "read_value p st (t # ts) = resume (scan_step p st t) ts"
  by (simp add: resume_def)

lemma foldr_max_le: "foldr (\<lambda>x n. max (f x) n) xs 0 \<le> (m :: nat) \<longleftrightarrow> (\<forall>x \<in> set xs. f x \<le> m)"
  by (induction xs) auto

lemma read_elements:
  assumes "\<And>v c st rest. v \<in> set vs \<Longrightarrow> length st + jdepth v \<le> maxNestingDepth \<Longrightarrow> read_value (PVal c) st (toks v @ rest) = resume (emit st v) rest"
    and "\<forall>v \<in> set vs. Suc (length r) + jdepth v \<le> maxNestingDepth" "vs \<noteq> []"
  shows "read_value (PVal c) (FArr ws # r) (sep_by TComma (map toks vs) @ TRBrack # rest) = resume (emit r (JArr (ws @ vs))) rest"
  using assms
proof (induction vs arbitrary: c ws)
  case (Cons v vs)
  have v: "read_value (PVal c) (FArr ws # r) (toks v @ x) = resume (emit (FArr ws # r) v) x" for x using Cons.prems(1,2) by simp
  show ?case
  proof (cases "vs = []")
    case True
    then show ?thesis using v by (simp add: resume_def read_value_Cons)
  next
    case False
    then show ?thesis using v Cons.IH [of False "ws @ [v]"] Cons.prems(1,2) by (simp add: resume_def)
  qed
qed simp

lemma read_members:
  assumes "\<And>m c st rest. m \<in> set ms \<Longrightarrow> length st + jdepth (snd m) \<le> maxNestingDepth \<Longrightarrow>
      read_value (PVal c) st (toks (snd m) @ rest) = resume (emit st (snd m)) rest"
    and "\<forall>m \<in> set ms. Suc (length r) + jdepth (snd m) \<le> maxNestingDepth" "ms \<noteq> []"
  shows "read_value (PKey c) (FObj ns k # r) (sep_by TComma (map member_toks ms) @ TRBrace # rest) = resume (emit r (JObj (ns @ ms))) rest"
  using assms
proof (induction ms arbitrary: c ns k)
  case (Cons m ms)
  have v: "read_value (PVal False) (FObj ns (fst m) # r) (toks (snd m) @ x) = resume (emit (FObj ns (fst m) # r) (snd m)) x" for x
    using Cons.prems(1,2) by simp
  show ?case
  proof (cases "ms = []")
    case True
    then show ?thesis using v by (simp add: resume_def read_value_Cons member_toks_def)
  next
    case False
    then show ?thesis using v Cons.IH [of False "ns @ [m]" "fst m"] Cons.prems(1,2) by (simp add: resume_def member_toks_def)
  qed
qed simp

lemma read_toks: "length st + jdepth v \<le> maxNestingDepth \<Longrightarrow> read_value (PVal c) st (toks v @ rest) = resume (emit st v) rest"
proof (induction v arbitrary: c st rest)
  case (JArr vs)
  then have "\<forall>v \<in> set vs. Suc (length st) + jdepth v \<le> maxNestingDepth" "length st < maxNestingDepth"
    using foldr_max_le [of jdepth vs "maxNestingDepth - Suc (length st)"] by auto
  then show ?case
    using read_elements [of vs st True "[]" rest] JArr.IH
    by (cases "vs = []") (simp_all add: open_frame_def resume_def read_value_Cons)
next
  case (JObj ms)
  then have d: "\<forall>m \<in> set ms. Suc (length st) + jdepth (snd m) \<le> maxNestingDepth" "length st < maxNestingDepth"
    using foldr_max_le [of "\<lambda>m. jdepth (snd m)" ms "maxNestingDepth - Suc (length st)"] by auto
  have "read_value (PVal c) st' (toks (snd m) @ rest) = resume (emit st' (snd m)) rest"
    if "m \<in> set ms" "length st' + jdepth (snd m) \<le> maxNestingDepth" for m c st' rest
    using JObj.IH [of m "snd m" st' c rest] that by (simp add: snds.simps)
  then show ?case
    using read_members [of ms st True "[]" "[]" rest] d
    by (cases "ms = []") (simp_all add: toks_obj open_frame_def resume_def read_value_Cons del: toks.simps(6))
qed (simp_all add: resume_def)

subsection \<open>\<open>Decoder.Token\<close>\<close>

datatype tstate = TopValue | ArrayStart | ArrayValue | ArrayComma | ObjectStart | ObjectKey | ObjectColon | ObjectValue | ObjectComma

datatype gotok = DelimObj | DelimArr | DelimClose | GoString string | GoScalar

definition value_allowed :: "tstate \<Rightarrow> bool" where
  "value_allowed s \<longleftrightarrow> s \<in> {TopValue, ArrayStart, ArrayValue, ObjectValue}"

fun value_end :: "tstate \<Rightarrow> tstate" where
  "value_end ArrayStart = ArrayComma"
| "value_end ArrayValue = ArrayComma"
| "value_end ObjectValue = ObjectComma"
| "value_end s = s"

text \<open>A decoder is its state, the states it will come back to, and the tokens left.\<close>

type_synonym decoder = "tstate \<times> tstate list \<times> jtok list"

fun dec_Token :: "tstate \<Rightarrow> tstate list \<Rightarrow> jtok list \<Rightarrow> (gotok \<times> decoder) option" where
  "dec_Token s stk [] = None"
| "dec_Token s stk (TLBrack # ts) = (if value_allowed s then Some (DelimArr, ArrayStart, s # stk, ts) else None)"
| "dec_Token s stk (TLBrace # ts) = (if value_allowed s then Some (DelimObj, ObjectStart, s # stk, ts) else None)"
| "dec_Token s stk (TRBrack # ts) =
     (if s \<in> {ArrayStart, ArrayComma} then (case stk of [] \<Rightarrow> None | s' # stk' \<Rightarrow> Some (DelimClose, value_end s', stk', ts)) else None)"
| "dec_Token s stk (TRBrace # ts) =
     (if s \<in> {ObjectStart, ObjectComma} then (case stk of [] \<Rightarrow> None | s' # stk' \<Rightarrow> Some (DelimClose, value_end s', stk', ts)) else None)"
| "dec_Token s stk (TColon # ts) = (if s = ObjectColon then dec_Token ObjectValue stk ts else None)"
| "dec_Token s stk (TComma # ts) =
     (if s = ArrayComma then dec_Token ArrayValue stk ts else if s = ObjectComma then dec_Token ObjectKey stk ts else None)"
| "dec_Token s stk (TStr x # ts) =
     (if s \<in> {ObjectStart, ObjectKey} then Some (GoString x, ObjectColon, stk, ts)
      else if value_allowed s then Some (GoString x, value_end s, stk, ts) else None)"
| "dec_Token s stk (_ # ts) = (if value_allowed s then Some (GoScalar, value_end s, stk, ts) else None)"

lemma dec_Token_shorter: "dec_Token s stk ts = Some (t, s', stk', ts') \<Longrightarrow> length ts' < length ts"
  by (induction s stk ts rule: dec_Token.induct) (auto split: if_splits list.splits)

subsection \<open>\<open>duplicateKey\<close>\<close>

text \<open>\<open>ks\<close> is the stack of key sets (\<open>None\<close> for an array), \<open>es\<close> the stack of the flags that a key is next.\<close>

definition in_object :: "'a option list \<Rightarrow> bool" where
  "in_object ks \<longleftrightarrow> ks \<noteq> [] \<and> hd ks \<noteq> None"

definition value_done :: "string list option list \<Rightarrow> bool list \<Rightarrow> bool list" where
  "value_done ks es = (if in_object ks then True # tl es else es)"

function dup_loop :: "tstate \<Rightarrow> tstate list \<Rightarrow> jtok list \<Rightarrow> string list option list \<Rightarrow> bool list \<Rightarrow> string option" where
  "dup_loop s stk ts ks es =
     (case dec_Token s stk ts of
        None \<Rightarrow> None
      | Some (t, s', stk', ts') \<Rightarrow>
          (case t of
             DelimObj \<Rightarrow> dup_loop s' stk' ts' (Some [] # ks) (True # es)
           | DelimArr \<Rightarrow> dup_loop s' stk' ts' (None # ks) (False # es)
           | DelimClose \<Rightarrow> dup_loop s' stk' ts' (tl ks) (value_done (tl ks) (tl es))
           | GoString k \<Rightarrow>
               if in_object ks \<and> hd es
               then if k \<in> set (the (hd ks)) then Some k
                    else dup_loop s' stk' ts' (Some (k # the (hd ks)) # tl ks) (False # tl es)
               else dup_loop s' stk' ts' ks (value_done ks es)
           | GoScalar \<Rightarrow> dup_loop s' stk' ts' ks (value_done ks es)))"
  by pat_completeness auto
termination
  by (relation "measure (\<lambda>(s, stk, ts, ks, es). length ts)") (auto dest: dec_Token_shorter)

declare dup_loop.simps [simp del]

definition duplicateKey :: "jtok list \<Rightarrow> string option" where
  "duplicateKey ts = dup_loop TopValue [] ts [] []"

text \<open>The reference: the first key, in the order of the document, that its object has already.\<close>

fun first_some :: "'a option list \<Rightarrow> 'a option" where
  "first_some [] = None"
| "first_some (x # xs) = (case x of None \<Rightarrow> first_some xs | Some y \<Rightarrow> Some y)"

fun repeated :: "string list \<Rightarrow> (string \<times> string option) list \<Rightarrow> string option" where
  "repeated seen [] = None"
| "repeated seen ((k, d) # ms) = (if k \<in> set seen then Some k else case d of None \<Rightarrow> repeated (k # seen) ms | Some y \<Rightarrow> Some y)"

fun first_dup :: "jv \<Rightarrow> string option" where
  "first_dup (JArr vs) = first_some (map first_dup vs)"
| "first_dup (JObj ms) = repeated [] (map (\<lambda>m. (fst m, first_dup (snd m))) ms)"
| "first_dup v = None"

text \<open>The keys stay level with the states, so a closing token always finds an open container.\<close>

lemma dec_Token_level:
  "dec_Token s stk ts = Some (t, s', stk', ts') \<Longrightarrow>
   length stk' = (case t of DelimObj \<Rightarrow> Suc (length stk) | DelimArr \<Rightarrow> Suc (length stk) | DelimClose \<Rightarrow> length stk - 1 | _ \<Rightarrow> length stk) \<and>
   (t = DelimClose \<longrightarrow> stk \<noteq> [])"
  by (induction s stk ts rule: dec_Token.induct) (auto split: if_splits list.splits)

subsection \<open>The machine computes the reference\<close>

text \<open>Where a value is expected, and in an object no key is.\<close>

definition at_value :: "tstate \<Rightarrow> string list option list \<Rightarrow> bool list \<Rightarrow> bool" where
  "at_value s ks es \<longleftrightarrow> value_allowed s \<and> (in_object ks \<longrightarrow> es \<noteq> [] \<and> \<not> hd es)"

definition after_value :: "string option \<Rightarrow> tstate \<Rightarrow> tstate list \<Rightarrow> jtok list \<Rightarrow> string list option list \<Rightarrow> bool list \<Rightarrow> string option" where
  "after_value d s stk ts ks es = (case d of Some k \<Rightarrow> Some k | None \<Rightarrow> dup_loop (value_end s) stk ts ks (value_done ks es))"

lemma dup_skip:
  "dup_loop ArrayComma stk (TComma # ts) ks es = dup_loop ArrayValue stk ts ks es"
  "dup_loop ObjectComma stk (TComma # ts) ks es = dup_loop ObjectKey stk ts ks es"
  "dup_loop ObjectColon stk (TColon # ts) ks es = dup_loop ObjectValue stk ts ks es"
  by (subst (1 2) dup_loop.simps, simp)+

lemma dup_elements:
  assumes "\<And>v s stk rest ks es. v \<in> set vs \<Longrightarrow> at_value s ks es \<Longrightarrow> dup_loop s stk (toks v @ rest) ks es = after_value (first_dup v) s stk rest ks es"
    and "s = ArrayStart \<or> s = ArrayValue" "vs \<noteq> []"
  shows "dup_loop s stk (sep_by TComma (map toks vs) @ rest) (None # ks) (False # es) =
    (case first_some (map first_dup vs) of Some k \<Rightarrow> Some k | None \<Rightarrow> dup_loop ArrayComma stk rest (None # ks) (False # es))"
  using assms
proof (induction vs arbitrary: s)
  case (Cons v vs)
  have v: "dup_loop s stk (toks v @ x) (None # ks) (False # es) = after_value (first_dup v) s stk x (None # ks) (False # es)" for x
    using Cons.prems(1,2) by (auto simp: at_value_def value_allowed_def in_object_def)
  have e: "value_end s = ArrayComma" "value_done (None # ks) (False # es) = False # es"
    using Cons.prems(2) by (auto simp: value_done_def in_object_def)
  show ?case
  proof (cases "vs = []")
    case True
    then show ?thesis using v e by (simp add: after_value_def split: option.splits)
  next
    case False
    then show ?thesis using v e Cons.IH [of ArrayValue] Cons.prems(1) by (simp add: after_value_def dup_skip split: option.splits)
  qed
qed simp

lemma dup_members:
  assumes "\<And>m s stk rest ks es. m \<in> set ms \<Longrightarrow> at_value s ks es \<Longrightarrow>
      dup_loop s stk (toks (snd m) @ rest) ks es = after_value (first_dup (snd m)) s stk rest ks es"
    and "s = ObjectStart \<or> s = ObjectKey" "ms \<noteq> []"
  shows "\<exists>seen'. dup_loop s stk (sep_by TComma (map member_toks ms) @ rest) (Some seen # ks) (True # es) =
    (case repeated seen (map (\<lambda>m. (fst m, first_dup (snd m))) ms) of Some k \<Rightarrow> Some k | None \<Rightarrow> dup_loop ObjectComma stk rest (Some seen' # ks) (True # es))"
  using assms
proof (induction ms arbitrary: s seen)
  case (Cons m ms)
  have v: "dup_loop ObjectValue stk (toks (snd m) @ x) (Some S # ks) (False # es) = after_value (first_dup (snd m)) ObjectValue stk x (Some S # ks) (False # es)"
    for x S using Cons.prems(1) by (auto simp: at_value_def value_allowed_def in_object_def)
  have k: "dup_loop s stk (TStr (fst m) # TColon # toks (snd m) @ x) (Some seen # ks) (True # es) =
      (if fst m \<in> set seen then Some (fst m) else after_value (first_dup (snd m)) ObjectValue stk x (Some (fst m # seen) # ks) (False # es))" for x
    using Cons.prems(2) by (subst dup_loop.simps) (simp add: in_object_def dup_skip v)
  have e: "value_done (Some S # ks) (False # es) = True # es" for S by (simp add: value_done_def in_object_def)
  show ?case
  proof (cases "ms = []")
    case True
    then show ?thesis using k e by (auto simp: after_value_def member_toks_def split: option.splits)
  next
    case False
    obtain seen' where "dup_loop ObjectKey stk (sep_by TComma (map member_toks ms) @ rest) (Some (fst m # seen) # ks) (True # es) =
        (case repeated (fst m # seen) (map (\<lambda>m. (fst m, first_dup (snd m))) ms) of Some k \<Rightarrow> Some k
         | None \<Rightarrow> dup_loop ObjectComma stk rest (Some seen' # ks) (True # es))"
      using Cons.IH [of ObjectKey "fst m # seen"] Cons.prems(1) False by auto
    then show ?thesis
      using k e False by (intro exI [of _ seen']) (simp add: after_value_def member_toks_def [of m] dup_skip split: option.splits)
  qed
qed simp

lemma dup_scalar:
  assumes "at_value s ks es"
  shows "dup_loop s stk (TStr x # rest) ks es = dup_loop (value_end s) stk rest ks (value_done ks es)"
    "dup_loop s stk (TNum x # rest) ks es = dup_loop (value_end s) stk rest ks (value_done ks es)"
    "dup_loop s stk (TBool b # rest) ks es = dup_loop (value_end s) stk rest ks (value_done ks es)"
    "dup_loop s stk (TNull # rest) ks es = dup_loop (value_end s) stk rest ks (value_done ks es)"
  using assms by (subst dup_loop.simps, force simp: at_value_def value_allowed_def)+

lemma dup_open:
  assumes "at_value s ks es"
  shows "dup_loop s stk (TLBrack # rest) ks es = dup_loop ArrayStart (s # stk) rest (None # ks) (False # es)"
    "dup_loop s stk (TLBrace # rest) ks es = dup_loop ObjectStart (s # stk) rest (Some [] # ks) (True # es)"
  using assms by (subst dup_loop.simps, simp add: at_value_def)+

lemma dup_close:
  "c = ArrayStart \<or> c = ArrayComma \<Longrightarrow> dup_loop c (s # stk) (TRBrack # rest) (k # ks) (e # es) = dup_loop (value_end s) stk rest ks (value_done ks es)"
  "c = ObjectStart \<or> c = ObjectComma \<Longrightarrow> dup_loop c (s # stk) (TRBrace # rest) (k # ks) (e # es) = dup_loop (value_end s) stk rest ks (value_done ks es)"
  by (subst dup_loop.simps, force)+

lemma dup_value: "at_value s ks es \<Longrightarrow> dup_loop s stk (toks v @ rest) ks es = after_value (first_dup v) s stk rest ks es"
proof (induction v arbitrary: s stk rest ks es)
  case (JArr vs)
  then show ?case
    using dup_elements [of vs ArrayStart "s # stk" "TRBrack # rest" ks es]
    by (cases "vs = []") (simp_all add: dup_open dup_close after_value_def split: option.splits)
next
  case (JObj ms)
  have "dup_loop s stk (toks (snd m) @ rest) ks es = after_value (first_dup (snd m)) s stk rest ks es"
    if "m \<in> set ms" "at_value s ks es" for m s stk rest ks es
    using JObj.IH [of m "snd m" s ks es stk rest] that by (simp add: snds.simps)
  from dup_members [OF this, of ms ObjectStart "s # stk" "TRBrace # rest" "[]" ks es] show ?case
    using JObj.prems
    by (cases "ms = []") (auto simp: toks_obj dup_open dup_close after_value_def simp del: toks.simps(6) split: option.splits)
qed (simp_all add: dup_scalar after_value_def)

lemma duplicateKey_toks: "duplicateKey (toks v) = first_dup v"
proof -
  have "dup_loop TopValue [] (toks v @ []) [] [] = after_value (first_dup v) TopValue [] [] [] []"
    by (rule dup_value) (simp add: at_value_def value_allowed_def in_object_def)
  then show ?thesis
    by (simp add: duplicateKey_def after_value_def dup_loop.simps [of _ _ "[]"] split: option.splits)
qed

text \<open>The depth of what the scanner accepts.\<close>

fun frames_depth :: "jframe list \<Rightarrow> bool" where
  "frames_depth [] = True"
| "frames_depth (FArr vs # r) = (length r < maxNestingDepth \<and> (\<forall>v \<in> set vs. jdepth v + length r < maxNestingDepth) \<and> frames_depth r)"
| "frames_depth (FObj ms k # r) = (length r < maxNestingDepth \<and> (\<forall>m \<in> set ms. jdepth (snd m) + length r < maxNestingDepth) \<and> frames_depth r)"

lemma emit_depth:
  "frames_depth st \<Longrightarrow> jdepth v + length st \<le> maxNestingDepth \<Longrightarrow>
   (case emit st v of Fail \<Rightarrow> True | Go p st' \<Rightarrow> frames_depth st' | Ret w \<Rightarrow> jdepth w \<le> maxNestingDepth)"
  by (cases "(st, v)" rule: emit.cases) auto

lemma jdepth_le:
  "(\<forall>v \<in> set vs. jdepth v + n < M) \<Longrightarrow> n < M \<Longrightarrow> jdepth (JArr vs) + n \<le> M"
  "(\<forall>m \<in> set ms. jdepth (snd m) + n < M) \<Longrightarrow> n < M \<Longrightarrow> jdepth (JObj ms) + n \<le> M"
  using foldr_max_le [of jdepth vs "M - Suc n"] foldr_max_le [of "\<lambda>m. jdepth (snd m)" ms "M - Suc n"] by auto

lemma scan_step_depth:
  assumes "frames_depth st" "length st \<le> maxNestingDepth"
  shows "(case scan_step p st t of Fail \<Rightarrow> True | Go p' st' \<Rightarrow> frames_depth st' | Ret w \<Rightarrow> jdepth w \<le> maxNestingDepth)"
  using assms
  by (cases "(p, st, t)" rule: scan_step.cases) (auto simp: open_frame_def simp del: jdepth.simps intro!: emit_depth jdepth_le, auto)

lemma frames_depth_length: "frames_depth st \<Longrightarrow> length st \<le> maxNestingDepth"
  by (cases st rule: frames_depth.cases) auto

lemma read_value_depth: "read_value p st ts = Some (v, rest) \<Longrightarrow> frames_depth st \<Longrightarrow> jdepth v \<le> maxNestingDepth"
proof (induction ts arbitrary: p st)
  case (Cons t ts)
  then show ?case
    using scan_step_depth [OF Cons.prems(2) frames_depth_length [OF Cons.prems(2)], of p t] by (auto split: jstep.splits)
qed simp

text \<open>The scanner accepts exactly the printed values that are not nested too deep.\<close>

lemma read_document: "read_value (PVal False) [] ts = Some (v, rest) \<longleftrightarrow> ts = toks v @ rest \<and> jdepth v \<le> maxNestingDepth"
proof
  assume r: "read_value (PVal False) [] ts = Some (v, rest)"
  then show "ts = toks v @ rest \<and> jdepth v \<le> maxNestingDepth" using read_value_sound [OF r] read_value_depth [OF r] by simp
next
  assume "ts = toks v @ rest \<and> jdepth v \<le> maxNestingDepth"
  then show "read_value (PVal False) [] ts = Some (v, rest)" using read_toks [of "[]" v False rest] by (simp add: resume_def)
qed

subsection \<open>Refusals\<close>

record Detail =
  dt_Code :: string
  dt_Key :: string
  dt_Path :: string
  dt_Accepted :: "string list"

definition CodeDuplicateKey :: string where "CodeDuplicateKey = ''duplicate-key''"
definition CodeUnknownField :: string where "CodeUnknownField = ''unknown-field''"
definition CodeTrailingContent :: string where "CodeTrailingContent = ''trailing-content''"
definition CodeInvalidUTF8 :: string where "CodeInvalidUTF8 = ''invalid-utf8''"
definition CodeSyntax :: string where "CodeSyntax = ''syntax''"
definition CodeType :: string where "CodeType = ''type''"
definition maxKeyEcho :: nat where "maxKeyEcho = 64"

definition RuneStart :: "char \<Rightarrow> bool" where
  "RuneStart c \<longleftrightarrow> (of_char c :: nat) div 64 \<noteq> 2"

definition ellipsis :: string where "ellipsis = [CHR 0xE2, CHR 0x80, CHR 0xA6]"

fun key_cut :: "string \<Rightarrow> nat \<Rightarrow> nat" where
  "key_cut k 0 = 0"
| "key_cut k (Suc n) = (if RuneStart (k ! Suc n) then Suc n else key_cut k n)"

definition truncKey :: "string \<Rightarrow> string" where
  "truncKey k = (if length k \<le> maxKeyEcho then k else take (key_cut k maxKeyEcho) k @ ellipsis)"

definition fail :: "string \<Rightarrow> string \<Rightarrow> string \<Rightarrow> string list \<Rightarrow> Detail" where
  "fail code key path accepted = \<lparr>dt_Code = code, dt_Key = truncKey key, dt_Path = path, dt_Accepted = accepted\<rparr>"

definition joinPath :: "string \<Rightarrow> string \<Rightarrow> string" where
  "joinPath path key = (if path = [] then truncKey key else path @ ''.'' @ truncKey key)"

lemma key_cut_le: "key_cut k n \<le> n"
  by (induction n) auto

lemma truncKey_bound: "length (truncKey k) \<le> 67"
proof -
  have "key_cut k maxKeyEcho \<le> 64" using key_cut_le [of k maxKeyEcho] by (simp add: maxKeyEcho_def)
  then show ?thesis by (auto simp: truncKey_def ellipsis_def maxKeyEcho_def)
qed

subsection \<open>Go types\<close>

text \<open>A type as \<open>reflect\<close> shows it; the flag of a struct, a slice or a map says that it decodes itself.\<close>

datatype gtype = GPtr gtype | GStruct bool "gfield list" | GSlice bool gtype | GMap bool gtype | GScalar
  and gfield = GField (gf_Name: string) (gf_Tag: string) (gf_Anonymous: bool) (gf_Exported: bool) (gf_Type: gtype)

fun deref :: "gtype \<Rightarrow> gtype" where
  "deref (GPtr t) = deref t"
| "deref t = t"

fun selfDecodes :: "gtype \<Rightarrow> bool" where
  "selfDecodes (GStruct b fs) = b"
| "selfDecodes (GSlice b t) = b"
| "selfDecodes (GMap b t) = b"
| "selfDecodes t = False"

definition is_struct :: "gtype \<Rightarrow> bool" where
  "is_struct t \<longleftrightarrow> (case t of GStruct b fs \<Rightarrow> True | _ \<Rightarrow> False)"

text \<open>The JSON name of a field: the part of the tag before the comma, if there is one.\<close>

definition field_name :: "string \<Rightarrow> string \<Rightarrow> string" where
  "field_name name tag = (let n = takeWhile (\<lambda>c. c \<noteq> CHR '','') tag in if n = [] then name else n)"

fun collect :: "(string, gtype) gomap \<Rightarrow> gtype \<Rightarrow> (string, gtype) gomap"
  and collect_fields :: "(string, gtype) gomap \<Rightarrow> gfield list \<Rightarrow> (string, gtype) gomap"
  and collect_field :: "(string, gtype) gomap \<Rightarrow> gfield \<Rightarrow> (string, gtype) gomap" where
  "collect out (GPtr t) = collect out t"
| "collect out (GStruct b fs) = collect_fields out fs"
| "collect out t = out"
| "collect_fields out [] = out"
| "collect_fields out (f # fs) = collect_fields (collect_field out f) fs"
| "collect_field out (GField name tag anonymous exported t) =
     (if tag = ''-'' then out
      else if anonymous \<and> (tag = [] \<or> prefix '','' tag) \<and> is_struct (deref t) then collect out t
      else if \<not> exported then out
      else if map_of out (field_name name tag) \<noteq> None then out
      else out @ [(field_name name tag, t)])"

definition fieldTypes :: "gtype \<Rightarrow> (string, gtype) gomap" where
  "fieldTypes t = collect [] t"

definition sortedNames :: "(string, gtype) gomap \<Rightarrow> string list" where
  "sortedNames fs = sort (map fst fs)"

subsection \<open>\<open>walk\<close>\<close>

text \<open>The object read into a map: the last of equal keys wins; the keys are taken sorted.\<close>

definition obj_keys :: "(string \<times> jv) list \<Rightarrow> string list" where
  "obj_keys ms = sort (remdups (map fst ms))"

definition obj_get :: "(string \<times> jv) list \<Rightarrow> string \<Rightarrow> jv" where
  "obj_get ms k = the (map_of (rev ms) k)"

fun decimal :: "nat \<Rightarrow> string" where
  "decimal n = (if n < 10 then [byte (48 + n)] else decimal (n div 10) @ [byte (48 + n mod 10)])"

declare decimal.simps [simp del]

definition digits_value :: "string \<Rightarrow> nat" where
  "digits_value s = foldl (\<lambda>n c. n * 10 + (of_char c - 48)) 0 s"

definition index_path :: "string \<Rightarrow> nat \<Rightarrow> string" where
  "index_path path i = path @ ''['' @ decimal i @ '']''"

lemma obj_get_member: "k \<in> set (obj_keys ms) \<Longrightarrow> (k, obj_get ms k) \<in> set ms"
proof -
  assume "k \<in> set (obj_keys ms)"
  then have "map_of (rev ms) k \<noteq> None" by (auto simp: obj_keys_def map_of_eq_None_iff)
  then have "map_of (rev ms) k = Some (obj_get ms k)" by (auto simp: obj_get_def)
  then show ?thesis using map_of_SomeD by fastforce
qed

lemma member_smaller: "(k, v) \<in> set ms \<Longrightarrow> size v < size (JObj ms)"
  by (induction ms) auto

lemma element_smaller: "v \<in> set vs \<Longrightarrow> size v < size (JArr vs)"
  by (induction vs) auto

lemma enumerate_element: "iv \<in> set (enumerate n vs) \<Longrightarrow> snd iv \<in> set vs"
  by (cases iv) (auto simp: enumerate_eq_zip dest: set_zip_rightD)

lemma element_enumerated: "v \<in> set vs \<Longrightarrow> \<exists>i. (i, v) \<in> set (enumerate n vs)"
  by (induction vs arbitrary: n) fastforce+

function walk :: "jv \<Rightarrow> gtype \<Rightarrow> string \<Rightarrow> Detail option" where
  "walk v t path =
     (if selfDecodes (deref t) then None
      else case deref t of
        GStruct _ _ \<Rightarrow>
          (case v of
             JObj ms \<Rightarrow> first_some (map (\<lambda>k. case map_of (fieldTypes (deref t)) k of
                 None \<Rightarrow> Some (fail CodeUnknownField k path (sortedNames (fieldTypes (deref t))))
               | Some ft \<Rightarrow> walk (obj_get ms k) ft (joinPath path k)) (obj_keys ms))
           | _ \<Rightarrow> None)
      | GSlice _ e \<Rightarrow>
          (case v of
             JArr vs \<Rightarrow> first_some (map (\<lambda>iv. walk (snd iv) e (index_path path (fst iv))) (enumerate 0 vs))
           | _ \<Rightarrow> None)
      | GMap _ e \<Rightarrow>
          (case v of
             JObj ms \<Rightarrow> first_some (map (\<lambda>k. walk (obj_get ms k) e (joinPath path (truncKey k))) (obj_keys ms))
           | _ \<Rightarrow> None)
      | _ \<Rightarrow> None)"
  by pat_completeness auto
termination
proof (relation "measure (\<lambda>(v, t, path). size v)", goal_cases)
  case (2 v t path b fs ms k ft)
  then show ?case using member_smaller [OF obj_get_member] by auto
next
  case (3 v t path b e vs iv)
  then have "snd iv \<in> set vs" using enumerate_element by blast
  then show ?case using 3 element_smaller by auto
next
  case (4 v t path b e ms k)
  then show ?case using member_smaller [OF obj_get_member] by auto
qed simp

declare walk.simps [simp del]

subsection \<open>\<open>Decode\<close>\<close>

text \<open>Validity of UTF-8 (\<open>utf8.Valid\<close>).\<close>

definition in_range :: "nat \<Rightarrow> nat \<Rightarrow> char \<Rightarrow> bool" where
  "in_range lo hi c \<longleftrightarrow> lo \<le> of_char c \<and> of_char c \<le> hi"

fun utf8_valid :: "bytes \<Rightarrow> bool" where
  "utf8_valid [] = True"
| "utf8_valid (a # r) =
     (if in_range 0 0x7F a then utf8_valid r
      else case r of
        [] \<Rightarrow> False
      | b # r2 \<Rightarrow>
          if in_range 0xC2 0xDF a then in_range 0x80 0xBF b \<and> utf8_valid r2
          else case r2 of
            [] \<Rightarrow> False
          | c # r3 \<Rightarrow>
              if in_range 0xE0 0xEF a
              then in_range (if of_char a = (0xE0 :: nat) then 0xA0 else 0x80) (if of_char a = (0xED :: nat) then 0x9F else 0xBF) b \<and>
                   in_range 0x80 0xBF c \<and> utf8_valid r3
              else case r3 of
                [] \<Rightarrow> False
              | d # r4 \<Rightarrow>
                  in_range 0xF0 0xF4 a \<and>
                  in_range (if of_char a = (0xF0 :: nat) then 0x90 else 0x80) (if of_char a = (0xF4 :: nat) then 0x8F else 0xBF) b \<and>
                  in_range 0x80 0xBF c \<and> in_range 0x80 0xBF d \<and> utf8_valid r4)"

text \<open>\<open>decode_into\<close> is what the decoder of the standard library makes of a value: a refusal for the type of a
  field, another refusal, or the Go value.\<close>

definition Decode :: "(bytes \<Rightarrow> jtok list \<times> bool) \<Rightarrow> (jv \<Rightarrow> string option + 'v) \<Rightarrow> gtype option \<Rightarrow> bytes \<Rightarrow> Detail + 'v" where
  "Decode lexer decode_into t data =
     (if \<not> utf8_valid data then Inl (fail CodeInvalidUTF8 [] [] [])
      else case lexer data of (ts, clean) \<Rightarrow>
        (case duplicateKey ts of
           Some k \<Rightarrow> Inl (fail CodeDuplicateKey k [] [])
         | None \<Rightarrow>
             (case read_value (PVal False) [] ts of
                None \<Rightarrow> Inl (fail CodeSyntax [] [] [])
              | Some (v, rest) \<Rightarrow>
                  if rest \<noteq> [] \<or> \<not> clean then Inl (fail CodeTrailingContent [] [] [])
                  else case (case t of None \<Rightarrow> None | Some ty \<Rightarrow> walk v ty []) of
                    Some d \<Rightarrow> Inl d
                  | None \<Rightarrow>
                      (case decode_into v of
                         Inl (Some field) \<Rightarrow> Inl (fail CodeType field [] [])
                       | Inl None \<Rightarrow> Inl (fail CodeSyntax [] [] [])
                       | Inr x \<Rightarrow> Inr x))))"

subsection \<open>The claims\<close>

text \<open>The specification of \<open>walk\<close>: every key of an object that meets a struct is one of its field names, and the
  values below conform.\<close>

function conforms :: "jv \<Rightarrow> gtype \<Rightarrow> bool" where
  "conforms v t =
     (selfDecodes (deref t) \<or>
      (case deref t of
         GStruct _ _ \<Rightarrow> (case v of JObj ms \<Rightarrow> \<forall>m \<in> set ms. \<exists>ft \<in> set_option (map_of (fieldTypes (deref t)) (fst m)). conforms (snd m) ft | _ \<Rightarrow> True)
       | GSlice _ e \<Rightarrow> (case v of JArr vs \<Rightarrow> \<forall>w \<in> set vs. conforms w e | _ \<Rightarrow> True)
       | GMap _ e \<Rightarrow> (case v of JObj ms \<Rightarrow> \<forall>m \<in> set ms. conforms (snd m) e | _ \<Rightarrow> True)
       | _ \<Rightarrow> True))"
  by pat_completeness auto
termination
proof (relation "measure (\<lambda>(v, t). size v)", goal_cases)
  case (2 v t b fs ms m ft)
  then show ?case using member_smaller [of "fst m" "snd m" ms] by auto
next
  case (3 v t b e vs w)
  then show ?case using element_smaller by auto
next
  case (4 v t b e ms m)
  then show ?case using member_smaller [of "fst m" "snd m" ms] by auto
qed simp

declare conforms.simps [simp del]

lemma first_some_None: "first_some xs = None \<longleftrightarrow> (\<forall>x \<in> set xs. x = None)"
  by (induction xs) (auto split: option.splits)

lemma repeated_None:
  "repeated seen ms = None \<Longrightarrow> distinct (map fst ms) \<and> set (map fst ms) \<inter> set seen = {} \<and> (\<forall>m \<in> set ms. snd m = None)"
proof (induction ms arbitrary: seen)
  case (Cons m ms)
  obtain k d where m: "m = (k, d)" by (cases m)
  have "k \<notin> set seen" "d = None" "repeated (k # seen) ms = None" using Cons.prems by (auto simp: m split: if_splits option.splits)
  then show ?case using Cons.IH [of "k # seen"] by (auto simp: m)
qed simp

lemma no_dup_object: "first_dup (JObj ms) = None \<Longrightarrow> distinct (map fst ms) \<and> (\<forall>m \<in> set ms. first_dup (snd m) = None)"
  using repeated_None [of "[]" "map (\<lambda>m. (fst m, first_dup (snd m))) ms"] by (auto simp: comp_def)

lemma obj_get_unique: "distinct (map fst ms) \<Longrightarrow> m \<in> set ms \<Longrightarrow> obj_get ms (fst m) = snd m"
proof -
  assume "distinct (map fst ms)" "m \<in> set ms"
  then have "map_of (rev ms) (fst m) = Some (snd m)" by (intro map_of_is_SomeI) (simp_all add: rev_map [symmetric])
  then show ?thesis by (simp add: obj_get_def)
qed

lemma all_keys:
  assumes "distinct (map fst ms)"
  shows "(\<forall>k \<in> set (obj_keys ms). P k (obj_get ms k)) \<longleftrightarrow> (\<forall>m \<in> set ms. P (fst m) (snd m))"
  using obj_get_unique [OF assms] by (auto simp: obj_keys_def)

lemma walk_conforms: "first_dup v = None \<Longrightarrow> walk v t path = None \<longleftrightarrow> conforms v t"
proof (induction "size v" arbitrary: v t path rule: less_induct)
  case less
  have sub: "walk w ft q = None \<longleftrightarrow> conforms w ft" if "size w < size v" "first_dup w = None" for w ft q
    using less.hyps [OF that(1,2)] .
  show ?case
  proof (cases "selfDecodes (deref t)")
    case False
    show ?thesis
    proof (cases v)
      case (JArr vs)
      have d: "\<forall>w \<in> set vs. first_dup w = None" using less.prems by (auto simp: JArr first_some_None)
      have "walk w e q = None \<longleftrightarrow> conforms w e" if "w \<in> set vs" for w e q
        using sub [of w e q] element_smaller [OF that] d that by (simp add: JArr)
      then have w: "(\<forall>iv \<in> set (enumerate 0 vs). walk (snd iv) e (index_path path (fst iv)) = None) \<longleftrightarrow> (\<forall>w \<in> set vs. conforms w e)" for e
        using enumerate_element [of _ 0 vs] element_enumerated [of _ vs 0] by (metis snd_conv)
      show ?thesis
      proof (cases "deref t")
        case (GSlice b e)
        have "walk v t path = None \<longleftrightarrow> (\<forall>iv \<in> set (enumerate 0 vs). walk (snd iv) e (index_path path (fst iv)) = None)"
          using False by (subst walk.simps) (auto simp: JArr GSlice first_some_None)
        also have "\<dots> \<longleftrightarrow> conforms v t" unfolding w using False by (subst conforms.simps) (auto simp: JArr GSlice)
        finally show ?thesis .
      qed (use False in \<open>auto simp: walk.simps [of "JArr vs" t] conforms.simps [of "JArr vs" t] JArr\<close>)
    next
      case (JObj ms)
      have d: "distinct (map fst ms)" "\<forall>m \<in> set ms. first_dup (snd m) = None" using no_dup_object less.prems by (auto simp: JObj)
      have w: "walk (snd m) e q = None \<longleftrightarrow> conforms (snd m) e" if "m \<in> set ms" for m e q
        using sub [of "snd m" e q] member_smaller [of "fst m" "snd m" ms] d(2) that by (simp add: JObj)
      show ?thesis
      proof (cases "deref t")
        case (GStruct b fs)
        have "walk v t path = None \<longleftrightarrow> (\<forall>k \<in> set (obj_keys ms). \<exists>ft. map_of (fieldTypes (deref t)) k = Some ft \<and> walk (obj_get ms k) ft (joinPath path k) = None)"
          using False by (subst walk.simps) (auto simp: JObj GStruct first_some_None split: option.splits)
        also have "\<dots> \<longleftrightarrow> (\<forall>m \<in> set ms. \<exists>ft. map_of (fieldTypes (deref t)) (fst m) = Some ft \<and> walk (snd m) ft (joinPath path (fst m)) = None)"
          by (rule all_keys [OF d(1)])
        also have "\<dots> \<longleftrightarrow> conforms v t" using False w by (subst conforms.simps) (auto simp: JObj GStruct)
        finally show ?thesis .
      next
        case (GMap b e)
        have "walk v t path = None \<longleftrightarrow> (\<forall>k \<in> set (obj_keys ms). walk (obj_get ms k) e (joinPath path (truncKey k)) = None)"
          using False by (subst walk.simps) (auto simp: JObj GMap first_some_None)
        also have "\<dots> \<longleftrightarrow> (\<forall>m \<in> set ms. walk (snd m) e (joinPath path (truncKey (fst m))) = None)"
          by (rule all_keys [OF d(1)])
        also have "\<dots> \<longleftrightarrow> conforms v t" using False w by (subst conforms.simps) (auto simp: JObj GMap)
        finally show ?thesis .
      qed (use False in \<open>auto simp: walk.simps [of "JObj ms" t] conforms.simps [of "JObj ms" t] JObj\<close>)
    qed (use False in \<open>auto simp: walk.simps [of _ t] conforms.simps [of _ t] split: gtype.splits\<close>)
  qed (simp add: walk.simps [of v] conforms.simps [of v])
qed


lemma Decode_accepts:
  "Decode lexer decode_into (Some t) data = Inr x \<longleftrightarrow>
     utf8_valid data \<and> (\<exists>v. lexer data = (toks v, True) \<and> jdepth v \<le> maxNestingDepth \<and> first_dup v = None \<and> conforms v t \<and> decode_into v = Inr x)"
  (is "?D \<longleftrightarrow> ?S")
proof
  assume d: ?D
  obtain ts clean where l: "lexer data = (ts, clean)" by (cases "lexer data")
  from d l obtain v where v: "utf8_valid data" "duplicateKey ts = None" "read_value (PVal False) [] ts = Some (v, [])" "clean"
      "walk v t [] = None" "decode_into v = Inr x"
    by (auto simp: Decode_def split: if_splits option.splits sum.splits)
  then have "ts = toks v" "jdepth v \<le> maxNestingDepth" by (auto simp: read_document)
  moreover from this have "first_dup v = None" using v(2) by (simp add: duplicateKey_toks)
  ultimately show ?S using v l walk_conforms [of v t "[]"] by auto
next
  assume ?S
  then obtain v where v: "utf8_valid data" "lexer data = (toks v, True)" "jdepth v \<le> maxNestingDepth" "first_dup v = None" "conforms v t" "decode_into v = Inr x"
    by blast
  then have "read_value (PVal False) [] (toks v) = Some (v, [])" "walk v t [] = None" by (simp_all add: read_document walk_conforms)
  then show ?D using v by (simp add: Decode_def duplicateKey_toks)
qed


end
