(* ===== verification/Broker_Registry.thy ===== *)
theory Broker_Registry
  imports OPA_Client Strict_JSON
begin

text \<open>
  What the broker knows before any request (\<open>src/src/broker/agent_registry.go\<close>,
  \<open>skill_registry.go\<close>) and how it reads a request in the structured language
  (\<open>StructuredTranslator\<close> of \<open>broker.go\<close>, the guard of \<open>translator_guard.go\<close>).

  The decoding of a document is the parameter \<open>decode\<close>; it yields the fields, or the detail the agent may
  read.  The broker passes the strict decoder, which \<open>Broker_Intent\<close> puts in its place.
\<close>

subsection \<open>Agents\<close>

record AgentQuotaPolicy =
  aq_MaxVolume :: u64
  aq_MaxWindowS :: u64

record AgentRecord =
  ag_Class :: Class
  ag_Quota :: "AgentQuotaPolicy option"
  ag_TransportIdentity :: string

type_synonym StaticAgentRegistry = "(string, AgentRecord) gomap"

definition agent_Resolve :: "StaticAgentRegistry \<Rightarrow> string \<Rightarrow> AgentRecord option" where
  "agent_Resolve r subject = map_of r subject"

subsection \<open>Skills\<close>

definition TierLow :: string where "TierLow = ''low''"
definition TierMedium :: string where "TierMedium = ''medium''"
definition TierHigh :: string where "TierHigh = ''high''"
definition TierCritical :: string where "TierCritical = ''critical''"

definition tierMaxScope :: "(string, nat) gomap" where
  "tierMaxScope = [(TierLow, 8), (TierMedium, 32), (TierHigh, 128)]"

definition tier_Valid :: "string \<Rightarrow> bool" where
  "tier_Valid t \<longleftrightarrow> t = TierLow \<or> t = TierMedium \<or> t = TierHigh \<or> t = TierCritical"

record SkillRecord =
  sr_Provenance :: string
  sr_Scope :: "string list"
  sr_RiskTier :: string

definition skill_Validate :: "SkillRecord \<Rightarrow> bool" where
  "skill_Validate r \<longleftrightarrow> sr_Provenance r \<noteq> [] \<and> tier_Valid (sr_RiskTier r) \<and>
     (case map_of tierMaxScope (sr_RiskTier r) of None \<Rightarrow> True | Some mx \<Rightarrow> length (sr_Scope r) \<le> mx)"

text \<open>The scope is compared literally.\<close>

primrec skill_allows :: "string list \<Rightarrow> string \<Rightarrow> bool" where
  "skill_allows [] resource \<longleftrightarrow> False"
| "skill_allows (a # scope) resource \<longleftrightarrow> a = resource \<or> skill_allows scope resource"

lemma skill_allows_iff: "skill_allows scope resource \<longleftrightarrow> resource \<in> set scope"
  by (induction scope) auto

type_synonym StaticSkillRegistry = "(string, SkillRecord) gomap"

definition skill_Resolve :: "StaticSkillRegistry \<Rightarrow> string \<Rightarrow> SkillRecord option" where
  "skill_Resolve r action = map_of r action"

subsection \<open>Text that does not show\<close>

text \<open>The code points of a string, as a Go loop over it yields them: a byte that starts no valid
  sequence counts as U+FFFD.\<close>

definition cont :: "nat \<Rightarrow> nat \<Rightarrow> char \<Rightarrow> bool" where
  "cont lo hi c \<longleftrightarrow> lo \<le> of_char c \<and> of_char c \<le> hi"

fun runes :: "string \<Rightarrow> nat list" where
  "runes [] = []"
| "runes [a] = [if of_char a < (128 :: nat) then of_char a else 65533]"
| "runes [a, b] =
     (if of_char a < (128 :: nat) then of_char a # runes [b]
      else if cont 194 223 a \<and> cont 128 191 b then [(of_char a - 192) * 64 + (of_char b - 128)]
      else 65533 # runes [b])"
| "runes [a, b, c] =
     (if of_char a < (128 :: nat) then of_char a # runes [b, c]
      else if cont 194 223 a \<and> cont 128 191 b then ((of_char a - 192) * 64 + (of_char b - 128)) # runes [c]
      else if cont 224 239 a \<and> cont (if of_char a = (224 :: nat) then 160 else 128) (if of_char a = (237 :: nat) then 159 else 191) b \<and>
              cont 128 191 c
      then [(of_char a - 224) * 4096 + (of_char b - 128) * 64 + (of_char c - 128)]
      else 65533 # runes [b, c])"
| "runes (a # b # c # d # s) =
     (if of_char a < (128 :: nat) then of_char a # runes (b # c # d # s)
      else if cont 194 223 a \<and> cont 128 191 b then ((of_char a - 192) * 64 + (of_char b - 128)) # runes (c # d # s)
      else if cont 224 239 a \<and> cont (if of_char a = (224 :: nat) then 160 else 128) (if of_char a = (237 :: nat) then 159 else 191) b \<and>
              cont 128 191 c
      then ((of_char a - 224) * 4096 + (of_char b - 128) * 64 + (of_char c - 128)) # runes (d # s)
      else if cont 240 244 a \<and> cont (if of_char a = (240 :: nat) then 144 else 128) (if of_char a = (244 :: nat) then 143 else 191) b \<and>
              cont 128 191 c \<and> cont 128 191 d
      then ((of_char a - 240) * 262144 + (of_char b - 128) * 4096 + (of_char c - 128) * 64 + (of_char d - 128)) # runes s
      else 65533 # runes (b # c # d # s))"

definition smugglingRanges :: "(nat \<times> nat) list" where
  "smugglingRanges = [(0x200B, 0x200F), (0x202A, 0x202E), (0x2060, 0x2064), (0xFE00, 0xFE0F), (0xFEFF, 0xFEFF),
     (0xE0000, 0xE007F), (0xE0100, 0xE01EF)]"

definition smuggling :: "nat \<Rightarrow> bool" where
  "smuggling r \<longleftrightarrow> list_ex (\<lambda>(lo, hi). lo \<le> r \<and> r \<le> hi) smugglingRanges"

definition rejectSmugglingUnicode :: "string list \<Rightarrow> bool" where
  "rejectSmugglingUnicode strs \<longleftrightarrow> list_ex (\<lambda>s. list_ex smuggling (runes s)) strs"

subsection \<open>The structured language\<close>

definition maxIntentBytes :: nat where "maxIntentBytes = 4096"
definition maxQuorumProofBytes :: nat where "maxQuorumProofBytes = 4096"
definition maxPlanBindingBytes :: nat where "maxPlanBindingBytes = 5 + 32 + 2 + 4096"

record Translation =
  tr_Action :: string
  tr_Resource :: string
  tr_Class :: "Class option"
  tr_ObjectSeal :: "bytes option"
  tr_Quota :: "Quota option"
  tr_QuorumProof :: bytes
  tr_PlanBinding :: bytes

datatype translate_error = PendingArbitration string | ArbitrationRefused | TranslationFailed "Detail option"

record structuredIntent =
  si_Action :: string
  si_Resource :: string
  si_Class :: "nat option"
  si_ObjectSeal :: string
  si_QuorumProof :: string
  si_PlanBinding :: string
  si_Quota :: "Quota option"

definition decodeHex32 :: "string \<Rightarrow> bytes option" where
  "decodeHex32 s = (case hex_decode s of None \<Rightarrow> None | Some b \<Rightarrow> if length b \<noteq> 32 then None else Some b)"

definition class_of_nat :: "nat \<Rightarrow> Class" where
  "class_of_nat n = (if n = 0 then ClassF else if n = 1 then ClassI else if n = 2 then ClassW else ClassOut)"

text \<open>An optional hexadecimal field: empty is absent, else bounded, then decoded.\<close>

definition opaque_field :: "nat \<Rightarrow> string \<Rightarrow> bytes option" where
  "opaque_field mx s = (if s = [] then Some [] else if length s > 2 * mx then None else hex_decode s)"

definition failed :: "(translate_error + Translation)" where "failed = Inl (TranslationFailed None)"

definition structured_Translate :: "(string \<Rightarrow> Detail + structuredIntent) \<Rightarrow> string \<Rightarrow> translate_error + Translation" where
  "structured_Translate decode intent =
     (case decode intent of Inl d \<Rightarrow> Inl (TranslationFailed (Some d))
      | Inr s \<Rightarrow>
        if si_Action s = [] \<or> si_Resource s = []
        then Inl (TranslationFailed (Some \<lparr>dt_Code = ''missing-field'',
               dt_Key = (if si_Action s \<noteq> [] then ''resource'' else ''action''), dt_Path = [], dt_Accepted = []\<rparr>))
        else if rejectSmugglingUnicode [si_Action s, si_Resource s] then failed
        else if (case si_Class s of None \<Rightarrow> False | Some c \<Rightarrow> c > 3)
        then Inl (TranslationFailed (Some \<lparr>dt_Code = ''out-of-range'', dt_Key = ''class'', dt_Path = [], dt_Accepted = []\<rparr>))
        else if si_ObjectSeal s \<noteq> [] \<and> decodeHex32 (si_ObjectSeal s) = None then failed
        else if (case si_Quota s of None \<Rightarrow> False | Some q \<Rightarrow> rejectSmugglingUnicode [q_Resource q, q_Operation q]) then failed
        else case opaque_field maxQuorumProofBytes (si_QuorumProof s) of None \<Rightarrow> failed
        | Some pf \<Rightarrow>
          (case opaque_field maxPlanBindingBytes (si_PlanBinding s) of None \<Rightarrow> failed
           | Some binding \<Rightarrow>
             Inr \<lparr>tr_Action = si_Action s, tr_Resource = si_Resource s, tr_Class = map_option class_of_nat (si_Class s),
                  tr_ObjectSeal = (if si_ObjectSeal s = [] then None else decodeHex32 (si_ObjectSeal s)),
                  tr_Quota = si_Quota s, tr_QuorumProof = pf, tr_PlanBinding = binding\<rparr>))"

text \<open>The guard of a degraded translator asks first.\<close>

definition guarded_Translate ::
  "(string \<Rightarrow> string \<Rightarrow> translate_error option) \<Rightarrow> (string \<Rightarrow> string \<Rightarrow> translate_error + Translation)
     \<Rightarrow> string \<Rightarrow> string \<Rightarrow> translate_error + Translation" where
  "guarded_Translate gate inner subject intent =
     (case gate subject intent of Some e \<Rightarrow> Inl e | None \<Rightarrow> inner subject intent)"

end
