(* ===== verification/Broker_Envelope.thy ===== *)
theory Broker_Envelope
  imports OPA_Client
begin

text \<open>
  The issuance envelope of the broker (\<open>src/src/broker/envelope.go\<close>): the ledger that adds up, per
  subject and epoch, the volume of the passports requested, and the client that asks the policy
  engine whether the total still fits.  The ledger counts on 64-bit words, refuses rather than wrap,
  is bounded, and forgets the epochs that are over.

  Requests run concurrently; each operation of the ledger runs under its lock.  The requests are
  therefore modelled by the sequence of their operations: a reservation, then either its release or
  the issuance of the passport.
\<close>

subsection \<open>The ledger\<close>

definition TripReasonEnvelopeSaturated :: string where "TripReasonEnvelopeSaturated = ''envelope-ledger-saturated''"

datatype envelope_error = ErrEnvelopeSaturated | ErrEnvelopeOverflow

type_synonym envelopeKey = "string \<times> u64"

record EnvelopeLedger =
  el_max :: int
  el_agg :: "(envelopeKey, u64) gomap"
  el_tripped :: bool

definition NewEnvelopeLedger :: "int \<Rightarrow> EnvelopeLedger option" where
  "NewEnvelopeLedger maxEntities =
     (if maxEntities \<le> 0 then None else Some \<lparr>el_max = maxEntities, el_agg = [], el_tripped = False\<rparr>)"

definition aggregate :: "(envelopeKey, u64) gomap \<Rightarrow> envelopeKey \<Rightarrow> u64" where
  "aggregate m k = (case map_of m k of None \<Rightarrow> 0 | Some v \<Rightarrow> v)"

definition el_purge :: "EnvelopeLedger \<Rightarrow> u64 \<Rightarrow> EnvelopeLedger" where
  "el_purge l currentEpoch = l\<lparr>el_agg := filter (\<lambda>(k, v). \<not> snd k < currentEpoch) (el_agg l)\<rparr>"

definition el_trip :: "EnvelopeLedger \<Rightarrow> EnvelopeLedger \<times> string list" where
  "el_trip l = (if el_tripped l then (l, []) else (l\<lparr>el_tripped := True\<rparr>, [TripReasonEnvelopeSaturated]))"

text \<open>The greatest 64-bit word, \<open>^uint64(0)\<close>, is \<open>- 1\<close>.\<close>

definition Reserve ::
  "EnvelopeLedger \<Rightarrow> string \<Rightarrow> u64 \<Rightarrow> u64 \<Rightarrow> EnvelopeLedger \<times> string list \<times> (envelope_error + u64)" where
  "Reserve l subject epoch volume =
     (let l1 = el_purge l epoch; k = (subject, epoch)
      in if map_of (el_agg l1) k = None \<and> int (length (el_agg l1)) = el_max l1
         then (case el_trip l1 of (l2, al) \<Rightarrow> (l2, al, Inl ErrEnvelopeSaturated))
         else if aggregate (el_agg l1) k > - 1 - volume then (l1, [], Inl ErrEnvelopeOverflow)
         else let total = aggregate (el_agg l1) k + volume
              in (l1\<lparr>el_agg := put k total (el_agg l1)\<rparr>, [], Inr total))"

definition Release :: "EnvelopeLedger \<Rightarrow> string \<Rightarrow> u64 \<Rightarrow> u64 \<Rightarrow> EnvelopeLedger" where
  "Release l subject epoch volume =
     (case map_of (el_agg l) (subject, epoch) of None \<Rightarrow> l
      | Some cur \<Rightarrow> if cur \<le> volume then l\<lparr>el_agg := del (subject, epoch) (el_agg l)\<rparr>
                    else l\<lparr>el_agg := put (subject, epoch) (cur - volume) (el_agg l)\<rparr>)"

definition Aggregate :: "EnvelopeLedger \<Rightarrow> string \<Rightarrow> u64 \<Rightarrow> u64" where
  "Aggregate l subject epoch = aggregate (el_agg l) (subject, epoch)"

definition el_Len :: "EnvelopeLedger \<Rightarrow> nat" where
  "el_Len l = length (el_agg l)"

subsection \<open>The evaluator\<close>

definition EnvelopeEvalTimeout :: int where "EnvelopeEvalTimeout = 5 * (second div 1000)"

definition ReasonEnvelopeDeny :: string where "ReasonEnvelopeDeny = ''envelope-deny''"
definition ReasonEnvelopeUndefined :: string where "ReasonEnvelopeUndefined = ''envelope-undefined''"
definition ReasonEnvelopeTimeout :: string where "ReasonEnvelopeTimeout = ''envelope-timeout''"
definition ReasonEnvelopeUnreachable :: string where "ReasonEnvelopeUnreachable = ''envelope-unreachable''"
definition ReasonEnvelopeError :: string where "ReasonEnvelopeError = ''envelope-error''"
definition ReasonEnvelopeBadResponse :: string where "ReasonEnvelopeBadResponse = ''envelope-bad-response''"

record EnvelopeInput =
  ei_Subject :: string
  ei_Epoch :: u64
  ei_Resource :: string
  ei_Operation :: string
  ei_Requested :: u64
  ei_Issued :: u64

record EnvelopeDecision =
  ed_Allow :: bool
  ed_Reason :: string

record HTTPEnvelopeEvaluator =
  he_endpoint :: string
  he_timeout :: int

definition NewHTTPEnvelopeEvaluator :: "string \<Rightarrow> int \<Rightarrow> HTTPEnvelopeEvaluator option" where
  "NewHTTPEnvelopeEvaluator endpoint timeout =
     (if endpoint = [] then None else if timeout < 0 then None
      else Some \<lparr>he_endpoint = endpoint, he_timeout = (if timeout = 0 then EnvelopeEvalTimeout else timeout)\<rparr>)"

text \<open>A fault of the engine raises its reason as an alarm, a verdict of a healthy engine does not.\<close>

definition en_finish :: "string \<Rightarrow> EnvelopeDecision \<times> string list" where
  "en_finish reason = (\<lparr>ed_Allow = False, ed_Reason = reason\<rparr>, [reason])"

definition en_finishNoTrip :: "bool \<Rightarrow> string \<Rightarrow> EnvelopeDecision \<times> string list" where
  "en_finishNoTrip allow reason = (\<lparr>ed_Allow = allow, ed_Reason = reason\<rparr>, [])"

definition EvalEnvelope :: "(EnvelopeInput \<Rightarrow> exchange) \<Rightarrow> EnvelopeInput \<Rightarrow> EnvelopeDecision \<times> string list" where
  "EvalEnvelope ask i =
     (let e = ask i
      in if \<not> ex_marshalled e then en_finish ReasonEnvelopeBadResponse
         else if \<not> ex_built e then en_finish ReasonEnvelopeUnreachable
         else case ex_answer e of
           None \<Rightarrow> if ex_caller_done e then en_finishNoTrip False ReasonEnvelopeUnreachable
                   else if ex_deadline e then en_finish ReasonEnvelopeTimeout
                   else en_finish ReasonEnvelopeUnreachable
         | Some (status, body) \<Rightarrow>
             if status \<noteq> 200 then en_finish ReasonEnvelopeError
             else (case body of
                Undecodable \<Rightarrow> if ex_deadline e then en_finish ReasonEnvelopeTimeout else en_finish ReasonEnvelopeBadResponse
              | ResultNil \<Rightarrow> en_finishNoTrip False ReasonEnvelopeUndefined
              | AllowNil \<Rightarrow> en_finish ReasonEnvelopeBadResponse
              | AllowIs b \<Rightarrow> if b then en_finishNoTrip True ''ok'' else en_finishNoTrip False ReasonEnvelopeDeny))"

lemma EvalEnvelope_allow:
  "ed_Allow (fst (EvalEnvelope ask i)) \<longleftrightarrow> ex_marshalled (ask i) \<and> ex_built (ask i) \<and> ex_answer (ask i) = Some (200, AllowIs True)"
  by (auto simp: EvalEnvelope_def en_finish_def en_finishNoTrip_def Let_def split: option.splits opaResponse.splits)

text \<open>A caller that leaves while the body is read is counted as a broken engine, unlike in the client
  of \<open>OPA_Client\<close>.\<close>

lemma caller_blamed_on_engine:
  "\<exists>e. ex_caller_done e \<and> \<not> ex_deadline e \<and>
     snd (EvalEnvelope (\<lambda>_. e) i) = [ReasonEnvelopeBadResponse] \<and>
     snd (outcome_of e) = (False, ReasonOPACallerCancelled)"
  by (rule exI [of _ "\<lparr>ex_marshalled = True, ex_built = True, ex_answer = Some (200, Undecodable), ex_caller_done = True, ex_deadline = False\<rparr>"])
    (simp add: EvalEnvelope_def en_finish_def outcome_of_def classifyContextFault_def)

subsection \<open>Requests in flight\<close>

record reservation =
  rv_subject :: string
  rv_epoch :: u64
  rv_volume :: u64
  rv_total :: u64
  rv_issued :: bool

record envelope =
  en_ledger :: EnvelopeLedger
  en_epoch :: u64
  en_requests :: "reservation list"

text \<open>The steps of the requests of a broker, with \<open>allowed\<close> the answers of the policy engine.  Epochs
  reach the ledger in order; a passport is issued only on an answer given for the total its
  reservation returned; a reservation is released only before its passport is issued.\<close>

inductive envelope_step :: "(EnvelopeInput \<Rightarrow> bool) \<Rightarrow> envelope \<Rightarrow> envelope \<Rightarrow> bool" for allowed where
  reserved: "en_epoch s \<le> epoch \<Longrightarrow> Reserve (en_ledger s) subject epoch volume = (l, al, Inr tot) \<Longrightarrow>
     envelope_step allowed s \<lparr>en_ledger = l, en_epoch = epoch, en_requests =
       \<lparr>rv_subject = subject, rv_epoch = epoch, rv_volume = volume, rv_total = tot, rv_issued = False\<rparr> # en_requests s\<rparr>"
| refused: "en_epoch s \<le> epoch \<Longrightarrow> Reserve (en_ledger s) subject epoch volume = (l, al, Inl err) \<Longrightarrow>
     envelope_step allowed s (s\<lparr>en_ledger := l, en_epoch := epoch\<rparr>)"
| released: "en_requests s = xs @ r # ys \<Longrightarrow> \<not> rv_issued r \<Longrightarrow>
     envelope_step allowed s (s\<lparr>en_ledger := Release (en_ledger s) (rv_subject r) (rv_epoch r) (rv_volume r),
                                en_requests := xs @ ys\<rparr>)"
| issued: "en_requests s = xs @ r # ys \<Longrightarrow>
     allowed \<lparr>ei_Subject = rv_subject r, ei_Epoch = rv_epoch r, ei_Resource = res, ei_Operation = oper,
              ei_Requested = rv_volume r, ei_Issued = rv_total r\<rparr> \<Longrightarrow>
     envelope_step allowed s (s\<lparr>en_requests := xs @ r\<lparr>rv_issued := True\<rparr> # ys\<rparr>)"

inductive envelope_reachable :: "(EnvelopeInput \<Rightarrow> bool) \<Rightarrow> envelope \<Rightarrow> bool" for allowed where
  start: "NewEnvelopeLedger maxEntities = Some l \<Longrightarrow>
     envelope_reachable allowed \<lparr>en_ledger = l, en_epoch = 0, en_requests = []\<rparr>"
| step: "envelope_reachable allowed s \<Longrightarrow> envelope_step allowed s s' \<Longrightarrow> envelope_reachable allowed s'"

definition of_key :: "envelopeKey \<Rightarrow> reservation \<Rightarrow> bool" where
  "of_key k r \<longleftrightarrow> rv_subject r = fst k \<and> rv_epoch r = snd k"

definition volume :: "envelopeKey \<Rightarrow> reservation list \<Rightarrow> nat" where
  "volume k rs = sum_list (map (\<lambda>r. unat (rv_volume r)) (filter (of_key k) rs))"

text \<open>Of the epochs not yet over the ledger holds exactly the volume of the reservations.\<close>

definition ledger_exact :: "EnvelopeLedger \<Rightarrow> u64 \<Rightarrow> reservation list \<Rightarrow> bool" where
  "ledger_exact l e rs \<longleftrightarrow> wf_map (el_agg l) \<and> int (length (el_agg l)) \<le> el_max l \<and>
     (\<forall>k. e \<le> snd k \<longrightarrow> unat (aggregate (el_agg l) k) = volume k rs) \<and> (\<forall>k \<in> fst ` set (el_agg l). e \<le> snd k)"

text \<open>Every reservation was answered with a total that covers it and all the older ones that still
  stand; the engine allowed that total for every passport issued.  Newest first.\<close>

definition answered :: "(EnvelopeInput \<Rightarrow> bool) \<Rightarrow> reservation \<Rightarrow> bool" where
  "answered allowed r \<longleftrightarrow>
     (\<exists>i. allowed i \<and> ei_Subject i = rv_subject r \<and> ei_Epoch i = rv_epoch r \<and> ei_Issued i = rv_total r)"

fun covered :: "(EnvelopeInput \<Rightarrow> bool) \<Rightarrow> reservation list \<Rightarrow> bool" where
  "covered allowed [] \<longleftrightarrow> True"
| "covered allowed (r # rs) \<longleftrightarrow>
     volume (rv_subject r, rv_epoch r) (r # rs) \<le> unat (rv_total r) \<and> (rv_issued r \<longrightarrow> answered allowed r) \<and> covered allowed rs"

definition envelope_inv :: "(EnvelopeInput \<Rightarrow> bool) \<Rightarrow> envelope \<Rightarrow> bool" where
  "envelope_inv allowed s \<longleftrightarrow> ledger_exact (en_ledger s) (en_epoch s) (en_requests s) \<and> covered allowed (en_requests s)"

lemma volume_simps [simp]:
  "volume k [] = 0" "volume k (r # rs) = (if of_key k r then unat (rv_volume r) else 0) + volume k rs"
  "volume k (xs @ ys) = volume k xs + volume k ys"
  by (simp_all add: volume_def)

lemma no_overflow:
  fixes a b :: u64
  assumes "\<not> - 1 - b < a"
  shows "unat (a + b) = unat a + unat b"
proof -
  have "unat (- 1 - b) = 2 ^ 64 - 1 - unat b"
    by (subst unat_sub) (simp_all add: unsigned_minus_1_eq_mask mask_eq_exp_minus_1)
  moreover have "unat a \<le> unat (- 1 - b)" using assms by (simp add: word_le_nat_alt not_less)
  moreover have "unat b < 2 ^ 64" using unsigned_less [of b] by simp
  ultimately have "unat a + unat b < 2 ^ 64" by linarith
  then show ?thesis by (simp add: unat_word_ariths)
qed

lemma purge_aggregate:
  "wf_map (el_agg l) \<Longrightarrow> aggregate (el_agg (el_purge l e)) k = (if snd k < e then 0 else aggregate (el_agg l) k)"
  by (auto simp: aggregate_def el_purge_def lookup_filter split: option.splits)

lemma Reserve_cases:
  assumes "Reserve l subject epoch v = (l', al, res)" "wf_map (el_agg l)"
  obtains (taken) tot where "res = Inr tot" "unat tot = unat (aggregate (el_agg (el_purge l epoch)) (subject, epoch)) + unat v"
      "el_agg l' = put (subject, epoch) tot (el_agg (el_purge l epoch))" "el_max l' = el_max l"
      "map_of (el_agg (el_purge l epoch)) (subject, epoch) = None \<longrightarrow> int (length (el_agg (el_purge l epoch))) \<noteq> el_max l"
  | (full) err where "res = Inl err" "el_agg l' = el_agg (el_purge l epoch)" "el_max l' = el_max l"
  using assms no_overflow
  by (auto simp: Reserve_def el_trip_def Let_def el_purge_def split: if_splits)

lemma purge_frame: "length (el_agg (el_purge l e)) \<le> length (el_agg l)" "el_max (el_purge l e) = el_max l"
    "wf_map (el_agg l) \<Longrightarrow> wf_map (el_agg (el_purge l e))" "k \<in> fst ` set (el_agg (el_purge l e)) \<Longrightarrow> e \<le> snd k"
  by (auto simp: el_purge_def)

lemma purge_exact:
  assumes "ledger_exact l e rs" "e \<le> e'"
  shows "ledger_exact (el_purge l e') e' rs"
proof -
  have w: "wf_map (el_agg l)" using assms(1) by (simp add: ledger_exact_def)
  have "unat (aggregate (el_agg (el_purge l e')) k) = volume k rs" if "e' \<le> snd k" for k
  proof -
    have "\<not> snd k < e'" "e \<le> snd k" using that assms(2) by (auto simp: not_less intro: order_trans)
    with purge_aggregate [OF w, of e' k] assms(1) show ?thesis by (cases k) (simp add: ledger_exact_def)
  qed
  moreover have "int (length (el_agg (el_purge l e'))) \<le> el_max (el_purge l e')"
    using assms(1) purge_frame(1,2) [of l e'] by (simp add: ledger_exact_def)
  ultimately show ?thesis using purge_frame(3,4) w by (simp add: ledger_exact_def)
qed

lemma Reserve_exact:
  assumes "Reserve l subject epoch v = (l', al, res)" "ledger_exact l e rs" "e \<le> epoch"
  shows "case res of Inl err \<Rightarrow> ledger_exact l' epoch rs
    | Inr tot \<Rightarrow> unat tot = volume (subject, epoch) rs + unat v \<and>
        (\<forall>r. of_key (subject, epoch) r \<and> rv_volume r = v \<longrightarrow> ledger_exact l' epoch (r # rs))"
proof -
  note p = purge_exact [OF assms(2,3), unfolded ledger_exact_def]
  have w: "wf_map (el_agg l)" using assms(2) by (simp add: ledger_exact_def)
  from assms(1) w show ?thesis
  proof (cases rule: Reserve_cases)
    case (taken tot)
    have tot: "unat tot = volume (subject, epoch) rs + unat v" using taken(2) p by simp
    moreover have "int (length (el_agg l')) \<le> el_max l'"
      using p taken(3-5) purge_frame(2) [of l epoch] by (auto simp: length_put map_of_eq_None_iff)
    moreover have "unat (aggregate (el_agg l') k) = volume k (r # rs)"
      if "of_key (subject, epoch) r" "rv_volume r = v" "epoch \<le> snd k" for k r
      using that p tot by (cases k) (auto simp: taken(3) aggregate_def of_key_def)
    ultimately show ?thesis using p taken(1,3) by (auto simp: ledger_exact_def dom_put)
  next
    case (full err)
    with p show ?thesis by (simp add: ledger_exact_def purge_frame(2))
  qed
qed

lemma Release_frame:
  assumes "wf_map (el_agg l)"
  shows "wf_map (el_agg (Release l s e v)) \<and> el_max (Release l s e v) = el_max l \<and>
    length (el_agg (Release l s e v)) \<le> length (el_agg l) \<and>
    fst ` set (el_agg (Release l s e v)) \<subseteq> fst ` set (el_agg l)"
proof (cases "map_of (el_agg l) (s, e)")
  case (Some cur)
  then have "(s, e) \<in> fst ` set (el_agg l)" by (force dest: map_of_SomeD)
  moreover have "length (del (s, e) (el_agg l)) \<le> length (el_agg l)" "fst ` set (del (s, e) (el_agg l)) \<subseteq> fst ` set (el_agg l)"
    by (auto simp: del_def AList.delete_eq)
  ultimately show ?thesis using assms Some by (auto simp: Release_def length_put dom_put)
qed (use assms in \<open>simp add: Release_def\<close>)

lemma Release_exact:
  assumes "ledger_exact l e (xs @ r # ys)"
  shows "ledger_exact (Release l (rv_subject r) (rv_epoch r) (rv_volume r)) e (xs @ ys)"
proof -
  let ?k = "(rv_subject r, rv_epoch r)"
  have w: "wf_map (el_agg l)" and dom: "\<forall>k \<in> fst ` set (el_agg l). e \<le> snd k"
    and ex: "\<And>k. e \<le> snd k \<Longrightarrow> unat (aggregate (el_agg l) k) = volume k (xs @ r # ys)"
    using assms by (auto simp: ledger_exact_def)
  show ?thesis
  proof (cases "map_of (el_agg l) ?k")
    case None
    then have "volume k (xs @ ys) = volume k (xs @ r # ys)" if "e \<le> snd k" for k
      using ex [OF that] by (cases k) (auto simp: aggregate_def of_key_def)
    with None assms show ?thesis by (simp add: ledger_exact_def Release_def)
  next
    case (Some cur)
    then have "?k \<in> fst ` set (el_agg l)" by (force dest: map_of_SomeD)
    then have cur: "unat cur = volume ?k (xs @ r # ys)" using ex [of ?k] dom Some by (auto simp: aggregate_def)
    have ag: "unat (aggregate (el_agg (Release l (rv_subject r) (rv_epoch r) (rv_volume r))) k) = volume k (xs @ ys)"
      if "e \<le> snd k" for k
    proof (cases "k = ?k")
      case False
      then have "\<not> of_key k r" by (cases k) (auto simp: of_key_def)
      with False ex [OF that] Some show ?thesis by (simp add: Release_def aggregate_def)
    next
      case True
      then have k: "of_key k r" by (simp add: of_key_def)
      show ?thesis
      proof (cases "cur \<le> rv_volume r")
        case le: True
        then have "unat cur \<le> unat (rv_volume r)" by (simp add: word_le_nat_alt)
        then show ?thesis using le k cur True Some by (simp add: Release_def aggregate_def)
      next
        case False
        then have "unat (cur - rv_volume r) = unat cur - unat (rv_volume r)" by (intro unat_sub) simp
        then show ?thesis using False k cur True Some by (simp add: Release_def aggregate_def)
      qed
    qed
    note f = Release_frame [OF w, of "rv_subject r" "rv_epoch r" "rv_volume r"]
    have len: "int (length (el_agg l)) \<le> el_max l" using assms by (simp add: ledger_exact_def)
    show ?thesis
      unfolding ledger_exact_def
    proof (intro conjI allI impI ballI)
      show "int (length (el_agg (Release l (rv_subject r) (rv_epoch r) (rv_volume r))))
          \<le> el_max (Release l (rv_subject r) (rv_epoch r) (rv_volume r))"
        using f len by linarith
    next
      fix k assume "k \<in> fst ` set (el_agg (Release l (rv_subject r) (rv_epoch r) (rv_volume r)))"
      then show "e \<le> snd k" using f dom by blast
    qed (use f ag in blast)+
  qed
qed

lemma covered_remove: "covered allowed (xs @ r # ys) \<Longrightarrow> covered allowed (xs @ ys)"
  by (induction xs) auto

lemma covered_issue:
  "covered allowed (xs @ r # ys) \<Longrightarrow> answered allowed r \<Longrightarrow> covered allowed (xs @ r\<lparr>rv_issued := True\<rparr> # ys)"
  by (induction xs) (auto simp: answered_def of_key_def)

lemma volume_issue: "volume k (xs @ r\<lparr>rv_issued := True\<rparr> # ys) = volume k (xs @ r # ys)"
  by (simp add: of_key_def)

lemma envelope_step_inv: "envelope_step allowed s s' \<Longrightarrow> envelope_inv allowed s \<Longrightarrow> envelope_inv allowed s'"
proof (induction rule: envelope_step.induct)
  case (reserved s epoch subject v l al tot)
  then show ?case
    using Reserve_exact [OF reserved(2)] by (auto simp: envelope_inv_def of_key_def)
next
  case (refused s epoch subject v l al err)
  then show ?case
    using Reserve_exact [OF refused(2)] by (auto simp: envelope_inv_def)
next
  case (released s xs r ys)
  then show ?case by (auto simp: envelope_inv_def intro: Release_exact covered_remove)
next
  case (issued s xs r ys res oper)
  then have "answered allowed r" by (force simp: answered_def)
  with issued show ?case
    by (simp add: envelope_inv_def covered_issue ledger_exact_def volume_issue del: volume_simps)
qed

lemma envelope_reachable_inv: "envelope_reachable allowed s \<Longrightarrow> envelope_inv allowed s"
proof (induction rule: envelope_reachable.induct)
  case (start maxEntities l)
  then show ?case
    by (auto simp: NewEnvelopeLedger_def envelope_inv_def ledger_exact_def aggregate_def split: if_splits)
qed (rule envelope_step_inv)

text \<open>The passports issued fit under the total of the newest of them.\<close>

lemma covered_issued:
  assumes "covered allowed rs" "\<And>r. r \<in> set rs \<Longrightarrow> rv_issued r \<Longrightarrow> of_key k r \<Longrightarrow> answered allowed r \<Longrightarrow> unat (rv_total r) \<le> cap"
  shows "volume k (filter rv_issued rs) \<le> cap"
  using assms
proof (induction rs)
  case (Cons r rs)
  have sub: "volume k (filter rv_issued rs) \<le> volume k rs" by (induction rs) auto
  show ?case
  proof (cases "rv_issued r \<and> of_key k r")
    case True
    then have "k = (rv_subject r, rv_epoch r)" by (cases k) (simp add: of_key_def)
    with Cons.prems True sub show ?thesis by (force simp: of_key_def)
  next
    case False
    then show ?thesis using Cons by auto
  qed
qed simp

subsection \<open>Properties\<close>


text \<open>Two requests of 60 under an envelope of 100: the first is issued, the second refused.\<close>

definition rule_ex :: "EnvelopeInput \<Rightarrow> bool" where "rule_ex i \<longleftrightarrow> ei_Issued i \<le> 100"

definition el_ex :: "u64 \<Rightarrow> EnvelopeLedger" where
  "el_ex v = \<lparr>el_max = 4, el_agg = [((''bot'', 1), v)], el_tripped = False\<rparr>"

definition rv_ex :: "u64 \<Rightarrow> bool \<Rightarrow> reservation" where
  "rv_ex t b = \<lparr>rv_subject = ''bot'', rv_epoch = 1, rv_volume = 60, rv_total = t, rv_issued = b\<rparr>"

lemma envelope_ex:
  "envelope_reachable rule_ex \<lparr>en_ledger = el_ex 120, en_epoch = 1, en_requests = [rv_ex 120 False, rv_ex 60 True]\<rparr>"
proof -
  let ?s0 = "\<lparr>en_ledger = \<lparr>el_max = 4, el_agg = [], el_tripped = False\<rparr>, en_epoch = 0, en_requests = []\<rparr>"
  let ?s1 = "\<lparr>en_ledger = el_ex 60, en_epoch = 1, en_requests = [rv_ex 60 False]\<rparr>"
  let ?s2 = "\<lparr>en_ledger = el_ex 60, en_epoch = 1, en_requests = [rv_ex 60 True]\<rparr>"
  let ?s3 = "\<lparr>en_ledger = el_ex 120, en_epoch = 1, en_requests = [rv_ex 120 False, rv_ex 60 True]\<rparr>"
  have "NewEnvelopeLedger 4 = Some (en_ledger ?s0)" by (simp add: NewEnvelopeLedger_def)
  from envelope_reachable.start [OF this] have r0: "envelope_reachable rule_ex ?s0" by simp
  have "Reserve (en_ledger ?s0) ''bot'' 1 60 = (el_ex 60, [], Inr 60)"
    by (simp add: Reserve_def el_purge_def aggregate_def put_def el_ex_def Let_def)
  from envelope_step.reserved [OF _ this] have s1: "envelope_step rule_ex ?s0 ?s1" by (simp add: rv_ex_def)
  have "envelope_step rule_ex ?s1 (?s1\<lparr>en_requests := [] @ (rv_ex 60 False)\<lparr>rv_issued := True\<rparr> # []\<rparr>)"
    by (rule envelope_step.issued) (simp_all add: rule_ex_def rv_ex_def)
  then have s2: "envelope_step rule_ex ?s1 ?s2" by (simp add: rv_ex_def)
  have "Reserve (en_ledger ?s2) ''bot'' 1 60 = (el_ex 120, [], Inr 120)"
    by (simp add: Reserve_def el_purge_def aggregate_def put_def el_ex_def Let_def)
  from envelope_step.reserved [OF _ this] have s3: "envelope_step rule_ex ?s2 ?s3" by (simp add: rv_ex_def)
  from envelope_reachable.step [OF envelope_reachable.step [OF envelope_reachable.step [OF r0 s1] s2] s3] show ?thesis .
qed


end
