(* ===== verification/Broker_Issuer.thy ===== *)
theory Broker_Issuer
  imports Validator
begin

text \<open>
  The token issuer of the broker (\<open>src/src/broker/issuer.go\<close>): the bounds it checks, the closed set
  of claims it writes and the message it signs.

  The CBOR encoder is the one of \<open>codec\<close>.  The COSE library with the signer of the cell is the
  parameter \<open>sign1\<close>: from the algorithm, the key identifier and the payload to the bytes on the wire.
  What the library documents about both is stated by \<open>cbor_law\<close> and \<open>cose_law\<close>.
\<close>

subsection \<open>Configuration\<close>

definition iss_minTTLSec :: int where "iss_minTTLSec = 30"
definition iss_maxTTLSec :: int where "iss_maxTTLSec = 60"
definition defaultTTLSec :: int where "defaultTTLSec = 45"
definition tokenVersion :: u64 where "tokenVersion = 2"
definition maxTokenWireSize :: nat where "maxTokenWireSize = 1024"

datatype issue_error = ErrSubjectInvalid | ErrActionInvalid | ErrResourceInvalid | ErrQuotaInvalid
  | ErrClaimsEncoding | ErrSigning | ErrTokenTooLarge

record IssueParams =
  ip_Subject :: string
  ip_Action :: string
  ip_Resource :: string
  ip_Class :: "Class option"
  ip_ObjectSeal :: "bytes option"
  ip_Quota :: "Quota option"
  ip_PlanSeal :: "bytes option"
  ip_JTI :: bytes
  ip_Epoch :: u64
  ip_Iat :: int

record Issuer =
  is_cellID :: string
  is_policyID :: bytes
  is_ttlSec :: int
  is_kid :: bytes

definition NewIssuer :: "(bytes \<Rightarrow> bytes) \<Rightarrow> string \<Rightarrow> bytes option \<Rightarrow> bytes \<Rightarrow> int \<Rightarrow> Issuer option" where
  "NewIssuer sha cellID signer policyID ttlSec =
     (if cellID = [] \<or> length cellID > maxIssSubActionLen then None
      else case signer of None \<Rightarrow> None
      | Some pub \<Rightarrow>
          let ttl = (if ttlSec = 0 then defaultTTLSec else ttlSec)
          in if ttl < iss_minTTLSec \<or> ttl > iss_maxTTLSec then None
             else Some \<lparr>is_cellID = cellID, is_policyID = policyID, is_ttlSec = ttl, is_kid = KeyIDFromPublicKey sha pub\<rparr>)"

subsection \<open>Claims\<close>

text \<open>A Go \<open>int64\<close> key on the wire: non-negative integers and negative ones are different CBOR types.\<close>

definition claim_key :: "int \<Rightarrow> cbor" where
  "claim_key k = (if k \<ge> 0 then CUint (word_of_int k) else CInt (word_of_int k))"

definition class_claim :: "Class \<Rightarrow> u64" where
  "class_claim c = (case c of ClassF \<Rightarrow> 0 | ClassI \<Rightarrow> 1 | ClassW \<Rightarrow> 2 | ClassOut \<Rightarrow> 3)"

definition quota_claim :: "Quota \<Rightarrow> cbor" where
  "quota_claim q = CMap [(claim_key 1, CText (q_Resource q)), (claim_key 2, CText (q_Operation q)),
     (claim_key 3, CUint (q_VolumeMax q)), (claim_key 4, CUint (q_WindowS q))]"

definition opt_entry :: "int \<Rightarrow> ('a \<Rightarrow> cbor) \<Rightarrow> 'a option \<Rightarrow> (int \<times> cbor) list" where
  "opt_entry k f x = (case x of None \<Rightarrow> [] | Some v \<Rightarrow> [(k, f v)])"

definition issue_claims :: "Issuer \<Rightarrow> IssueParams \<Rightarrow> (int \<times> cbor) list" where
  "issue_claims i p =
     [(1, CText (is_cellID i)), (2, CText (ip_Subject p)),
      (4, CUint (word_of_int (ip_Iat p + is_ttlSec i))), (6, CUint (word_of_int (ip_Iat p))),
      (7, CBytes (ip_JTI p)), (- 1, CBytes (is_policyID i)), (- 2, CText (ip_Action p)),
      (- 3, CText (ip_Resource p)), (- 6, CUint (ip_Epoch p)), (- 9, CUint tokenVersion)] @
     opt_entry (- 4) (\<lambda>c. CUint (class_claim c)) (ip_Class p) @
     opt_entry (- 5) CBytes (ip_ObjectSeal p) @
     opt_entry (- 7) quota_claim (ip_Quota p) @
     opt_entry (- 8) CBytes (ip_PlanSeal p)"

definition wire_claims :: "Issuer \<Rightarrow> IssueParams \<Rightarrow> (cbor \<times> cbor) list" where
  "wire_claims i p = map (\<lambda>(k, v). (claim_key k, v)) (issue_claims i p)"

definition bad_quota :: "Quota \<Rightarrow> bool" where
  "bad_quota q \<longleftrightarrow> length (q_Resource q) < 1 \<or> length (q_Resource q) > maxResourceLen \<or>
     length (q_Operation q) < 1 \<or> length (q_Operation q) > maxQuotaOpLen \<or> q_WindowS q = 0"

definition Issue ::
  "codec \<Rightarrow> (int \<Rightarrow> bytes \<Rightarrow> bytes \<Rightarrow> bytes option) \<Rightarrow> Issuer \<Rightarrow> IssueParams \<Rightarrow> issue_error + bytes" where
  "Issue cd sign1 i p =
     (if length (ip_Subject p) < 1 \<or> length (ip_Subject p) > maxIssSubActionLen then Inl ErrSubjectInvalid
      else if length (ip_Action p) < 1 \<or> length (ip_Action p) > maxIssSubActionLen then Inl ErrActionInvalid
      else if length (ip_Resource p) < 1 \<or> length (ip_Resource p) > maxResourceLen then Inl ErrResourceInvalid
      else if (case ip_Quota p of None \<Rightarrow> False | Some q \<Rightarrow> bad_quota q) then Inl ErrQuotaInvalid
      else case enc_map cd (wire_claims i p) of None \<Rightarrow> Inl ErrClaimsEncoding
      | Some payload \<Rightarrow>
        (case sign1 (alg_ed25519 cd) (is_kid i) payload of None \<Rightarrow> Inl ErrSigning
         | Some wire \<Rightarrow> if length wire > maxTokenWireSize then Inl ErrTokenTooLarge else Inr wire))"

subsection \<open>What the libraries promise\<close>

text \<open>A map encoded canonically decodes to the same entries, and the decoded map encodes to the same
  bytes.\<close>

definition cbor_law :: "codec \<Rightarrow> bool" where
  "cbor_law cd \<longleftrightarrow> (\<forall>m p. distinct (map fst m) \<longrightarrow> enc_map cd m = Some p \<longrightarrow>
     (\<exists>m'. dec_map cd p = Some m' \<and> set m' = set m \<and> distinct (map fst m') \<and> enc_map cd m' = Some p))"

text \<open>A signed message decodes to its payload and its two protected headers, and its signature
  verifies under the public key of the signer.\<close>

definition cose_law :: "codec \<Rightarrow> (int \<Rightarrow> bytes \<Rightarrow> bytes \<Rightarrow> bytes option) \<Rightarrow> bytes \<Rightarrow> bool" where
  "cose_law cd sign1 pub \<longleftrightarrow> key_ok cd pub \<and> int64 (alg_ed25519 cd) \<and>
     (\<forall>kid payload wire. sign1 (alg_ed25519 cd) kid payload = Some wire \<longrightarrow>
        (\<exists>msg pb. dec_sign1 cd wire = Some msg \<and> s1_unprotected msg = 0 \<and> s1_payload msg = payload \<and>
           dec_bstr cd (s1_rawProtected msg) = Some pb \<and> pb \<noteq> [] \<and>
           dec_map cd pb = Some [(claim_key 1, claim_key (alg_ed25519 cd)), (claim_key 4, CBytes kid)] \<and>
           sig_ok cd pub msg))"

subsection \<open>The claims as the validator reads them\<close>

lemma sint_of_int64: "int64 k \<Longrightarrow> sint (word_of_int k :: 64 word) = k"
  by (simp add: int64_def sint_sbintrunc' signed_take_bit_int_eq_self)

lemma asInt_claim_key: "int64 k \<Longrightarrow> asInt (claim_key k) = Some k"
  by (auto simp: asInt_def claim_key_def max_int64_def int64_def sint_of_int64 unsigned_of_int take_bit_int_eq_self)

lemma claims_of_lookup:
  assumes "\<forall>k \<in> fst ` set kvs. asInt k \<noteq> None" "distinct (map (asInt \<circ> fst) kvs)"
  shows "\<exists>cs. claims_of kvs acc = Some cs \<and> (wf_map acc \<longrightarrow> wf_map cs) \<and>
    (\<forall>(k, v) \<in> set kvs. map_of cs (the (asInt k)) = Some v) \<and>
    (\<forall>i. Some i \<notin> asInt ` fst ` set kvs \<longrightarrow> map_of cs i = map_of acc i)"
  using assms
proof (induction kvs arbitrary: acc)
  case (Cons kv kvs)
  obtain k v where kv: "kv = (k, v)" by fastforce
  with Cons.prems(1) obtain i where i: "asInt k = Some i" by auto
  from Cons.IH [of "put i v acc"] Cons.prems obtain cs where
    cs: "claims_of kvs (put i v acc) = Some cs" "wf_map (put i v acc) \<longrightarrow> wf_map cs"
      "\<forall>(k, v) \<in> set kvs. map_of cs (the (asInt k)) = Some v"
      "\<forall>j. Some j \<notin> asInt ` fst ` set kvs \<longrightarrow> map_of cs j = map_of (put i v acc) j"
    by auto
  have "Some i \<notin> asInt ` fst ` set kvs" using Cons.prems(2) kv i by (auto simp: image_image)
  with cs kv i show ?case by (auto simp: image_image)
qed simp

text \<open>Whatever order the decoder presents the entries in.\<close>

lemma claims_of_wire:
  assumes "set m = set (map (\<lambda>(k, v). (claim_key k, v)) L)" "distinct (map fst m)"
    "distinct (map fst L)" "\<forall>k \<in> fst ` set L. int64 k"
  obtains cs where "claims_of m [] = Some cs" "map_of cs = map_of L" "fst ` set cs \<subseteq> fst ` set L"
proof -
  have keys: "fst ` set m = claim_key ` fst ` set L" using assms(1) by (force simp: image_image)
  have ai: "\<forall>k \<in> fst ` set L. asInt (claim_key k) = Some k" using assms(4) asInt_claim_key by blast
  have "inj_on asInt (fst ` set m)"
  proof (rule inj_onI)
    fix a b assume "a \<in> fst ` set m" "b \<in> fst ` set m" and eq: "asInt a = asInt b"
    then obtain j k where "a = claim_key j" "b = claim_key k" "j \<in> fst ` set L" "k \<in> fst ` set L"
      unfolding keys by blast
    with ai eq have "Some j = Some k" by metis
    then show "a = b" using \<open>a = claim_key j\<close> \<open>b = claim_key k\<close> by simp
  qed
  then have "distinct (map asInt (map fst m))" using assms(2) by (simp add: distinct_map comp_inj_on)
  moreover have "\<forall>k \<in> fst ` set m. asInt k \<noteq> None" using ai unfolding keys by auto
  ultimately obtain cs where cs: "claims_of m [] = Some cs" "wf_map cs"
      "\<forall>(k, v) \<in> set m. map_of cs (the (asInt k)) = Some v"
      "\<forall>i. Some i \<notin> asInt ` fst ` set m \<longrightarrow> map_of cs i = None"
    using claims_of_lookup [of m "[]"] by auto
  have look: "map_of cs i = map_of L i" for i
  proof (cases "map_of L i")
    case None
    then have "i \<notin> fst ` set L" by (simp add: map_of_eq_None_iff)
    then have "Some i \<notin> asInt ` fst ` set m" unfolding keys using ai by force
    with cs(4) None show ?thesis by simp
  next
    case (Some v)
    then have "(i, v) \<in> set L" by (rule map_of_SomeD)
    then have "(claim_key i, v) \<in> set m" "asInt (claim_key i) = Some i" using assms(1) ai by force+
    with cs(3) Some show ?thesis by force
  qed
  moreover have "fst ` set cs \<subseteq> fst ` set L"
  proof
    fix i assume "i \<in> fst ` set cs"
    then have "map_of cs i \<noteq> None" by (simp add: map_of_eq_None_iff)
    with look show "i \<in> fst ` set L" by (simp add: map_of_eq_None_iff)
  qed
  ultimately show ?thesis using that cs(1) by blast
qed

lemma decode_quota_claim:
  assumes "\<not> bad_quota q"
  shows "decodeQuota (quota_claim q) = Some q"
proof -
  let ?L = "[(1, CText (q_Resource q)), (2, CText (q_Operation q)), (3, CUint (q_VolumeMax q)), (4, CUint (q_WindowS q))] :: (int \<times> cbor) list"
  have q: "quota_claim q = CMap (map (\<lambda>(k, v). (claim_key k, v)) ?L)" by (simp add: quota_claim_def)
  have d: "distinct (map fst (map (\<lambda>(k, v). (claim_key k, v)) ?L))" by (simp add: claim_key_def)
  have "distinct (map fst ?L)" "\<forall>k \<in> fst ` set ?L. int64 k" by (simp_all add: int64_def)
  then obtain cs where cs: "claims_of (map (\<lambda>(k, v). (claim_key k, v)) ?L) [] = Some cs" "map_of cs = map_of ?L"
    using claims_of_wire [OF refl d] by metis
  have "decodeQuota (quota_claim q) = (case claims_of (map (\<lambda>(k, v). (claim_key k, v)) ?L) [] of None \<Rightarrow> None
       | Some cs \<Rightarrow>
         (case stringClaim cs 1 True maxResourceLen of None \<Rightarrow> None | Some r \<Rightarrow>
         (case stringClaim cs 2 True maxQuotaOpLen of None \<Rightarrow> None | Some op \<Rightarrow>
         (case uintClaim cs 3 True of None \<Rightarrow> None | Some vm \<Rightarrow>
         (case uintClaim cs 4 True of None \<Rightarrow> None | Some w \<Rightarrow>
            if w = 0 then None
            else Some \<lparr>q_Resource = r, q_Operation = op, q_VolumeMax = vm, q_WindowS = w\<rparr>)))))"
    unfolding q decodeQuota_def by (simp only: cbor.case length_map list.size if_False) simp
  with assms show ?thesis
    by (simp only: cs option.case) (simp add: cs(2)  stringClaim_def uintClaim_def asUint_def bad_quota_def not_less Suc_le_eq)
qed

text \<open>The token that the parameters of an issuance describe.\<close>

definition issued_token :: "Issuer \<Rightarrow> IssueParams \<Rightarrow> Token" where
  "issued_token i p =
     \<lparr>Iss = is_cellID i, Sub = ip_Subject p, Iat = ip_Iat p, Exp = ip_Iat p + is_ttlSec i, JTI = ip_JTI p,
      PolicyID = is_policyID i, Action = ip_Action p, Resource = ip_Resource p,
      TokClass = (case ip_Class p of None \<Rightarrow> DefaultClass | Some c \<Rightarrow> c), ObjectSeal = ip_ObjectSeal p,
      Epoch = ip_Epoch p, TokQuota = ip_Quota p, PlanSeal = ip_PlanSeal p\<rparr>"

text \<open>The fixed-size fields of the code, and a clock that reads a date the token can carry.\<close>

definition wf_params :: "Issuer \<Rightarrow> IssueParams \<Rightarrow> bool" where
  "wf_params i p \<longleftrightarrow> length (ip_JTI p) = 16 \<and> length (is_policyID i) = 32 \<and>
     (\<forall>s \<in> set_option (ip_ObjectSeal p). length s = 32) \<and> (\<forall>s \<in> set_option (ip_PlanSeal p). length s = 32) \<and>
     0 \<le> ip_Iat p \<and> ip_Iat p + is_ttlSec i \<le> max_int64"

lemma issue_claims_keys: "distinct (map fst (issue_claims i p))" "fst ` set (issue_claims i p) \<subseteq> Collect known_claim"
    "\<forall>k \<in> fst ` set (issue_claims i p). int64 k"
  by (cases "ip_Class p"; cases "ip_ObjectSeal p"; cases "ip_Quota p"; cases "ip_PlanSeal p";
      simp add: issue_claims_def opt_entry_def known_claim_def int64_def)+

lemma issue_claims_lookup:
  "map_of (issue_claims i p) 1 = Some (CText (is_cellID i))" "map_of (issue_claims i p) 2 = Some (CText (ip_Subject p))"
  "map_of (issue_claims i p) 4 = Some (CUint (word_of_int (ip_Iat p + is_ttlSec i)))"
  "map_of (issue_claims i p) 6 = Some (CUint (word_of_int (ip_Iat p)))" "map_of (issue_claims i p) 7 = Some (CBytes (ip_JTI p))"
  "map_of (issue_claims i p) (- 1) = Some (CBytes (is_policyID i))" "map_of (issue_claims i p) (- 2) = Some (CText (ip_Action p))"
  "map_of (issue_claims i p) (- 3) = Some (CText (ip_Resource p))" "map_of (issue_claims i p) (- 6) = Some (CUint (ip_Epoch p))"
  "map_of (issue_claims i p) (- 9) = Some (CUint tokenVersion)"
  "map_of (issue_claims i p) (- 4) = map_option (\<lambda>c. CUint (class_claim c)) (ip_Class p)"
  "map_of (issue_claims i p) (- 5) = map_option CBytes (ip_ObjectSeal p)"
  "map_of (issue_claims i p) (- 7) = map_option quota_claim (ip_Quota p)"
  "map_of (issue_claims i p) (- 8) = map_option CBytes (ip_PlanSeal p)"
  by (cases "ip_Class p"; cases "ip_ObjectSeal p"; cases "ip_Quota p"; cases "ip_PlanSeal p";
      simp add: issue_claims_def opt_entry_def)+

lemma Issue_ok:
  assumes "Issue cd sign1 i p = Inr wire"
  obtains payload where "enc_map cd (wire_claims i p) = Some payload"
    "sign1 (alg_ed25519 cd) (is_kid i) payload = Some wire" "length wire \<le> maxTokenWireSize"
    "1 \<le> length (ip_Subject p)" "length (ip_Subject p) \<le> maxIssSubActionLen"
    "1 \<le> length (ip_Action p)" "length (ip_Action p) \<le> maxIssSubActionLen"
    "1 \<le> length (ip_Resource p)" "length (ip_Resource p) \<le> maxResourceLen"
    "\<forall>q \<in> set_option (ip_Quota p). \<not> bad_quota q"
  using assms by (auto simp: Issue_def not_less Suc_le_eq split: if_splits option.splits)

lemma NewIssuer_ok:
  assumes "NewIssuer sha cellID signer policyID ttlSec = Some i"
  shows "1 \<le> length (is_cellID i)" "length (is_cellID i) \<le> maxIssSubActionLen" "30 \<le> is_ttlSec i" "is_ttlSec i \<le> 60"
    "is_policyID i = policyID" "is_kid i = KeyIDFromPublicKey sha (the signer)"
  using assms
  by (auto simp: NewIssuer_def iss_minTTLSec_def iss_maxTTLSec_def Suc_le_eq Let_def split: if_splits option.splits)

lemma asInt_date: "0 \<le> t \<Longrightarrow> t \<le> max_int64 \<Longrightarrow> asInt (CUint (word_of_int t)) = Some t"
  using asInt_claim_key [of t] by (simp add: claim_key_def int64_def max_int64_def)

lemma decode_issued_claims:
  assumes "map_of cs = map_of (issue_claims i p)" "wf_params i p" "Issue cd sign1 i p = Inr wire"
    "1 \<le> length (is_cellID i)" "length (is_cellID i) \<le> maxIssSubActionLen" "0 \<le> is_ttlSec i"
  shows "decodeClaims cs = Inr (issued_token i p)"
proof -
  have opt: "opt_claim cs k dec = Some x" if "map_of cs k = map_option f x" "\<forall>v \<in> set_option x. dec (f v) = Some v"
    for k and dec :: "cbor \<Rightarrow> 'z option" and f and x :: "'z option"
    using that by (cases x) (simp_all add: opt_claim_def)
  have str: "stringClaim cs k True m = Some s" if "map_of cs k = Some (CText s)" "1 \<le> length s" "length s \<le> m" for k m s
    using that by (cases s) (simp_all add: stringClaim_def)
  have "class_of (CUint (class_claim c)) = Some c" for c by (cases c) (simp_all add: class_of_def asUint_def class_claim_def)
  note look = issue_claims_lookup [of i p, folded assms(1)]
  from assms(3) obtain payload where
    "1 \<le> length (ip_Subject p)" "length (ip_Subject p) \<le> maxIssSubActionLen"
    "1 \<le> length (ip_Action p)" "length (ip_Action p) \<le> maxIssSubActionLen"
    "1 \<le> length (ip_Resource p)" "length (ip_Resource p) \<le> maxResourceLen"
    "\<forall>q \<in> set_option (ip_Quota p). \<not> bad_quota q" by (rule Issue_ok)
  note b = this
  have "opt_claim cs (- 4) class_of = Some (ip_Class p)"
    by (rule opt [OF look(11)]) (simp add: \<open>\<And>c. class_of (CUint (class_claim c)) = Some c\<close>)
  moreover have "opt_claim cs (- 5) seal_of = Some (ip_ObjectSeal p)" "opt_claim cs (- 8) seal_of = Some (ip_PlanSeal p)"
    using assms(2) by (auto intro!: opt look(12) look(14) simp: wf_params_def seal_of_def bytesFromAny_def)
  moreover have "opt_claim cs (- 7) decodeQuota = Some (ip_Quota p)"
    using b(7) by (auto intro!: opt look(13) decode_quota_claim)
  moreover have "intClaim cs 4 True = Some (ip_Iat p + is_ttlSec i)" "intClaim cs 6 True = Some (ip_Iat p)"
    using assms(2,6) unfolding intClaim_def look option.case wf_params_def by (intro asInt_date; linarith)+
  moreover have "bytesClaim cs 7 True = Some (ip_JTI p)" "length (ip_JTI p) = 16"
      "bytesClaim cs (- 1) True = Some (is_policyID i)" "length (is_policyID i) = 32"
    using assms(2) by (simp_all add: bytesClaim_def look bytesFromAny_def wf_params_def)
  moreover have "uintClaim cs (- 6) True = Some (ip_Epoch p)" "uintClaim cs (- 9) True = Some 2"
    by (simp_all add: uintClaim_def look asUint_def tokenVersion_def)
  ultimately show ?thesis
    by (simp only: decodeClaims_def str [OF look(1) assms(4,5)] str [OF look(2) b(1,2)] str [OF look(7) b(3,4)]
        str [OF look(8) b(5,6)] option.case) (simp add: issued_token_def)
qed

text \<open>What the issuer signs, the validator reads back.\<close>

lemma issued_token_verifies:
  assumes "cbor_law cd" "cose_law cd sign1 pub" "NewIssuer sha cellID (Some pub) policyID ttlSec = Some i"
    "wf_params i p" "Issue cd sign1 i p = Inr wire" "map_of keyring (is_kid i) = Some pub" "length (is_kid i) = 16"
  shows "verifySignedToken cd keyring wire = (Some (issued_token i p), [])"
proof -
  note ni = NewIssuer_ok [OF assms(3)]
  obtain payload where enc: "enc_map cd (wire_claims i p) = Some payload"
    and sg: "sign1 (alg_ed25519 cd) (is_kid i) payload = Some wire" and len: "length wire \<le> maxTokenWireSize"
    by (rule Issue_ok [OF assms(5)])
  have inj: "inj_on claim_key (fst ` set (issue_claims i p))"
    using asInt_claim_key issue_claims_keys(3) by (metis inj_onI option.inject)
  have "map fst (wire_claims i p) = map claim_key (map fst (issue_claims i p))" by (simp add: wire_claims_def case_prod_beta)
  then have "distinct (map fst (wire_claims i p))"
    using inj issue_claims_keys(1) [of i p] by (simp only: distinct_map [of claim_key] set_map)
  with assms(1) enc obtain m where m: "dec_map cd payload = Some m" "set m = set (wire_claims i p)"
      "distinct (map fst m)" "enc_map cd m = Some payload" unfolding cbor_law_def by blast
  obtain cs where cs: "claims_of m [] = Some cs" "map_of cs = map_of (issue_claims i p)"
      "fst ` set cs \<subseteq> fst ` set (issue_claims i p)"
    by (rule claims_of_wire [OF m(2) [unfolded wire_claims_def] m(3) issue_claims_keys(1,3)])
  have "list_all (\<lambda>kv. known_claim (fst kv)) cs"
    using cs(3) issue_claims_keys(2) [of i p] by (auto simp: list_all_iff)
  moreover have "decodeClaims cs = Inr (issued_token i p)"
    by (rule decode_issued_claims [OF cs(2) assms(4,5) ni(1,2)]) (use ni(3) in simp)
  ultimately have pay: "decodePayload cd payload = Inr (issued_token i p)" by (simp add: decodePayload_def m cs(1))
  obtain msg pb where msg: "dec_sign1 cd wire = Some msg" "s1_unprotected msg = 0" "s1_payload msg = payload"
      "dec_bstr cd (s1_rawProtected msg) = Some pb" "pb \<noteq> []" "sig_ok cd pub msg" "key_ok cd pub" "int64 (alg_ed25519 cd)"
      "dec_map cd pb = Some [(claim_key 1, claim_key (alg_ed25519 cd)), (claim_key 4, CBytes (is_kid i))]"
    using assms(2) sg unfolding cose_law_def by blast
  have "header [(claim_key 1, claim_key (alg_ed25519 cd)), (claim_key 4, CBytes (is_kid i))] 1 asInt = Some (alg_ed25519 cd)"
    "header [(claim_key 1, claim_key (alg_ed25519 cd)), (claim_key 4, CBytes (is_kid i))] 4 bytesFromAny = Some (is_kid i)"
    using asInt_claim_key [OF msg(8)] by (simp_all add: header_def claim_key_def [of 1] claim_key_def [of 4] bytesFromAny_def Let_def)
  with msg pay len assms(6,7) show ?thesis
    by (simp add: verifySignedToken_def MaxTokenWireSize_def maxTokenWireSize_def)
qed

subsection \<open>Properties\<close>


text \<open>A codec that knows the one map of one issuance: enough to show that the laws can hold together.\<close>

definition issuer_ex :: Issuer where
  "issuer_ex = \<lparr>is_cellID = ''cell-a'', is_policyID = zeros 32, is_ttlSec = 45, is_kid = take 16 (zeros 32)\<rparr>"

definition params_ex :: IssueParams where
  "params_ex = \<lparr>ip_Subject = ''bot'', ip_Action = ''read'', ip_Resource = ''r'', ip_Class = Some ClassOut, ip_ObjectSeal = None,
     ip_Quota = None, ip_PlanSeal = None, ip_JTI = zeros 16, ip_Epoch = 3, ip_Iat = 1000\<rparr>"

definition icodec_ex :: "IssueParams \<Rightarrow> codec" where
  "icodec_ex p = \<lparr>dec_map = (\<lambda>b. if b = ''pay'' then Some (wire_claims issuer_ex p)
        else if b = ''hdr'' then Some [(claim_key 1, claim_key (- 8)), (claim_key 4, CBytes (take 16 (zeros 32)))] else None),
     enc_map = (\<lambda>m. if m = wire_claims issuer_ex p then Some ''pay'' else None),
     dec_bstr = (\<lambda>b. Some ''hdr''),
     dec_sign1 = (\<lambda>b. if b = ''tok'' then Some \<lparr>s1_unprotected = 0, s1_rawProtected = [], s1_payload = ''pay'', s1_signature = []\<rparr> else None),
     alg_ed25519 = - 8, key_ok = (\<lambda>k. True), sig_ok = (\<lambda>k m. True)\<rparr>"

definition sign1_ex :: "int \<Rightarrow> bytes \<Rightarrow> bytes \<Rightarrow> bytes option" where
  "sign1_ex alg kid payload = (if kid = take 16 (zeros 32) \<and> payload = ''pay'' then Some ''tok'' else None)"

lemma icodec_ex_cbor: "cbor_law (icodec_ex p)"
  by (simp add: cbor_law_def icodec_ex_def)

lemma icodec_ex_cose: "cose_law (icodec_ex p) sign1_ex ''pub''"
  by (simp add: cose_law_def icodec_ex_def sign1_ex_def int64_def)

lemma issuer_ex_new: "NewIssuer (\<lambda>b. zeros 32) ''cell-a'' (Some ''pub'') (v_policyID validator_ex) 0 = Some issuer_ex"
  by (simp add: NewIssuer_def issuer_ex_def validator_ex_def maxIssSubActionLen_def defaultTTLSec_def iss_minTTLSec_def
      iss_maxTTLSec_def KeyIDFromPublicKey_def Let_def)

lemma issue_ex:
  assumes "ip_Subject p \<noteq> []" "length (ip_Subject p) \<le> maxIssSubActionLen" "ip_Action p \<noteq> []" "length (ip_Action p) \<le> maxIssSubActionLen"
    "ip_Resource p \<noteq> []" "length (ip_Resource p) \<le> maxResourceLen" "\<forall>q \<in> set_option (ip_Quota p). \<not> bad_quota q"
  shows "Issue (icodec_ex p) sign1_ex issuer_ex p = Inr ''tok''"
proof -
  have "enc_map (icodec_ex p) (wire_claims issuer_ex p) = Some ''pay''" "alg_ed25519 (icodec_ex p) = - 8" by (simp_all add: icodec_ex_def)
  moreover have "is_kid issuer_ex = take 16 (zeros 32)" by (simp add: issuer_ex_def)
  ultimately show ?thesis using assms
    by (auto simp: Issue_def sign1_ex_def maxTokenWireSize_def Suc_le_eq not_le split: option.split)
qed

definition ivalidator_ex :: Validator where
  "ivalidator_ex = validator_ex\<lparr>v_keyring := [(take 16 (zeros 32), ''pub'')]\<rparr>"


end
