(* ===== verification/Broker.thy ===== *)
theory Broker
  imports Broker_Registry Broker_Envelope Broker_Issuer Cluster_Quorum Cluster_Epoch Plan_Runs
begin

text \<open>
  The broker (\<open>src/src/broker/broker.go\<close>): the chain every request of an agent goes through, from the
  bounds of its input to the token, over the state of the parts it consults: the policy client, the
  register of consumed class W proofs, the contract store, the envelope ledger, and the registry that
  all of them write their leaves to.

  What one request observes of the world is the record \<open>action_env\<close>: the identifier drawn, the epoch
  the fencing grants, the result of the translator (an interface of the code), the outcome of the
  admission queue, the answers of the policy engine, and the readings of the clock.  The libraries
  are the record \<open>libs\<close>.
\<close>

subsection \<open>State and configuration\<close>

definition ReasonRequestInvalid :: string where "ReasonRequestInvalid = ''request-invalid''"
definition ReasonAgentUnknown :: string where "ReasonAgentUnknown = ''agent-unknown''"
definition ReasonAgentQuotaForbidden :: string where "ReasonAgentQuotaForbidden = ''agent-quota-forbidden''"
definition ReasonAgentQuotaExceeded :: string where "ReasonAgentQuotaExceeded = ''agent-quota-exceeded''"
definition ReasonAgentTransportUnbound :: string where "ReasonAgentTransportUnbound = ''agent-transport-unbound''"
definition ReasonAgentNetworkOnly :: string where "ReasonAgentNetworkOnly = ''agent-network-only''"
definition ReasonSkillUnknown :: string where "ReasonSkillUnknown = ''skill-unknown''"
definition ReasonSkillScopeViolation :: string where "ReasonSkillScopeViolation = ''skill-scope-violation''"
definition br_ReasonEpochUnavailable :: string where "br_ReasonEpochUnavailable = ''epoch-unavailable''"
definition ReasonTranslationFailed :: string where "ReasonTranslationFailed = ''translation-failed''"
definition ReasonArbitrationPending :: string where "ReasonArbitrationPending = ''arbitration-pending''"
definition ReasonArbitrationRefused :: string where "ReasonArbitrationRefused = ''arbitration-refused''"
definition ReasonQuorumRequired :: string where "ReasonQuorumRequired = ''quorum-required''"
definition ReasonQuorumInsufficient :: string where "ReasonQuorumInsufficient = ''quorum-insufficient''"
definition ReasonPlanBindingRequired :: string where "ReasonPlanBindingRequired = ''plan-binding-required''"
definition ReasonPlanUnverified :: string where "ReasonPlanUnverified = ''plan-unverified''"
definition ReasonPlanStoreFault :: string where "ReasonPlanStoreFault = ''plan-store-fault''"
definition ReasonEnvelopeUnverified :: string where "ReasonEnvelopeUnverified = ''envelope-unverified''"
definition ReasonEnvelopeSaturated :: string where "ReasonEnvelopeSaturated = ''envelope-saturated''"
definition ReasonIssuanceFailed :: string where "ReasonIssuanceFailed = ''issuance-failed''"

record Result =
  rs_Allow :: bool
  rs_Reason :: string
  rs_Detail :: "Detail option"
  rs_ArbitrationID :: string
  rs_Token :: "bytes option"
  rs_JTI :: bytes
  rs_LeafWritten :: bool
  rs_LeafErr :: "reg_error option"
  rs_OPADecision :: "OPADecision option"

record BrokerStats =
  bst_Requests :: u64
  bst_Allows :: u64
  bst_Denies :: u64
  bst_TranslationFailures :: u64
  bst_AgentDenies :: u64
  bst_SkillDenies :: u64
  bst_EnvelopeEvals :: u64
  bst_EnvelopeDenies :: u64
  bst_QuorumDenies :: u64
  bst_PlanDenies :: u64
  bst_IssuanceFailures :: u64
  bst_LeafFailures :: u64

record Broker =
  br_cellID :: string
  br_salt :: bytes
  br_issuer :: Issuer
  br_registry :: StaticAgentRegistry
  br_skills :: "StaticSkillRegistry option"
  br_envelope :: "HTTPEnvelopeEvaluator option"

record broker_state =
  bs_reg :: registry
  bs_opa :: OPAClient
  bs_quorum :: "(QuorumGate \<times> ProofStore) option"
  bs_contract :: "ContractStore option"
  bs_ledger :: "EnvelopeLedger option"
  bs_stats :: BrokerStats

definition zero_stats :: BrokerStats where
  "zero_stats = \<lparr>bst_Requests = 0, bst_Allows = 0, bst_Denies = 0, bst_TranslationFailures = 0, bst_AgentDenies = 0,
     bst_SkillDenies = 0, bst_EnvelopeEvals = 0, bst_EnvelopeDenies = 0, bst_QuorumDenies = 0, bst_PlanDenies = 0,
     bst_IssuanceFailures = 0, bst_LeafFailures = 0\<rparr>"

text \<open>A seam that is not configured is \<open>None\<close>.\<close>

definition NewBroker ::
  "string \<Rightarrow> bytes \<Rightarrow> registry option \<Rightarrow> OPAClient option \<Rightarrow> Issuer option \<Rightarrow> StaticAgentRegistry option
     \<Rightarrow> StaticSkillRegistry option \<Rightarrow> (QuorumGate \<times> ProofStore) option \<Rightarrow> ContractStore option
     \<Rightarrow> HTTPEnvelopeEvaluator option \<Rightarrow> EnvelopeLedger option \<Rightarrow> (Broker \<times> broker_state) option" where
  "NewBroker cellID salt leaves opa issuer agents skills quorum contract envelope ledger =
     (if cellID = [] then None
      else if length salt < 16 then None
      else case (leaves, opa, issuer, agents) of
        (Some r, Some c, Some i, Some a) \<Rightarrow>
          if (envelope = None) \<noteq> (ledger = None) then None
          else Some (\<lparr>br_cellID = cellID, br_salt = salt, br_issuer = i, br_registry = a, br_skills = skills,
                      br_envelope = envelope\<rparr>,
                     \<lparr>bs_reg = r, bs_opa = c, bs_quorum = quorum,
                      bs_contract = contract, bs_ledger = ledger, bs_stats = zero_stats\<rparr>)
      | _ \<Rightarrow> None)"

record libs =
  lb_sha :: "bytes \<Rightarrow> bytes"
  lb_edv :: "bytes \<Rightarrow> bytes \<Rightarrow> bytes \<Rightarrow> bool"
  lb_codec :: codec
  lb_sign1 :: "int \<Rightarrow> bytes \<Rightarrow> bytes \<Rightarrow> bytes option"
  lb_wcodec :: w_codec

record action_env =
  ae_jti :: bytes
  ae_epoch :: "serve_error + u64"
  ae_translate :: "string \<Rightarrow> string \<Rightarrow> translate_error + Translation"
  ae_acquired :: acquired
  ae_caller_done :: bool
  ae_ask :: "opaRequest \<Rightarrow> exchange"
  ae_opa_now :: time
  ae_opa_leaf_now :: time
  ae_quorum_now :: time
  ae_quorum_leaf_now :: time
  ae_contract_now :: time
  ae_envelope :: "EnvelopeInput \<Rightarrow> exchange"
  ae_iat_now :: time
  ae_leaf_now :: time

subsection \<open>Epilogues\<close>

definition bump :: "((u64 \<Rightarrow> u64) \<Rightarrow> BrokerStats \<Rightarrow> BrokerStats) \<Rightarrow> broker_state \<Rightarrow> broker_state" where
  "bump field s = s\<lparr>bs_stats := field (\<lambda>n. n + 1) (bs_stats s)\<rparr>"

definition result_of :: "bool \<Rightarrow> string \<Rightarrow> bytes option \<Rightarrow> bytes \<Rightarrow> OPADecision option \<Rightarrow> Result" where
  "result_of allow reason token jti dec =
     \<lparr>rs_Allow = allow, rs_Reason = reason, rs_Detail = None, rs_ArbitrationID = [], rs_Token = token, rs_JTI = jti,
      rs_LeafWritten = False, rs_LeafErr = None, rs_OPADecision = dec\<rparr>"

text \<open>The record of a decision has the format of the validator and of the policy client.\<close>

definition br_writeLeaf :: "libs \<Rightarrow> Broker \<Rightarrow> broker_state \<Rightarrow> Result \<Rightarrow> time \<Rightarrow> broker_state \<times> string list \<times> Result" where
  "br_writeLeaf lb b s res now =
     (case AppendLeaf (lb_sha lb) (bs_reg s) KindDecision (br_cellID b) (br_salt b)
             (decisionLeafRecord (rs_JTI res) (rs_Allow res) (rs_Reason res)) (unix_nano now) of
        (r, Inl e) \<Rightarrow>
          (bump bst_LeafFailures_update (s\<lparr>bs_reg := r\<rparr>), [ReasonLeafWriteFailed],
           (if rs_Allow res then res\<lparr>rs_Allow := False, rs_Reason := ReasonLeafWriteFailed, rs_Token := None\<rparr> else res)
             \<lparr>rs_LeafErr := Some e\<rparr>)
      | (r, Inr _) \<Rightarrow> (s\<lparr>bs_reg := r\<rparr>, [], res\<lparr>rs_LeafWritten := True\<rparr>))"

type_synonym 'a stage = "broker_state \<times> string list \<times> (Result + 'a)"

definition br_deny :: "libs \<Rightarrow> Broker \<Rightarrow> action_env \<Rightarrow> broker_state \<Rightarrow> bytes \<Rightarrow> string \<Rightarrow> OPADecision option \<Rightarrow> 'a stage" where
  "br_deny lb b env s jti reason dec =
     (case br_writeLeaf lb b s (result_of False reason None jti dec) (ae_leaf_now env) of
        (s', al, res) \<Rightarrow> (bump bst_Denies_update s', al, Inl res))"

definition br_fault :: "libs \<Rightarrow> Broker \<Rightarrow> action_env \<Rightarrow> broker_state \<Rightarrow> bytes \<Rightarrow> string \<Rightarrow> 'a stage" where
  "br_fault lb b env s jti reason =
     (case br_writeLeaf lb b s (result_of False reason None jti None) (ae_leaf_now env) of
        (s', al, res) \<Rightarrow> (bump bst_Denies_update s', reason # al, Inl res))"

definition planDenyReason :: "plan_error \<Rightarrow> string" where
  "planDenyReason e =
     (if e = ErrPlanBindingInvalid then ''plan-binding-invalid''
      else if e = ErrPlanUnknown then ''plan-unknown''
      else if e = ErrPlanPending then ''plan-pending''
      else if e = ErrPlanExpired then ''plan-expired''
      else if e = ErrPlanRevoked then ''plan-revoked''
      else if e = ErrPlanDeviation then ''plan-deviation''
      else if e = ErrPlanSubjectMismatch then ''plan-subject-mismatch''
      else ''plan-deviation'')"

subsection \<open>The steps of the chain\<close>

text \<open>A step either ends the request with a result or hands a value to the next one.\<close>

definition next_step :: "'a stage \<Rightarrow> (broker_state \<Rightarrow> 'a \<Rightarrow> 'b stage) \<Rightarrow> 'b stage" where
  "next_step m f =
     (case m of (s, al, Inl res) \<Rightarrow> (s, al, Inl res)
      | (s, al, Inr x) \<Rightarrow> (case f s x of (s', al', y) \<Rightarrow> (s', al @ al', y)))"

text \<open>The alarms a step raised before it ended.\<close>

definition raised :: "string list \<Rightarrow> 'a stage \<Rightarrow> 'a stage" where
  "raised al m = (case m of (s, al', y) \<Rightarrow> (s, al @ al', y))"

text \<open>Steps 1 to 3: bounds, identity, transport, epoch.\<close>

definition admit_request ::
  "libs \<Rightarrow> Broker \<Rightarrow> action_env \<Rightarrow> string \<Rightarrow> string \<Rightarrow> string \<Rightarrow> broker_state \<Rightarrow> (AgentRecord \<times> u64) stage" where
  "admit_request lb b env subject intent txID s =
     (if subject = [] \<or> length subject > maxIssSubActionLen \<or> intent = [] \<or> length intent > maxIntentBytes
      then br_deny lb b env s (zeros 16) ReasonRequestInvalid None
      else case agent_Resolve (br_registry b) subject of
        None \<Rightarrow> br_deny lb b env (bump bst_AgentDenies_update s) (zeros 16) ReasonAgentUnknown None
      | Some agent \<Rightarrow>
          if txID \<noteq> [] \<and> ag_TransportIdentity agent \<noteq> txID
          then br_deny lb b env (bump bst_AgentDenies_update s) (zeros 16) ReasonAgentTransportUnbound None
          else if txID = [] \<and> ag_TransportIdentity agent \<noteq> []
          then br_deny lb b env (bump bst_AgentDenies_update s) (zeros 16) ReasonAgentNetworkOnly None
          else (case ae_epoch env of
             Inl _ \<Rightarrow> br_fault lb b env s (ae_jti env) br_ReasonEpochUnavailable
           | Inr epoch \<Rightarrow> (s, [], Inr (agent, epoch))))"

text \<open>Steps 4 and 4bis: translation and skill.\<close>

definition with_detail :: "(Result \<Rightarrow> Result) \<Rightarrow> 'a stage \<Rightarrow> 'a stage" where
  "with_detail f m = (case m of (s, al, Inl res) \<Rightarrow> (s, al, Inl (f res)) | (s, al, Inr x) \<Rightarrow> (s, al, Inr x))"

definition translate_request ::
  "libs \<Rightarrow> Broker \<Rightarrow> action_env \<Rightarrow> string \<Rightarrow> string \<Rightarrow> broker_state \<Rightarrow> (Translation \<times> SkillInput option) stage" where
  "translate_request lb b env subject intent s =
     (case ae_translate env subject intent of
        Inl (PendingArbitration i) \<Rightarrow>
          with_detail (\<lambda>r. r\<lparr>rs_ArbitrationID := i\<rparr>) (br_deny lb b env s (ae_jti env) ReasonArbitrationPending None)
      | Inl ArbitrationRefused \<Rightarrow> br_deny lb b env s (ae_jti env) ReasonArbitrationRefused None
      | Inl (TranslationFailed d) \<Rightarrow>
          with_detail (\<lambda>r. r\<lparr>rs_Detail := d\<rparr>)
            (br_deny lb b env (bump bst_TranslationFailures_update s) (ae_jti env) ReasonTranslationFailed None)
      | Inr tr \<Rightarrow>
          (case br_skills b of None \<Rightarrow> (s, [], Inr (tr, None))
           | Some skills \<Rightarrow>
               (case skill_Resolve skills (tr_Action tr) of
                  None \<Rightarrow> br_deny lb b env (bump bst_SkillDenies_update s) (ae_jti env) ReasonSkillUnknown None
                | Some skill \<Rightarrow>
                    if \<not> skill_allows (sr_Scope skill) (tr_Resource tr)
                    then br_deny lb b env (bump bst_SkillDenies_update s) (ae_jti env) ReasonSkillScopeViolation None
                    else (s, [], Inr (tr, Some \<lparr>sk_RiskTier = sr_RiskTier skill, sk_ScopeSize = length (sr_Scope skill)\<rparr>)))))"

text \<open>Step 5: the policy engine, asked with the class of the registry.\<close>

definition opa_input :: "action_env \<Rightarrow> string \<Rightarrow> AgentRecord \<Rightarrow> u64 \<Rightarrow> Translation \<Rightarrow> SkillInput option \<Rightarrow> OPAInput" where
  "opa_input env subject agent epoch tr skill =
     \<lparr>oi_JTI = ae_jti env, oi_Subject = subject, oi_Action = tr_Action tr, oi_Resource = tr_Resource tr,
      oi_Class = ag_Class agent, oi_Epoch = epoch, oi_DryRun = None, oi_Skill = skill\<rparr>"

definition ask_policy ::
  "libs \<Rightarrow> action_env \<Rightarrow> OPAInput \<Rightarrow> broker_state \<Rightarrow> OPADecision stage" where
  "ask_policy lb env i s =
     (case Eval (lb_sha lb) (bs_reg s) (bs_opa s) i (ae_acquired env) (ae_caller_done env) (ae_ask env)
             (ae_opa_now env) (ae_opa_leaf_now env) of
        (r, c, al, dec) \<Rightarrow>
          let s' = s\<lparr>bs_reg := r, bs_opa := c\<rparr>
          in if \<not> od_Allow dec
             then (bump bst_Denies_update s', al,
                   Inl ((result_of False (od_Reason dec) None (ae_jti env) (Some dec))
                          \<lparr>rs_LeafWritten := od_LeafWritten dec, rs_LeafErr := od_LeafErr dec\<rparr>))
             else (s', al, Inr dec))"

text \<open>Step 6: the quorum of class W.\<close>

definition verify_quorum ::
  "libs \<Rightarrow> Broker \<Rightarrow> action_env \<Rightarrow> AgentRecord \<Rightarrow> u64 \<Rightarrow> Translation \<Rightarrow> OPADecision \<Rightarrow> broker_state \<Rightarrow> unit stage" where
  "verify_quorum lb b env agent epoch tr dec s =
     (if ag_Class agent \<noteq> ClassW then (s, [], Inr ())
      else case bs_quorum s of
        None \<Rightarrow> br_deny lb b env (bump bst_QuorumDenies_update s) (ae_jti env) ReasonQuorumRequired (Some dec)
      | Some (g, proofs) \<Rightarrow>
          if tr_QuorumProof tr = []
          then br_deny lb b env (bump bst_QuorumDenies_update s) (ae_jti env) ReasonQuorumRequired (Some dec)
          else (case VerifyClassW (lb_sha lb) (lb_edv lb) (lb_wcodec lb) g (bs_reg s) proofs (tr_QuorumProof tr)
                       (tr_Action tr) (tr_Resource tr) epoch (ae_quorum_now env) (ae_quorum_leaf_now env) of
             (r, proofs', res) \<Rightarrow>
               let s' = s\<lparr>bs_reg := r, bs_quorum := Some (g, proofs')\<rparr>
               in if res \<noteq> None
                  then br_deny lb b env (bump bst_QuorumDenies_update s') (ae_jti env) ReasonQuorumInsufficient (Some dec)
                  else (s', [], Inr ())))"

text \<open>Steps 6bis and 7: the binding to a plan.\<close>

definition verify_plan ::
  "libs \<Rightarrow> Broker \<Rightarrow> action_env \<Rightarrow> string \<Rightarrow> AgentRecord \<Rightarrow> Translation \<Rightarrow> OPADecision \<Rightarrow> broker_state \<Rightarrow> bytes option stage" where
  "verify_plan lb b env subject agent tr dec s =
     (if ag_Class agent \<in> {ClassF, ClassI, ClassW} \<and> tr_PlanBinding tr = []
      then br_deny lb b env (bump bst_PlanDenies_update s) (ae_jti env) ReasonPlanBindingRequired (Some dec)
      else if tr_PlanBinding tr = [] then (s, [], Inr None)
      else case bs_contract s of
        None \<Rightarrow> br_deny lb b env (bump bst_PlanDenies_update s) (ae_jti env) ReasonPlanUnverified (Some dec)
      | Some store \<Rightarrow>
          (case VerifyStep (lb_sha lb) (bs_reg s) store subject (tr_PlanBinding tr) (tr_Action tr) (tr_Resource tr) (ae_contract_now env) of
             (r, store', al, Inr seal) \<Rightarrow> (s\<lparr>bs_reg := r, bs_contract := Some store'\<rparr>, al, Inr (Some seal))
           | (r, store', al, Inl e) \<Rightarrow>
               let s' = s\<lparr>bs_reg := r, bs_contract := Some store'\<rparr>
               in raised al (if e = ErrPlanStoreFault then br_fault lb b env s' (ae_jti env) ReasonPlanStoreFault
                    else br_deny lb b env (bump bst_PlanDenies_update s') (ae_jti env) (planDenyReason e) (Some dec))))"

text \<open>Steps 7bis and 8: the ceiling of the agent, then the envelope.\<close>

definition reserve_envelope ::
  "libs \<Rightarrow> Broker \<Rightarrow> action_env \<Rightarrow> string \<Rightarrow> AgentRecord \<Rightarrow> u64 \<Rightarrow> Translation \<Rightarrow> OPADecision \<Rightarrow> broker_state \<Rightarrow> unit stage" where
  "reserve_envelope lb b env subject agent epoch tr dec s =
     (case tr_Quota tr of None \<Rightarrow> (s, [], Inr ())
      | Some q \<Rightarrow>
        (case ag_Quota agent of
           None \<Rightarrow> br_deny lb b env (bump bst_AgentDenies_update s) (ae_jti env) ReasonAgentQuotaForbidden (Some dec)
         | Some policy \<Rightarrow>
             if q_VolumeMax q > aq_MaxVolume policy \<or> q_WindowS q > aq_MaxWindowS policy
             then br_deny lb b env (bump bst_AgentDenies_update s) (ae_jti env) ReasonAgentQuotaExceeded (Some dec)
             else (case (br_envelope b, bs_ledger s) of
                (Some _, Some l) \<Rightarrow>
                  let s1 = bump bst_EnvelopeEvals_update s
                  in (case Reserve l subject epoch (q_VolumeMax q) of
                        (l', al, Inl _) \<Rightarrow>
                          raised al (br_deny lb b env (s1\<lparr>bs_ledger := Some l'\<rparr>) (ae_jti env) ReasonEnvelopeSaturated (Some dec))
                      | (l', al, Inr tot) \<Rightarrow>
                          (case EvalEnvelope (ae_envelope env)
                                  \<lparr>ei_Subject = subject, ei_Epoch = epoch, ei_Resource = q_Resource q, ei_Operation = q_Operation q,
                                   ei_Requested = q_VolumeMax q, ei_Issued = tot\<rparr> of
                             (edec, al1) \<Rightarrow>
                               if \<not> ed_Allow edec
                               then raised (al @ al1) (br_deny lb b env
                                       (bump bst_EnvelopeDenies_update (s1\<lparr>bs_ledger := Some (Release l' subject epoch (q_VolumeMax q))\<rparr>))
                                       (ae_jti env) (ed_Reason edec) (Some dec))
                               else (s1\<lparr>bs_ledger := Some l'\<rparr>, al @ al1, Inr ())))
              | _ \<Rightarrow> br_deny lb b env s (ae_jti env) ReasonEnvelopeUnverified (Some dec))))"

text \<open>Steps 9 and 10: the signature, then the leaf of the issuance.\<close>

definition issue_params ::
  "action_env \<Rightarrow> string \<Rightarrow> AgentRecord \<Rightarrow> u64 \<Rightarrow> Translation \<Rightarrow> bytes option \<Rightarrow> IssueParams" where
  "issue_params env subject agent epoch tr planSeal =
     \<lparr>ip_Subject = subject, ip_Action = tr_Action tr, ip_Resource = tr_Resource tr, ip_Class = Some (ag_Class agent),
      ip_ObjectSeal = tr_ObjectSeal tr, ip_Quota = tr_Quota tr, ip_PlanSeal = planSeal, ip_JTI = ae_jti env,
      ip_Epoch = epoch, ip_Iat = unix (ae_iat_now env)\<rparr>"

definition issue_token ::
  "libs \<Rightarrow> Broker \<Rightarrow> action_env \<Rightarrow> string \<Rightarrow> AgentRecord \<Rightarrow> u64 \<Rightarrow> Translation \<Rightarrow> OPADecision \<Rightarrow> bytes option \<Rightarrow> broker_state
     \<Rightarrow> unit stage" where
  "issue_token lb b env subject agent epoch tr dec planSeal s =
     (case Issue (lb_codec lb) (lb_sign1 lb) (br_issuer b) (issue_params env subject agent epoch tr planSeal) of
        Inl _ \<Rightarrow>
          let s1 = (case tr_Quota tr of None \<Rightarrow> s
                    | Some q \<Rightarrow> s\<lparr>bs_ledger := map_option (\<lambda>l. Release l subject epoch (q_VolumeMax q)) (bs_ledger s)\<rparr>)
          in br_fault lb b env (bump bst_IssuanceFailures_update s1) (ae_jti env) ReasonIssuanceFailed
      | Inr wire \<Rightarrow>
          (case br_writeLeaf lb b s (result_of True ReasonOK (Some wire) (ae_jti env) (Some dec)) (ae_leaf_now env) of
             (s1, al, res) \<Rightarrow>
               (bump (if rs_Allow res then bst_Allows_update else bst_Denies_update) s1, al, Inl res)))"

definition HandleAction ::
  "libs \<Rightarrow> Broker \<Rightarrow> action_env \<Rightarrow> string \<Rightarrow> string \<Rightarrow> string \<Rightarrow> broker_state \<Rightarrow> unit stage" where
  "HandleAction lb b env subject intent txID s =
     next_step (admit_request lb b env subject intent txID (bump bst_Requests_update s))
       (\<lambda>s1 (agent, epoch).
     next_step (translate_request lb b env subject intent s1)
       (\<lambda>s2 (tr, skill).
     next_step (ask_policy lb env (opa_input env subject agent epoch tr skill) s2)
       (\<lambda>s3 dec.
     next_step (verify_quorum lb b env agent epoch tr dec s3)
       (\<lambda>s4 _.
     next_step (verify_plan lb b env subject agent tr dec s4)
       (\<lambda>s5 planSeal.
     next_step (reserve_envelope lb b env subject agent epoch tr dec s5)
       (\<lambda>s6 _. issue_token lb b env subject agent epoch tr dec planSeal s6))))))"

subsection \<open>What each step lets through\<close>

lemma br_writeLeaf_cases:
  assumes "br_writeLeaf lb b s res now = (s', al, res')"
  obtains (written) r n where "AppendLeaf (lb_sha lb) (bs_reg s) KindDecision (br_cellID b) (br_salt b)
        (decisionLeafRecord (rs_JTI res) (rs_Allow res) (rs_Reason res)) (unix_nano now) = (r, Inr n)"
      "s' = s\<lparr>bs_reg := r\<rparr>" "al = []" "res' = res\<lparr>rs_LeafWritten := True\<rparr>"
  | (unwritten) r e where "AppendLeaf (lb_sha lb) (bs_reg s) KindDecision (br_cellID b) (br_salt b)
        (decisionLeafRecord (rs_JTI res) (rs_Allow res) (rs_Reason res)) (unix_nano now) = (r, Inl e)"
      "s' = bump bst_LeafFailures_update (s\<lparr>bs_reg := r\<rparr>)" "al = [ReasonLeafWriteFailed]"
      "res' = (if rs_Allow res then res\<lparr>rs_Allow := False, rs_Reason := ReasonLeafWriteFailed, rs_Token := None\<rparr> else res)
             \<lparr>rs_LeafErr := Some e\<rparr>"
  using assms by (auto simp: br_writeLeaf_def split: prod.splits sum.splits)

text \<open>A step that ends a request refuses it, without a token, and its decision is on record or reported
  as unrecorded.\<close>

definition refuses :: "'a stage \<Rightarrow> bool" where
  "refuses m \<longleftrightarrow> (\<forall>s' al res. m = (s', al, Inl res) \<longrightarrow> \<not> rs_Allow res \<and> rs_Token res = None \<and>
     (rs_LeafWritten res \<longleftrightarrow> rs_LeafErr res = None))"

lemma deny_refuses [intro!, simp]: "refuses (br_deny lb b env s0 jti reason dec)"
  by (auto simp: refuses_def br_deny_def result_of_def elim!: br_writeLeaf_cases split: prod.splits)

lemma fault_refuses [intro!, simp]: "refuses (br_fault lb b env s0 jti reason)"
  by (auto simp: refuses_def br_fault_def result_of_def elim!: br_writeLeaf_cases split: prod.splits)

lemma deny_not_Inr [simp]: "br_deny lb b env s jti reason dec \<noteq> (s', al, Inr x)"
  by (auto simp: br_deny_def split: prod.splits)

lemma fault_not_Inr [simp]: "br_fault lb b env s jti reason \<noteq> (s', al, Inr x)"
  by (auto simp: br_fault_def split: prod.splits)

lemma raised_Inr [simp]: "raised al0 m = (s, al, Inr x) \<longleftrightarrow> (\<exists>al'. m = (s, al', Inr x) \<and> al = al0 @ al')"
  by (auto simp: raised_def split: prod.splits)

lemma refuses_Inr [simp]: "refuses (s, al, Inr x)"
  by (simp add: refuses_def)

lemma refuses_raised [simp]: "refuses (raised al m) \<longleftrightarrow> refuses m"
  by (auto simp: refuses_def raised_def split: prod.splits)

lemma refuses_with_detail:
  "refuses m \<Longrightarrow> (\<And>r. rs_Allow (f r) = rs_Allow r \<and> rs_Token (f r) = rs_Token r \<and> rs_LeafWritten (f r) = rs_LeafWritten r \<and>
     rs_LeafErr (f r) = rs_LeafErr r) \<Longrightarrow> refuses (with_detail f m)"
  by (auto simp: refuses_def with_detail_def split: prod.splits sum.splits)

lemma with_detail_Inr [simp]: "with_detail f m = (s, al, Inr x) \<longleftrightarrow> m = (s, al, Inr x)"
  by (auto simp: with_detail_def split: prod.splits sum.splits)

lemma admit_request_refuses: "refuses (admit_request lb b env subject intent txID s)"
  by (auto simp: admit_request_def split: option.splits sum.splits)

lemma admit_request_passes:
  assumes "admit_request lb b env subject intent txID s = (s', al, Inr (agent, epoch))"
  shows "agent_Resolve (br_registry b) subject = Some agent" "ag_TransportIdentity agent = txID" "ae_epoch env = Inr epoch" "s' = s"
    "1 \<le> length subject" "length subject \<le> maxIssSubActionLen"
  using assms by (auto simp: admit_request_def Suc_le_eq split: if_splits option.splits sum.splits)

lemma translate_request_refuses: "refuses (translate_request lb b env subject intent s)"
  by (auto simp: translate_request_def intro!: refuses_with_detail
      split: option.splits sum.splits translate_error.splits)

lemma translate_request_passes:
  assumes "translate_request lb b env subject intent s = (s', al, Inr (tr, skill))"
  shows "ae_translate env subject intent = Inr tr" "s' = s"
    "case br_skills b of None \<Rightarrow> skill = None
     | Some skills \<Rightarrow> \<exists>sk. skill_Resolve skills (tr_Action tr) = Some sk \<and> tr_Resource tr \<in> set (sr_Scope sk) \<and>
         skill = Some \<lparr>sk_RiskTier = sr_RiskTier sk, sk_ScopeSize = length (sr_Scope sk)\<rparr>"
  using assms
  by (auto simp: translate_request_def skill_allows_iff split: option.splits sum.splits translate_error.splits if_splits)

lemma ask_policy_refuses: "refuses (ask_policy lb env i s)"
proof -
  obtain r c al dec where e: "Eval (lb_sha lb) (bs_reg s) (bs_opa s) i (ae_acquired env) (ae_caller_done env) (ae_ask env)
      (ae_opa_now env) (ae_opa_leaf_now env) = (r, c, al, dec)" by (metis prod_cases4)
  have "od_LeafWritten dec \<longleftrightarrow> od_LeafErr dec = None" by (rule Eval_leaf [OF e])
  then show ?thesis by (simp add: ask_policy_def e refuses_def result_of_def Let_def)
qed

lemma ask_policy_passes:
  assumes "ask_policy lb env i s = (s', al, Inr dec)"
  shows "ex_answer (ae_ask env (request_of i)) = Some (200, AllowIs True)" "od_Allow dec"
    "\<exists>r c. s' = s\<lparr>bs_reg := r, bs_opa := c\<rparr>"
  using assms
  by (auto simp: ask_policy_def Let_def dest: Eval_allow split: prod.splits if_splits)

lemma verify_quorum_refuses: "refuses (verify_quorum lb b env agent epoch tr dec s)"
  by (auto simp: verify_quorum_def Let_def split: option.splits prod.splits)

lemma verify_quorum_passes:
  assumes "verify_quorum lb b env agent epoch tr dec s = (s', al, Inr ())"
  shows "bs_contract s' = bs_contract s" "bs_ledger s' = bs_ledger s"
    "ag_Class agent = ClassW \<Longrightarrow> \<exists>g proofs r proofs'. bs_quorum s = Some (g, proofs) \<and>
       VerifyClassW (lb_sha lb) (lb_edv lb) (lb_wcodec lb) g (bs_reg s) proofs (tr_QuorumProof tr) (tr_Action tr)
         (tr_Resource tr) epoch (ae_quorum_now env) (ae_quorum_leaf_now env) = (r, proofs', None)"
  using assms by (auto simp: verify_quorum_def Let_def split: if_splits option.splits prod.splits)

lemma verify_plan_refuses: "refuses (verify_plan lb b env subject agent tr dec s)"
  by (auto simp: verify_plan_def Let_def split: option.splits prod.splits sum.splits)

lemma verify_plan_passes:
  assumes "verify_plan lb b env subject agent tr dec s = (s', al, Inr seal)"
  shows "bs_ledger s' = bs_ledger s"
    "seal = None \<and> ag_Class agent = ClassOut \<and> tr_PlanBinding tr = [] \<or>
     tr_PlanBinding tr \<noteq> [] \<and> (\<exists>store r store' al' hash. bs_contract s = Some store \<and> seal = Some hash \<and>
        VerifyStep (lb_sha lb) (bs_reg s) store subject (tr_PlanBinding tr) (tr_Action tr) (tr_Resource tr) (ae_contract_now env)
          = (r, store', al', Inr hash))"
  using assms
  by (cases "ag_Class agent";
      auto simp: verify_plan_def Let_def split: if_splits option.splits prod.splits sum.splits)+

lemma reserve_envelope_refuses: "refuses (reserve_envelope lb b env subject agent epoch tr dec s)"
  by (auto simp: reserve_envelope_def Let_def split: option.splits prod.splits sum.splits)

lemma reserve_envelope_passes:
  assumes "reserve_envelope lb b env subject agent epoch tr dec s = (s', al, Inr ())" "tr_Quota tr = Some q"
  shows "\<exists>policy l l' al' tot. ag_Quota agent = Some policy \<and> q_VolumeMax q \<le> aq_MaxVolume policy \<and>
    q_WindowS q \<le> aq_MaxWindowS policy \<and> bs_ledger s = Some l \<and>
    Reserve l subject epoch (q_VolumeMax q) = (l', al', Inr tot) \<and> bs_ledger s' = Some l' \<and>
    ex_answer (ae_envelope env \<lparr>ei_Subject = subject, ei_Epoch = epoch, ei_Resource = q_Resource q,
      ei_Operation = q_Operation q, ei_Requested = q_VolumeMax q, ei_Issued = tot\<rparr>) = Some (200, AllowIs True)"
proof -
  obtain policy where p: "ag_Quota agent = Some policy"
    using assms by (cases "ag_Quota agent") (auto simp: reserve_envelope_def)
  with assms have c: "\<not> (q_VolumeMax q > aq_MaxVolume policy \<or> q_WindowS q > aq_MaxWindowS policy)"
    by (auto simp: reserve_envelope_def)
  with assms p obtain e l where l: "br_envelope b = Some e" "bs_ledger s = Some l"
    by (cases "br_envelope b"; cases "bs_ledger s") (auto simp: reserve_envelope_def)
  obtain l' al' res where r: "Reserve l subject epoch (q_VolumeMax q) = (l', al', res)" by (metis prod_cases3)
  with assms p c l obtain tot where tot: "res = Inr tot" by (cases res) (auto simp: reserve_envelope_def Let_def)
  let ?i = "\<lparr>ei_Subject = subject, ei_Epoch = epoch, ei_Resource = q_Resource q, ei_Operation = q_Operation q,
      ei_Requested = q_VolumeMax q, ei_Issued = tot\<rparr>"
  obtain edec al1 where ev: "EvalEnvelope (ae_envelope env) ?i = (edec, al1)" by fastforce
  with assms p c l r tot have "ed_Allow edec" "bs_ledger s' = Some l'"
    by (cases "ed_Allow edec"; auto simp: reserve_envelope_def Let_def bump_def)+
  with EvalEnvelope_allow [of "ae_envelope env" ?i] ev p c l r tot show ?thesis by (simp add: not_less)
qed

lemma issue_token_ends:
  obtains s' al res where "issue_token lb b env subject agent epoch tr dec seal s = (s', al, Inl res)"
    "rs_LeafWritten res \<longleftrightarrow> rs_LeafErr res = None" "rs_Allow res \<longleftrightarrow> rs_Token res \<noteq> None"
    "rs_Allow res \<Longrightarrow> rs_LeafWritten res"
    "rs_Allow res \<Longrightarrow> \<exists>wire n. Issue (lb_codec lb) (lb_sign1 lb) (br_issuer b) (issue_params env subject agent epoch tr seal) = Inr wire \<and>
       rs_Token res = Some wire \<and> rs_JTI res = ae_jti env \<and>
       AppendLeaf (lb_sha lb) (bs_reg s) KindDecision (br_cellID b) (br_salt b)
         (decisionLeafRecord (ae_jti env) True ReasonOK) (unix_nano (ae_leaf_now env)) = (bs_reg s', Inr n)"
proof (cases "Issue (lb_codec lb) (lb_sign1 lb) (br_issuer b) (issue_params env subject agent epoch tr seal)")
  case (Inl e)
  define s1 where "s1 = bump bst_IssuanceFailures_update (case tr_Quota tr of None \<Rightarrow> s
      | Some q \<Rightarrow> s\<lparr>bs_ledger := map_option (\<lambda>l. Release l subject epoch (q_VolumeMax q)) (bs_ledger s)\<rparr>)"
  have f: "issue_token lb b env subject agent epoch tr dec seal s = br_fault lb b env s1 (ae_jti env) ReasonIssuanceFailed"
    by (simp add: issue_token_def Inl s1_def Let_def)
  obtain s' al res where e: "br_fault lb b env s1 (ae_jti env) ReasonIssuanceFailed = (s', al, (Inl res :: Result + unit))"
    by (cases "br_writeLeaf lb b s1 (result_of False ReasonIssuanceFailed None (ae_jti env) None) (ae_leaf_now env)")
      (auto simp: br_fault_def)
  have "refuses (br_fault lb b env s1 (ae_jti env) ReasonIssuanceFailed :: unit stage)" by simp
  with e have "\<not> rs_Allow res" "rs_Token res = None" "rs_LeafWritten res \<longleftrightarrow> rs_LeafErr res = None"
    by (simp_all add: refuses_def)
  with that f e show ?thesis by simp
next
  case (Inr wire)
  obtain s1 al res where w: "br_writeLeaf lb b s (result_of True ReasonOK (Some wire) (ae_jti env) (Some dec)) (ae_leaf_now env)
      = (s1, al, res)" by (metis prod_cases3)
  have i: "issue_token lb b env subject agent epoch tr dec seal s =
      (bump (if rs_Allow res then bst_Allows_update else bst_Denies_update) s1, al, Inl res)"
    by (simp add: issue_token_def Inr w)
  from w show ?thesis
    by (cases rule: br_writeLeaf_cases) (use that [OF i] Inr in \<open>auto simp: result_of_def bump_def\<close>)
qed

lemma issue_token_passes:
  assumes "issue_token lb b env subject agent epoch tr dec seal s = (s', al, Inl res)" "rs_Allow res"
  shows "\<exists>wire n. Issue (lb_codec lb) (lb_sign1 lb) (br_issuer b) (issue_params env subject agent epoch tr seal) = Inr wire \<and>
       rs_Token res = Some wire \<and> rs_JTI res = ae_jti env \<and>
       AppendLeaf (lb_sha lb) (bs_reg s) KindDecision (br_cellID b) (br_salt b)
         (decisionLeafRecord (ae_jti env) True ReasonOK) (unix_nano (ae_leaf_now env)) = (bs_reg s', Inr n)"
proof (rule issue_token_ends [of lb b env subject agent epoch tr dec seal s], goal_cases)
  case (1 s1 al1 res1)
  from 1(1) assms(1) have "s1 = s'" "res1 = res" by simp_all
  with 1(5) assms(2) show ?case by blast
qed

text \<open>A request that is allowed went through every step.\<close>

lemma next_step_passes:
  assumes "next_step m f = (s', al, Inl res)" "refuses m" "rs_Allow res"
  obtains s1 al1 x al2 where "m = (s1, al1, Inr x)" "f s1 x = (s', al2, Inl res)" "al = al1 @ al2"
  using assms by (auto simp: next_step_def refuses_def split: prod.splits sum.splits)

definition ends :: "'a stage \<Rightarrow> bool" where
  "ends m \<longleftrightarrow> (\<exists>s' al res. m = (s', al, Inl res))"

lemma next_step_ends: "(\<And>s1 x. ends (f s1 x)) \<Longrightarrow> ends (next_step m f)"
proof -
  assume f: "\<And>s1 x. ends (f s1 x)"
  obtain s1 al1 y where m: "m = (s1, al1, y)" by (cases m) auto
  show ?thesis
  proof (cases y)
    case (Inr x)
    from f [of s1 x] obtain s' al res where "f s1 x = (s', al, Inl res)" by (auto simp: ends_def)
    with m Inr show ?thesis by (simp add: next_step_def ends_def)
  qed (simp add: m next_step_def ends_def)
qed

lemma case_prod_ends: "(\<And>x y. ends (f x y)) \<Longrightarrow> ends (case p of (x, y) \<Rightarrow> f x y)"
  by (cases p) simp

text \<open>What holds of every answer.\<close>

definition sound_answer :: "'a stage \<Rightarrow> bool" where
  "sound_answer m \<longleftrightarrow> (\<forall>s' al res. m = (s', al, Inl res) \<longrightarrow>
     (rs_Allow res \<longleftrightarrow> rs_Token res \<noteq> None) \<and> (rs_LeafWritten res \<longleftrightarrow> rs_LeafErr res = None) \<and>
     (rs_Allow res \<longrightarrow> rs_LeafWritten res))"

lemma refuses_sound: "refuses m \<Longrightarrow> sound_answer m"
  by (simp add: refuses_def sound_answer_def)

lemma next_step_sound:
  assumes "refuses m" "\<And>s1 x. sound_answer (f s1 x)"
  shows "sound_answer (next_step m f)"
  unfolding sound_answer_def
proof (intro allI impI)
  fix s' al res assume n: "next_step m f = (s', al, Inl res)"
  obtain s1 al1 y where m: "m = (s1, al1, y)" by (cases m) auto
  show "(rs_Allow res \<longleftrightarrow> rs_Token res \<noteq> None) \<and> (rs_LeafWritten res \<longleftrightarrow> rs_LeafErr res = None) \<and> (rs_Allow res \<longrightarrow> rs_LeafWritten res)"
  proof (cases y)
    case (Inl r)
    with n m assms(1) show ?thesis by (simp add: next_step_def refuses_def)
  next
    case (Inr x)
    with n m obtain al2 where "f s1 x = (s', al2, Inl res)" by (auto simp: next_step_def split: prod.splits)
    with assms(2) [of s1 x] show ?thesis unfolding sound_answer_def by blast
  qed
qed

lemma HandleAction_sound: "sound_answer (HandleAction lb b env subject intent txID s)"
proof -
  have issue: "sound_answer (issue_token lb b env subject agent epoch tr dec seal s')" for agent epoch tr dec seal s'
    by (rule issue_token_ends [of lb b env subject agent epoch tr dec seal s']) (simp add: sound_answer_def)
  show ?thesis
    unfolding HandleAction_def
    by (auto intro!: next_step_sound [OF admit_request_refuses] next_step_sound [OF translate_request_refuses]
        next_step_sound [OF ask_policy_refuses] next_step_sound [OF verify_quorum_refuses]
        next_step_sound [OF verify_plan_refuses] next_step_sound [OF reserve_envelope_refuses] issue)
qed

lemma HandleAction_ends: "ends (HandleAction lb b env subject intent txID s)"
proof -
  have "ends (issue_token lb b env subject agent epoch tr dec seal s0)" for agent epoch tr dec seal s0
    by (rule issue_token_ends) (auto simp: ends_def)
  then show ?thesis
    unfolding HandleAction_def by (intro next_step_ends case_prod_ends)
qed

text \<open>Everything a token rests on, read off the steps.\<close>

lemma allowed_by_every_step:
  assumes "HandleAction lb b env subject intent txID s = (s', al, Inl res)" "rs_Allow res"
  obtains agent epoch tr skill s1 al1 dec s2 al2 s3 al3 seal s4 al4 s5 al5 al6 where
    "admit_request lb b env subject intent txID (bump bst_Requests_update s) = (s1, al1, Inr (agent, epoch))"
    "translate_request lb b env subject intent s1 = (s2, al2, Inr (tr, skill))"
    "ask_policy lb env (opa_input env subject agent epoch tr skill) s2 = (s3, al3, Inr dec)"
    "\<exists>al. verify_quorum lb b env agent epoch tr dec s3 = (s4, al, Inr ())"
    "\<exists>al. verify_plan lb b env subject agent tr dec s4 = (s5, al, Inr seal)"
    "\<exists>al s6. reserve_envelope lb b env subject agent epoch tr dec s5 = (s6, al, Inr ()) \<and>
       issue_token lb b env subject agent epoch tr dec seal s6 = (s', al6, Inl res)"
proof -
  from assms(1) show thesis
    unfolding HandleAction_def
    apply (rule next_step_passes [OF _ admit_request_refuses assms(2)])
    apply (clarsimp)
    apply (erule next_step_passes [OF _ translate_request_refuses assms(2)])
    apply clarsimp
    apply (erule next_step_passes [OF _ ask_policy_refuses assms(2)])
    apply (erule next_step_passes [OF _ verify_quorum_refuses assms(2)])
    apply (erule next_step_passes [OF _ verify_plan_refuses assms(2)])
    apply (erule next_step_passes [OF _ reserve_envelope_refuses assms(2)])
    by (rule that) auto
qed

lemma bump_fields [simp]:
  "bs_reg (bump f s) = bs_reg s" "bs_opa (bump f s) = bs_opa s" "bs_quorum (bump f s) = bs_quorum s"
  "bs_contract (bump f s) = bs_contract s" "bs_ledger (bump f s) = bs_ledger s"
  by (simp_all add: bump_def)

text \<open>The authority of each part over one request, as the chain finds it.\<close>

definition plan_authority ::
  "libs \<Rightarrow> action_env \<Rightarrow> ContractStore option \<Rightarrow> string \<Rightarrow> Translation \<Rightarrow> bytes \<Rightarrow> bool" where
  "plan_authority lb env contract subject tr seal \<longleftrightarrow>
     (\<exists>store r r' store' al. contract = Some store \<and>
        VerifyStep (lb_sha lb) r store subject (tr_PlanBinding tr) (tr_Action tr) (tr_Resource tr) (ae_contract_now env)
          = (r', store', al, Inr seal))"

definition quorum_authority ::
  "libs \<Rightarrow> action_env \<Rightarrow> (QuorumGate \<times> ProofStore) option \<Rightarrow> u64 \<Rightarrow> Translation \<Rightarrow> bool" where
  "quorum_authority lb env quorum epoch tr \<longleftrightarrow>
     (\<exists>g proofs r r' proofs'. quorum = Some (g, proofs) \<and>
        VerifyClassW (lb_sha lb) (lb_edv lb) (lb_wcodec lb) g r proofs (tr_QuorumProof tr) (tr_Action tr) (tr_Resource tr) epoch
          (ae_quorum_now env) (ae_quorum_leaf_now env) = (r', proofs', None))"

definition envelope_authority ::
  "action_env \<Rightarrow> EnvelopeLedger option \<Rightarrow> AgentRecord \<Rightarrow> string \<Rightarrow> u64 \<Rightarrow> Quota \<Rightarrow> bool" where
  "envelope_authority env ledger agent subject epoch q \<longleftrightarrow>
     (\<exists>policy l l' al tot. ag_Quota agent = Some policy \<and> q_VolumeMax q \<le> aq_MaxVolume policy \<and> q_WindowS q \<le> aq_MaxWindowS policy \<and>
        ledger = Some l \<and> Reserve l subject epoch (q_VolumeMax q) = (l', al, Inr tot) \<and>
        ex_answer (ae_envelope env \<lparr>ei_Subject = subject, ei_Epoch = epoch, ei_Resource = q_Resource q,
          ei_Operation = q_Operation q, ei_Requested = q_VolumeMax q, ei_Issued = tot\<rparr>) = Some (200, AllowIs True))"

lemma allowed_authorities:
  assumes "HandleAction lb b env subject intent txID s = (s', al, Inl res)" "rs_Allow res"
  obtains agent epoch tr skill seal wire r n where
    "agent_Resolve (br_registry b) subject = Some agent" "ag_TransportIdentity agent = txID" "ae_epoch env = Inr epoch"
    "ae_translate env subject intent = Inr tr"
    "case br_skills b of None \<Rightarrow> skill = None
     | Some skills \<Rightarrow> \<exists>sk. skill_Resolve skills (tr_Action tr) = Some sk \<and> tr_Resource tr \<in> set (sr_Scope sk) \<and>
         skill = Some \<lparr>sk_RiskTier = sr_RiskTier sk, sk_ScopeSize = length (sr_Scope sk)\<rparr>"
    "ex_answer (ae_ask env (request_of (opa_input env subject agent epoch tr skill))) = Some (200, AllowIs True)"
    "ag_Class agent = ClassW \<Longrightarrow> quorum_authority lb env (bs_quorum s) epoch tr"
    "if ag_Class agent = ClassOut \<and> tr_PlanBinding tr = [] then seal = None
     else \<exists>hash. seal = Some hash \<and> plan_authority lb env (bs_contract s) subject tr hash"
    "\<And>q. tr_Quota tr = Some q \<Longrightarrow> envelope_authority env (bs_ledger s) agent subject epoch q"
    "Issue (lb_codec lb) (lb_sign1 lb) (br_issuer b) (issue_params env subject agent epoch tr seal) = Inr wire"
    "rs_Token res = Some wire" "rs_JTI res = ae_jti env" "1 \<le> length subject" "length subject \<le> maxIssSubActionLen"
    "AppendLeaf (lb_sha lb) r KindDecision (br_cellID b) (br_salt b) (decisionLeafRecord (ae_jti env) True ReasonOK)
       (unix_nano (ae_leaf_now env)) = (bs_reg s', Inr n)"
proof -
  from assms obtain agent epoch tr skill s1 al1 dec s2 al2 s3 al3 seal s4 s5 al6 where
    st: "admit_request lb b env subject intent txID (bump bst_Requests_update s) = (s1, al1, Inr (agent, epoch))"
      "translate_request lb b env subject intent s1 = (s2, al2, Inr (tr, skill))"
      "ask_policy lb env (opa_input env subject agent epoch tr skill) s2 = (s3, al3, Inr dec)"
    and q: "\<exists>al. verify_quorum lb b env agent epoch tr dec s3 = (s4, al, Inr ())"
    and p: "\<exists>al. verify_plan lb b env subject agent tr dec s4 = (s5, al, Inr seal)"
    and e: "\<exists>al s6. reserve_envelope lb b env subject agent epoch tr dec s5 = (s6, al, Inr ()) \<and>
       issue_token lb b env subject agent epoch tr dec seal s6 = (s', al6, Inl res)"
    by (rule allowed_by_every_step)
  note adm = admit_request_passes [OF st(1)] and tra = translate_request_passes [OF st(2)] and pol = ask_policy_passes [OF st(3)]
  from pol(3) adm(4) tra(2) have s3: "bs_quorum s3 = bs_quorum s" "bs_contract s3 = bs_contract s" "bs_ledger s3 = bs_ledger s"
    by auto
  from q obtain alq where q: "verify_quorum lb b env agent epoch tr dec s3 = (s4, alq, Inr ())" ..
  from p obtain alp where p: "verify_plan lb b env subject agent tr dec s4 = (s5, alp, Inr seal)" ..
  from e obtain ale s6 where e: "reserve_envelope lb b env subject agent epoch tr dec s5 = (s6, ale, Inr ())"
    and i: "issue_token lb b env subject agent epoch tr dec seal s6 = (s', al6, Inl res)" by blast
  note quo = verify_quorum_passes [OF q] and pla = verify_plan_passes [OF p]
  have seal: "if ag_Class agent = ClassOut \<and> tr_PlanBinding tr = [] then seal = None
     else \<exists>hash. seal = Some hash \<and> plan_authority lb env (bs_contract s) subject tr hash"
    using pla(2)
  proof (elim disjE conjE exE)
    fix store r store' al' hash
    assume "tr_PlanBinding tr \<noteq> []" "bs_contract s4 = Some store" "seal = Some hash"
      and "VerifyStep (lb_sha lb) (bs_reg s4) store subject (tr_PlanBinding tr) (tr_Action tr) (tr_Resource tr) (ae_contract_now env)
        = (r, store', al', Inr hash)"
    then show ?thesis using quo(1) s3(2) unfolding plan_authority_def by auto
  qed simp
  have quorum: "quorum_authority lb env (bs_quorum s) epoch tr" if "ag_Class agent = ClassW"
    using quo(3) [OF that] s3(1) unfolding quorum_authority_def by metis
  have envelope: "envelope_authority env (bs_ledger s) agent subject epoch q" if "tr_Quota tr = Some q" for q
    using reserve_envelope_passes [OF e that] quo(2) pla(1) s3(3) unfolding envelope_authority_def by auto
  obtain wire n where "Issue (lb_codec lb) (lb_sign1 lb) (br_issuer b) (issue_params env subject agent epoch tr seal) = Inr wire"
      "rs_Token res = Some wire" "rs_JTI res = ae_jti env"
      "AppendLeaf (lb_sha lb) (bs_reg s6) KindDecision (br_cellID b) (br_salt b)
         (decisionLeafRecord (ae_jti env) True ReasonOK) (unix_nano (ae_leaf_now env)) = (bs_reg s', Inr n)"
    using issue_token_passes [OF i assms(2)] by blast
  then show thesis by (intro that [OF adm(1-3) tra(1) tra(3) pol(1) quorum seal envelope _ _ _ adm(5,6)])
qed

lemma parseBinding_seal:
  assumes "parseBinding binding = (h, Some p)"
  shows "length h = 32"
proof (cases "length binding < 39 \<or> take 5 binding \<noteq> ''TBPB1''")
  case True
  with assms show ?thesis unfolding parseBinding_def by (simp only: if_True prod.inject option.distinct simp_thms)
next
  case False
  from assms have "h = take 32 (drop 5 binding)"
    unfolding parseBinding_def if_not_P [OF False] Let_def by (simp only: prod.inject split: if_splits)
  moreover from False have "39 \<le> length binding" by (simp only: de_Morgan_disj not_less)
  ultimately show ?thesis by simp
qed

lemma plan_authority_binding:
  assumes "plan_authority lb env contract subject tr seal"
  obtains p where "parseBinding (tr_PlanBinding tr) = (seal, Some p)"
proof -
  from assms obtain store r r' store' al where v: "VerifyStep (lb_sha lb) r store subject (tr_PlanBinding tr) (tr_Action tr)
      (tr_Resource tr) (ae_contract_now env) = (r', store', al, Inr seal)" by (auto simp: plan_authority_def)
  obtain r1 s1 al1 where "expireLocked (lb_sha lb) r store (ae_contract_now env) = (r1, s1, al1)" by (metis prod_cases3)
  from this v show thesis by (cases rule: VerifyStep_cases) (use that in auto)
qed

subsection \<open>Properties\<close>

text \<open>C3: no authority is skipped.  A request is allowed only if the subject is an agent of the registry
  bound to the transport it came by, the cell holds an epoch, the intent was translated within the
  scope of the skill it names, the policy engine answered allow for those facts with the class of the
  registry, the controllers signed when the class is W, an approved plan had this step next unless the
  class is Out and no plan was named, and any quota is within the ceiling of the agent and the envelope; and the
  token is what the issuer signed for those very facts, with its decision already on record.\<close>

theorem token_needs_every_authority:
  assumes "HandleAction lb b env subject intent txID s = (s', al, Inl res)" and "rs_Allow res"
  shows "\<exists>agent epoch tr skill seal wire r n.
    agent_Resolve (br_registry b) subject = Some agent \<and> ag_TransportIdentity agent = txID \<and> ae_epoch env = Inr epoch \<and>
    ae_translate env subject intent = Inr tr \<and>
    (case br_skills b of None \<Rightarrow> skill = None
     | Some skills \<Rightarrow> \<exists>sk. skill_Resolve skills (tr_Action tr) = Some sk \<and> tr_Resource tr \<in> set (sr_Scope sk) \<and>
         skill = Some \<lparr>sk_RiskTier = sr_RiskTier sk, sk_ScopeSize = length (sr_Scope sk)\<rparr>) \<and>
    ex_answer (ae_ask env (request_of (opa_input env subject agent epoch tr skill))) = Some (200, AllowIs True) \<and>
    (ag_Class agent = ClassW \<longrightarrow> quorum_authority lb env (bs_quorum s) epoch tr) \<and>
    (if ag_Class agent = ClassOut \<and> tr_PlanBinding tr = [] then seal = None
     else \<exists>hash. seal = Some hash \<and> plan_authority lb env (bs_contract s) subject tr hash) \<and>
    (\<forall>q. tr_Quota tr = Some q \<longrightarrow> envelope_authority env (bs_ledger s) agent subject epoch q) \<and>
    Issue (lb_codec lb) (lb_sign1 lb) (br_issuer b) (issue_params env subject agent epoch tr seal) = Inr wire \<and>
    rs_Token res = Some wire \<and>
    AppendLeaf (lb_sha lb) r KindDecision (br_cellID b) (br_salt b) (decisionLeafRecord (rs_JTI res) True ReasonOK)
      (unix_nano (ae_leaf_now env)) = (bs_reg s', Inr n)"
  using assms
proof (rule allowed_authorities, goal_cases)
  case (1 agent epoch tr skill seal wire r n)
  show ?case
    by (intro exI [of _ agent] exI [of _ epoch] exI [of _ tr] exI [of _ skill] exI [of _ seal] exI [of _ wire] exI [of _ r]
        exI [of _ n] conjI impI allI) (use 1 in simp_all)
qed

text \<open>C6: the chain always answers.  Whatever the parts reply, a request ends with one result; the result
  carries a token exactly when it allows, its leaf is on record exactly when no fault of the registry is
  reported with it, and an answer that allows is always on record.\<close>

theorem every_request_is_answered:
  "\<exists>s' al res. HandleAction lb b env subject intent txID s = (s', al, Inl res) \<and>
     (rs_Allow res \<longleftrightarrow> rs_Token res \<noteq> None) \<and> (rs_LeafWritten res \<longleftrightarrow> rs_LeafErr res = None) \<and>
     (rs_Allow res \<longleftrightarrow> rs_Token res \<noteq> None \<and> rs_LeafWritten res)"
proof -
  from HandleAction_ends [of lb b env subject intent txID s] obtain s' al res where
    "HandleAction lb b env subject intent txID s = (s', al, Inl res)" by (auto simp: ends_def)
  with HandleAction_sound [of lb b env subject intent txID s] show ?thesis by (auto simp: sound_answer_def)
qed


text \<open>A cell with one agent of class F, one skill, one approved plan, an engine that allows and an envelope.\<close>

definition agent_ex :: AgentRecord where
  "agent_ex = \<lparr>ag_Class = ClassF, ag_Quota = Some \<lparr>aq_MaxVolume = 10, aq_MaxWindowS = 60\<rparr>, ag_TransportIdentity = ''spiffe''\<rparr>"

definition quota_ex :: Quota where
  "quota_ex = \<lparr>q_Resource = ''db'', q_Operation = ''read'', q_VolumeMax = 5, q_WindowS = 30\<rparr>"

definition tr_ex :: Translation where
  "tr_ex = \<lparr>tr_Action = ''read'', tr_Resource = ''db'', tr_Class = Some ClassOut, tr_ObjectSeal = None, tr_Quota = Some quota_ex,
     tr_QuorumProof = [], tr_PlanBinding = binding_ex\<rparr>"

definition env_ex :: action_env where
  "env_ex = \<lparr>ae_jti = zeros 16, ae_epoch = Inr 3, ae_translate = (\<lambda>subject intent. Inr tr_ex), ae_acquired = Granted,
     ae_caller_done = False,
     ae_ask = (\<lambda>rq. \<lparr>ex_marshalled = True, ex_built = True, ex_answer = Some (200, AllowIs (or_Action rq = ''read'')),
                    ex_caller_done = False, ex_deadline = False\<rparr>),
     ae_opa_now = of_unix 1000, ae_opa_leaf_now = of_unix 1001, ae_quorum_now = 0, ae_quorum_leaf_now = 0,
     ae_contract_now = of_unix 1020,
     ae_envelope = (\<lambda>i. \<lparr>ex_marshalled = True, ex_built = True, ex_answer = Some (200, AllowIs (ei_Issued i \<le> 100)),
                    ex_caller_done = False, ex_deadline = False\<rparr>),
     ae_iat_now = of_unix 1021, ae_leaf_now = of_unix 1022\<rparr>"

definition lb_ex :: libs where
  "lb_ex = \<lparr>lb_sha = sha_ex, lb_edv = edv_ex,
     lb_codec = icodec_ex (issue_params env_ex ''agent'' agent_ex 3 tr_ex (Some (zeros 32))), lb_sign1 = sign1_ex,
     lb_wcodec = \<lparr>wc_proof = (\<lambda>b. None), wc_statement = (\<lambda>s. None), wc_time = (\<lambda>t. None)\<rparr>\<rparr>"

definition broker_ex :: Broker where
  "broker_ex = \<lparr>br_cellID = ''cell-a'', br_salt = zeros 16, br_issuer = issuer_ex, br_registry = [(''agent'', agent_ex)],
     br_skills = Some [(''read'', \<lparr>sr_Provenance = ''p'', sr_Scope = [''db''], sr_RiskTier = TierLow\<rparr>)],
     br_envelope = Some \<lparr>he_endpoint = ''e'', he_timeout = 1\<rparr>\<rparr>"

definition state_ex :: "leaf list \<Rightarrow> int \<Rightarrow> nat \<Rightarrow> u64 \<Rightarrow> BrokerStats \<Rightarrow> broker_state" where
  "state_ex ls alive k vol st = \<lparr>bs_reg = logged ls, bs_opa = oclient_ex 0\<lparr>oc_lastAlive := alive\<rparr>, bs_quorum = None,
     bs_contract = Some (store_ex [(zeros 32, entry_ex PlanApproved (of_unix 1100) k)]),
     bs_ledger = Some \<lparr>el_max = 4, el_agg = (if vol = 0 then [] else [((''agent'', 3), vol)]), el_tripped = False\<rparr>,
     bs_stats = st\<rparr>"

lemma state_ex_fields:
  "bs_reg (state_ex ls a k v st) = logged ls" "bs_opa (state_ex ls a k v st) = oclient_ex 0\<lparr>oc_lastAlive := a\<rparr>"
  "bs_contract (state_ex ls a k v st) = Some (store_ex [(zeros 32, entry_ex PlanApproved (of_unix 1100) k)])"
  "bs_ledger (state_ex ls a k v st) = Some \<lparr>el_max = 4, el_agg = (if v = 0 then [] else [((''agent'', 3), v)]), el_tripped = False\<rparr>"
  by (simp_all add: state_ex_def)

lemma leaf_written_ex:
  assumes "0 < t" "t \<le> 2000" "cid \<noteq> []" "length cid \<le> 255"
  shows "\<exists>ls' n. AppendLeaf sha_ex (logged ls) KindDecision cid (zeros 16) record (unix_nano (of_unix t)) = (logged ls', Inr n)"
proof -
  have "unix_nano (of_unix t) \<noteq> 0" using assms by (simp add: unix_nano_def of_unix_def second_def int64_def)
  then show ?thesis using assms by (simp add: logged_def AppendLeaf_plain plain_def reg_ex_def known_kind_def)
qed

lemma admit_ex: "admit_request lb broker_ex env_ex ''agent'' ''read db'' ''spiffe'' s = (s, [], Inr (agent_ex, 3))"
  by (simp add: admit_request_def broker_ex_def agent_Resolve_def agent_ex_def env_ex_def maxIssSubActionLen_def maxIntentBytes_def)

lemma translate_ex: "translate_request lb broker_ex env_ex ''agent'' ''read db'' s =
    (s, [], Inr (tr_ex, Some \<lparr>sk_RiskTier = TierLow, sk_ScopeSize = 1\<rparr>))"
  by (simp add: translate_request_def broker_ex_def env_ex_def tr_ex_def skill_Resolve_def)

lemma ask_ex:
  "\<exists>ls' dec a. ask_policy lb_ex env_ex (opa_input env_ex ''agent'' agent_ex 3 tr_ex sk) (state_ex ls 5 0 0 st) =
     (state_ex ls' a 0 0 st, [], Inr dec)"
proof -
  let ?i = "opa_input env_ex ''agent'' agent_ex 3 tr_ex sk" and ?a = "unix_nano (of_unix 1000)"
  obtain ls' n where w: "AppendLeaf sha_ex (logged ls) KindDecision ''c'' (zeros 16)
      (decisionLeafRecord (zeros 16) True ReasonOK) (unix_nano (of_unix 1001)) = (logged ls', Inr n)"
    using leaf_written_ex [of 1001 "''c''" ls "decisionLeafRecord (zeros 16) True ReasonOK"] by auto
  have o: "outcome_of (ae_ask env_ex (request_of ?i)) = (Alive, True, ReasonOK)"
    by (simp add: outcome_of_def env_ex_def request_of_def opa_input_def tr_ex_def)
  have f: "count_fault (noteAlive (oclient_ex 0\<lparr>oc_lastAlive := 5\<rparr>) (of_unix 1000)) ReasonOK = (oclient_ex 0\<lparr>oc_lastAlive := ?a\<rparr>, [])"
    by (simp add: count_fault_def opa_reasons noteAlive_def oclient_ex_def)
  have c: "oc_cellID (noteAlive (oclient_ex 0\<lparr>oc_lastAlive := 5\<rparr>) (of_unix 1000)) = ''c''"
      "oc_salt (noteAlive (oclient_ex 0\<lparr>oc_lastAlive := 5\<rparr>) (of_unix 1000)) = zeros 16"
      "oc_adm (oclient_ex 0\<lparr>oc_lastAlive := 5\<rparr>) = None" "oi_JTI ?i = zeros 16"
    by (simp_all add: noteAlive_def oclient_ex_def opa_input_def env_ex_def)
  have t: "ae_opa_now env_ex = of_unix 1000" "ae_opa_leaf_now env_ex = of_unix 1001" "lb_sha lb_ex = sha_ex" by (simp_all add: env_ex_def lb_ex_def)
  have "\<exists>dec. Eval sha_ex (logged ls) (oclient_ex 0\<lparr>oc_lastAlive := 5\<rparr>) ?i (ae_acquired env_ex) (ae_caller_done env_ex) (ae_ask env_ex)
      (of_unix 1000) (of_unix 1001) = (logged ls', oclient_ex 0\<lparr>oc_lastAlive := ?a\<rparr>, [], dec) \<and> od_Allow dec"
    using w by (simp add: Eval_def o f c opa_finish_def)
  then show ?thesis
    by (auto simp: ask_policy_def t state_ex_fields Let_def) (simp add: state_ex_def, blast)
qed

lemma plan_ex: "\<exists>ls'. verify_plan lb_ex broker_ex env_ex ''agent'' agent_ex tr_ex dec (state_ex ls a 0 0 st) =
    (state_ex ls' a 1 0 st, [], Inr (Some (zeros 32)))"
proof -
  obtain ls' where v: "VerifyStep sha_ex (logged ls) (store_ex [(zeros 32, entry_ex PlanApproved (of_unix 1100) 0)]) ''agent'' binding_ex
      ''read'' ''db'' (of_unix 1020) = (logged ls', store_ex [(zeros 32, entry_ex PlanApproved (of_unix 1100) 1)], [], Inr (zeros 32))"
    using verify_step_ex by blast
  have t: "tr_PlanBinding tr_ex = binding_ex" "tr_Action tr_ex = ''read''" "tr_Resource tr_ex = ''db''" "ae_contract_now env_ex = of_unix 1020"
      "lb_sha lb_ex = sha_ex" "binding_ex \<noteq> []"
    by (simp_all add: tr_ex_def env_ex_def lb_ex_def binding_ex_def)
  have "verify_plan lb_ex broker_ex env_ex ''agent'' agent_ex tr_ex dec (state_ex ls a 0 0 st) =
      (state_ex ls' a 1 0 st, [], Inr (Some (zeros 32)))"
    unfolding verify_plan_def t state_ex_fields option.case v prod.case sum.case by (simp add: t(6) state_ex_def)
  then show ?thesis by blast
qed

lemma reserve_ex: "reserve_envelope lb_ex broker_ex env_ex ''agent'' agent_ex 3 tr_ex dec (state_ex ls a 1 0 st) =
    (state_ex ls a 1 5 (bst_EnvelopeEvals_update (\<lambda>n. n + 1) st), [], Inr ())"
proof -
  have r: "Reserve \<lparr>el_max = 4, el_agg = [], el_tripped = False\<rparr> ''agent'' 3 5 =
      (\<lparr>el_max = 4, el_agg = [((''agent'', 3), 5)], el_tripped = False\<rparr>, [], Inr 5)"
    by (simp add: Reserve_def el_purge_def aggregate_def put_def Let_def)
  have e: "EvalEnvelope (ae_envelope env_ex) \<lparr>ei_Subject = ''agent'', ei_Epoch = 3, ei_Resource = ''db'', ei_Operation = ''read'',
      ei_Requested = 5, ei_Issued = 5\<rparr> = (\<lparr>ed_Allow = True, ed_Reason = ''ok''\<rparr>, [])"
    by (simp add: EvalEnvelope_def env_ex_def en_finishNoTrip_def Let_def)
  show ?thesis
    by (simp add: reserve_envelope_def tr_ex_def quota_ex_def agent_ex_def broker_ex_def state_ex_def bump_def r Let_def
        e [unfolded env_ex_def] e)
qed

lemma issue_token_ex: "\<exists>s' res. issue_token lb_ex broker_ex env_ex ''agent'' agent_ex 3 tr_ex dec (Some (zeros 32)) (state_ex ls a 1 5 st) =
    (s', [], Inl res) \<and> rs_Allow res \<and> rs_Token res = Some ''tok''"
proof -
  let ?p = "issue_params env_ex ''agent'' agent_ex 3 tr_ex (Some (zeros 32))"
  have "Issue (icodec_ex ?p) sign1_ex issuer_ex ?p = Inr ''tok''"
    by (rule issue_ex) (simp_all add: issue_params_def tr_ex_def quota_ex_def bad_quota_def maxIssSubActionLen_def maxResourceLen_def
        maxQuotaOpLen_def)
  then have i: "Issue (lb_codec lb_ex) (lb_sign1 lb_ex) (br_issuer broker_ex) ?p = Inr ''tok''" by (simp add: lb_ex_def broker_ex_def)
  obtain ls' n where w: "AppendLeaf sha_ex (logged ls) KindDecision ''cell-a'' (zeros 16)
      (decisionLeafRecord (zeros 16) True ReasonOK) (unix_nano (of_unix 1022)) = (logged ls', Inr n)"
    using leaf_written_ex [of 1022 "''cell-a''" ls "decisionLeafRecord (zeros 16) True ReasonOK"] by auto
  have "ae_jti env_ex = zeros 16" "ae_leaf_now env_ex = of_unix 1022" "lb_sha lb_ex = sha_ex" "br_cellID broker_ex = ''cell-a''"
      "br_salt broker_ex = zeros 16" by (simp_all add: env_ex_def lb_ex_def broker_ex_def)
  with w show ?thesis by (simp add: issue_token_def i br_writeLeaf_def result_of_def state_ex_fields)
qed

lemma HandleAction_ex: "\<exists>s' res. HandleAction lb_ex broker_ex env_ex ''agent'' ''read db'' ''spiffe'' (state_ex [] 5 0 0 zero_stats) =
    (s', [], Inl res) \<and> rs_Allow res \<and> rs_Token res = Some ''tok''"
proof -
  define st where "st = bst_Requests_update (\<lambda>n. n + 1) zero_stats"
  have b: "bump bst_Requests_update (state_ex [] 5 0 0 zero_stats) = state_ex [] 5 0 0 st"
    by (simp add: bump_def state_ex_def st_def)
  obtain l1 dec a where 1: "ask_policy lb_ex env_ex (opa_input env_ex ''agent'' agent_ex 3 tr_ex
      (Some \<lparr>sk_RiskTier = TierLow, sk_ScopeSize = 1\<rparr>)) (state_ex [] 5 0 0 st) = (state_ex l1 a 0 0 st, [], Inr dec)"
    using ask_ex by blast
  have 2: "verify_quorum lb_ex broker_ex env_ex agent_ex 3 tr_ex dec s = (s, [], Inr ())" for s
    by (simp add: verify_quorum_def agent_ex_def)
  obtain l2 where 3: "verify_plan lb_ex broker_ex env_ex ''agent'' agent_ex tr_ex dec (state_ex l1 a 0 0 st) =
      (state_ex l2 a 1 0 st, [], Inr (Some (zeros 32)))" using plan_ex by blast
  obtain s' res where 4: "issue_token lb_ex broker_ex env_ex ''agent'' agent_ex 3 tr_ex dec (Some (zeros 32))
      (state_ex l2 a 1 5 (bst_EnvelopeEvals_update (\<lambda>n. n + 1) st)) = (s', [], Inl res)" "rs_Allow res" "rs_Token res = Some ''tok''"
    using issue_token_ex by blast
  have "HandleAction lb_ex broker_ex env_ex ''agent'' ''read db'' ''spiffe'' (state_ex [] 5 0 0 zero_stats) = (s', [], Inl res)"
    by (simp only: HandleAction_def next_step_def b admit_ex translate_ex 1 2 3 reserve_ex 4 prod.case sum.case append.simps)
  with 4 show ?thesis by blast
qed

theorem token_needs_every_authority_witness:
  "\<exists>hash. plan_authority lb_ex env_ex (bs_contract (state_ex [] 5 0 0 zero_stats)) ''agent'' tr_ex hash \<and>
     envelope_authority env_ex (bs_ledger (state_ex [] 5 0 0 zero_stats)) agent_ex ''agent'' 3 quota_ex"
proof -
  obtain s' res where h: "HandleAction lb_ex broker_ex env_ex ''agent'' ''read db'' ''spiffe'' (state_ex [] 5 0 0 zero_stats) = (s', [], Inl res)"
    "rs_Allow res" using HandleAction_ex by blast
  have facts: "agent_Resolve (br_registry broker_ex) ''agent'' = Some agent_ex" "ae_epoch env_ex = Inr 3"
      "ae_translate env_ex ''agent'' ''read db'' = Inr tr_ex" "ag_Class agent_ex = ClassF" "tr_Quota tr_ex = Some quota_ex"
    by (simp_all add: broker_ex_def agent_Resolve_def env_ex_def agent_ex_def tr_ex_def)
  from token_needs_every_authority [OF h] show ?thesis
    by (elim exE conjE) (auto simp: facts)
qed


end
