(* ===== verification/Arbiter.thy ===== *)
theory Arbiter
  imports Validator
begin

text \<open>
  The queue of human arbitration (\<open>src/src/arbiter/arbiter.go\<close>): a request refused because the
  translator is down waits for the signed decision of an operator, which is consumed once.

  The identity of a request is the hash of its subject and intent; the identity of one stay in the queue is
  a ticket of sixteen random bytes, drawn at entry, that the signed decision carries.  The hash is the
  parameter \<open>sha\<close>, the Ed25519 verification the parameter \<open>edv\<close>, the ticket drawn an argument of
  \<open>Enqueue\<close> (\<open>None\<close> when the generator fails).  Every operation is given the instant its clock
  reads and the registry it writes to.
\<close>

subsection \<open>Configuration and state\<close>

definition DefaultPresenceTTL :: int where "DefaultPresenceTTL = 60 * second"
definition MinPresenceTTL :: int where "MinPresenceTTL = 10 * second"
definition MaxPresenceTTL :: int where "MaxPresenceTTL = 600 * second"
definition DefaultEntryTTL :: int where "DefaultEntryTTL = 600 * second"
definition MinEntryTTL :: int where "MinEntryTTL = 60 * second"
definition MaxEntryTTL :: int where "MaxEntryTTL = 3600 * second"
definition DefaultMaxEntries :: int where "DefaultMaxEntries = 256"
definition MaxMaxEntries :: int where "MaxMaxEntries = 4096"
definition MinDecisionTTL :: int where "MinDecisionTTL = 30 * second"
definition HeartbeatSkew :: int where "HeartbeatSkew = 30 * second"
definition maxSubjectLen :: nat where "maxSubjectLen = 255"

lemmas arb_bounds = DefaultPresenceTTL_def MinPresenceTTL_def MaxPresenceTTL_def DefaultEntryTTL_def MinEntryTTL_def
  MaxEntryTTL_def DefaultMaxEntries_def MaxMaxEntries_def MinDecisionTTL_def HeartbeatSkew_def maxSubjectLen_def

abbreviation (input) VerdictRefuse :: nat where "VerdictRefuse \<equiv> 0"
abbreviation (input) VerdictApprove :: nat where "VerdictApprove \<equiv> 1"

datatype arb_error =
    ErrFull | ErrUnknownEntry | ErrBadSignature | ErrRoleDenied | ErrHeartbeatStale | ErrHeartbeatReplayed
  | ErrDecisionExpiry | ErrLeaf | ErrSubjectTooLong | ErrTicket

definition appendCell :: "bytes \<Rightarrow> string \<Rightarrow> bytes" where
  "appendCell msg cellID = msg @ be 2 (length cellID) @ cellID"

definition PresenceMessage :: "string \<Rightarrow> time \<Rightarrow> bytes" where
  "PresenceMessage cellID at = appendCell ''TBAH2'' cellID @ be64 (unix at)"

definition DecisionMessage :: "string \<Rightarrow> bytes \<Rightarrow> bytes \<Rightarrow> nat \<Rightarrow> time \<Rightarrow> bytes" where
  "DecisionMessage cellID i ticket v expiry =
     appendCell ''TBAV2'' cellID @ [byte v] @ i @ ticket @ be64 (unix expiry)"

definition IntentID :: "(bytes \<Rightarrow> bytes) \<Rightarrow> string \<Rightarrow> bytes \<Rightarrow> bytes" where
  "IntentID sha subject intent = sha (''tbp-degraded-intent-v1'' @ be 2 (length subject) @ subject @ intent)"

datatype arb_status = statusPending | statusApproved | statusRefused

record arb_entry =
  ae_ticket :: bytes
  ae_subject :: string
  ae_created :: time
  ae_expires :: time
  ae_status :: arb_status
  ae_by :: bytes

record Queue =
  qu_cellID :: string
  qu_salt :: bytes
  qu_keys :: "bytes list"
  qu_refuse :: "bytes list"
  qu_allKeys :: "bytes list"
  qu_presTTL :: int
  qu_entTTL :: int
  qu_max :: int
  qu_entries :: "(bytes, arb_entry) gomap"
  qu_lastHB :: time

record ArbiterOptions =
  ao_CellID :: string
  ao_Salt :: bytes
  ao_OperatorKeys :: "bytes list"
  ao_ArbiterKeys :: "bytes list option"
  ao_RefuserKeys :: "bytes list option"
  ao_PresenceTTL :: int
  ao_EntryTTL :: int
  ao_MaxEntries :: int

text \<open>A role is a set of keys of the keyring, compared by their identifiers.\<close>

definition kids :: "(bytes \<Rightarrow> bytes) \<Rightarrow> bytes list \<Rightarrow> bytes set" where
  "kids sha keys = KeyIDFromPublicKey sha ` set keys"

definition arb_role :: "(bytes \<Rightarrow> bytes) \<Rightarrow> bytes list \<Rightarrow> bytes list \<Rightarrow> bytes list option \<Rightarrow> bytes list option" where
  "arb_role sha keys dflt chosen =
     (case chosen of None \<Rightarrow> Some dflt
      | Some ks \<Rightarrow> if ks = [] then None
          else if list_all (\<lambda>k. KeyIDFromPublicKey sha k \<in> kids sha keys) ks then Some ks else None)"

definition or_zero :: "int \<Rightarrow> int \<Rightarrow> int" where
  "or_zero x d = (if x = 0 then d else x)"

definition NewQueue :: "(bytes \<Rightarrow> bytes) \<Rightarrow> ArbiterOptions \<Rightarrow> Queue option" where
  "NewQueue sha opts =
     (if ao_CellID opts = [] then None
      else if length (ao_Salt opts) < 16 then None
      else if ao_OperatorKeys opts = [] then None
      else if list_ex (\<lambda>k. length k \<noteq> PublicKeySize) (ao_OperatorKeys opts) then None
      else case arb_role sha (ao_OperatorKeys opts) (ao_OperatorKeys opts) (ao_ArbiterKeys opts) of None \<Rightarrow> None
      | Some arb \<Rightarrow>
        (case arb_role sha (ao_OperatorKeys opts) arb (ao_RefuserKeys opts) of None \<Rightarrow> None
         | Some refusers \<Rightarrow>
           if ao_RefuserKeys opts \<noteq> None \<and> list_ex (\<lambda>k. KeyIDFromPublicKey sha k \<notin> kids sha refusers) arb then None
           else let pt = or_zero (ao_PresenceTTL opts) DefaultPresenceTTL;
                    et = or_zero (ao_EntryTTL opts) DefaultEntryTTL;
                    mx = or_zero (ao_MaxEntries opts) DefaultMaxEntries
                in if pt < MinPresenceTTL \<or> pt > MaxPresenceTTL then None
                   else if et < MinEntryTTL \<or> et > MaxEntryTTL then None
                   else if mx < 1 \<or> mx > MaxMaxEntries then None
                   else Some \<lparr>qu_cellID = ao_CellID opts, qu_salt = ao_Salt opts, qu_keys = arb, qu_refuse = refusers,
                          qu_allKeys = ao_OperatorKeys opts, qu_presTTL = pt, qu_entTTL = et, qu_max = mx,
                          qu_entries = [], qu_lastHB = zero_time\<rparr>))"

subsection \<open>Records\<close>

definition actEnqueue :: nat where "actEnqueue = 1"
definition actApprove :: nat where "actApprove = 2"
definition actRefuse :: nat where "actRefuse = 3"
definition actConsume :: nat where "actConsume = 4"
definition actConsumeRefused :: nat where "actConsumeRefused = 5"

lemmas arb_acts = actEnqueue_def actApprove_def actRefuse_def actConsume_def actConsumeRefused_def

definition arb_record :: "nat \<Rightarrow> bytes \<Rightarrow> bytes \<Rightarrow> string \<Rightarrow> bytes \<Rightarrow> nat \<Rightarrow> time \<Rightarrow> bytes" where
  "arb_record act i ticket subject kid verdict expiry =
     ''TBAR2'' @ [byte act] @ i @ ticket @ lp 1 (take maxSubjectLen subject) @ kid @ [byte verdict] @
     be64 (if expiry = zero_time then 0 else unix expiry)"

definition arb_leaf ::
  "(bytes \<Rightarrow> bytes) \<Rightarrow> registry \<Rightarrow> Queue \<Rightarrow> bytes \<Rightarrow> time \<Rightarrow> registry \<times> string list \<times> bool" where
  "arb_leaf sha r q rec now =
     (case AppendLeaf sha r KindTelemetry (qu_cellID q) (qu_salt q) rec (unix_nano now) of
        (r', Inl _) \<Rightarrow> (r', [''arbiter-leaf-write-failed''], False)
      | (r', Inr _) \<Rightarrow> (r', [], True))"

text \<open>Reading a record back: strict on its length.\<close>

record arb_parsed =
  ap_act :: nat
  ap_id :: bytes
  ap_ticket :: bytes
  ap_subject :: string
  ap_kid :: bytes
  ap_verdict :: nat
  ap_expiry :: time

definition parseLeafRecord :: "bytes \<Rightarrow> arb_parsed option" where
  "parseLeafRecord rec =
     (if length rec < 55 then None
      else let sl = of_char (rec ! 54) :: nat
           in if length rec \<noteq> 55 + sl + 16 + 1 + 8 then None
              else let ex = unbe (drop (55 + sl + 17) rec)
                   in Some \<lparr>ap_act = of_char (rec ! 5), ap_id = take 32 (drop 6 rec), ap_ticket = take 16 (drop 38 rec),
                        ap_subject = take sl (drop 55 rec), ap_kid = take 16 (drop (55 + sl) rec),
                        ap_verdict = of_char (rec ! (55 + sl + 16)),
                        ap_expiry = (if ex = 0 then zero_time else of_unix (wrap64 (int ex)))\<rparr>)"

subsection \<open>Operations\<close>

type_synonym 'a arb_result = "registry \<times> Queue \<times> string list \<times> (arb_error + 'a)"

fun signer_kid :: "(bytes \<Rightarrow> bytes) \<Rightarrow> (bytes \<Rightarrow> bytes \<Rightarrow> bytes \<Rightarrow> bool) \<Rightarrow> bytes list \<Rightarrow> bytes \<Rightarrow> bytes \<Rightarrow> bytes option" where
  "signer_kid sha edv [] msg sig = None"
| "signer_kid sha edv (pub # keys) msg sig =
     (if edv pub msg sig then Some (KeyIDFromPublicKey sha pub) else signer_kid sha edv keys msg sig)"

definition kidOfIn ::
  "(bytes \<Rightarrow> bytes) \<Rightarrow> (bytes \<Rightarrow> bytes \<Rightarrow> bytes \<Rightarrow> bool) \<Rightarrow> Queue \<Rightarrow> bytes list \<Rightarrow> bytes \<Rightarrow> bytes \<Rightarrow> arb_error + bytes" where
  "kidOfIn sha edv q keys msg sig =
     (case signer_kid sha edv keys msg sig of Some kid \<Rightarrow> Inr kid
      | None \<Rightarrow> (case signer_kid sha edv (qu_allKeys q) msg sig of Some _ \<Rightarrow> Inl ErrRoleDenied | None \<Rightarrow> Inl ErrBadSignature))"

definition Heartbeat ::
  "(bytes \<Rightarrow> bytes) \<Rightarrow> (bytes \<Rightarrow> bytes \<Rightarrow> bytes \<Rightarrow> bool) \<Rightarrow> Queue \<Rightarrow> time \<Rightarrow> bytes \<Rightarrow> time \<Rightarrow> Queue \<times> arb_error option" where
  "Heartbeat sha edv q at sig now =
     (if time_sub now at > HeartbeatSkew \<or> time_sub now at < - HeartbeatSkew then (q, Some ErrHeartbeatStale)
      else case kidOfIn sha edv q (qu_keys q) (PresenceMessage (qu_cellID q) at) sig of
        Inl e \<Rightarrow> (q, Some e)
      | Inr _ \<Rightarrow> if \<not> at > qu_lastHB q then (q, Some ErrHeartbeatReplayed) else (q\<lparr>qu_lastHB := at\<rparr>, None))"

definition arb_Reachable :: "Queue \<Rightarrow> time \<Rightarrow> bool" where
  "arb_Reachable q now \<longleftrightarrow> qu_lastHB q \<noteq> zero_time \<and> time_sub now (qu_lastHB q) \<le> qu_presTTL q"

definition arb_prune :: "Queue \<Rightarrow> time \<Rightarrow> Queue" where
  "arb_prune q now = q\<lparr>qu_entries := filter (\<lambda>(i, e). now < ae_expires e) (qu_entries q)\<rparr>"

definition Enqueue ::
  "(bytes \<Rightarrow> bytes) \<Rightarrow> registry \<Rightarrow> Queue \<Rightarrow> string \<Rightarrow> bytes \<Rightarrow> bytes option \<Rightarrow> time \<Rightarrow> unit arb_result" where
  "Enqueue sha r q0 systemID payload ticket now =
     (if length systemID > maxSubjectLen then (r, q0, [], Inl ErrSubjectTooLong)
      else let i = IntentID sha systemID payload; q = arb_prune q0 now
      in if (case map_of (qu_entries q) i of None \<Rightarrow> False | Some e \<Rightarrow> ae_status e = statusPending) then (r, q, [], Inr ())
         else if int (length (qu_entries q)) \<ge> qu_max q then (r, q, [''arbiter-queue-full''], Inl ErrFull)
         else case ticket of None \<Rightarrow> (r, q, [], Inl ErrTicket)
         | Some t \<Rightarrow>
           let expires = now + qu_entTTL q
           in (case arb_leaf sha r q (arb_record actEnqueue i t systemID (zeros 16) 0 expires) now of
                 (r', al, False) \<Rightarrow> (r', q, al, Inl ErrLeaf)
               | (r', al, True) \<Rightarrow>
                   (r', q\<lparr>qu_entries := put i \<lparr>ae_ticket = t, ae_subject = systemID, ae_created = now, ae_expires = expires,
                          ae_status = statusPending, ae_by = zeros 16\<rparr> (qu_entries q)\<rparr>, al, Inr ())))"

definition Decide ::
  "(bytes \<Rightarrow> bytes) \<Rightarrow> (bytes \<Rightarrow> bytes \<Rightarrow> bytes \<Rightarrow> bool) \<Rightarrow> registry \<Rightarrow> Queue \<Rightarrow> bytes \<Rightarrow> nat \<Rightarrow> time \<Rightarrow> bytes \<Rightarrow> time
     \<Rightarrow> unit arb_result" where
  "Decide sha edv r q0 i v expiry sig now =
     (if v \<noteq> VerdictApprove \<and> v \<noteq> VerdictRefuse then (r, q0, [], Inl ErrUnknownEntry)
      else let q = arb_prune q0 now
      in case map_of (qu_entries q) i of None \<Rightarrow> (r, q, [], Inl ErrUnknownEntry)
         | Some e \<Rightarrow>
           if ae_status e \<noteq> statusPending then (r, q, [], Inl ErrUnknownEntry)
           else if time_sub expiry now < MinDecisionTTL \<or> time_sub expiry now > qu_entTTL q then (r, q, [], Inl ErrDecisionExpiry)
           else (case kidOfIn sha edv q (if v = VerdictRefuse then qu_refuse q else qu_keys q)
                        (DecisionMessage (qu_cellID q) i (ae_ticket e) v expiry) sig of
              Inl err \<Rightarrow> (r, q, [], Inl err)
            | Inr kid \<Rightarrow>
              (case arb_leaf sha r q (arb_record (if v = VerdictApprove then actApprove else actRefuse) i (ae_ticket e)
                      (ae_subject e) kid v expiry) now of
                 (r', al, False) \<Rightarrow> (r', q, al, Inl ErrLeaf)
               | (r', al, True) \<Rightarrow>
                   (r', q\<lparr>qu_entries := put i (e\<lparr>ae_status := if v = VerdictRefuse then statusRefused else statusApproved,
                          ae_expires := expiry, ae_by := kid\<rparr>) (qu_entries q)\<rparr>, al, Inr ()))))"

datatype Outcome = OutcomeNone | OutcomePending | OutcomeApproved | OutcomeRefused

definition Take ::
  "(bytes \<Rightarrow> bytes) \<Rightarrow> registry \<Rightarrow> Queue \<Rightarrow> string \<Rightarrow> bytes \<Rightarrow> time \<Rightarrow> Outcome arb_result" where
  "Take sha r q0 subject intent now =
     (let i = IntentID sha subject intent; q = arb_prune q0 now
      in case map_of (qu_entries q) i of None \<Rightarrow> (r, q, [], Inr OutcomeNone)
         | Some e \<Rightarrow>
           if ae_status e = statusPending then (r, q, [], Inr OutcomePending)
           else let approved = (ae_status e = statusApproved)
           in (case arb_leaf sha r q (arb_record (if approved then actConsume else actConsumeRefused) i (ae_ticket e)
                      (ae_subject e) (ae_by e) 0 (ae_expires e)) now of
                 (r', al, False) \<Rightarrow> (r', q, al, Inl ErrLeaf)
               | (r', al, True) \<Rightarrow>
                   (r', q\<lparr>qu_entries := del i (qu_entries q)\<rparr>, al, Inr (if approved then OutcomeApproved else OutcomeRefused))))"

record Entry =
  en_ID :: bytes
  en_Ticket :: bytes
  en_Subject :: string
  en_Status :: string
  en_CreatedAt :: time
  en_ExpiresAt :: time

definition arb_Snapshot :: "Queue \<Rightarrow> time \<Rightarrow> Queue \<times> Entry list" where
  "arb_Snapshot q0 now =
     (let q = arb_prune q0 now
      in (q, sort_key (\<lambda>e. (en_CreatedAt e, en_ID e))
            (map (\<lambda>(i, e). \<lparr>en_ID = i, en_Ticket = ae_ticket e, en_Subject = ae_subject e,
                   en_Status = (case ae_status e of statusPending \<Rightarrow> ''pending'' | statusApproved \<Rightarrow> ''approved''
                                | statusRefused \<Rightarrow> ''refused''),
                   en_CreatedAt = ae_created e, en_ExpiresAt = ae_expires e\<rparr>) (qu_entries q))))"

subsection \<open>Restoration from the journal\<close>

record RestoreStats =
  rst_Pending :: nat
  rst_Approved :: nat
  rst_Refused :: nat
  rst_Skipped :: nat

text \<open>A record of the journal that concerns this queue, unaltered and readable; the others are passed over
  (\<open>None\<close>) or counted as skipped.\<close>

definition own_record :: "Queue \<Rightarrow> leaf \<times> bytes \<times> bytes \<Rightarrow> bool" where
  "own_record q x = (case x of (l, salt, rec) \<Rightarrow> Kind l = KindTelemetry \<and> CellID l = qu_cellID q \<and> prefix ''TBAR2'' rec)"

definition readable :: "(bytes \<Rightarrow> bytes) \<Rightarrow> Queue \<Rightarrow> leaf \<times> bytes \<times> bytes \<Rightarrow> arb_parsed option" where
  "readable sha q x = (case x of (l, salt, rec) \<Rightarrow>
     if salt \<noteq> qu_salt q \<or> HashPayload sha salt rec \<noteq> PayloadHash l then None else parseLeafRecord rec)"

definition is_pending :: "Queue \<Rightarrow> bytes \<Rightarrow> bytes \<Rightarrow> bool" where
  "is_pending q i t = (case map_of (qu_entries q) i of None \<Rightarrow> False | Some e \<Rightarrow> ae_status e = statusPending \<and> ae_ticket e = t)"

definition decided :: "Queue \<Rightarrow> arb_parsed \<Rightarrow> arb_status \<Rightarrow> Queue" where
  "decided q p st = q\<lparr>qu_entries := put (ap_id p) ((the (map_of (qu_entries q) (ap_id p)))
     \<lparr>ae_status := st, ae_expires := ap_expiry p, ae_by := ap_kid p\<rparr>) (qu_entries q)\<rparr>"

text \<open>What one record does to the queue, and whether it is skipped.\<close>

definition replay :: "bool \<Rightarrow> Queue \<Rightarrow> time \<Rightarrow> arb_parsed \<Rightarrow> Queue \<times> bool" where
  "replay in_log q ts p =
     (if ap_act p = actEnqueue then
        if ap_expiry p = zero_time \<or> int (length (qu_entries q)) \<ge> qu_max q then (q, True)
        else if map_of (qu_entries q) (ap_id p) \<noteq> None then (q, False)
        else (q\<lparr>qu_entries := put (ap_id p) \<lparr>ae_ticket = ap_ticket p, ae_subject = ap_subject p, ae_created = ts,
                 ae_expires = ap_expiry p, ae_status = statusPending, ae_by = zeros 16\<rparr> (qu_entries q)\<rparr>, False)
      else if ap_act p = actApprove then
        if is_pending q (ap_id p) (ap_ticket p) \<and> in_log then (decided q p statusApproved, False) else (q, True)
      else if ap_act p = actRefuse then
        if is_pending q (ap_id p) (ap_ticket p) then (decided q p statusRefused, False) else (q, True)
      else if ap_act p = actConsume \<or> ap_act p = actConsumeRefused then
        (case map_of (qu_entries q) (ap_id p) of None \<Rightarrow> (q, False)
         | Some e \<Rightarrow> if ae_ticket e = ap_ticket p then (q\<lparr>qu_entries := del (ap_id p) (qu_entries q)\<rparr>, False) else (q, False))
      else (q, True))"

primrec replay_all ::
  "(bytes \<Rightarrow> bytes) \<Rightarrow> (leaf \<times> bytes \<times> bytes \<Rightarrow> bool) option \<Rightarrow> Queue \<Rightarrow> journal \<Rightarrow> Queue \<times> nat" where
  "replay_all sha inLog q [] = (q, 0)"
| "replay_all sha inLog q (x # xs) =
     (if \<not> own_record q x then replay_all sha inLog q xs
      else case readable sha q x of
        None \<Rightarrow> (case replay_all sha inLog q xs of (q', n) \<Rightarrow> (q', Suc n))
      | Some p \<Rightarrow>
          (case replay (case inLog of None \<Rightarrow> False | Some f \<Rightarrow> f x) q (Timestamp (fst x)) p of
             (q1, skipped) \<Rightarrow> (case replay_all sha inLog q1 xs of (q', n) \<Rightarrow> (q', if skipped then Suc n else n))))"

definition count_status :: "Queue \<Rightarrow> arb_status \<Rightarrow> nat" where
  "count_status q st = length (filter (\<lambda>(i, e). ae_status e = st) (qu_entries q))"

definition arb_Restore ::
  "(bytes \<Rightarrow> bytes) \<Rightarrow> (leaf \<times> bytes \<times> bytes \<Rightarrow> bool) option \<Rightarrow> Queue \<Rightarrow> journal \<Rightarrow> time \<Rightarrow> Queue \<times> RestoreStats" where
  "arb_Restore sha inLog q0 recs now =
     (case replay_all sha inLog q0 recs of (q1, n) \<Rightarrow>
        let q = arb_prune q1 now
        in (q, \<lparr>rst_Pending = count_status q statusPending, rst_Approved = count_status q statusApproved,
               rst_Refused = count_status q statusRefused, rst_Skipped = n\<rparr>))"

subsection \<open>Records are read back\<close>

text \<open>The sizes of the Go arrays, and a date a record can carry: a whole second that is not the zero
  instant.\<close>

definition arb_typed :: "nat \<Rightarrow> bytes \<Rightarrow> bytes \<Rightarrow> bytes \<Rightarrow> nat \<Rightarrow> bool" where
  "arb_typed act i t kid v \<longleftrightarrow> act < 256 \<and> length i = 32 \<and> length t = 16 \<and> length kid = 16 \<and> v < 256"

text \<open>A field at a known offset.\<close>

lemma field_at: "s = xs @ y # ys \<Longrightarrow> length xs = n \<Longrightarrow> s ! n = y"
  by auto

lemma fields_at: "s = xs @ ys @ zs \<Longrightarrow> length xs = n \<Longrightarrow> length ys = k \<Longrightarrow> take k (drop n s) = ys"
  by auto

lemma rest_at: "s = xs @ ys \<Longrightarrow> length xs = n \<Longrightarrow> drop n s = ys"
  by auto

lemma parse_arb_record:
  assumes ty: "arb_typed act i t kid v" and len: "length subject \<le> maxSubjectLen"
  shows "parseLeafRecord (arb_record act i t subject kid v expiry) =
    Some \<lparr>ap_act = act, ap_id = i, ap_ticket = t, ap_subject = subject, ap_kid = kid, ap_verdict = v,
      ap_expiry = (let ex = u64_of (if expiry = zero_time then 0 else unix expiry)
                   in if ex = 0 then zero_time else of_unix (wrap64 (int ex)))\<rparr>"
proof -
  define x where "x = be64 (if expiry = zero_time then 0 else unix expiry)"
  define sl where "sl = length subject"
  have l: "length i = 32" "length t = 16" "length kid = 16" "act < 256" "v < 256" "sl < 256" "length x = 8"
    using ty len by (simp_all add: arb_typed_def sl_def maxSubjectLen_def x_def)
  define rec where "rec = arb_record act i t subject kid v expiry"
  have rec: "rec = ''TBAR2'' @ byte act # i @ t @ byte sl # subject @ kid @ byte v # x"
    using len by (simp add: rec_def arb_record_def lp_def sl_def x_def)
  have n: "length rec = 55 + sl + 16 + 1 + 8" using l by (simp add: rec sl_def)
  have sl54: "of_char (rec ! 54) = sl"
    using field_at [of rec "''TBAR2'' @ byte act # i @ t" "byte sl"] l by (simp add: rec nat_of_byte)
  have act5: "of_char (rec ! 5) = act"
    using field_at [of rec "''TBAR2''" "byte act"] l by (simp add: rec nat_of_byte)
  have v71: "of_char (rec ! (55 + sl + 16)) = v"
    using field_at [of rec "''TBAR2'' @ byte act # i @ t @ byte sl # subject @ kid" "byte v" x "55 + sl + 16"] l
    by (simp add: rec nat_of_byte sl_def)
  have parts: "take 32 (drop 6 rec) = i" "take 16 (drop 38 rec) = t" "take sl (drop 55 rec) = subject"
    using l by (simp_all add: rec sl_def)
  have kid: "take 16 (drop (55 + sl) rec) = kid"
    by (rule fields_at [of _ "''TBAR2'' @ byte act # i @ t @ byte sl # subject"]) (use l in \<open>simp_all add: rec sl_def\<close>)
  have x: "drop (55 + sl + 17) rec = x"
    by (rule rest_at [of _ "''TBAR2'' @ byte act # i @ t @ byte sl # subject @ kid @ [byte v]"]) (use l in \<open>simp_all add: rec sl_def\<close>)
  have "parseLeafRecord rec = Some \<lparr>ap_act = act, ap_id = i, ap_ticket = t, ap_subject = subject, ap_kid = kid, ap_verdict = v,
      ap_expiry = (if unbe x = 0 then zero_time else of_unix (wrap64 (int (unbe x))))\<rparr>"
    unfolding parseLeafRecord_def Let_def sl54 act5 v71 parts kid x using n by simp
  then show ?thesis by (simp add: rec_def x_def unbe_be64 Let_def)
qed

subsection \<open>Histories of a cell\<close>

text \<open>What happens to the queue of one cell: the calls of operators and agents, the leaves other
  components write to the same registry, and restarts, at which a new queue is restored from the journal.\<close>

datatype arb_op =
    AHeartbeat time bytes
  | AEnqueue string bytes "bytes option"
  | ADecide bytes nat time bytes
  | ATake string bytes
  | ASnapshot
  | AWrite nat string bytes bytes int
  | ARestart "(leaf \<times> bytes \<times> bytes \<Rightarrow> bool) option"

datatype arb_event = Drawn bytes bytes | Signed bytes bytes time bytes | Admitted bytes bytes time

definition ticket_of :: "Queue \<Rightarrow> bytes \<Rightarrow> bytes" where
  "ticket_of q i = (case map_of (qu_entries q) i of None \<Rightarrow> [] | Some e \<Rightarrow> ae_ticket e)"

definition arb_exec ::
  "(bytes \<Rightarrow> bytes) \<Rightarrow> (bytes \<Rightarrow> bytes \<Rightarrow> bytes \<Rightarrow> bool) \<Rightarrow> Queue \<Rightarrow> time \<times> arb_op \<Rightarrow> registry \<times> Queue
     \<Rightarrow> (registry \<times> Queue) \<times> arb_event list" where
  "arb_exec sha edv q0 x s = (case (x, s) of ((now, op), (r, q)) \<Rightarrow>
     (case op of
        AHeartbeat at sig \<Rightarrow> ((r, fst (Heartbeat sha edv q at sig now)), [])
      | AEnqueue sys payload t \<Rightarrow>
          (case Enqueue sha r q sys payload t now of (r', q', _, _) \<Rightarrow>
             ((r', q'), case t of None \<Rightarrow> [] | Some t' \<Rightarrow> [Drawn (IntentID sha sys payload) t']))
      | ADecide i v expiry sig \<Rightarrow>
          (case Decide sha edv r q i v expiry sig now of (r', q', _, res) \<Rightarrow>
             ((r', q'), if v = VerdictApprove \<and> (res = Inr () \<or> res = Inl ErrLeaf)
                        then [Signed i (ticket_of (arb_prune q now) i) expiry sig] else []))
      | ATake subject intent \<Rightarrow>
          (case Take sha r q subject intent now of (r', q', _, res) \<Rightarrow>
             ((r', q'), if res = Inr OutcomeApproved
                        then [Admitted (IntentID sha subject intent) (ticket_of (arb_prune q now) (IntentID sha subject intent)) now]
                        else []))
      | ASnapshot \<Rightarrow> ((r, fst (arb_Snapshot q now)), [])
      | AWrite kind cid salt rec ts \<Rightarrow> ((fst (AppendLeaf sha r kind cid salt rec ts), q), [])
      | ARestart inLog \<Rightarrow> ((r, fst (arb_Restore sha inLog q0 (case rg_journal r of None \<Rightarrow> [] | Some j \<Rightarrow> j) now)), [])))"

primrec arb_run ::
  "(bytes \<Rightarrow> bytes) \<Rightarrow> (bytes \<Rightarrow> bytes \<Rightarrow> bytes \<Rightarrow> bool) \<Rightarrow> Queue \<Rightarrow> registry \<times> Queue \<Rightarrow> (time \<times> arb_op) list
     \<Rightarrow> arb_event list \<times> registry \<times> Queue" where
  "arb_run sha edv q0 s [] = ([], s)"
| "arb_run sha edv q0 s (x # xs) =
     (case arb_exec sha edv q0 x s of (s1, evs) \<Rightarrow> (case arb_run sha edv q0 s1 xs of (evs', s2) \<Rightarrow> (evs @ evs', s2)))"

text \<open>The sizes the Go types impose, dates a record can carry, and other writers that leave the records of
  the queue to the queue.\<close>

fun arb_op_ok :: "arb_op \<Rightarrow> bool" where
  "arb_op_ok (AEnqueue sys payload (Some t)) \<longleftrightarrow> length t = 16"
| "arb_op_ok (ADecide i v expiry sig) \<longleftrightarrow> 0 < unix expiry \<and> int64 (unix expiry)"
| "arb_op_ok (AWrite kind cid salt rec ts) \<longleftrightarrow> \<not> prefix ''TBAR2'' rec"
| "arb_op_ok _ \<longleftrightarrow> True"

fun op_ticket :: "arb_op \<Rightarrow> bytes list" where
  "op_ticket (AEnqueue sys payload (Some t)) = [t]"
| "op_ticket _ = []"

definition drawn :: "(time \<times> arb_op) list \<Rightarrow> bytes list" where
  "drawn ops = concat (map (\<lambda>(now, op). op_ticket op) ops)"

fun admitted :: "arb_event list \<Rightarrow> bytes list" where
  "admitted [] = []"
| "admitted (Admitted i t now # es) = t # admitted es"
| "admitted (_ # es) = admitted es"

lemma admitted_append [simp]: "admitted (es @ fs) = admitted es @ admitted fs"
  by (induction es rule: admitted.induct) auto

subsection \<open>What a history keeps\<close>

text \<open>An entry under an identity: its ticket was drawn for it and never admitted, and if it is approved, a
  decision that outlives it was signed for that ticket.\<close>

definition entry_ok :: "arb_event list \<Rightarrow> bytes \<Rightarrow> arb_entry \<Rightarrow> bool" where
  "entry_ok es i e \<longleftrightarrow> length i = 32 \<and> length (ae_ticket e) = 16 \<and> length (ae_subject e) \<le> maxSubjectLen \<and> length (ae_by e) = 16 \<and>
     Drawn i (ae_ticket e) \<in> set es \<and> ae_ticket e \<notin> set (admitted es) \<and>
     (ae_status e = statusApproved \<longrightarrow> (\<exists>expiry sig. Signed i (ae_ticket e) expiry sig \<in> set es \<and> ae_expires e \<le> expiry))"

definition entries_ok :: "arb_event list \<Rightarrow> Queue \<Rightarrow> bool" where
  "entries_ok es q \<longleftrightarrow> wf_map (qu_entries q) \<and> (\<forall>i e. map_of (qu_entries q) i = Some e \<longrightarrow> entry_ok es i e)"

text \<open>The configuration does not change.\<close>

definition same_queue :: "Queue \<Rightarrow> Queue \<Rightarrow> bool" where
  "same_queue q q' \<longleftrightarrow> qu_cellID q' = qu_cellID q \<and> qu_salt q' = qu_salt q \<and> qu_keys q' = qu_keys q \<and> qu_refuse q' = qu_refuse q \<and>
     qu_allKeys q' = qu_allKeys q \<and> qu_entTTL q' = qu_entTTL q \<and> qu_max q' = qu_max q \<and> qu_presTTL q' = qu_presTTL q"

lemma same_queue_refl [simp]: "same_queue q q"
  by (simp add: same_queue_def)

lemma same_queue_trans: "same_queue p q \<Longrightarrow> same_queue q s \<Longrightarrow> same_queue p s"
  by (simp add: same_queue_def)

lemma same_queue_entries [simp]: "same_queue p (q\<lparr>qu_entries := m\<rparr>) \<longleftrightarrow> same_queue p q"
  by (simp add: same_queue_def)

lemma prune_same [simp]: "same_queue p (arb_prune q now) \<longleftrightarrow> same_queue p q"
  by (simp add: arb_prune_def)

lemma prune_fields [simp]: "qu_cellID (arb_prune q now) = qu_cellID q" "qu_salt (arb_prune q now) = qu_salt q"
  "qu_keys (arb_prune q now) = qu_keys q" "qu_max (arb_prune q now) = qu_max q"
  by (simp_all add: arb_prune_def)

lemma prune_lookup:
  "wf_map (qu_entries q) \<Longrightarrow> map_of (qu_entries (arb_prune q now)) i = Some e \<longleftrightarrow> map_of (qu_entries q) i = Some e \<and> now < ae_expires e"
  by (auto simp: arb_prune_def lookup_filter split: option.splits)

lemma entries_ok_prune: "entries_ok es q \<Longrightarrow> entries_ok es (arb_prune q now)"
  by (simp add: entries_ok_def prune_lookup) (simp add: arb_prune_def)

lemma entries_ok_put: "entries_ok es q \<Longrightarrow> entry_ok es i e \<Longrightarrow> entries_ok es (q\<lparr>qu_entries := put i e (qu_entries q)\<rparr>)"
  by (simp add: entries_ok_def)

lemma entries_ok_del: "entries_ok es q \<Longrightarrow> entries_ok es (q\<lparr>qu_entries := del i (qu_entries q)\<rparr>)"
  by (simp add: entries_ok_def)

lemma entries_okD: "entries_ok es q \<Longrightarrow> map_of (qu_entries q) i = Some e \<Longrightarrow> entry_ok es i e"
  by (simp add: entries_ok_def)

text \<open>More events without admissions keep everything; so does the admission of a ticket no entry holds.\<close>

lemma entry_ok_mono: "entry_ok es i e \<Longrightarrow> set (admitted fs) \<inter> {ae_ticket e} = {} \<Longrightarrow> entry_ok (es @ fs) i e"
  by (auto simp: entry_ok_def)

lemma entries_ok_mono:
  "entries_ok es q \<Longrightarrow> (\<And>i e. map_of (qu_entries q) i = Some e \<Longrightarrow> ae_ticket e \<notin> set (admitted fs)) \<Longrightarrow> entries_ok (es @ fs) q"
  unfolding entries_ok_def by (auto intro!: entry_ok_mono)

subsection \<open>The queue a restart would restore\<close>

definition restored :: "(bytes \<Rightarrow> bytes) \<Rightarrow> Queue \<Rightarrow> journal \<Rightarrow> (leaf \<times> bytes \<times> bytes \<Rightarrow> bool) option \<Rightarrow> Queue" where
  "restored sha q0 j inLog = fst (replay_all sha inLog q0 j)"

lemma replay_same: "same_queue p (fst (replay b q ts r)) \<longleftrightarrow> same_queue p q"
  by (auto simp: replay_def decided_def split: option.splits)

definition replay_one :: "(bytes \<Rightarrow> bytes) \<Rightarrow> (leaf \<times> bytes \<times> bytes \<Rightarrow> bool) option \<Rightarrow> Queue \<Rightarrow> leaf \<times> bytes \<times> bytes \<Rightarrow> Queue" where
  "replay_one sha inLog q x =
     (if \<not> own_record q x then q else case readable sha q x of None \<Rightarrow> q
      | Some p \<Rightarrow> fst (replay (case inLog of None \<Rightarrow> False | Some f \<Rightarrow> f x) q (Timestamp (fst x)) p))"

lemma restored_foldl: "restored sha q0 j inLog = foldl (replay_one sha inLog) q0 j"
  unfolding restored_def
proof (induction j arbitrary: q0)
  case (Cons x xs)
  have "fst (replay_all sha inLog q0 (x # xs)) = fst (replay_all sha inLog (replay_one sha inLog q0 x) xs)"
    by (cases "readable sha q0 x"; cases "own_record q0 x") (simp_all add: replay_one_def case_prod_beta)
  then show ?case by (simp only: Cons.IH foldl.simps)
qed simp

lemma replay_one_same: "same_queue p (replay_one sha inLog q x) \<longleftrightarrow> same_queue p q"
  by (simp add: replay_one_def replay_same split: option.split)

lemma restored_same [simp]: "same_queue p (restored sha q0 j inLog) \<longleftrightarrow> same_queue p q0"
  unfolding restored_foldl by (induction j arbitrary: q0) (simp_all add: replay_one_same)

lemma restored_Nil [simp]: "restored sha q0 [] inLog = q0"
  by (simp add: restored_foldl)

lemma restored_snoc: "restored sha q0 (j @ [x]) inLog = replay_one sha inLog (restored sha q0 j inLog) x"
  by (simp add: restored_foldl)

lemma own_record_same: "same_queue q0 q \<Longrightarrow> own_record q x \<longleftrightarrow> own_record q0 x"
  by (cases x) (simp add: own_record_def same_queue_def)

lemma readable_same: "same_queue q0 q \<Longrightarrow> readable sha q x = readable sha q0 x"
  by (cases x) (simp add: readable_def same_queue_def)

text \<open>A record not addressed to the queue changes nothing; one the queue wrote is replayed.\<close>

lemma restored_foreign: "\<not> prefix ''TBAR2'' rec \<Longrightarrow> restored sha q0 (j @ [(l, salt, rec)]) inLog = restored sha q0 j inLog"
  by (simp add: restored_snoc replay_one_def own_record_def)

lemma restored_own:
  assumes "arb_typed act i t kid v" "length subject \<le> maxSubjectLen" "cid = qu_cellID q0" "salt = qu_salt q0"
  shows "\<exists>b p. restored sha q0 (j @ [(sealed_leaf sha KindTelemetry cid salt (arb_record act i t subject kid v expiry) ts, salt,
      arb_record act i t subject kid v expiry)]) inLog = fst (replay b (restored sha q0 j inLog) ts p) \<and>
    ap_act p = act \<and> ap_id p = i \<and> ap_ticket p = t \<and> ap_subject p = subject \<and> ap_kid p = kid \<and>
    (0 < unix expiry \<and> int64 (unix expiry) \<longrightarrow> ap_expiry p = of_unix (unix expiry))"
proof -
  let ?rec = "arb_record act i t subject kid v expiry"
  let ?x = "(sealed_leaf sha KindTelemetry cid salt ?rec ts, salt, ?rec)"
  obtain p where p: "parseLeafRecord ?rec = Some p" "ap_act p = act" "ap_id p = i" "ap_ticket p = t" "ap_subject p = subject" "ap_kid p = kid"
    and ex: "ap_expiry p = (let ex = u64_of (if expiry = zero_time then 0 else unix expiry)
                   in if ex = 0 then zero_time else of_unix (wrap64 (int ex)))"
    using parse_arb_record [OF assms(1,2)] by simp
  let ?q = "restored sha q0 j inLog"
  have same: "same_queue q0 ?q" by simp
  have "own_record ?q ?x" unfolding own_record_same [OF same] using assms by (simp add: own_record_def sealed_leaf_def arb_record_def)
  moreover have "readable sha ?q ?x = Some p" unfolding readable_same [OF same] using p assms by (simp add: readable_def sealed_leaf_def)
  moreover have "Timestamp (fst ?x) = ts" by (simp add: sealed_leaf_def)
  ultimately have "restored sha q0 (j @ [?x]) inLog =
      fst (replay (case inLog of None \<Rightarrow> False | Some f \<Rightarrow> f ?x) ?q ts p)"
    by (simp add: restored_snoc replay_one_def)
  moreover have "ap_expiry p = of_unix (unix expiry)" if "0 < unix expiry" "int64 (unix expiry)"
  proof -
    have "expiry \<noteq> zero_time" using that by (auto simp: zero_time_def unix_def second_def)
    moreover have "u64_of (unix expiry) \<noteq> 0" using that by (simp add: u64_of_def int64_def)
    ultimately show ?thesis using that by (simp add: ex wrap64_u64_of)
  qed
  ultimately show ?thesis using p by blast
qed

text \<open>Replaying keeps the entries sound when the record is one a live queue wrote; replaying a consumption
  removes the ticket.\<close>

definition record_ok :: "arb_event list \<Rightarrow> arb_parsed \<Rightarrow> bool" where
  "record_ok es p \<longleftrightarrow> length (ap_kid p) = 16 \<and>
     (ap_act p = actEnqueue \<longrightarrow> length (ap_id p) = 32 \<and> length (ap_ticket p) = 16 \<and> length (ap_subject p) \<le> maxSubjectLen \<and>
        Drawn (ap_id p) (ap_ticket p) \<in> set es \<and> ap_ticket p \<notin> set (admitted es)) \<and>
     (ap_act p = actApprove \<longrightarrow> (\<exists>expiry sig. Signed (ap_id p) (ap_ticket p) expiry sig \<in> set es \<and> ap_expiry p \<le> expiry))"

lemma decided_ok:
  assumes "entries_ok es q" "is_pending q (ap_id p) (ap_ticket p)" "length (ap_kid p) = 16"
    "st = statusApproved \<longrightarrow> (\<exists>expiry sig. Signed (ap_id p) (ap_ticket p) expiry sig \<in> set es \<and> ap_expiry p \<le> expiry)"
  shows "entries_ok es (decided q p st)"
proof -
  from assms(2) obtain e where e: "map_of (qu_entries q) (ap_id p) = Some e" "ae_ticket e = ap_ticket p"
    by (auto simp: is_pending_def split: option.splits)
  from entries_okD [OF assms(1) e(1)] e(2) assms(3,4)
  have "entry_ok es (ap_id p) (e\<lparr>ae_status := st, ae_expires := ap_expiry p, ae_by := ap_kid p\<rparr>)" by (simp add: entry_ok_def)
  from entries_ok_put [OF assms(1) this] e(1) show ?thesis by (simp add: decided_def)
qed

lemma replay_ok:
  assumes "entries_ok es q" "record_ok es p"
  shows "entries_ok es (fst (replay b q ts p))"
proof -
  have new: "entries_ok es (q\<lparr>qu_entries := put (ap_id p) \<lparr>ae_ticket = ap_ticket p, ae_subject = ap_subject p, ae_created = ts,
      ae_expires = ap_expiry p, ae_status = statusPending, ae_by = zeros 16\<rparr> (qu_entries q)\<rparr>)" if "ap_act p = actEnqueue"
    by (rule entries_ok_put [OF assms(1)]) (use assms(2) that in \<open>simp add: record_ok_def entry_ok_def\<close>)
  have dec: "entries_ok es (decided q p st)" if "is_pending q (ap_id p) (ap_ticket p)" "ap_act p = actApprove \<or> st = statusRefused" for st
    by (rule decided_ok [OF assms(1) that(1)]) (use assms(2) that(2) in \<open>auto simp: record_ok_def\<close>)
  show ?thesis
    using assms(1) new dec entries_ok_del [OF assms(1)] by (simp add: replay_def split: option.splits)
qed

lemma replay_consumes:
  assumes "entries_ok es q" "ap_act p = actConsume" "\<And>j. Drawn j (ap_ticket p) \<in> set es \<Longrightarrow> j = ap_id p"
    and "map_of (qu_entries (fst (replay b q ts p))) j = Some e"
  shows "ae_ticket e \<noteq> ap_ticket p"
proof
  assume t: "ae_ticket e = ap_ticket p"
  have q: "map_of (qu_entries q) j = Some e"
    using assms(2,4) by (auto simp: replay_def arb_acts split: option.splits if_splits)
  from entries_okD [OF assms(1) this] t assms(3) have "j = ap_id p" by (simp add: entry_ok_def)
  with assms(2,4) q t show False by (simp add: replay_def arb_acts)
qed

subsection \<open>One operation\<close>

text \<open>An admission is backed by a decision signed before it, for its ticket, that has not expired.\<close>

fun backed :: "arb_event list \<Rightarrow> arb_event \<Rightarrow> bool" where
  "backed past (Admitted i t now) \<longleftrightarrow> (\<exists>expiry sig. Signed i t expiry sig \<in> set past \<and> now < expiry)"
| "backed past _ \<longleftrightarrow> True"

definition all_backed :: "arb_event list \<Rightarrow> bool" where
  "all_backed es \<longleftrightarrow> (\<forall>n < length es. backed (take n es) (es ! n))"

lemma all_backed_snoc: "all_backed (es @ [x]) \<longleftrightarrow> all_backed es \<and> backed es x"
  by (auto simp: all_backed_def nth_append less_Suc_eq)

text \<open>A ticket belongs to one identity; every signature is one of an arbiter on that very decision.\<close>

fun event_ok :: "(bytes \<Rightarrow> bytes \<Rightarrow> bytes \<Rightarrow> bool) \<Rightarrow> Queue \<Rightarrow> arb_event \<Rightarrow> bool" where
  "event_ok edv q0 (Signed i t expiry sig) \<longleftrightarrow>
     (\<exists>pub \<in> set (qu_keys q0). edv pub (DecisionMessage (qu_cellID q0) i t VerdictApprove expiry) sig)"
| "event_ok edv q0 _ \<longleftrightarrow> True"

definition events_ok :: "(bytes \<Rightarrow> bytes \<Rightarrow> bytes \<Rightarrow> bool) \<Rightarrow> Queue \<Rightarrow> bytes set \<Rightarrow> arb_event list \<Rightarrow> bool" where
  "events_ok edv q0 U es \<longleftrightarrow>
     (\<forall>i t. Drawn i t \<in> set es \<longrightarrow> t \<in> U) \<and> (\<forall>i j t. Drawn i t \<in> set es \<longrightarrow> Drawn j t \<in> set es \<longrightarrow> i = j) \<and>
     distinct (admitted es) \<and> set (admitted es) \<subseteq> U \<and> (\<forall>x \<in> set es. event_ok edv q0 x) \<and> all_backed es"

definition arb_inv :: "(bytes \<Rightarrow> bytes) \<Rightarrow> (bytes \<Rightarrow> bytes \<Rightarrow> bytes \<Rightarrow> bool) \<Rightarrow> Queue \<Rightarrow> bytes set \<Rightarrow> arb_event list \<Rightarrow> registry \<times> Queue \<Rightarrow> bool" where
  "arb_inv sha edv q0 U es s \<longleftrightarrow> same_queue q0 (snd s) \<and> entries_ok es (snd s) \<and> events_ok edv q0 U es \<and>
     (\<exists>j. rg_journal (fst s) = Some j \<and> (\<forall>inLog. entries_ok es (restored sha q0 j inLog)))"

lemma arb_invI:
  "same_queue q0 q \<Longrightarrow> entries_ok es q \<Longrightarrow> events_ok edv q0 U es \<Longrightarrow> rg_journal r = Some j \<Longrightarrow>
     (\<And>inLog. entries_ok es (restored sha q0 j inLog)) \<Longrightarrow> arb_inv sha edv q0 U es (r, q)"
  by (simp add: arb_inv_def)

lemma arb_invE:
  assumes "arb_inv sha edv q0 U es (r, q)"
  obtains j where "same_queue q0 q" "entries_ok es q" "events_ok edv q0 U es" "rg_journal r = Some j"
    "\<And>inLog. entries_ok es (restored sha q0 j inLog)"
  using assms by (auto simp: arb_inv_def)

lemma events_ok_Drawn: "events_ok edv q0 U es \<Longrightarrow> t \<notin> U \<Longrightarrow> events_ok edv q0 (insert t U) (es @ [Drawn i t])"
  by (simp add: events_ok_def all_backed_snoc) blast

lemma events_ok_Signed:
  "events_ok edv q0 U es \<Longrightarrow> event_ok edv q0 (Signed i t expiry sig) \<Longrightarrow> events_ok edv q0 U (es @ [Signed i t expiry sig])"
  by (simp add: events_ok_def all_backed_snoc)

lemma events_ok_Admitted:
  "events_ok edv q0 U es \<Longrightarrow> t \<in> U \<Longrightarrow> t \<notin> set (admitted es) \<Longrightarrow> backed es (Admitted i t now) \<Longrightarrow>
     events_ok edv q0 U (es @ [Admitted i t now])"
  by (simp add: events_ok_def all_backed_snoc)

lemma events_okD:
  assumes "events_ok edv q0 U es"
  shows "Drawn i t \<in> set es \<Longrightarrow> t \<in> U" "Drawn i t \<in> set es \<Longrightarrow> Drawn j t \<in> set es \<Longrightarrow> i = j" "set (admitted es) \<subseteq> U"
  using assms unfolding events_ok_def by blast+

text \<open>The journal after a leaf of the queue: the record or nothing, and the record if the leaf was
  confirmed.\<close>

lemma arb_leaf_journal:
  assumes "arb_leaf sha r q (arb_record act i t subject kid v expiry) now = (r', al, ok)" "rg_journal r = Some j"
    "arb_typed act i t kid v" "length subject \<le> maxSubjectLen" "same_queue q0 q"
  obtains (same) "rg_journal r' = Some j" "\<not> ok"
  | (more) j' where "rg_journal r' = Some j'"
      "\<And>inLog. \<exists>b ts p. restored sha q0 j' inLog = fst (replay b (restored sha q0 j inLog) ts p) \<and>
        ap_act p = act \<and> ap_id p = i \<and> ap_ticket p = t \<and> ap_subject p = subject \<and> ap_kid p = kid \<and>
        (0 < unix expiry \<and> int64 (unix expiry) \<longrightarrow> ap_expiry p = of_unix (unix expiry))"
proof -
  let ?rec = "arb_record act i t subject kid v expiry"
  obtain res where a: "AppendLeaf sha r KindTelemetry (qu_cellID q) (qu_salt q) ?rec (unix_nano now) = (r', res)"
    and ok: "ok \<longleftrightarrow> (\<exists>n. res = Inr n)"
    using assms(1) by (auto simp: arb_leaf_def split: prod.splits sum.splits)
  have cfg: "qu_cellID q = qu_cellID q0" "qu_salt q = qu_salt q0" using assms(5) by (simp_all add: same_queue_def)
  from AppendLeaf_journal [OF a assms(2)] show thesis
  proof
    assume "rg_journal r' = Some j \<and> (\<exists>e. res = Inl e)"
    with ok same show thesis by auto
  next
    assume j': "rg_journal r' = Some (j @ [(sealed_leaf sha KindTelemetry (qu_cellID q) (qu_salt q) ?rec (unix_nano now), qu_salt q, ?rec)])"
    show thesis by (rule more [OF j']) (use restored_own [OF assms(3,4) cfg] in blast)
  qed
qed

lemma arb_inv_events:
  assumes "arb_inv sha edv q0 U es (r, q)" "admitted fs = []" "events_ok edv q0 V (es @ fs)"
  shows "arb_inv sha edv q0 V (es @ fs) (r, q)"
  using assms(1)
proof (rule arb_invE)
  fix j assume *: "same_queue q0 q" "entries_ok es q" "rg_journal r = Some j" "\<And>inLog. entries_ok es (restored sha q0 j inLog)"
  show ?thesis
    by (rule arb_invI [OF *(1) _ assms(3) *(3)]) (use * assms(2) in \<open>auto intro: entries_ok_mono\<close>)
qed

lemma arb_inv_prune: "arb_inv sha edv q0 U es (r, q) \<Longrightarrow> arb_inv sha edv q0 U es (r, arb_prune q now)"
  by (auto simp: arb_inv_def entries_ok_prune)

text \<open>A leaf of the queue, then an entry that is sound; or the leaf alone.\<close>

lemma arb_inv_leaf:
  assumes inv: "arb_inv sha edv q0 U es (r, q)" and "same_queue q0 q"
    and leaf: "arb_leaf sha r q (arb_record act i t subject kid v expiry) now = (r', al, ok)"
    and ty: "arb_typed act i t kid v" "length subject \<le> maxSubjectLen"
    and rec: "\<And>p. ap_act p = act \<Longrightarrow> ap_id p = i \<Longrightarrow> ap_ticket p = t \<Longrightarrow> ap_subject p = subject \<Longrightarrow> ap_kid p = kid \<Longrightarrow>
       (0 < unix expiry \<and> int64 (unix expiry) \<Longrightarrow> ap_expiry p = of_unix (unix expiry)) \<Longrightarrow> record_ok es p"
    and q': "same_queue q0 q'" "entries_ok es q'"
  shows "arb_inv sha edv q0 U es (r', q')"
  using inv
proof (rule arb_invE)
  fix j assume j: "same_queue q0 q" "entries_ok es q" "events_ok edv q0 U es" "rg_journal r = Some j"
    "\<And>inLog. entries_ok es (restored sha q0 j inLog)"
  from leaf j(4) ty j(1) show ?thesis
  proof (cases rule: arb_leaf_journal)
    case same
    then show ?thesis using arb_invI [OF q' j(3) same(1) j(5)] by simp
  next
    case (more j')
    show ?thesis
    proof (rule arb_invI [OF q' j(3) more(1)])
      fix inLog
      from more(2) [of inLog] obtain b ts p where p: "restored sha q0 j' inLog = fst (replay b (restored sha q0 j inLog) ts p)"
        and "record_ok es p" using rec by blast
      then show "entries_ok es (restored sha q0 j' inLog)" using replay_ok [OF j(5)] by simp
    qed
  qed
qed

lemma Enqueue_cases:
  fixes sha sys payload now
  defines "i \<equiv> IntentID sha sys payload"
  assumes "Enqueue sha r q sys payload ticket now = (r', q', al, res)"
  obtains (still) "r' = r" "q' = q \<or> q' = arb_prune q now"
  | (leaf) t ok where "ticket = Some t" "length sys \<le> maxSubjectLen"
      "arb_leaf sha r (arb_prune q now) (arb_record actEnqueue i t sys (zeros 16) 0 (now + qu_entTTL (arb_prune q now))) now = (r', al, ok)"
      "q' = (if ok then (arb_prune q now)\<lparr>qu_entries := put i \<lparr>ae_ticket = t, ae_subject = sys, ae_created = now,
          ae_expires = now + qu_entTTL (arb_prune q now), ae_status = statusPending, ae_by = zeros 16\<rparr> (qu_entries (arb_prune q now))\<rparr>
        else arb_prune q now)"
proof -
  define qp where "qp = arb_prune q now"
  let ?pend = "case map_of (qu_entries qp) i of None \<Rightarrow> False | Some e \<Rightarrow> ae_status e = statusPending"
  note def = assms(2) [unfolded Enqueue_def Let_def, folded i_def qp_def]
  show thesis
  proof (cases "length sys > maxSubjectLen \<or> ?pend \<or> int (length (qu_entries qp)) \<ge> qu_max qp \<or> ticket = None")
    case True
    then have "r' = r \<and> (q' = q \<or> q' = qp)" using def by (cases ticket) (auto split: if_splits)
    then show thesis using still by (simp add: qp_def)
  next
    case False
    then obtain t where t: "ticket = Some t" by auto
    obtain r1 al1 ok where l: "arb_leaf sha r qp (arb_record actEnqueue i t sys (zeros 16) 0 (now + qu_entTTL qp)) now = (r1, al1, ok)"
      by (metis prod_cases3)
    have "r' = r1" "al = al1" "q' = (if ok then qp\<lparr>qu_entries := put i \<lparr>ae_ticket = t, ae_subject = sys, ae_created = now,
          ae_expires = now + qu_entTTL qp, ae_status = statusPending, ae_by = zeros 16\<rparr> (qu_entries qp)\<rparr> else qp)"
      using def False t l by (cases ok; simp)+
    with l t False show thesis by (intro leaf [of t ok]) (simp_all add: qp_def)
  qed
qed

lemma Enqueue_inv:
  assumes inv: "arb_inv sha edv q0 U es (r, q)" and en: "Enqueue sha r q sys payload ticket now = (r', q', al, res)"
    and sha: "\<And>b. length (sha b) = 32"
    and t: "\<And>t. ticket = Some t \<Longrightarrow> length t = 16 \<and> Drawn (IntentID sha sys payload) t \<in> set es \<and> t \<notin> set (admitted es)"
  shows "arb_inv sha edv q0 U es (r', q')"
proof -
  let ?q = "arb_prune q now" and ?i = "IntentID sha sys payload"
  have pr: "arb_inv sha edv q0 U es (r, ?q)" by (rule arb_inv_prune [OF inv])
  then have qp: "same_queue q0 ?q" "entries_ok es ?q" by (simp_all add: arb_inv_def)
  from en show ?thesis
  proof (cases rule: Enqueue_cases)
    case still
    then show ?thesis using inv pr by auto
  next
    case (leaf t ok)
    from t [OF leaf(1)] have t': "length t = 16" "Drawn ?i t \<in> set es" "t \<notin> set (admitted es)" by simp_all
    have i: "length ?i = 32" by (simp add: IntentID_def sha)
    have "entry_ok es ?i \<lparr>ae_ticket = t, ae_subject = sys, ae_created = now, ae_expires = now + qu_entTTL ?q,
        ae_status = statusPending, ae_by = zeros 16\<rparr>"
      using t' i leaf(2) by (simp add: entry_ok_def)
    from entries_ok_put [OF qp(2) this] qp leaf(4) have q': "same_queue q0 q'" "entries_ok es q'" by simp_all
    show ?thesis
      by (rule arb_inv_leaf [OF pr qp(1) leaf(3) _ leaf(2) _ q'])
        (use t' i leaf(2) in \<open>simp_all add: arb_typed_def arb_acts record_ok_def\<close>)
  qed
qed

lemma signer_kid_Some:
  "signer_kid sha edv keys msg sig = Some kid \<Longrightarrow> \<exists>pub \<in> set keys. edv pub msg sig \<and> kid = KeyIDFromPublicKey sha pub"
  by (induction keys) (auto split: if_splits)

lemma kidOfIn_Inr: "kidOfIn sha edv q keys msg sig = Inr kid \<Longrightarrow> \<exists>pub \<in> set keys. edv pub msg sig \<and> kid = KeyIDFromPublicKey sha pub"
  by (auto simp: kidOfIn_def dest: signer_kid_Some split: option.splits)

lemma Decide_cases:
  assumes "Decide sha edv r q i v expiry sig now = (r', q', al, res)"
  obtains (still) "r' = r" "q' = q \<or> q' = arb_prune q now" "res \<noteq> Inr ()" "res \<noteq> Inl ErrLeaf"
  | (leaf) e kid ok where "map_of (qu_entries (arb_prune q now)) i = Some e" "ae_status e = statusPending"
      "v = VerdictApprove \<or> v = VerdictRefuse"
      "kidOfIn sha edv (arb_prune q now) (if v = VerdictRefuse then qu_refuse (arb_prune q now) else qu_keys (arb_prune q now))
         (DecisionMessage (qu_cellID (arb_prune q now)) i (ae_ticket e) v expiry) sig = Inr kid"
      "arb_leaf sha r (arb_prune q now) (arb_record (if v = VerdictApprove then actApprove else actRefuse) i (ae_ticket e) (ae_subject e) kid v expiry) now
         = (r', al, ok)"
      "q' = (if ok then (arb_prune q now)\<lparr>qu_entries := put i (e\<lparr>ae_status := if v = VerdictRefuse then statusRefused else statusApproved,
          ae_expires := expiry, ae_by := kid\<rparr>) (qu_entries (arb_prune q now))\<rparr> else arb_prune q now)"
      "res = (if ok then Inr () else Inl ErrLeaf)"
proof -
  define qp where "qp = arb_prune q now"
  note def = assms [unfolded Decide_def Let_def, folded qp_def]
  show thesis
  proof (cases "v \<noteq> VerdictApprove \<and> v \<noteq> VerdictRefuse \<or> map_of (qu_entries qp) i = None \<or>
      ae_status (the (map_of (qu_entries qp) i)) \<noteq> statusPending \<or> time_sub expiry now < MinDecisionTTL \<or> time_sub expiry now > qu_entTTL qp")
    case True
    then have "r' = r \<and> (q' = q \<or> q' = qp) \<and> res \<noteq> Inr () \<and> res \<noteq> Inl ErrLeaf"
      using def by (cases "map_of (qu_entries qp) i") (auto split: if_splits)
    then show thesis using still by (simp add: qp_def)
  next
    case False
    then obtain e where e: "map_of (qu_entries qp) i = Some e" "ae_status e = statusPending" "v = VerdictApprove \<or> v = VerdictRefuse"
      "\<not> time_sub expiry now < MinDecisionTTL" "\<not> time_sub expiry now > qu_entTTL qp" by auto
    let ?sig = "kidOfIn sha edv qp (if v = VerdictRefuse then qu_refuse qp else qu_keys qp)
         (DecisionMessage (qu_cellID qp) i (ae_ticket e) v expiry) sig"
    show thesis
    proof (cases ?sig)
      case (Inl err)
      then have "err \<noteq> ErrLeaf" by (auto simp: kidOfIn_def split: option.splits)
      with def e Inl have "r' = r \<and> q' = qp \<and> res \<noteq> Inr () \<and> res \<noteq> Inl ErrLeaf" by auto
      then show thesis using still by (simp add: qp_def)
    next
      case (Inr kid)
      obtain r1 al1 ok where l: "arb_leaf sha r qp (arb_record (if v = VerdictApprove then actApprove else actRefuse) i (ae_ticket e)
          (ae_subject e) kid v expiry) now = (r1, al1, ok)" by (metis prod_cases3)
      have st: "r' = r1" "al = al1" "res = (if ok then Inr () else Inl ErrLeaf)"
        "q' = (if ok then qp\<lparr>qu_entries := put i (e\<lparr>ae_status := if v = VerdictRefuse then statusRefused else statusApproved,
          ae_expires := expiry, ae_by := kid\<rparr>) (qu_entries qp)\<rparr> else qp)"
        using def e Inr l by (cases ok; auto)+
      show thesis by (rule leaf [folded qp_def, OF e(1,2,3) Inr l [folded st(1,2)] st(4,3)])
    qed
  qed
qed

lemma kid_length: "(\<And>b. length (sha b) = 32) \<Longrightarrow> length (KeyIDFromPublicKey sha pub) = 16"
  by (simp add: KeyIDFromPublicKey_def)

lemma Decide_inv:
  assumes inv: "arb_inv sha edv q0 U es (r, q)" and dec: "Decide sha edv r q i v expiry sig now = (r', q', al, res)"
    and sha: "\<And>b. length (sha b) = 32" and date: "0 < unix expiry" "int64 (unix expiry)"
    and signed: "v = VerdictApprove \<Longrightarrow> res = Inr () \<or> res = Inl ErrLeaf \<Longrightarrow> Signed i (ticket_of (arb_prune q now) i) expiry sig \<in> set es"
  shows "arb_inv sha edv q0 U es (r', q')"
proof -
  let ?q = "arb_prune q now"
  have pr: "arb_inv sha edv q0 U es (r, ?q)" by (rule arb_inv_prune [OF inv])
  then have qp: "same_queue q0 ?q" "entries_ok es ?q" by (simp_all add: arb_inv_def)
  from dec show ?thesis
  proof (cases rule: Decide_cases)
    case still
    then show ?thesis using inv pr by auto
  next
    case (leaf e kid ok)
    have ok: "entry_ok es i e" by (rule entries_okD [OF qp(2) leaf(1)])
    then have ty: "length i = 32" "length (ae_ticket e) = 16" "length (ae_subject e) \<le> maxSubjectLen" by (simp_all add: entry_ok_def)
    have kid: "length kid = 16" using kidOfIn_Inr [OF leaf(4)] kid_length [OF sha] by auto
    have sg: "Signed i (ae_ticket e) expiry sig \<in> set es" if "v = VerdictApprove"
      using signed [OF that] leaf(1,7) by (simp add: ticket_of_def split: if_splits)
    have "entry_ok es i (e\<lparr>ae_status := if v = VerdictRefuse then statusRefused else statusApproved, ae_expires := expiry, ae_by := kid\<rparr>)"
      using ok sg leaf(3) kid by (auto simp: entry_ok_def)
    from entries_ok_put [OF qp(2) this] qp leaf(6) have q': "same_queue q0 q'" "entries_ok es q'" by simp_all
    have le: "of_unix (unix expiry) \<le> expiry" by (simp add: of_unix_def unix_def second_def)
    show ?thesis
      by (rule arb_inv_leaf [OF pr qp(1) leaf(5) _ ty(3) _ q'])
        (use ty kid leaf(3) sg date le in \<open>auto simp: arb_typed_def arb_acts record_ok_def\<close>)
  qed
qed

lemma Take_cases:
  fixes sha subject intent now
  defines "i \<equiv> IntentID sha subject intent"
  assumes "Take sha r q subject intent now = (r', q', al, res)"
  obtains (still) "r' = r" "q' = arb_prune q now" "res \<noteq> Inr OutcomeApproved"
  | (leaf) e ok where "map_of (qu_entries (arb_prune q now)) i = Some e" "ae_status e \<noteq> statusPending"
      "arb_leaf sha r (arb_prune q now) (arb_record (if ae_status e = statusApproved then actConsume else actConsumeRefused) i (ae_ticket e)
         (ae_subject e) (ae_by e) 0 (ae_expires e)) now = (r', al, ok)"
      "q' = (if ok then (arb_prune q now)\<lparr>qu_entries := del i (qu_entries (arb_prune q now))\<rparr> else arb_prune q now)"
      "res = (if ok then Inr (if ae_status e = statusApproved then OutcomeApproved else OutcomeRefused) else Inl ErrLeaf)"
proof -
  define qp where "qp = arb_prune q now"
  note def = assms(2) [unfolded Take_def Let_def, folded i_def qp_def]
  show thesis
  proof (cases "map_of (qu_entries qp) i = None \<or> ae_status (the (map_of (qu_entries qp) i)) = statusPending")
    case True
    then have "r' = r \<and> q' = qp \<and> res \<noteq> Inr OutcomeApproved" using def by (cases "map_of (qu_entries qp) i") auto
    then show thesis using still by (simp add: qp_def)
  next
    case False
    then obtain e where e: "map_of (qu_entries qp) i = Some e" "ae_status e \<noteq> statusPending" by auto
    obtain r1 al1 ok where l: "arb_leaf sha r qp (arb_record (if ae_status e = statusApproved then actConsume else actConsumeRefused) i
        (ae_ticket e) (ae_subject e) (ae_by e) 0 (ae_expires e)) now = (r1, al1, ok)" by (metis prod_cases3)
    have st: "r' = r1" "al = al1" "q' = (if ok then qp\<lparr>qu_entries := del i (qu_entries qp)\<rparr> else qp)"
      "res = (if ok then Inr (if ae_status e = statusApproved then OutcomeApproved else OutcomeRefused) else Inl ErrLeaf)"
      using def e l by (cases ok; simp)+
    show thesis by (rule leaf [folded qp_def, OF e l [folded st(1,2)] st(3,4)])
  qed
qed

text \<open>A consumption without admission keeps the invariant; an admission takes its ticket out of the queue
  and out of what a restart would restore.\<close>

lemma Take_inv:
  assumes inv: "arb_inv sha edv q0 U es (r, q)" and tk: "Take sha r q subject intent now = (r', q', al, res)"
    and sha: "\<And>b. length (sha b) = 32" and no: "res \<noteq> Inr OutcomeApproved"
  shows "arb_inv sha edv q0 U es (r', q')"
proof -
  let ?q = "arb_prune q now"
  have pr: "arb_inv sha edv q0 U es (r, ?q)" by (rule arb_inv_prune [OF inv])
  then have qp: "same_queue q0 ?q" "entries_ok es ?q" by (simp_all add: arb_inv_def)
  from tk show ?thesis
  proof (cases rule: Take_cases)
    case still
    then show ?thesis using pr by auto
  next
    case (leaf e ok)
    from entries_okD [OF qp(2) leaf(1)] have ty: "length (ae_ticket e) = 16" "length (ae_subject e) \<le> maxSubjectLen" "length (ae_by e) = 16"
      "length (IntentID sha subject intent) = 32" by (simp_all add: entry_ok_def)
    from qp leaf(4) entries_ok_del [OF qp(2)] have q': "same_queue q0 q'" "entries_ok es q'" by simp_all
    show ?thesis
      by (rule arb_inv_leaf [OF pr qp(1) leaf(3) _ ty(2) _ q']) (use ty in \<open>auto simp: arb_typed_def arb_acts record_ok_def\<close>)
  qed
qed

lemma Take_admits:
  assumes inv: "arb_inv sha edv q0 U es (r, q)" and tk: "Take sha r q subject intent now = (r', q', al, Inr OutcomeApproved)"
    and sha: "\<And>b. length (sha b) = 32"
  defines "i \<equiv> IntentID sha subject intent"
  shows "arb_inv sha edv q0 U (es @ [Admitted i (ticket_of (arb_prune q now) i) now]) (r', q')"
proof -
  let ?q = "arb_prune q now"
  have pr: "arb_inv sha edv q0 U es (r, ?q)" by (rule arb_inv_prune [OF inv])
  from tk obtain e where e: "map_of (qu_entries ?q) i = Some e" "ae_status e = statusApproved" "q' = ?q\<lparr>qu_entries := del i (qu_entries ?q)\<rparr>"
    "arb_leaf sha r ?q (arb_record actConsume i (ae_ticket e) (ae_subject e) (ae_by e) 0 (ae_expires e)) now = (r', al, True)"
    by (cases rule: Take_cases) (auto simp: i_def split: if_splits)
  let ?t = "ae_ticket e" and ?es = "es @ [Admitted i (ae_ticket e) now]"
  have t: "ticket_of ?q i = ?t" by (simp add: ticket_of_def e(1))
  from pr show ?thesis
  proof (rule arb_invE)
    fix j assume j: "same_queue q0 ?q" "entries_ok es ?q" "events_ok edv q0 U es" "rg_journal r = Some j"
      "\<And>inLog. entries_ok es (restored sha q0 j inLog)"
    note eok = entries_okD [OF j(2) e(1), unfolded entry_ok_def]
    have ty: "arb_typed actConsume i ?t (ae_by e) 0" "length (ae_subject e) \<le> maxSubjectLen" using eok by (simp_all add: arb_typed_def arb_acts)
    have own: "k = i" if "Drawn k ?t \<in> set es" for k using events_okD(2) [OF j(3) that] eok by blast
    have live: "now < ae_expires e" using e(1) j(2) inv by (simp add: prune_lookup entries_ok_def arb_inv_def)
    have ev: "events_ok edv q0 U ?es"
      by (rule events_ok_Admitted [OF j(3)]) (use eok e(2) live events_okD(1) [OF j(3)] in \<open>auto intro: less_le_trans\<close>)
    have q': "entries_ok ?es q'"
    proof (rule entries_ok_mono)
      show "entries_ok es q'" using entries_ok_del [OF j(2)] e(3) by simp
      fix k e' assume k: "map_of (qu_entries q') k = Some e'"
      then have "map_of (qu_entries ?q) k = Some e'" "k \<noteq> i" using e(3) by (auto split: if_splits)
      with entries_okD [OF j(2), of k e'] own have "ae_ticket e' \<noteq> ?t" by (auto simp: entry_ok_def)
      then show "ae_ticket e' \<notin> set (admitted [Admitted i ?t now])" by simp
    qed
    from e(4) j(4) ty j(1) show ?thesis
    proof (cases rule: arb_leaf_journal)
      case (more j')
      have "entries_ok ?es (restored sha q0 j' inLog)" for inLog
      proof -
        from more(2) [of inLog] obtain b ts p where p: "restored sha q0 j' inLog = fst (replay b (restored sha q0 j inLog) ts p)"
          "ap_act p = actConsume" "ap_id p = i" "ap_ticket p = ?t" "ap_kid p = ae_by e" by blast
        have "record_ok es p" using p eok by (simp add: record_ok_def arb_acts)
        from replay_ok [OF j(5) this] p(1) have "entries_ok es (restored sha q0 j' inLog)" by simp
        moreover have "ae_ticket e' \<noteq> ?t" if "map_of (qu_entries (restored sha q0 j' inLog)) k = Some e'" for k e'
          using replay_consumes [OF j(5) [of inLog] p(2)] own that p(1,3,4) by simp
        ultimately show ?thesis by (intro entries_ok_mono) simp_all
      qed
      then show ?thesis using arb_invI [OF _ q' ev more(1)] j(1) e(3) t by simp
    qed simp
  qed
qed

subsection \<open>Whole histories\<close>

lemma arb_exec_inv:
  assumes inv: "arb_inv sha edv q0 U es (r, q)" and ex: "arb_exec sha edv q0 (now, op) (r, q) = (s', evs)"
    and ok: "arb_op_ok op" "set (op_ticket op) \<inter> U = {}" and sha: "\<And>b. length (sha b) = 32"
  shows "arb_inv sha edv q0 (U \<union> set (op_ticket op)) (es @ evs) s'"
proof (cases op)
  case (AHeartbeat at sig)
  have "same_queue q0 (fst (Heartbeat sha edv q at sig now))" "qu_entries (fst (Heartbeat sha edv q at sig now)) = qu_entries q"
    using inv by (auto simp: Heartbeat_def arb_inv_def same_queue_def split: sum.split)
  with inv ex AHeartbeat show ?thesis by (auto simp: arb_exec_def arb_inv_def entries_ok_def)
next
  case (AEnqueue sys payload ticket)
  obtain r' q' al res where en: "Enqueue sha r q sys payload ticket now = (r', q', al, res)" by (metis prod_cases4)
  let ?i = "IntentID sha sys payload"
  show ?thesis
  proof (cases ticket)
    case None
    then show ?thesis using Enqueue_inv [OF inv en sha] ex AEnqueue en by (simp add: arb_exec_def)
  next
    case (Some t)
    with ok AEnqueue have t: "length t = 16" "t \<notin> U" by simp_all
    have e0: "events_ok edv q0 U es" using inv by (simp add: arb_inv_def)
    have "arb_inv sha edv q0 (insert t U) (es @ [Drawn ?i t]) (r, q)"
      by (rule arb_inv_events [OF inv _ events_ok_Drawn [OF e0 t(2)]]) simp
    from Enqueue_inv [OF this en sha] t events_okD(3) [OF e0] Some
    have "arb_inv sha edv q0 (insert t U) (es @ [Drawn ?i t]) (r', q')" by auto
    then show ?thesis using ex AEnqueue en Some by (simp add: arb_exec_def)
  qed
next
  case (ADecide i v expiry sig)
  obtain r' q' al res where de: "Decide sha edv r q i v expiry sig now = (r', q', al, res)" by (metis prod_cases4)
  have date: "0 < unix expiry" "int64 (unix expiry)" using ok ADecide by simp_all
  let ?ev = "Signed i (ticket_of (arb_prune q now) i) expiry sig"
  show ?thesis
  proof (cases "v = VerdictApprove \<and> (res = Inr () \<or> res = Inl ErrLeaf)")
    case True
    have "event_ok edv q0 ?ev"
      using de
    proof (cases rule: Decide_cases)
      case (leaf e kid ok)
      have "qu_keys q = qu_keys q0" "qu_cellID q = qu_cellID q0" using inv by (simp_all add: arb_inv_def same_queue_def)
      with kidOfIn_Inr [OF leaf(4)] True leaf(1) show ?thesis by (auto simp: ticket_of_def)
    qed (use True in auto)
    moreover have "events_ok edv q0 U es" using inv by (simp add: arb_inv_def)
    ultimately have "arb_inv sha edv q0 U (es @ [?ev]) (r, q)" by (intro arb_inv_events [OF inv] events_ok_Signed) simp_all
    from Decide_inv [OF this de sha date] have "arb_inv sha edv q0 U (es @ [?ev]) (r', q')" by simp
    then show ?thesis using ex ADecide de True by (simp add: arb_exec_def)
  next
    case False
    with Decide_inv [OF inv de sha date] have "arb_inv sha edv q0 U es (r', q')" by blast
    then show ?thesis using ex ADecide de False by (auto simp: arb_exec_def split: if_splits)
  qed
next
  case (ATake subject intent)
  obtain r' q' al res where tk: "Take sha r q subject intent now = (r', q', al, res)" by (metis prod_cases4)
  show ?thesis
  proof (cases "res = Inr OutcomeApproved")
    case True
    with Take_admits [OF inv tk [unfolded True] sha] ex ATake tk show ?thesis by (simp add: arb_exec_def)
  next
    case False
    with Take_inv [OF inv tk sha False] ex ATake tk show ?thesis by (simp add: arb_exec_def)
  qed
next
  case ASnapshot
  with inv ex show ?thesis by (auto simp: arb_exec_def arb_Snapshot_def Let_def arb_inv_prune)
next
  case (AWrite kind cid salt rec ts)
  obtain r' res where a: "AppendLeaf sha r kind cid salt rec ts = (r', res)" by fastforce
  from inv show ?thesis
  proof (rule arb_invE)
    fix j assume j: "same_queue q0 q" "entries_ok es q" "events_ok edv q0 U es" "rg_journal r = Some j"
      "\<And>inLog. entries_ok es (restored sha q0 j inLog)"
    from ok AWrite have np: "\<not> prefix ''TBAR2'' rec" by simp
    obtain j' where j': "rg_journal r' = Some j'" "\<And>inLog. restored sha q0 j' inLog = restored sha q0 j inLog"
      using AppendLeaf_journal [OF a j(4)] restored_foreign [OF np] by metis
    then show ?thesis using arb_invI [OF j(1-3) j'(1)] j(5) ex AWrite a by (simp add: arb_exec_def)
  qed
next
  case (ARestart inLog)
  from inv show ?thesis
  proof (rule arb_invE)
    fix j assume j: "same_queue q0 q" "entries_ok es q" "events_ok edv q0 U es" "rg_journal r = Some j"
      "\<And>inLog. entries_ok es (restored sha q0 j inLog)"
    have "fst (arb_Restore sha inLog q0 j now) = arb_prune (restored sha q0 j inLog) now"
      by (simp add: arb_Restore_def restored_def Let_def case_prod_beta)
    moreover have "arb_inv sha edv q0 U es (r, arb_prune (restored sha q0 j inLog) now)"
      by (rule arb_invI [OF _ entries_ok_prune [OF j(5)] j(3,4,5)]) simp
    ultimately show ?thesis using ex ARestart j(4) by (simp add: arb_exec_def)
  qed
qed

lemma arb_run_inv:
  assumes "arb_inv sha edv q0 U es s" "arb_run sha edv q0 s ops = (evs, s')" "list_all (\<lambda>(now, op). arb_op_ok op) ops"
    "distinct (drawn ops)" "set (drawn ops) \<inter> U = {}" "\<And>b. length (sha b) = 32"
  shows "arb_inv sha edv q0 (U \<union> set (drawn ops)) (es @ evs) s'"
  using assms
proof (induction ops arbitrary: s U es evs)
  case Nil
  then show ?case by (simp add: drawn_def)
next
  case (Cons x ops)
  obtain now op where x: "x = (now, op)" by (cases x)
  obtain r q where s: "s = (r, q)" by (cases s)
  obtain s1 evs1 where e: "arb_exec sha edv q0 (now, op) (r, q) = (s1, evs1)" by fastforce
  obtain evs2 where r: "arb_run sha edv q0 s1 ops = (evs2, s')" "evs = evs1 @ evs2"
    using Cons.prems(2) x s e by (auto split: prod.splits)
  have d: "drawn (x # ops) = op_ticket op @ drawn ops" by (simp add: drawn_def x)
  have "arb_inv sha edv q0 (U \<union> set (op_ticket op)) (es @ evs1) s1"
    using arb_exec_inv [OF Cons.prems(1) [unfolded s] e _ _ Cons.prems(6)] Cons.prems(3,5) d x by auto
  from Cons.IH [OF this r(1)] Cons.prems(3,4,5,6) d r(2) x show ?case by (auto simp: Un_assoc)
qed

lemma NewQueue_inv:
  assumes "NewQueue sha opts = Some q0" "rg_journal r = Some []"
  shows "arb_inv sha edv q0 {} [] (r, q0)"
proof -
  have "qu_entries q0 = []" using assms(1) by (auto simp: NewQueue_def Let_def split: if_splits option.splits)
  then have "entries_ok [] q0" by (simp add: entries_ok_def)
  then show ?thesis using arb_invI [OF _ _ _ assms(2)] by (simp add: events_ok_def all_backed_def)
qed

subsection \<open>Properties\<close>

text \<open>C16: a signed decision admits once, for the life of the cell.  Over any history of the queue of a cell,
  with other components writing to the same registry, leaves that fail, and restarts that restore the queue
  from the journal, no ticket is admitted twice; and each admission follows a decision that a key with the arbiter role
  signed for that cell, request and ticket, and that had not expired.\<close>

theorem decision_admits_once:
  assumes "\<And>b. length (sha b) = 32" and "NewQueue sha opts = Some q0" and "rg_journal r = Some []"
    and "list_all (\<lambda>(now, op). arb_op_ok op) ops" and "distinct (drawn ops)"
    and "arb_run sha edv q0 (r, q0) ops = (evs, s')"
  shows "distinct (admitted evs) \<and>
    (\<forall>n i t now. n < length evs \<and> evs ! n = Admitted i t now \<longrightarrow>
       (\<exists>expiry sig pub. Signed i t expiry sig \<in> set (take n evs) \<and> now < expiry \<and> pub \<in> set (qu_keys q0) \<and>
          edv pub (DecisionMessage (qu_cellID q0) i t VerdictApprove expiry) sig))"
proof -
  from arb_run_inv [OF NewQueue_inv [OF assms(2,3)] assms(6,4,5) _ assms(1)]
  have ev: "events_ok edv q0 (set (drawn ops)) evs" by (simp add: arb_inv_def)
  then have d: "distinct (admitted evs)" and bk: "all_backed evs" and sg: "\<forall>x \<in> set evs. event_ok edv q0 x"
    by (simp_all add: events_ok_def)
  have "\<exists>expiry sig pub. Signed i t expiry sig \<in> set (take n evs) \<and> now < expiry \<and> pub \<in> set (qu_keys q0) \<and>
      edv pub (DecisionMessage (qu_cellID q0) i t VerdictApprove expiry) sig"
    if n: "n < length evs" "evs ! n = Admitted i t now" for n i t now
  proof -
    from bk n obtain expiry sig where s: "Signed i t expiry sig \<in> set (take n evs)" "now < expiry"
      unfolding all_backed_def by (metis backed.simps(1))
    from s(1) have "Signed i t expiry sig \<in> set evs" by (rule in_set_takeD)
    with sg have "event_ok edv q0 (Signed i t expiry sig)" by blast
    with s show ?thesis by auto
  qed
  with d show ?thesis by blast
qed

text \<open>One cell, one arbiter, storage that works.\<close>

definition asha_ex :: "bytes \<Rightarrow> bytes" where "asha_ex b = zeros 32"
definition aedv_ex :: "bytes \<Rightarrow> bytes \<Rightarrow> bytes \<Rightarrow> bool" where "aedv_ex p m s \<longleftrightarrow> s = ''ok''"

definition aopts_ex :: ArbiterOptions where
  "aopts_ex = \<lparr>ao_CellID = ''c'', ao_Salt = zeros 16, ao_OperatorKeys = [zeros 32], ao_ArbiterKeys = None, ao_RefuserKeys = None,
     ao_PresenceTTL = 0, ao_EntryTTL = 0, ao_MaxEntries = 0\<rparr>"

definition aqueue_ex :: "(bytes, arb_entry) gomap \<Rightarrow> Queue" where
  "aqueue_ex m = \<lparr>qu_cellID = ''c'', qu_salt = zeros 16, qu_keys = [zeros 32], qu_refuse = [zeros 32], qu_allKeys = [zeros 32],
     qu_presTTL = 60 * second, qu_entTTL = 600 * second, qu_max = 256, qu_entries = m, qu_lastHB = zero_time\<rparr>"

lemma aqueue_ex_fields:
  "qu_cellID (aqueue_ex m) = ''c''" "qu_salt (aqueue_ex m) = zeros 16" "qu_keys (aqueue_ex m) = [zeros 32]" "qu_max (aqueue_ex m) = 256"
  "qu_entTTL (aqueue_ex m) = 600 * second" "qu_entries (aqueue_ex m) = m" "(aqueue_ex m)\<lparr>qu_entries := m'\<rparr> = aqueue_ex m'"
  "arb_prune (aqueue_ex m) now = aqueue_ex (filter (\<lambda>(i, e). now < ae_expires e) m)"
  by (simp_all add: aqueue_ex_def arb_prune_def)

lemma aqueue_ex_new: "NewQueue asha_ex aopts_ex = Some (aqueue_ex [])"
  by (simp add: NewQueue_def aopts_ex_def aqueue_ex_def arb_role_def or_zero_def arb_bounds PublicKeySize_def second_def Let_def)

definition areg_ex :: "journal \<Rightarrow> leaf list \<Rightarrow> registry" where
  "areg_ex j ls = \<lparr>rg_log = ls, rg_journal = Some j, rg_engaged = False, rg_clock = 1, rg_env = []\<rparr>"

definition aleaf_ex :: "int \<Rightarrow> bytes \<Rightarrow> leaf" where
  "aleaf_ex t rec = sealed_leaf asha_ex KindTelemetry ''c'' (zeros 16) rec (unix_nano (of_unix t))"

lemma arb_leaf_ex:
  assumes "0 < t" "t \<le> 4000"
  shows "arb_leaf asha_ex (areg_ex j ls) (aqueue_ex m) rec (of_unix t) =
    (areg_ex (j @ [(aleaf_ex t rec, zeros 16, rec)]) (ls @ [aleaf_ex t rec]), [], True)"
proof -
  have "unix_nano (of_unix t) \<noteq> 0" using assms by (simp add: unix_nano_def of_unix_def second_def int64_def)
  then show ?thesis
    by (simp add: arb_leaf_def aqueue_ex_fields) (subst AppendLeaf_journaled, simp_all add: areg_ex_def known_kind_def aleaf_ex_def)
qed

definition aentry_ex :: "bytes \<Rightarrow> int \<Rightarrow> int \<Rightarrow> arb_status \<Rightarrow> arb_entry" where
  "aentry_ex t c x st = \<lparr>ae_ticket = t, ae_subject = ''a'', ae_created = of_unix c, ae_expires = of_unix x, ae_status = st, ae_by = zeros 16\<rparr>"

lemma intent_ex: "IntentID asha_ex s p = zeros 32"
  by (simp add: IntentID_def asha_ex_def)

lemma kid_ex: "KeyIDFromPublicKey asha_ex k = zeros 16"
  by (simp add: KeyIDFromPublicKey_def asha_ex_def) (simp add: zeros_def)

abbreviation rec_ex :: "nat \<Rightarrow> bytes \<Rightarrow> nat \<Rightarrow> int \<Rightarrow> bytes" where
  "rec_ex act t v x \<equiv> arb_record act (zeros 32) t ''a'' (zeros 16) v (of_unix x)"

lemma enqueue_ex:
  assumes "0 < n" "n \<le> 4000" and f: "filter (\<lambda>(i, e). of_unix n < ae_expires e) m = []"
  shows "Enqueue asha_ex (areg_ex j ls) (aqueue_ex m) ''a'' ''x'' (Some t) (of_unix n) =
    (areg_ex (j @ [(aleaf_ex n (rec_ex actEnqueue t 0 (n + 600)), zeros 16, rec_ex actEnqueue t 0 (n + 600))])
       (ls @ [aleaf_ex n (rec_ex actEnqueue t 0 (n + 600))]),
     aqueue_ex [(zeros 32, aentry_ex t n (n + 600) statusPending)], [], Inr ())"
proof -
  have x: "of_unix n + 600 * second = of_unix (n + 600)" by (simp add: of_unix_def algebra_simps)
  show ?thesis using arb_leaf_ex [OF assms(1,2)]
    by (simp add: Enqueue_def aqueue_ex_fields f x intent_ex maxSubjectLen_def put_def aentry_ex_def Let_def)
qed

lemma decide_ex:
  assumes "0 < n" "n \<le> 4000" "n + 30 \<le> x" "x \<le> n + 600" "n < y"
  shows "Decide asha_ex aedv_ex (areg_ex j ls) (aqueue_ex [(zeros 32, aentry_ex t c y statusPending)]) (zeros 32) VerdictApprove (of_unix x)
      ''ok'' (of_unix n) =
    (areg_ex (j @ [(aleaf_ex n (rec_ex actApprove t 1 x), zeros 16, rec_ex actApprove t 1 x)]) (ls @ [aleaf_ex n (rec_ex actApprove t 1 x)]),
     aqueue_ex [(zeros 32, aentry_ex t c x statusApproved)], [], Inr ())"
proof -
  have f: "of_unix n < of_unix y" using assms by (simp add: of_unix_def second_def)
  have ttl: "time_sub (of_unix x) (of_unix n) = (x - n) * second" "30 * second \<le> (x - n) * second" "(x - n) * second \<le> 600 * second"
    using assms by (simp_all add: time_sub_def of_unix_def second_def)
  show ?thesis using arb_leaf_ex [OF assms(1,2)] ttl f
    by (simp add: Decide_def aqueue_ex_fields aentry_ex_def kidOfIn_def aedv_ex_def kid_ex MinDecisionTTL_def put_def Let_def)
qed

lemma take_ex:
  assumes "0 < n" "n \<le> 4000" "n < x"
  shows "\<exists>r. Take asha_ex (areg_ex j ls) (aqueue_ex [(zeros 32, aentry_ex t c x statusApproved)]) ''a'' ''x'' (of_unix n) =
    (r, aqueue_ex [], [], Inr OutcomeApproved)"
proof -
  have f: "of_unix n < of_unix x" using assms by (simp add: of_unix_def second_def)
  show ?thesis using arb_leaf_ex [OF assms(1,2)] f
    by (simp add: Take_def aqueue_ex_fields aentry_ex_def intent_ex del_def Let_def)
qed

lemma replay_one_ex:
  assumes "act < 256" "length t = 16" "v < 256" "0 < x" "x < 10000" "0 < n" "n < 10000"
  shows "replay_one asha_ex (Some (\<lambda>x. True)) (aqueue_ex m) (aleaf_ex n (rec_ex act t v x), zeros 16, rec_ex act t v x) =
    fst (replay True (aqueue_ex m) (of_unix n) \<lparr>ap_act = act, ap_id = zeros 32, ap_ticket = t, ap_subject = ''a'', ap_kid = zeros 16,
      ap_verdict = v, ap_expiry = of_unix x\<rparr>)"
proof -
  have "of_unix x \<noteq> zero_time" using assms by (simp add: zero_time_def of_unix_def second_def)
  moreover have "u64_of x = nat x" "int64 x" "int64 (of_unix n)" using assms by (simp_all add: u64_of_def int64_def of_unix_def second_def)
  moreover have "arb_typed act (zeros 32) t (zeros 16) v" using assms by (simp add: arb_typed_def)
  ultimately have "parseLeafRecord (rec_ex act t v x) = Some \<lparr>ap_act = act, ap_id = zeros 32, ap_ticket = t, ap_subject = ''a'',
      ap_kid = zeros 16, ap_verdict = v, ap_expiry = of_unix x\<rparr>"
    using parse_arb_record [of act "zeros 32" t "zeros 16" v "''a''" "of_unix x"] assms by (simp add: maxSubjectLen_def Let_def)
  moreover have "prefix ''TBAR2'' (rec_ex act t v x)" by (simp add: arb_record_def)
  ultimately show ?thesis using \<open>int64 (of_unix n)\<close>
    by (simp add: replay_one_def own_record_def readable_def aqueue_ex_fields aleaf_ex_def sealed_leaf_def unix_nano_def)
qed

lemma restart_ex:
  "fst (arb_Restore asha_ex (Some (\<lambda>x. True)) (aqueue_ex []) j now) = arb_prune (foldl (replay_one asha_ex (Some (\<lambda>x. True))) (aqueue_ex []) j) now"
  using restored_foldl [of asha_ex "aqueue_ex []" j "Some (\<lambda>x. True)"]
  by (simp add: arb_Restore_def restored_def Let_def case_prod_beta)

definition aops_ex :: "(time \<times> arb_op) list" where
  "aops_ex = [(of_unix 1000, AEnqueue ''a'' ''x'' (Some (zeros 16))), (of_unix 1010, ADecide (zeros 32) VerdictApprove (of_unix 1100) ''ok''),
     (of_unix 1015, ARestart (Some (\<lambda>x. True))), (of_unix 1020, ATake ''a'' ''x'')]"

definition aevents_ex :: "arb_event list" where
  "aevents_ex = [Drawn (zeros 32) (zeros 16), Signed (zeros 32) (zeros 16) (of_unix 1100) ''ok'', Admitted (zeros 32) (zeros 16) (of_unix 1020)]"

lemma aops_ex_run: "\<exists>s'. arb_run asha_ex aedv_ex (aqueue_ex []) (areg_ex [] [], aqueue_ex []) aops_ex = (aevents_ex, s')"
proof -
  define j1 where "j1 = [(aleaf_ex 1000 (rec_ex actEnqueue (zeros 16) 0 1600), zeros 16, rec_ex actEnqueue (zeros 16) 0 1600)]"
  define j2 where "j2 = j1 @ [(aleaf_ex 1010 (rec_ex actApprove (zeros 16) 1 1100), zeros 16, rec_ex actApprove (zeros 16) 1 1100)]"
  have 1: "arb_exec asha_ex aedv_ex (aqueue_ex []) (of_unix 1000, AEnqueue ''a'' ''x'' (Some (zeros 16))) (areg_ex [] [], aqueue_ex []) =
      ((areg_ex j1 [aleaf_ex 1000 (rec_ex actEnqueue (zeros 16) 0 1600)], aqueue_ex [(zeros 32, aentry_ex (zeros 16) 1000 1600 statusPending)]),
       [Drawn (zeros 32) (zeros 16)])"
    using enqueue_ex [of 1000 "[]" "[]" "[]" "zeros 16"] by (simp add: arb_exec_def intent_ex j1_def)
  define l1 where "l1 = [aleaf_ex 1000 (rec_ex actEnqueue (zeros 16) 0 1600)]"
  define l2 where "l2 = l1 @ [aleaf_ex 1010 (rec_ex actApprove (zeros 16) 1 1100)]"
  have 2: "arb_exec asha_ex aedv_ex (aqueue_ex []) (of_unix 1010, ADecide (zeros 32) VerdictApprove (of_unix 1100) ''ok'')
      (areg_ex j1 l1, aqueue_ex [(zeros 32, aentry_ex (zeros 16) 1000 1600 statusPending)]) =
      ((areg_ex j2 l2, aqueue_ex [(zeros 32, aentry_ex (zeros 16) 1000 1100 statusApproved)]),
       [Signed (zeros 32) (zeros 16) (of_unix 1100) ''ok''])"
    using decide_ex [of 1010 1100 1600 j1 l1 "zeros 16" 1000]
    by (simp add: arb_exec_def ticket_of_def aqueue_ex_fields aentry_ex_def of_unix_def second_def j2_def l2_def)
  have r: "arb_prune (foldl (replay_one asha_ex (Some (\<lambda>x. True))) (aqueue_ex []) j2) (of_unix 1015) =
      aqueue_ex [(zeros 32, aentry_ex (zeros 16) 1000 1100 statusApproved)]"
    by (simp add: j2_def j1_def replay_one_ex arb_acts replay_def aqueue_ex_fields put_def is_pending_def decided_def aentry_ex_def)
      (simp add: of_unix_def second_def zero_time_def)
  have 3: "arb_exec asha_ex aedv_ex (aqueue_ex []) (of_unix 1015, ARestart (Some (\<lambda>x. True))) (areg_ex j2 ls, q) =
      ((areg_ex j2 ls, aqueue_ex [(zeros 32, aentry_ex (zeros 16) 1000 1100 statusApproved)]), [])" for ls q
    using r restart_ex [of j2 "of_unix 1015"] by (simp add: arb_exec_def areg_ex_def)
  have 4: "\<exists>s'. arb_exec asha_ex aedv_ex (aqueue_ex []) (of_unix 1020, ATake ''a'' ''x'')
      (areg_ex j2 ls, aqueue_ex [(zeros 32, aentry_ex (zeros 16) 1000 1100 statusApproved)]) =
      (s', [Admitted (zeros 32) (zeros 16) (of_unix 1020)])" for ls
    using take_ex [of 1020 1100 j2 ls "zeros 16" 1000]
    by (auto simp: arb_exec_def intent_ex ticket_of_def aqueue_ex_fields aentry_ex_def of_unix_def second_def)
  from 4 [of l2] obtain s' where 4: "arb_exec asha_ex aedv_ex (aqueue_ex []) (of_unix 1020, ATake ''a'' ''x'')
      (areg_ex j2 l2, aqueue_ex [(zeros 32, aentry_ex (zeros 16) 1000 1100 statusApproved)]) =
      (s', [Admitted (zeros 32) (zeros 16) (of_unix 1020)])" by blast
  show ?thesis unfolding aops_ex_def aevents_ex_def by (simp only: arb_run.simps 1 [folded l1_def] 2 3 4 prod.case append.simps) simp
qed

theorem decision_admits_once_witness:
  "\<exists>expiry sig pub. Signed (zeros 32) (zeros 16) expiry sig \<in> set (take 2 aevents_ex) \<and> of_unix 1020 < expiry \<and>
     pub \<in> set (qu_keys (aqueue_ex [])) \<and> aedv_ex pub (DecisionMessage ''c'' (zeros 32) (zeros 16) VerdictApprove expiry) sig"
proof -
  obtain s' where run: "arb_run asha_ex aedv_ex (aqueue_ex []) (areg_ex [] [], aqueue_ex []) aops_ex = (aevents_ex, s')" using aops_ex_run by blast
  have "list_all (\<lambda>(now, op). arb_op_ok op) aops_ex" by (simp add: aops_ex_def int64_def)
  moreover have "distinct (drawn aops_ex)" by (simp add: aops_ex_def drawn_def)
  moreover have "rg_journal (areg_ex [] []) = Some []" by (simp add: areg_ex_def)
  moreover have "length (asha_ex b) = 32" for b by (simp add: asha_ex_def)
  ultimately have "\<forall>n i t now. n < length aevents_ex \<and> aevents_ex ! n = Admitted i t now \<longrightarrow>
       (\<exists>expiry sig pub. Signed i t expiry sig \<in> set (take n aevents_ex) \<and> now < expiry \<and> pub \<in> set (qu_keys (aqueue_ex [])) \<and>
          aedv_ex pub (DecisionMessage (qu_cellID (aqueue_ex [])) i t VerdictApprove expiry) sig)"
    using decision_admits_once [OF _ aqueue_ex_new _ _ _ run] by blast
  from this [rule_format, of 2 "zeros 32" "zeros 16" "of_unix 1020"] show ?thesis by (simp add: aevents_ex_def aqueue_ex_fields)
qed


end
