(* ===== verification/Degradation.thy ===== *)
theory Degradation
  imports Arbiter Broker_Registry
begin

text \<open>
  Controlled degradation of the translator (\<open>src/src/translator/degradation.go\<close>) and the guard that puts
  it in front of the broker (\<open>controllerGate\<close> of \<open>src/src/broker/cmd/brokerd/translator_guard.go\<close>), over
  the queue of human arbitration.

  The probe and the mirror cell are interfaces of the code: the answer of each is an argument, \<open>None\<close>
  for a mirror that is not configured.  The arbitration is an interface too; its operations are the fields of
  the record \<open>arbitration_ops\<close>, and the locale \<open>arbitration\<close> states what the controller relies on.
\<close>

subsection \<open>Modes\<close>

datatype TranslatorMode = ModeNormal | ModeMirrorFailover | ModeHumanEscalation | ModeDefaultDeny

fun tmode_String :: "TranslatorMode \<Rightarrow> string" where
  "tmode_String ModeNormal = ''normal''"
| "tmode_String ModeMirrorFailover = ''mirror-failover''"
| "tmode_String ModeHumanEscalation = ''human-escalation''"
| "tmode_String ModeDefaultDeny = ''default-deny''"

datatype degraded_error = ErrDegradedMode | ErrDefaultDeny | ErrPendingArbitration

definition ReasonDown :: string where "ReasonDown = ''translator-down''"
definition ReasonNLRejected :: string where "ReasonNLRejected = ''nl-rejected-degraded''"
definition ReasonDefaultDeny :: string where "ReasonDefaultDeny = ''translator-default-deny''"
definition ReasonLeafWriteErr :: string where "ReasonLeafWriteErr = ''translator-leaf-write-failed''"

lemmas degraded_reasons = ReasonDown_def ReasonNLRejected_def ReasonDefaultDeny_def ReasonLeafWriteErr_def

datatype SystemClass = SystemStandard | SystemCritical

record System =
  sy_ID :: string
  sy_Class :: SystemClass

record Input =
  in_JTI :: bytes
  in_Natural :: bool
  in_Payload :: bytes

record Controller =
  ct_cellID :: string
  ct_salt :: bytes
  ct_up :: bool
  ct_downSince :: time
  ct_episode :: bool

definition NewController :: "string \<Rightarrow> bytes \<Rightarrow> time \<Rightarrow> Controller option" where
  "NewController cellID salt now =
     (if cellID = [] then None
      else if length salt < 16 then None
      else Some \<lparr>ct_cellID = cellID, ct_salt = salt, ct_up = False, ct_downSince = now, ct_episode = False\<rparr>)"

subsection \<open>Records\<close>

definition maxRecordDetailLen :: nat where "maxRecordDetailLen = 512"
definition maxRecordSystemLen :: nat where "maxRecordSystemLen = 255"

definition recordDown :: "string \<Rightarrow> bytes" where
  "recordDown detail = ''TBTD1'' @ [byte 1] @ lp 2 (take maxRecordDetailLen detail)"

definition recordRecovered :: bytes where
  "recordRecovered = ''TBTD1'' @ [byte 2]"

definition recordRequest :: "nat \<Rightarrow> bytes \<Rightarrow> string \<Rightarrow> bytes" where
  "recordRequest action jti systemID = ''TBTD1'' @ [byte action] @ jti @ lp 1 (take maxRecordSystemLen systemID)"

definition recordNLRejected :: "bytes \<Rightarrow> string \<Rightarrow> bytes" where "recordNLRejected = recordRequest 3"
definition recordEscalated :: "bytes \<Rightarrow> string \<Rightarrow> bytes" where "recordEscalated = recordRequest 4"
definition recordDefaultDeny :: "bytes \<Rightarrow> string \<Rightarrow> bytes" where "recordDefaultDeny = recordRequest 5"

definition ct_writeLeaf :: "(bytes \<Rightarrow> bytes) \<Rightarrow> registry \<Rightarrow> Controller \<Rightarrow> bytes \<Rightarrow> time \<Rightarrow> registry \<times> string list" where
  "ct_writeLeaf sha r c rec lnow =
     (case AppendLeaf sha r KindTelemetry (ct_cellID c) (ct_salt c) rec (unix_nano lnow) of
        (r', Inl _) \<Rightarrow> (r', [ReasonLeafWriteErr]) | (r', Inr _) \<Rightarrow> (r', []))"

subsection \<open>Health\<close>

text \<open>\<open>probe\<close> is the error text of the probe, if any; the result tells whether the check succeeded.\<close>

definition CheckHealth ::
  "(bytes \<Rightarrow> bytes) \<Rightarrow> registry \<Rightarrow> Controller \<Rightarrow> string option \<Rightarrow> time \<Rightarrow> time \<Rightarrow> registry \<times> Controller \<times> string list \<times> bool" where
  "CheckHealth sha r c probe now lnow =
     (case probe of
        Some err \<Rightarrow>
          if ct_up c \<or> \<not> ct_episode c
          then let c' = c\<lparr>ct_up := False, ct_downSince := now, ct_episode := True\<rparr>
               in (case ct_writeLeaf sha r c' (recordDown err) lnow of (r', al) \<Rightarrow> (r', c', al @ [ReasonDown], False))
          else (r, c, [], False)
      | None \<Rightarrow>
          if \<not> ct_up c
          then let c' = c\<lparr>ct_up := True, ct_episode := False\<rparr>
               in (case ct_writeLeaf sha r c' recordRecovered lnow of (r', al) \<Rightarrow> (r', c', al, True))
          else (r, c, [], True))"

definition ct_State :: "Controller \<Rightarrow> bool \<times> time" where
  "ct_State c = (ct_up c, ct_downSince c)"

subsection \<open>Admission\<close>

definition ModeFor :: "Controller \<Rightarrow> System \<Rightarrow> bool option \<Rightarrow> bool option \<Rightarrow> TranslatorMode" where
  "ModeFor c sys mirror reachable =
     (if ct_up c then ModeNormal
      else if sy_Class sys = SystemCritical \<and> mirror = Some True then ModeMirrorFailover
      else if sy_Class sys = SystemStandard \<and> reachable = Some True then ModeHumanEscalation
      else ModeDefaultDeny)"

text \<open>The arbitration seen by the controller: whether an arbiter is reachable, and how a request is
  handed over.\<close>

record 's arbitration_ops =
  ar_reachable :: "'s \<Rightarrow> bool"
  ar_enqueue :: "registry \<Rightarrow> 's \<Rightarrow> string \<Rightarrow> bytes \<Rightarrow> registry \<times> 's \<times> string list \<times> bool"

definition ct_Accept ::
  "(bytes \<Rightarrow> bytes) \<Rightarrow> 's arbitration_ops option \<Rightarrow> registry \<Rightarrow> 's \<Rightarrow> Controller \<Rightarrow> bool option \<Rightarrow> System \<Rightarrow> Input \<Rightarrow> time
     \<Rightarrow> registry \<times> 's \<times> string list \<times> degraded_error option" where
  "ct_Accept sha arb r s c mirror sys i lnow =
     (let mode = ModeFor c sys mirror (map_option (\<lambda>a. ar_reachable a s) arb);
          reject = (\<lambda>r s rec reason err. case ct_writeLeaf sha r c rec lnow of (r', al) \<Rightarrow> (r', s, al @ [reason], Some err))
      in if mode = ModeNormal then (r, s, [], None)
         else if in_Natural i then reject r s (recordNLRejected (in_JTI i) (sy_ID sys)) ReasonNLRejected ErrDegradedMode
         else case mode of
           ModeMirrorFailover \<Rightarrow> (r, s, [], None)
         | ModeHumanEscalation \<Rightarrow>
             (case ar_enqueue (the arb) r s (sy_ID sys) (in_Payload i) of
                (r1, s1, al1, False) \<Rightarrow>
                  (case reject r1 s1 (recordDefaultDeny (in_JTI i) (sy_ID sys)) ReasonDefaultDeny ErrDefaultDeny of
                     (r2, s2, al2, e) \<Rightarrow> (r2, s2, al1 @ al2, e))
              | (r1, s1, al1, True) \<Rightarrow>
                  (case ct_writeLeaf sha r1 c (recordEscalated (in_JTI i) (sy_ID sys)) lnow of
                     (r2, al2) \<Rightarrow> (r2, s1, al1 @ al2, Some ErrPendingArbitration)))
         | _ \<Rightarrow> reject r s (recordDefaultDeny (in_JTI i) (sy_ID sys)) ReasonDefaultDeny ErrDefaultDeny)"

subsection \<open>What the controller decides\<close>

lemma Accept_admits:
  "ct_Accept sha arb r s c mirror sys i lnow = (r', s', al, None) \<longleftrightarrow>
     (r', s', al) = (r, s, []) \<and> (ct_up c \<or> \<not> in_Natural i \<and> sy_Class sys = SystemCritical \<and> mirror = Some True)"
  by (cases "sy_Class sys")
    (auto simp: ct_Accept_def ModeFor_def Let_def split: prod.splits option.splits bool.splits if_splits)

lemma Accept_pending:
  assumes "ct_Accept sha arb r s c mirror sys i lnow = (r', s', al, Some ErrPendingArbitration)"
  shows "\<exists>a r1 al1. arb = Some a \<and> ar_reachable a s \<and> \<not> ct_up c \<and> \<not> in_Natural i \<and> sy_Class sys = SystemStandard \<and>
    ar_enqueue a r s (sy_ID sys) (in_Payload i) = (r1, s', al1, True)"
  using assms
  by (cases arb; cases "sy_Class sys")
    (auto simp: ct_Accept_def ModeFor_def Let_def split: prod.splits option.splits bool.splits if_splits)

text \<open>The contract of the arbitration: a request handed over is waiting for its decision, and a request
  it does not take leaves nobody waiting who was not.\<close>

locale arbitration =
  fixes ops :: "'s arbitration_ops" and waiting :: "'s \<Rightarrow> string \<Rightarrow> bytes \<Rightarrow> bool" and inv :: "'s \<Rightarrow> bool"
  assumes handed_over: "inv s \<Longrightarrow> ar_enqueue ops r s subject payload = (r', s', al, True) \<Longrightarrow> waiting s' subject payload"
    and declined: "inv s \<Longrightarrow> ar_enqueue ops r s subject payload = (r', s', al, False) \<Longrightarrow> waiting s' x p \<Longrightarrow> waiting s x p"
    and keeps: "inv s \<Longrightarrow> ar_enqueue ops r s subject payload = (r', s', al, ok) \<Longrightarrow> inv s'"
begin

lemma pending_waits:
  "inv s \<Longrightarrow> ct_Accept sha (Some ops) r s c mirror sys i lnow = (r', s', al, Some ErrPendingArbitration) \<Longrightarrow>
     waiting s' (sy_ID sys) (in_Payload i)"
  by (auto dest!: Accept_pending intro: handed_over)

lemma others_do_not:
  assumes "inv s" "ct_Accept sha (Some ops) r s c mirror sys i lnow = (r', s', al, e)" "e \<noteq> Some ErrPendingArbitration" "waiting s' x p"
  shows "waiting s x p"
  using assms(2-4) declined [OF assms(1)]
  by (cases "sy_Class sys")
    (fastforce simp: ct_Accept_def ModeFor_def Let_def split: prod.splits bool.splits if_splits)+

lemma keeps_inv: "inv s \<Longrightarrow> ct_Accept sha (Some ops) r s c mirror sys i lnow = (r', s', al, e) \<Longrightarrow> inv s'"
  using keeps [of s]
  by (cases "sy_Class sys")
    (fastforce simp: ct_Accept_def ModeFor_def Let_def split: prod.splits bool.splits if_splits)+

end

text \<open>The queue is the arbitration the daemon wires in: the instants are those its clock reads in the
  two calls, the ticket the one it draws.\<close>

definition queue_ops :: "(bytes \<Rightarrow> bytes) \<Rightarrow> time \<Rightarrow> bytes option \<Rightarrow> time \<Rightarrow> Queue arbitration_ops" where
  "queue_ops sha rnow ticket enow =
     \<lparr>ar_reachable = (\<lambda>q. arb_Reachable q rnow),
      ar_enqueue = (\<lambda>r q subject payload. case Enqueue sha r q subject payload ticket enow of
         (r', q', al, res) \<Rightarrow> (r', q', al, \<not> isl res))\<rparr>"

definition awaits :: "(bytes \<Rightarrow> bytes) \<Rightarrow> Queue \<Rightarrow> string \<Rightarrow> bytes \<Rightarrow> bool" where
  "awaits sha q subject payload =
     (case map_of (qu_entries q) (IntentID sha subject payload) of None \<Rightarrow> False | Some e \<Rightarrow> ae_status e = statusPending)"

lemma prune_awaits: "wf_map (qu_entries q) \<Longrightarrow> awaits sha (arb_prune q now) x p \<Longrightarrow> awaits sha q x p"
  by (auto simp: awaits_def arb_prune_def lookup_filter split: option.splits if_splits)

lemma prune_wf: "wf_map (qu_entries q) \<Longrightarrow> wf_map (qu_entries (arb_prune q now))"
  by (simp add: arb_prune_def wf_map_filter)

interpretation human: arbitration "queue_ops sha rnow ticket enow" "awaits sha" "\<lambda>q. wf_map (qu_entries q)" for sha rnow ticket enow
proof
  fix r and q :: Queue and subject payload r' q' al x p and ok :: bool
  assume wf: "wf_map (qu_entries q)"
  show "awaits sha q' subject payload" if "ar_enqueue (queue_ops sha rnow ticket enow) r q subject payload = (r', q', al, True)"
    using that unfolding queue_ops_def
    by (auto simp: awaits_def Enqueue_def Let_def split: prod.splits if_splits option.splits bool.splits)
  show "awaits sha q x p" if "ar_enqueue (queue_ops sha rnow ticket enow) r q subject payload = (r', q', al, False)" "awaits sha q' x p"
    using that prune_awaits [OF wf] unfolding queue_ops_def
    by (auto simp: Enqueue_def Let_def split: prod.splits if_splits option.splits bool.splits)
  show "wf_map (qu_entries q')" if "ar_enqueue (queue_ops sha rnow ticket enow) r q subject payload = (r', q', al, ok)"
    using that wf prune_wf [OF wf, of enow] unfolding queue_ops_def
    by (auto simp: Enqueue_def Let_def split: prod.splits if_splits option.splits bool.splits)
qed

subsection \<open>The guard in front of the broker\<close>

text \<open>What one call of \<open>Admit\<close> meets: the random bytes drawn for its record (\<open>None\<close> when the
  generator fails), the answers of the mirror cell, and the instants read by the queue and the controller.\<close>

record admit_env =
  ad_jti :: "bytes option"
  ad_mirror :: "bool option"
  ad_tnow :: time
  ad_rnow :: time
  ad_ticket :: "bytes option"
  ad_enow :: time
  ad_lnow :: time

definition hex_id :: "(bytes \<Rightarrow> bytes) \<Rightarrow> string \<Rightarrow> string \<Rightarrow> string" where
  "hex_id sha subject intent = hex_encode (IntentID sha subject intent)"

definition gate_class :: "(string \<Rightarrow> bool) option \<Rightarrow> string \<Rightarrow> SystemClass" where
  "gate_class critical subject = (if critical \<noteq> None \<and> the critical subject then SystemCritical else SystemStandard)"

definition accept_error :: "(bytes \<Rightarrow> bytes) \<Rightarrow> string \<Rightarrow> string \<Rightarrow> degraded_error \<Rightarrow> translate_error" where
  "accept_error sha subject intent e =
     (if e = ErrPendingArbitration then PendingArbitration (hex_id sha subject intent) else TranslationFailed None)"

definition gate_accept ::
  "(bytes \<Rightarrow> bytes) \<Rightarrow> (string \<Rightarrow> bool) option \<Rightarrow> admit_env \<Rightarrow> Controller \<Rightarrow> registry \<Rightarrow> Queue option \<Rightarrow> string \<Rightarrow> bool \<Rightarrow> string \<Rightarrow> bytes
     \<Rightarrow> registry \<times> Queue option \<times> string list \<times> translate_error option" where
  "gate_accept sha critical env c r arb subject natural intent jti =
     (let sys = \<lparr>sy_ID = subject, sy_Class = gate_class critical subject\<rparr>;
          i = \<lparr>in_JTI = jti, in_Natural = natural, in_Payload = intent\<rparr>
      in case arb of
        None \<Rightarrow> (case ct_Accept sha None r () c (ad_mirror env) sys i (ad_lnow env) of
                  (r', _, al, e) \<Rightarrow> (r', None, al, map_option (accept_error sha subject intent) e))
      | Some q \<Rightarrow> (case ct_Accept sha (Some (queue_ops sha (ad_rnow env) (ad_ticket env) (ad_enow env))) r q c (ad_mirror env) sys i (ad_lnow env) of
                  (r', q', al, e) \<Rightarrow> (r', Some q', al, map_option (accept_error sha subject intent) e)))"

definition gate_Admit ::
  "(bytes \<Rightarrow> bytes) \<Rightarrow> (string \<Rightarrow> bool) option \<Rightarrow> admit_env \<Rightarrow> Controller \<Rightarrow> registry \<Rightarrow> Queue option \<Rightarrow> string \<Rightarrow> bool \<Rightarrow> string
     \<Rightarrow> registry \<times> Queue option \<times> string list \<times> translate_error option" where
  "gate_Admit sha critical env c r arb subject natural intent =
     (case ad_jti env of None \<Rightarrow> (r, arb, [], Some (TranslationFailed None))
      | Some jti \<Rightarrow>
        if arb \<noteq> None \<and> gate_class critical subject = SystemStandard \<and> \<not> natural \<and> \<not> fst (ct_State c)
        then (case Take sha r (the arb) subject intent (ad_tnow env) of
                (r1, q1, al1, Inl _) \<Rightarrow> (r1, Some q1, al1, Some (TranslationFailed None))
              | (r1, q1, al1, Inr OutcomeApproved) \<Rightarrow> (r1, Some q1, al1, None)
              | (r1, q1, al1, Inr OutcomeRefused) \<Rightarrow> (r1, Some q1, al1, Some ArbitrationRefused)
              | (r1, q1, al1, Inr OutcomePending) \<Rightarrow> (r1, Some q1, al1, Some (PendingArbitration (hex_id sha subject intent)))
              | (r1, q1, al1, Inr OutcomeNone) \<Rightarrow>
                  (case gate_accept sha critical env c r1 (Some q1) subject natural intent jti of
                     (r2, arb2, al2, e) \<Rightarrow> (r2, arb2, al1 @ al2, e)))
        else gate_accept sha critical env c r arb subject natural intent jti)"

text \<open>The classes F, I and W are the critical systems; an unknown subject is a standard one.\<close>

definition systemClassOf :: "StaticAgentRegistry \<Rightarrow> string \<Rightarrow> bool" where
  "systemClassOf reg subject =
     (case agent_Resolve reg subject of None \<Rightarrow> False | Some a \<Rightarrow> ag_Class a = ClassF \<or> ag_Class a = ClassI \<or> ag_Class a = ClassW)"

lemma gate_accept_admits:
  assumes "gate_accept sha critical env c r arb subject natural intent jti = (r', arb', al, None)"
  shows "(r', arb', al) = (r, arb, []) \<and>
    (ct_up c \<or> \<not> natural \<and> gate_class critical subject = SystemCritical \<and> ad_mirror env = Some True)"
  using assms by (auto simp: gate_accept_def Let_def Accept_admits split: option.splits prod.splits)

lemma Accept_open:
  "ct_up c \<or> \<not> in_Natural i \<and> sy_Class sys = SystemCritical \<and> mirror = Some True \<Longrightarrow>
     ct_Accept sha arb r s c mirror sys i lnow = (r, s, [], None)"
  by (simp add: Accept_admits)

lemma gate_accept_complete:
  assumes "ct_up c \<or> \<not> natural \<and> gate_class critical subject = SystemCritical \<and> ad_mirror env = Some True"
  shows "gate_accept sha critical env c r arb subject natural intent jti = (r, arb, [], None)"
  using assms by (cases arb) (simp_all add: gate_accept_def Accept_open)

lemma gate_accept_admits_iff:
  "gate_accept sha critical env c r arb subject natural intent jti = (r', arb', al, None) \<longleftrightarrow>
    (r', arb', al) = (r, arb, []) \<and>
    (ct_up c \<or> \<not> natural \<and> gate_class critical subject = SystemCritical \<and> ad_mirror env = Some True)"
  using gate_accept_admits gate_accept_complete by (metis prod.inject)

lemma gate_accept_result:
  "gate_accept sha critical env c r arb subject natural intent jti = (r', arb', al, res) \<Longrightarrow>
    res = None \<longleftrightarrow> ct_up c \<or> \<not> natural \<and> gate_class critical subject = SystemCritical \<and> ad_mirror env = Some True"
  using gate_accept_admits_iff [of sha critical env c r arb subject natural intent jti r' arb' al]
    gate_accept_complete [of c natural critical subject env sha r arb intent jti] by auto

lemma prune_live:
  "wf_map (qu_entries q) \<Longrightarrow> map_of (qu_entries (arb_prune q now)) i = Some e \<longleftrightarrow> map_of (qu_entries q) i = Some e \<and> now < ae_expires e"
  by (auto simp: arb_prune_def lookup_filter split: option.splits)

text \<open>A live approval: it has not expired, and its consumption can be put on record.\<close>

definition approval_consumed :: "(bytes \<Rightarrow> bytes) \<Rightarrow> registry \<Rightarrow> Queue \<Rightarrow> bytes \<Rightarrow> time \<Rightarrow> bool" where
  "approval_consumed sha r q i now =
     (case map_of (qu_entries q) i of None \<Rightarrow> False
      | Some e \<Rightarrow> ae_status e = statusApproved \<and> now < ae_expires e \<and>
          snd (snd (arb_leaf sha r (arb_prune q now) (arb_record actConsume i (ae_ticket e) (ae_subject e) (ae_by e) 0 (ae_expires e)) now)))"

lemma Take_approved_iff:
  assumes "wf_map (qu_entries q)" "Take sha r q subject intent now = (r', q', al, res)"
  shows "res = Inr OutcomeApproved \<longleftrightarrow> approval_consumed sha r q (IntentID sha subject intent) now"
proof -
  let ?i = "IntentID sha subject intent"
  note live = prune_live [OF assms(1), of now ?i]
  show ?thesis
  proof (cases "map_of (qu_entries (arb_prune q now)) ?i")
    case None
    then have "\<not> approval_consumed sha r q ?i now" using live by (auto simp: approval_consumed_def split: option.splits)
    then show ?thesis using assms(2) None by (auto simp: Take_def Let_def)
  next
    case (Some e)
    then have "map_of (qu_entries q) ?i = Some e" "now < ae_expires e" using live by auto
    then show ?thesis using assms(2) Some
      by (cases "ae_status e") (auto simp: approval_consumed_def Take_def Let_def split: prod.splits bool.splits)
  qed
qed

text \<open>C17: admission while the translator is down.  A request is let through the guard exactly when it is in
  the structured language and either its subject is a critical system and the mirror cell is available, or
  its subject is a standard system and an approval of the arbiter, still valid, is consumed for it.  Natural
  language never passes, and a critical system never passes by arbitration.\<close>

theorem degraded_admission_iff:
  assumes "\<not> ct_up c" "list_all (\<lambda>q. wf_map (qu_entries q)) (case arb of None \<Rightarrow> [] | Some q \<Rightarrow> [q])"
    and "gate_Admit sha critical env c r arb subject natural intent = (r', arb', al, res)"
  shows "res = None \<longleftrightarrow> ad_jti env \<noteq> None \<and> \<not> natural \<and>
    (case gate_class critical subject of
       SystemCritical \<Rightarrow> ad_mirror env = Some True
     | SystemStandard \<Rightarrow> (case arb of None \<Rightarrow> False | Some q \<Rightarrow> approval_consumed sha r q (IntentID sha subject intent) (ad_tnow env)))"
proof (cases "\<exists>jti q. ad_jti env = Some jti \<and> arb = Some q \<and> gate_class critical subject = SystemStandard \<and> \<not> natural")
  case True
  then obtain jti q where jti: "ad_jti env = Some jti" and q: "arb = Some q" and
    std: "gate_class critical subject = SystemStandard" and n: "\<not> natural" by blast
  obtain r1 q1 al1 out where t: "Take sha r q subject intent (ad_tnow env) = (r1, q1, al1, out)" by (cases "Take sha r q subject intent (ad_tnow env)")
  have "res = None \<longleftrightarrow> out = Inr OutcomeApproved"
    using assms(1,3) jti q std n t
    by (cases out; cases "projr out")
      (auto simp: gate_Admit_def ct_State_def split: prod.splits dest: gate_accept_result)
  with Take_approved_iff [OF _ t] jti q std n assms(2) show ?thesis by simp
next
  case False
  then show ?thesis using assms(1,3)
    by (cases "ad_jti env"; cases arb; cases "gate_class critical subject"; cases natural)
      (auto simp: gate_Admit_def dest: gate_accept_result)
qed

definition ctrl_ex :: Controller where
  "ctrl_ex = \<lparr>ct_cellID = ''c'', ct_salt = zeros 16, ct_up = False, ct_downSince = of_unix 1000, ct_episode = True\<rparr>"

definition admit_ex :: admit_env where
  "admit_ex = \<lparr>ad_jti = Some (zeros 16), ad_mirror = None, ad_tnow = of_unix 1020, ad_rnow = of_unix 1020, ad_ticket = None,
     ad_enow = of_unix 1020, ad_lnow = of_unix 1020\<rparr>"

theorem degraded_admission_iff_witness:
  "\<not> ct_up ctrl_ex \<and> approval_consumed asha_ex (areg_ex [] []) (aqueue_ex [(zeros 32, aentry_ex (zeros 16) 1000 1100 statusApproved)])
      (IntentID asha_ex ''a'' ''x'') (of_unix 1020) \<and>
   snd (snd (snd (gate_Admit asha_ex None admit_ex ctrl_ex (areg_ex [] [])
      (Some (aqueue_ex [(zeros 32, aentry_ex (zeros 16) 1000 1100 statusApproved)])) ''a'' False ''x''))) = None"
proof -
  let ?q = "aqueue_ex [(zeros 32, aentry_ex (zeros 16) 1000 1100 statusApproved)]"
  obtain r' arb' al res where run: "gate_Admit asha_ex None admit_ex ctrl_ex (areg_ex [] []) (Some ?q) ''a'' False ''x'' = (r', arb', al, res)"
    by (metis prod.exhaust_sel)
  have wf: "wf_map (qu_entries ?q)" by (simp add: aqueue_ex_fields wf_map_def)
  obtain r1 where "Take asha_ex (areg_ex [] []) ?q ''a'' ''x'' (of_unix 1020) = (r1, aqueue_ex [], [], Inr OutcomeApproved)"
    using take_ex [of 1020 1100 "[]" "[]" "zeros 16" 1000] by auto
  with Take_approved_iff [OF wf] have a: "approval_consumed asha_ex (areg_ex [] []) ?q (IntentID asha_ex ''a'' ''x'') (of_unix 1020)" by blast
  have "res = None"
    using degraded_admission_iff [OF _ _ run] wf a by (simp add: ctrl_ex_def admit_ex_def gate_class_def)
  with a run show ?thesis by (simp add: ctrl_ex_def)
qed

subsection \<open>Episodes\<close>

text \<open>The supervision loop: one probe after the other.\<close>

fun health_run ::
  "(bytes \<Rightarrow> bytes) \<Rightarrow> registry \<Rightarrow> Controller \<Rightarrow> (string option \<times> time \<times> time) list \<Rightarrow> registry \<times> Controller \<times> string list" where
  "health_run sha r c [] = (r, c, [])"
| "health_run sha r c ((probe, now, lnow) # ps) =
     (case CheckHealth sha r c probe now lnow of
        (r1, c1, al1, _) \<Rightarrow> (case health_run sha r1 c1 ps of (r2, c2, al2) \<Rightarrow> (r2, c2, al1 @ al2)))"

text \<open>The reference: how many runs of failing probes there are, given whether the one before failed.\<close>

fun episodes :: "bool \<Rightarrow> (string option \<times> time \<times> time) list \<Rightarrow> nat" where
  "episodes failing [] = 0"
| "episodes failing ((probe, _, _) # ps) =
     (if probe \<noteq> None \<and> \<not> failing then Suc (episodes True ps) else episodes (probe \<noteq> None) ps)"

text \<open>When the last run of failures began, if it is still running.\<close>

fun failing_since :: "time option \<Rightarrow> (string option \<times> time \<times> time) list \<Rightarrow> time option" where
  "failing_since since [] = since"
| "failing_since since ((probe, now, _) # ps) =
     failing_since (if probe = None then None else Some (case since of None \<Rightarrow> now | Some t \<Rightarrow> t)) ps"

lemma writeLeaf_alarms: "ct_writeLeaf sha r c rec lnow = (r', al) \<Longrightarrow> count_list al ReasonDown = 0"
  by (auto simp: ct_writeLeaf_def degraded_reasons split: prod.splits sum.splits)

text \<open>The controller between two probes: it is up, or it has recorded the failure it is in; only at boot is
  it down without an episode.\<close>

definition health_rel :: "time option \<Rightarrow> Controller \<Rightarrow> bool" where
  "health_rel since c \<longleftrightarrow> (case since of None \<Rightarrow> \<not> ct_episode c | Some t \<Rightarrow> \<not> ct_up c \<and> ct_episode c \<and> ct_downSince c = t)"

lemma CheckHealth_step:
  assumes "CheckHealth sha r c probe now lnow = (r', c', al, ok)" "health_rel since c"
  shows "health_rel (if probe = None then None else Some (case since of None \<Rightarrow> now | Some t \<Rightarrow> t)) c'"
    and "count_list al ReasonDown = (if probe \<noteq> None \<and> since = None then 1 else 0)"
    and "ok \<longleftrightarrow> probe = None" and "ct_up c' \<longleftrightarrow> probe = None"
  using assms writeLeaf_alarms
  by (auto simp: CheckHealth_def health_rel_def Let_def count_list_append split: option.splits if_splits prod.splits)

lemma health_run_rel:
  assumes "health_run sha r c ps = (r', c', al)" "health_rel since c"
  shows "health_rel (failing_since since ps) c' \<and> count_list al ReasonDown = episodes (since \<noteq> None) ps \<and>
    (ps \<noteq> [] \<longrightarrow> (ct_up c' \<longleftrightarrow> fst (last ps) = None))"
  using assms
proof (induction ps arbitrary: r c since al)
  case Nil
  then show ?case by simp
next
  case (Cons p ps)
  obtain probe now lnow where p: "p = (probe, now, lnow)" by (cases p)
  obtain r1 c1 al1 ok where 1: "CheckHealth sha r c probe now lnow = (r1, c1, al1, ok)"
    by (cases "CheckHealth sha r c probe now lnow") auto
  obtain al2 where 2: "health_run sha r1 c1 ps = (r', c', al2)" "al = al1 @ al2"
    using Cons.prems(1) p 1 by (auto split: prod.splits)
  note step = CheckHealth_step [OF 1 Cons.prems(2)]
  show ?case
    using Cons.IH [OF 2(1) step(1)] step(2,4) 2 p
    by (cases "probe = None"; cases since; cases ps) (auto simp: count_list_append)
qed

lemma failing_since_None: "ps \<noteq> [] \<Longrightarrow> failing_since since ps = None \<longleftrightarrow> fst (last ps) = None"
proof (induction ps arbitrary: since)
  case (Cons p ps)
  then show ?case by (cases p; cases ps) simp_all
qed simp

text \<open>the failures of the translator are neither silent nor repeated.  Over any sequence of probes from
  the start, the controller raises one alarm per uninterrupted run of failing probes, the one at boot
  included; after each probe it is up exactly when the last probe succeeded, and while it is down it knows when
  the current run of failures began.\<close>

lemma one_alarm_per_episode:
  assumes "NewController cellID salt now = Some c" "ps \<noteq> []" "health_run sha r c ps = (r', c', al)"
  shows "count_list al ReasonDown = episodes False ps \<and> (fst (ct_State c') \<longleftrightarrow> fst (last ps) = None) \<and>
    failing_since None ps = (if fst (ct_State c') then None else Some (snd (ct_State c')))"
proof -
  have "health_rel None c" using assms(1) by (auto simp: NewController_def health_rel_def split: if_splits)
  from health_run_rel [OF assms(3) this] assms(2) failing_since_None [OF assms(2), of None] show ?thesis
    by (auto simp: health_rel_def ct_State_def split: option.splits)
qed

definition probes_ex :: "(string option \<times> time \<times> time) list" where
  "probes_ex = [(Some ''refused'', 10, 10), (Some ''refused'', 20, 20), (None, 30, 30), (Some ''refused'', 40, 40), (Some ''refused'', 50, 50)]"

end
