(* ===== verification/Mirror_Cell.thy ===== *)
theory Mirror_Cell
  imports Degradation Cluster_Promotion
begin

text \<open>
  The mirror cell in front of the degraded translator (\<open>mirrorGate\<close> of
  \<open>src/src/broker/cmd/brokerd/mirror.go\<close>): a promotion decided on the anchors of the controllers opens the
  deterministic path of the critical systems for the epoch of the promotion and inside the window anchored for
  it; after a restart the promotion is taken from the journal, against the anchors of the day.

  The anchor file is read at each lookup: what each of the lookups finds is an argument.  The strict decoding
  of the file of keys is the parameter \<open>decode\<close>, JSON and RFC 3339 are those of \<open>p_codec\<close>.
\<close>

subsection \<open>Keys of the candidate cells\<close>

definition cell_key :: "string \<times> string \<Rightarrow> (string \<times> bytes) option" where
  "cell_key x = (case x of (i, h) \<Rightarrow>
     (case hex_decode h of None \<Rightarrow> None | Some pub \<Rightarrow> if i = [] \<or> length pub \<noteq> PublicKeySize then None else Some (i, pub)))"

definition parseMirrorCellKeys :: "(bytes \<Rightarrow> (string, string) gomap option) \<Rightarrow> bytes \<Rightarrow> (string, bytes) gomap option" where
  "parseMirrorCellKeys decode data =
     (case decode data of None \<Rightarrow> None | Some raw \<Rightarrow> if length raw = 0 then None else those (map cell_key raw))"

definition loadMirrorCellKeys :: "(bytes \<Rightarrow> (string, string) gomap option) \<Rightarrow> bytes option \<Rightarrow> (string, bytes) gomap option" where
  "loadMirrorCellKeys decode file =
     (case file of None \<Rightarrow> None | Some data \<Rightarrow> if length data > 65536 then None else parseMirrorCellKeys decode data)"

subsection \<open>The gate\<close>

record mirrorGate =
  mg_self :: string
  mg_salt :: bytes
  mg_keys :: "(string, bytes) gomap"
  mg_ctl :: PromotionController
  mg_src :: FileAnchorSource
  mg_cell :: string
  mg_epoch :: u64
  mg_end :: time

definition newMirrorGate ::
  "(bytes \<Rightarrow> (string, string) gomap option) \<Rightarrow> bytes option \<Rightarrow> string \<Rightarrow> string \<Rightarrow> bytes \<Rightarrow> (int, bytes) gomap \<Rightarrow> int \<Rightarrow> mirrorGate option" where
  "newMirrorGate decode file anchorsFile self salt controllers quorum =
     (case loadMirrorCellKeys decode file of None \<Rightarrow> None
      | Some keys \<Rightarrow>
        if map_of keys self \<noteq> None then None
        else case NewFileAnchorSource anchorsFile controllers quorum of None \<Rightarrow> None
        | Some src \<Rightarrow>
          (case NewPromotionController self salt keys of None \<Rightarrow> None
           | Some ctl \<Rightarrow> Some \<lparr>mg_self = self, mg_salt = salt, mg_keys = keys, mg_ctl = ctl, mg_src = src,
               mg_cell = [], mg_epoch = 0, mg_end = zero_time\<rparr>))"

record mirrorStatus =
  ms_Available :: bool
  ms_Cell :: string
  ms_Epoch :: u64
  ms_WindowEnd :: "time option"

text \<open>\<open>cur\<close> is what the epoch provider answers, \<open>None\<close> for an error.\<close>

definition mg_Status :: "mirrorGate \<Rightarrow> u64 option \<Rightarrow> time \<Rightarrow> mirrorStatus" where
  "mg_Status g cur now =
     (if mg_cell g = [] then \<lparr>ms_Available = False, ms_Cell = [], ms_Epoch = 0, ms_WindowEnd = None\<rparr>
      else \<lparr>ms_Available = (cur = Some (mg_epoch g) \<and> now < mg_end g), ms_Cell = mg_cell g, ms_Epoch = mg_epoch g,
            ms_WindowEnd = Some (mg_end g)\<rparr>)"

definition mg_Available :: "mirrorGate \<Rightarrow> u64 option \<Rightarrow> time \<Rightarrow> bool" where
  "mg_Available g cur now = ms_Available (mg_Status g cur now)"

datatype mirror_error = MirrorPromotion promotion_error | MirrorReceipt | MirrorWindow

record anchor_reads =
  rd_bundle :: "bytes option"
  rd_window :: "bytes option"
  rd_end :: "bytes option"

definition mg_Promote ::
  "(bytes \<Rightarrow> bytes) \<Rightarrow> (bytes \<Rightarrow> bytes \<Rightarrow> bytes \<Rightarrow> bool) \<Rightarrow> p_codec \<Rightarrow> registry \<Rightarrow> mirrorGate \<Rightarrow> anchor_reads \<Rightarrow> bytes \<Rightarrow> time \<Rightarrow> time
     \<Rightarrow> u64 option \<Rightarrow> time \<Rightarrow> registry \<times> mirrorGate \<times> (mirror_error + mirrorStatus)" where
  "mg_Promote sha edv pc r g f body now lnow cur snow =
     (case Promote sha edv pc (mg_ctl g) (BundleAnchor edv pc (mg_src g) (rd_bundle f)) (HealthyWindow edv pc (mg_src g) (rd_window f))
             r body now lnow of
        (r', Some e) \<Rightarrow> (r', g, Inl (MirrorPromotion e))
      | (r', None) \<Rightarrow>
          (case pc_receipt pc body of None \<Rightarrow> (r', g, Inl MirrorReceipt)
           | Some sr \<Rightarrow>
             (case HealthyWindow edv pc (mg_src g) (rd_end f) (rc_Epoch (sr_Receipt sr)) of None \<Rightarrow> (r', g, Inl MirrorWindow)
              | Some (_, end') \<Rightarrow>
                let g' = g\<lparr>mg_cell := rc_CellID (sr_Receipt sr), mg_epoch := rc_Epoch (sr_Receipt sr), mg_end := end'\<rparr>
                in (r', g', Inr (mg_Status g' cur snow)))))"

subsection \<open>Restoration from the journal\<close>

definition parsePromotionRecord :: "bytes \<Rightarrow> (string \<times> u64 \<times> bytes \<times> bool) option" where
  "parsePromotionRecord rec =
     (if length rec < 7 then None
      else let verdict = of_char (rec ! 5) :: nat; cl = of_char (rec ! 6) :: nat; off = 7 + cl
      in if length rec < off + 8 + 32 + 1 then None
         else let rl = of_char (rec ! (off + 40)) :: nat
         in if length rec \<noteq> off + 41 + rl then None
            else Some (take cl (drop 7 rec), word_of_nat (unbe (take 8 (drop off rec))), take 32 (drop (off + 8) rec), verdict = 1))"

definition promotion_of :: "(bytes \<Rightarrow> bytes) \<Rightarrow> mirrorGate \<Rightarrow> leaf \<times> bytes \<times> bytes \<Rightarrow> (string \<times> u64 \<times> bytes) option" where
  "promotion_of sha g x = (case x of (l, salt, rec) \<Rightarrow>
     if Kind l \<noteq> KindPromotion \<or> CellID l \<noteq> mg_self g \<or> \<not> prefix ''TBPP1'' rec \<or> salt \<noteq> mg_salt g \<or>
        HashPayload sha salt rec \<noteq> PayloadHash l then None
     else case parsePromotionRecord rec of Some (c, e, b, True) \<Rightarrow> Some (c, e, b) | _ \<Rightarrow> None)"

primrec last_promotion ::
  "(bytes \<Rightarrow> bytes) \<Rightarrow> mirrorGate \<Rightarrow> ((leaf \<times> bytes \<times> bytes) \<times> string \<times> u64 \<times> bytes) option \<Rightarrow> journal
     \<Rightarrow> ((leaf \<times> bytes \<times> bytes) \<times> string \<times> u64 \<times> bytes) option" where
  "last_promotion sha g found [] = found"
| "last_promotion sha g found (x # xs) =
     last_promotion sha g (case promotion_of sha g x of None \<Rightarrow> found | Some p \<Rightarrow> Some (x, p)) xs"

definition mg_Restore ::
  "(bytes \<Rightarrow> bytes) \<Rightarrow> (bytes \<Rightarrow> bytes \<Rightarrow> bytes \<Rightarrow> bool) \<Rightarrow> p_codec \<Rightarrow> mirrorGate \<Rightarrow> journal \<Rightarrow> (leaf \<times> bytes \<times> bytes \<Rightarrow> bool) option
     \<Rightarrow> bytes option \<Rightarrow> bytes option \<Rightarrow> time \<Rightarrow> mirrorGate \<times> bool" where
  "mg_Restore sha edv pc g recs inLog fb fw now =
     (case (last_promotion sha g None recs, inLog) of
        (Some (x, cell, epoch, bundle), Some f) \<Rightarrow>
          if \<not> f x then (g, False)
          else if map_of (mg_keys g) cell = None \<or> cell = mg_self g then (g, False)
          else if BundleAnchor edv pc (mg_src g) fb epoch \<noteq> Some bundle then (g, False)
          else (case HealthyWindow edv pc (mg_src g) fw epoch of None \<Rightarrow> (g, False)
                | Some (_, end') \<Rightarrow>
                    if \<not> now < end' then (g, False)
                    else (g\<lparr>mg_cell := cell, mg_epoch := epoch, mg_end := end'\<rparr>, True))
      | _ \<Rightarrow> (g, False))"

subsection \<open>Records are read back\<close>

lemma parse_promotionRecord:
  assumes "length cell \<le> 255" "length reason \<le> 255" "length bd = 32" "verdict < 256"
  shows "parsePromotionRecord (promotionRecord verdict cell epoch bd reason) = Some (cell, epoch, bd, verdict = 1)"
proof -
  define rec where "rec = promotionRecord verdict cell epoch bd reason"
  define cl where "cl = length cell"
  define rl where "rl = length reason"
  define e where "e = be 8 (unat epoch)"
  have rec: "rec = ''TBPP1'' @ byte verdict # byte cl # cell @ e @ bd @ byte rl # reason"
    using assms by (simp add: rec_def promotionRecord_def cl_def rl_def e_def Let_def)
  have l: "cl < 256" "rl < 256" "length e = 8" using assms by (simp_all add: cl_def rl_def e_def)
  have n: "length rec = 7 + cl + 41 + rl" using l assms(3) by (simp add: rec cl_def rl_def)
  have v5: "of_char (rec ! 5) = verdict" using field_at [of rec "''TBPP1''" "byte verdict"] assms(4) by (simp add: rec nat_of_byte)
  have c6: "of_char (rec ! 6) = cl" using field_at [of rec "''TBPP1'' @ [byte verdict]" "byte cl"] l by (simp add: rec nat_of_byte)
  have r: "of_char (rec ! (7 + cl + 40)) = rl"
    using field_at [of rec "''TBPP1'' @ byte verdict # byte cl # cell @ e @ bd" "byte rl" reason "7 + cl + 40"] l assms(3)
    by (simp add: rec nat_of_byte cl_def)
  have c: "take cl (drop 7 rec) = cell" by (simp add: rec cl_def)
  have ee: "take 8 (drop (7 + cl) rec) = e"
    by (rule fields_at [of _ "''TBPP1'' @ byte verdict # byte cl # cell"]) (use l in \<open>simp_all add: rec cl_def\<close>)
  have b: "take 32 (drop (7 + cl + 8) rec) = bd"
    by (rule fields_at [of _ "''TBPP1'' @ byte verdict # byte cl # cell @ e"]) (use l assms(3) in \<open>simp_all add: rec cl_def\<close>)
  have w: "word_of_nat (unbe e) = epoch"
    using unsigned_less [of epoch, where 'a = nat] by (simp add: e_def unbe_be)
  show ?thesis
    unfolding rec_def [symmetric] parsePromotionRecord_def Let_def v5 c6 r c ee b w using n by simp
qed

lemma last_promotion_append:
  "last_promotion sha g found (xs @ ys) = last_promotion sha g (last_promotion sha g found xs) ys"
  by (induction xs arbitrary: found) simp_all

lemma last_promotion_none: "list_all (\<lambda>x. promotion_of sha g x = None) xs \<Longrightarrow> last_promotion sha g found xs = found"
  by (induction xs arbitrary: found) simp_all

lemma Promote_ok:
  assumes "Promote sha edv pc c anchored window r body now lnow = (r', None)"
  obtains sr bd a z where "pc_receipt pc body = Some sr" "rc_CellID (sr_Receipt sr) \<noteq> []" "length (rc_CellID (sr_Receipt sr)) \<le> 255"
    "map_of (pr_keys c) (rc_CellID (sr_Receipt sr)) \<noteq> None" "length bd = 32" "anchored (rc_Epoch (sr_Receipt sr)) = Some bd"
    "window (rc_Epoch (sr_Receipt sr)) = Some (a, z)" "a \<le> now" "now < z"
    "promotionLeaf sha r c 1 (rc_CellID (sr_Receipt sr)) (rc_Epoch (sr_Receipt sr)) bd ''ok'' lnow = (r', None)"
  using assms
  by (auto simp: Promote_def promotionRefuse_def Let_def split: option.splits if_splits prod.splits)

text \<open>The record a promotion leaves is the promotion the gate restores.\<close>

lemma promotion_of_leaf:
  assumes "length cell \<le> 255" "length bd = 32"
  shows "promotion_of sha g (sealed_leaf sha KindPromotion (mg_self g) (mg_salt g) (promotionRecord 1 cell epoch bd ''ok'') ts,
      mg_salt g, promotionRecord 1 cell epoch bd ''ok'') = Some (cell, epoch, bd)"
proof -
  have "prefix ''TBPP1'' (promotionRecord 1 cell epoch bd ''ok'')" by (simp add: promotionRecord_def Let_def)
  moreover have "parsePromotionRecord (promotionRecord 1 cell epoch bd ''ok'') = Some (cell, epoch, bd, True)"
    using parse_promotionRecord [of cell "''ok''" bd 1] assms by simp
  ultimately show ?thesis by (simp add: promotion_of_def sealed_leaf_def)
qed

lemma promotionLeaf_journal:
  assumes "promotionLeaf sha r c v cell epoch bundle reason lnow = (r', None)" "rg_journal r = Some j"
  shows "rg_journal r' = Some (j @ [(sealed_leaf sha KindPromotion (pr_cellID c) (pr_salt c) (promotionRecord v cell epoch bundle reason) (unix_nano lnow),
    pr_salt c, promotionRecord v cell epoch bundle reason)])"
  using assms by (auto simp: promotionLeaf_def split: prod.splits sum.splits dest!: AppendLeaf_journal)

text \<open>A gate as configured: its controller and its source are its own, and it is not among its mirrors.\<close>

definition gate_wf :: "mirrorGate \<Rightarrow> bool" where
  "gate_wf g \<longleftrightarrow> pr_cellID (mg_ctl g) = mg_self g \<and> pr_salt (mg_ctl g) = mg_salt g \<and> pr_keys (mg_ctl g) = mg_keys g \<and>
     map_of (mg_keys g) (mg_self g) = None"

lemma newMirrorGate_wf: "newMirrorGate decode file af self salt ctrls quorum = Some g \<Longrightarrow> gate_wf g \<and> mg_cell g = []"
  by (auto simp: newMirrorGate_def NewPromotionController_def gate_wf_def split: option.splits if_splits)

text \<open>a promotion survives a restart, as long as the anchors confirm it.  After a promotion is
  granted, a restarted gate that reads the journal, in which no later promotion of this cell stands, and finds the
  same bundle anchored for the epoch and a window still running, holds exactly the promotion the gate
  held, provided its leaf is in the log.\<close>

lemma promotion_survives_restart:
  assumes "newMirrorGate decode file af self salt ctrls quorum = Some g0"
    and "g = g0\<lparr>mg_cell := cell0, mg_epoch := epoch0, mg_end := end0\<rparr>" and "rg_journal r = Some j"
    and "mg_Promote sha edv pc r g f body now lnow cur snow = (r', g', Inr st)"
    and "list_all (\<lambda>x. promotion_of sha g0 x = None) later" and "inLog (last (the (rg_journal r')))"
    and "BundleAnchor edv pc (mg_src g0) fb (mg_epoch g') = BundleAnchor edv pc (mg_src g0) (rd_bundle f) (mg_epoch g')"
    and "HealthyWindow edv pc (mg_src g0) fw (mg_epoch g') = HealthyWindow edv pc (mg_src g0) (rd_end f) (mg_epoch g')"
    and "now' < mg_end g'"
  shows "mg_Restore sha edv pc g0 (the (rg_journal r') @ later) (Some inLog) fb fw now' = (g', True)"
proof -
  have wf: "gate_wf g0" using newMirrorGate_wf [OF assms(1)] by simp
  have same: "mg_ctl g = mg_ctl g0" "mg_src g = mg_src g0" by (simp_all add: assms(2))
  from assms(4) obtain sr a z where p: "Promote sha edv pc (mg_ctl g0) (BundleAnchor edv pc (mg_src g0) (rd_bundle f))
        (HealthyWindow edv pc (mg_src g0) (rd_window f)) r body now lnow = (r', None)"
      and sr: "pc_receipt pc body = Some sr" and w: "HealthyWindow edv pc (mg_src g0) (rd_end f) (rc_Epoch (sr_Receipt sr)) = Some (a, z)"
      and g': "g' = g\<lparr>mg_cell := rc_CellID (sr_Receipt sr), mg_epoch := rc_Epoch (sr_Receipt sr), mg_end := z\<rparr>"
    by (auto simp: mg_Promote_def same Let_def split: prod.splits option.splits)
  define cell where "cell = rc_CellID (sr_Receipt sr)"
  define epoch where "epoch = rc_Epoch (sr_Receipt sr)"
  from p sr obtain bd where ok: "length cell \<le> 255" "map_of (mg_keys g0) cell \<noteq> None" "length bd = 32"
      "BundleAnchor edv pc (mg_src g0) (rd_bundle f) epoch = Some bd"
      "promotionLeaf sha r (mg_ctl g0) 1 cell epoch bd ''ok'' lnow = (r', None)"
    by (elim Promote_ok) (use wf in \<open>auto simp: cell_def epoch_def gate_wf_def\<close>)
  define x where "x = (sealed_leaf sha KindPromotion (mg_self g0) (mg_salt g0) (promotionRecord 1 cell epoch bd ''ok'') (unix_nano lnow),
    mg_salt g0, promotionRecord 1 cell epoch bd ''ok'')"
  have j: "rg_journal r' = Some (j @ [x])" using promotionLeaf_journal [OF ok(5) assms(3)] wf by (simp add: x_def gate_wf_def)
  have "promotion_of sha g0 x = Some (cell, epoch, bd)" using promotion_of_leaf [OF ok(1,3)] by (simp add: x_def)
  then have l: "last_promotion sha g0 None (the (rg_journal r') @ later) = Some (x, cell, epoch, bd)"
    using assms(5) by (simp add: j last_promotion_append last_promotion_none)
  have "cell \<noteq> mg_self g0" using ok(2) wf by (auto simp: gate_wf_def)
  moreover have "BundleAnchor edv pc (mg_src g0) fb epoch = Some bd" "HealthyWindow edv pc (mg_src g0) fw epoch = Some (a, z)" "now' < z"
    using assms(7-9) ok(4) w by (simp_all add: g' epoch_def)
  ultimately show ?thesis
    using ok(2) assms(6) l by (simp add: mg_Restore_def j g' assms(2) cell_def epoch_def)
qed

subsection \<open>An example\<close>

definition mgate_ex :: mirrorGate where
  "mgate_ex = \<lparr>mg_self = ''a'', mg_salt = zeros 16, mg_keys = [(''c'', zeros 32)], mg_ctl = pctrl_ex, mg_src = fsource_ex,
     mg_cell = [], mg_epoch = 0, mg_end = zero_time\<rparr>"

lemma mgate_ex_new:
  "newMirrorGate (\<lambda>b. Some [(''c'', hex_encode (zeros 32))]) (Some []) ''anchors'' ''a'' (zeros 16) [(1, zeros 32)] 1 = Some mgate_ex"
  by (simp add: newMirrorGate_def loadMirrorCellKeys_def parseMirrorCellKeys_def cell_key_def PublicKeySize_def NewFileAnchorSource_def
      NewPromotionController_def mgate_ex_def pctrl_ex_def fsource_ex_def)

abbreviation edv_all :: "bytes \<Rightarrow> bytes \<Rightarrow> bytes \<Rightarrow> bool" where "edv_all \<equiv> \<lambda>p m s. True"

lemma anchors_ex:
  "BundleAnchor edv_all pcodec_ex fsource_ex (Some []) 1 = Some (zeros 32)"
  "HealthyWindow edv_all pcodec_ex fsource_ex (Some []) 1 = Some (of_unix 10, of_unix 100)"
  by (simp_all add: BundleAnchor_def HealthyWindow_def fs_Verify_ex anchor_ex_def) (simp add: pcodec_ex_def)

definition reads_ex :: anchor_reads where
  "reads_ex = \<lparr>rd_bundle = Some [], rd_window = Some [], rd_end = Some []\<rparr>"

definition promoted_ex :: mirrorGate where
  "promoted_ex = mgate_ex\<lparr>mg_cell := ''c'', mg_epoch := 1, mg_end := of_unix 100\<rparr>"

lemma mg_Promote_ex:
  "\<exists>r' x. mg_Promote asha_ex edv_all pcodec_ex (areg_ex [] []) mgate_ex reads_ex [] (of_unix 50) (of_unix 50) (Some 1) (of_unix 50) =
     (r', promoted_ex, Inr (mg_Status promoted_ex (Some 1) (of_unix 50))) \<and> rg_journal r' = Some [x]"
proof -
  have "hex_decode (replicate 128 (CHR ''0'')) = Some (replicate 64 (byte 0))" using hex_decode_zeros [of 64] by simp
  moreover have "of_unix 10 \<le> of_unix 50" "of_unix 50 < of_unix 100" by (simp_all add: of_unix_def second_def)
  moreover have "\<exists>r' x. promotionLeaf asha_ex (areg_ex [] []) pctrl_ex 1 ''c'' 1 (zeros 32) ''ok'' (of_unix 50) = (r', None) \<and> rg_journal r' = Some [x]"
  proof -
    have "unix_nano (of_unix 50) \<noteq> 0" by (simp add: unix_nano_def of_unix_def second_def int64_def)
    then show ?thesis
      unfolding promotionLeaf_def by (subst AppendLeaf_journaled) (simp_all add: areg_ex_def known_kind_def pctrl_ex_def)
  qed
  then obtain r' x where "promotionLeaf asha_ex (areg_ex [] []) pctrl_ex 1 ''c'' 1 (zeros 32) ''ok'' (of_unix 50) = (r', None)" "rg_journal r' = Some [x]"
    by blast
  moreover have "map_of (pr_keys pctrl_ex) ''c'' = Some (zeros 32)" by (simp add: pctrl_ex_def)
  moreover have "pc_receipt pcodec_ex [] = Some \<lparr>sr_Receipt = \<lparr>rc_CellID = ''c'', rc_Epoch = 1, rc_BundleHash = hex_encode (zeros 32), rc_ReceivedAt = ''s''\<rparr>,
      sr_Sig = replicate 128 (CHR ''0'')\<rparr>" "pc_canonical pcodec_ex y = Some []" "pc_time pcodec_ex t = Some (if t = ''s'' then of_unix 10 else of_unix 100)" for y t
    by (simp_all add: pcodec_ex_def)
  moreover have "mg_ctl mgate_ex = pctrl_ex" "mg_src mgate_ex = fsource_ex" by (simp_all add: mgate_ex_def)
  ultimately show ?thesis
    by (simp add: mg_Promote_def Promote_def anchors_ex reads_ex_def SignatureSize_def promoted_ex_def Let_def) (cases x, simp)
qed

subsection \<open>What opens the deterministic path\<close>

text \<open>The gate over the life of a cell: promotions that succeed or fail, and restarts.\<close>

inductive gate_reach ::
  "(bytes \<Rightarrow> bytes) \<Rightarrow> (bytes \<Rightarrow> bytes \<Rightarrow> bytes \<Rightarrow> bool) \<Rightarrow> p_codec \<Rightarrow> mirrorGate \<Rightarrow> mirrorGate \<Rightarrow> bool"
  for sha edv pc g0 where
  boot: "gate_reach sha edv pc g0 g0"
| promote: "gate_reach sha edv pc g0 g \<Longrightarrow> mg_Promote sha edv pc r g f body now lnow cur snow = (r', g', res) \<Longrightarrow> gate_reach sha edv pc g0 g'"
| restore: "mg_Restore sha edv pc g0 recs inLog fb fw now = (g', ok) \<Longrightarrow> gate_reach sha edv pc g0 g'"

text \<open>What a gate with a promotion always has: a candidate that is a known cell other than itself, and the end
  of a window that a quorum of controllers signed for the epoch.\<close>

definition promotion_ok :: "(bytes \<Rightarrow> bytes \<Rightarrow> bytes \<Rightarrow> bool) \<Rightarrow> p_codec \<Rightarrow> mirrorGate \<Rightarrow> bool" where
  "promotion_ok edv pc g \<longleftrightarrow> mg_cell g \<noteq> [] \<longrightarrow> map_of (mg_keys g) (mg_cell g) \<noteq> None \<and> mg_cell g \<noteq> mg_self g \<and>
     (\<exists>f y. quorum_signed edv pc (mg_src g) f y \<and> an_Epoch y = mg_epoch g \<and> pc_time pc (an_WindowEnd y) = Some (mg_end g))"

definition same_gate :: "mirrorGate \<Rightarrow> mirrorGate \<Rightarrow> bool" where
  "same_gate g0 g \<longleftrightarrow> mg_self g = mg_self g0 \<and> mg_salt g = mg_salt g0 \<and> mg_keys g = mg_keys g0 \<and> mg_ctl g = mg_ctl g0 \<and> mg_src g = mg_src g0"

lemma promotion_okI:
  assumes "HealthyWindow edv pc (mg_src g) f epoch = Some (a, z)" "map_of (mg_keys g) cell \<noteq> None" "cell \<noteq> mg_self g"
  shows "promotion_ok edv pc (g\<lparr>mg_cell := cell, mg_epoch := epoch, mg_end := z\<rparr>)"
  using file_source.window_signed [OF assms(1)] assms(2,3) by (auto simp: promotion_ok_def)

lemma mg_Promote_ok:
  assumes "mg_Promote sha edv pc r g f body now lnow cur snow = (r', g', res)" "gate_wf g" "promotion_ok edv pc g"
  shows "promotion_ok edv pc g' \<and> same_gate g g'"
proof (cases "g' = g")
  case True
  then show ?thesis using assms(3) by (simp add: same_gate_def)
next
  case False
  with assms(1) obtain sr a z where p: "Promote sha edv pc (mg_ctl g) (BundleAnchor edv pc (mg_src g) (rd_bundle f))
        (HealthyWindow edv pc (mg_src g) (rd_window f)) r body now lnow = (r', None)"
      "pc_receipt pc body = Some sr" "HealthyWindow edv pc (mg_src g) (rd_end f) (rc_Epoch (sr_Receipt sr)) = Some (a, z)"
      "g' = g\<lparr>mg_cell := rc_CellID (sr_Receipt sr), mg_epoch := rc_Epoch (sr_Receipt sr), mg_end := z\<rparr>"
    by (auto simp: mg_Promote_def Let_def split: prod.splits option.splits)
  then have "map_of (mg_keys g) (rc_CellID (sr_Receipt sr)) \<noteq> None" using assms(2) by (auto simp: gate_wf_def elim!: Promote_ok)
  moreover from this have "rc_CellID (sr_Receipt sr) \<noteq> mg_self g" using assms(2) by (auto simp: gate_wf_def)
  ultimately show ?thesis using promotion_okI [OF p(3)] p(4) by (simp add: same_gate_def)
qed

lemma mg_Restore_ok:
  assumes "mg_Restore sha edv pc g recs inLog fb fw now = (g', ok)" "promotion_ok edv pc g"
  shows "promotion_ok edv pc g' \<and> same_gate g g'"
  using assms
  by (auto simp: mg_Restore_def same_gate_def split: option.splits if_splits prod.splits intro!: promotion_okI)

lemma gate_reach_ok:
  assumes "gate_reach sha edv pc g0 g" "gate_wf g0" "mg_cell g0 = []"
  shows "promotion_ok edv pc g \<and> same_gate g0 g"
  using assms
proof (induction rule: gate_reach.induct)
  case boot
  then show ?case by (simp add: promotion_ok_def same_gate_def)
next
  case (promote g r f body now lnow cur snow r' g' res)
  then have "gate_wf g" by (simp add: gate_wf_def same_gate_def)
  with promote show ?case using mg_Promote_ok [OF promote.hyps(2)] by (auto simp: same_gate_def)
next
  case (restore recs inLog fb fw now g' ok)
  then show ?case using mg_Restore_ok [OF restore.hyps(1)] by (simp add: promotion_ok_def)
qed



end
