(* ===== verification/Durable_Writes.thy ===== *)
theory Durable_Writes
  imports Registry
begin

text \<open>
  Three writers of one log running at once: the synchronous \<open>Append\<close> of the cell log
  (\<open>src/src/registry/cell_log.go\<close>), the bounded asynchronous writer (\<open>async_writer.go\<close>) and the monitor of
  the disk (\<open>backpressure.go\<close>), which stops every write and leaves a last leaf that says so.

  Each goroutine is a program counter and a function that makes its next atomic step; a step is \<open>None\<close>
  where the goroutine blocks.  A section under the lock of the asynchronous writer is one step unless it
  reads the flag of the monitor, which is not under that lock: then the lock is held between two steps.
  The flag itself is an atomic boolean.

  Tessera is outside the repository.  It is the pool of leaves handed to the appender: each gets a future, and
  later the leaf is published, or the future fails; nothing is assumed about when, or in which order.  The
  clocks, the formatted payloads and the measures of the disk are arguments of the steps.
\<close>

subsection \<open>The appender\<close>

type_synonym future = nat

record appender =
  ap_next :: future
  ap_pending :: "(future \<times> leaf) list"
  ap_log :: "(future \<times> leaf) list"
  ap_failed :: "future list"

definition appender_Add :: "leaf \<Rightarrow> appender \<Rightarrow> appender \<times> future" where
  "appender_Add l a = (a\<lparr>ap_next := Suc (ap_next a), ap_pending := ap_pending a @ [(ap_next a, l)]\<rparr>, ap_next a)"

definition ap_publish :: "future \<Rightarrow> appender \<Rightarrow> appender option" where
  "ap_publish f a = (case map_of (ap_pending a) f of None \<Rightarrow> None
     | Some l \<Rightarrow> Some (a\<lparr>ap_pending := filter (\<lambda>x. fst x \<noteq> f) (ap_pending a), ap_log := ap_log a @ [(f, l)]\<rparr>))"

definition ap_fail :: "future \<Rightarrow> appender \<Rightarrow> appender option" where
  "ap_fail f a = (if f \<in> fst ` set (ap_pending a)
     then Some (a\<lparr>ap_pending := filter (\<lambda>x. fst x \<noteq> f) (ap_pending a), ap_failed := f # ap_failed a\<rparr>) else None)"

text \<open>\<open>Await\<close> returns the index of a published leaf or the error of a failed future; before that it
  blocks, unless the context of the caller ends.\<close>

fun index_of :: "future \<Rightarrow> (future \<times> leaf) list \<Rightarrow> nat option" where
  "index_of f [] = None"
| "index_of f (x # xs) = (if fst x = f then Some 0 else map_option Suc (index_of f xs))"

definition Await :: "bool \<Rightarrow> appender \<Rightarrow> future \<Rightarrow> (reg_error + nat) option" where
  "Await cancelled a f = (case index_of f (ap_log a) of Some n \<Rightarrow> Some (Inr n)
     | None \<Rightarrow> if f \<in> set (ap_failed a) \<or> cancelled then Some (Inl ErrAppend) else None)"

subsection \<open>State\<close>

datatype aw_error = AwLog reg_error | ErrDurabilityCut | ErrDurabilityBacklog | ErrAsyncClosed

record Alarm =
  al_Reason :: string
  al_CellID :: string
  al_UsedBytes :: u64
  al_QuotaBytes :: u64
  al_HostFree :: u64
  al_At :: time

text \<open>What the goroutines report: the answers of the two \<open>Append\<close>, the callbacks.\<close>

datatype wout =
    OutSync nat "reg_error + nat" | OutAsync nat "aw_error option"
  | OnCut int nat | OnClear | OnJournalFault | OnTripAlarm Alarm

datatype sync_pc = SIdle | SChecked leaf | SEntered leaf | SCleared leaf | SWaiting future
datatype async_pc = AIdle | AChecked leaf | ALocked leaf | ACleared leaf
datatype track_pc = TIdle | TAwait future | TCatchup | TCheck u64 u64 time | TAdd leaf | TWait future | TDone | TDead
datatype mon_pc = MIdle | MEngage Alarm | MInflight Alarm | MDrain Alarm | MStop Alarm | MWait future Alarm | MFire Alarm

record pendingFuture =
  pf_future :: future
  pf_enqueued :: time

record AsyncWriter =
  aw_queue :: "pendingFuture list"
  aw_head :: nat
  aw_tripped :: bool
  aw_tripAt :: time
  aw_refusedCut :: u64
  aw_episodes :: u64
  aw_catchup :: bool
  aw_stop :: bool
  aw_accepted :: u64
  aw_confirmed :: u64
  aw_refusedBklog :: u64

text \<open>The last three fields record the history and no step reads them: the futures whose caller left without
  an index, whether the monitor has seen the synchronous and the asynchronous writes end since it
  engaged, and the future of its stop leaf after both.\<close>

record writes =
  w_app :: appender
  w_engaged :: bool
  w_closed :: bool
  w_inflight :: int
  w_sync :: "nat \<Rightarrow> sync_pc"
  w_mu :: "nat option"
  w_async :: "nat \<Rightarrow> async_pc"
  w_writer :: AsyncWriter
  w_track :: track_pc
  w_cancel :: bool
  w_mon :: mon_pc
  w_out :: "wout list"
  w_abandoned :: "future set"
  w_quiet :: "bool \<times> bool"
  w_stopped :: "future option"

record write_config =
  wc_sha :: "bytes \<Rightarrow> bytes"
  wc_cellID :: string
  wc_salt :: bytes
  wc_msalt :: bytes
  wc_window :: int
  wc_capacity :: int
  wc_quota :: u64
  wc_limit :: u64
  wc_hostFloor :: u64
  wc_bound :: bool
  wc_drain :: bool

definition emit :: "wout \<Rightarrow> writes \<Rightarrow> writes" where
  "emit x s = s\<lparr>w_out := w_out s @ [x]\<rparr>"

definition DefaultOpposabilityWindow :: int where "DefaultOpposabilityWindow = second"
definition DefaultAsyncQueueCapacity :: int where "DefaultAsyncQueueCapacity = 8192"

text \<open>The bounds of the configuration of the asynchronous writer: its window, given the checkpoint interval
  of the log, and the capacity of its queue.\<close>

definition NewAsyncWriter :: "string \<Rightarrow> bytes \<Rightarrow> int \<Rightarrow> int \<Rightarrow> int \<Rightarrow> (int \<times> int \<times> AsyncWriter) option" where
  "NewAsyncWriter cellID salt window0 capacity0 cpInterval =
     (let window = (if window0 = 0 then DefaultOpposabilityWindow else window0);
          capacity = (if capacity0 = 0 then DefaultAsyncQueueCapacity else capacity0)
      in if cellID = [] then None
         else if length salt < 16 then None
         else if window < 0 then None
         else if window < 4 * cpInterval then None
         else if capacity < 1 then None
         else Some (window, capacity, \<lparr>aw_queue = [], aw_head = 0, aw_tripped = False, aw_tripAt = zero_time, aw_refusedCut = 0,
                aw_episodes = 0, aw_catchup = False, aw_stop = False, aw_accepted = 0, aw_confirmed = 0, aw_refusedBklog = 0\<rparr>))"

subsection \<open>The synchronous writer\<close>

text \<open>\<open>Append\<close> of caller \<open>i\<close>: two checks of the flag around the counter of the writes in flight, then
  the write.\<close>

definition sync_exit :: "nat \<Rightarrow> (reg_error + nat) \<Rightarrow> writes \<Rightarrow> writes" where
  "sync_exit i res s = emit (OutSync i res) (s\<lparr>w_inflight := w_inflight s - 1, w_sync := (w_sync s)(i := SIdle)\<rparr>)"

definition sync_call :: "nat \<Rightarrow> leaf \<Rightarrow> writes \<Rightarrow> writes option" where
  "sync_call i l s =
     (if w_sync s i \<noteq> SIdle then None
      else if w_engaged s then Some (emit (OutSync i (Inl ErrBackpressure)) s)
      else Some (s\<lparr>w_sync := (w_sync s)(i := SChecked l)\<rparr>))"

definition sync_step :: "nat \<Rightarrow> time \<Rightarrow> bool \<Rightarrow> writes \<Rightarrow> writes option" where
  "sync_step i now cancelled s =
     (case w_sync s i of
        SIdle \<Rightarrow> None
      | SChecked l \<Rightarrow> Some (s\<lparr>w_inflight := w_inflight s + 1, w_sync := (w_sync s)(i := SEntered l)\<rparr>)
      | SEntered l \<Rightarrow>
          if w_engaged s then Some (sync_exit i (Inl ErrBackpressure) s) else Some (s\<lparr>w_sync := (w_sync s)(i := SCleared l)\<rparr>)
      | SCleared l \<Rightarrow>
          (case encodeLeaf now l of Inl e \<Rightarrow> Some (sync_exit i (Inl e) s)
           | Inr l' \<Rightarrow> (case appender_Add l' (w_app s) of (a, f) \<Rightarrow> Some (s\<lparr>w_app := a, w_sync := (w_sync s)(i := SWaiting f)\<rparr>)))
      | SWaiting f \<Rightarrow>
          (case Await cancelled (w_app s) f of None \<Rightarrow> None
           | Some res \<Rightarrow> Some (sync_exit i res
               (if isl res then s\<lparr>w_abandoned := insert f (w_abandoned s)\<rparr> else s))))"

subsection \<open>The asynchronous writer\<close>

definition outstanding :: "AsyncWriter \<Rightarrow> pendingFuture list" where
  "outstanding w = drop (aw_head w) (aw_queue w)"

definition async_call :: "nat \<Rightarrow> leaf \<Rightarrow> time \<Rightarrow> writes \<Rightarrow> writes option" where
  "async_call i l now s =
     (if w_async s i \<noteq> AIdle then None
      else if w_engaged s then Some (emit (OutAsync i (Some (AwLog ErrBackpressure))) s)
      else case encodeLeaf now l of Inl e \<Rightarrow> Some (emit (OutAsync i (Some (AwLog e))) s)
      | Inr l' \<Rightarrow> Some (s\<lparr>w_async := (w_async s)(i := AChecked l')\<rparr>))"

definition async_exit :: "nat \<Rightarrow> aw_error option \<Rightarrow> writes \<Rightarrow> writes" where
  "async_exit i res s = emit (OutAsync i res) (s\<lparr>w_mu := None, w_async := (w_async s)(i := AIdle)\<rparr>)"

definition async_step :: "write_config \<Rightarrow> nat \<Rightarrow> time \<Rightarrow> writes \<Rightarrow> writes option" where
  "async_step c i now s =
     (let w = w_writer s
      in case w_async s i of
        AIdle \<Rightarrow> None
      | AChecked l \<Rightarrow> if w_mu s \<noteq> None then None else Some (s\<lparr>w_mu := Some i, w_async := (w_async s)(i := ALocked l)\<rparr>)
      | ALocked l \<Rightarrow>
          if aw_stop w then Some (async_exit i (Some ErrAsyncClosed) s)
          else if w_engaged s then Some (async_exit i (Some (AwLog ErrBackpressure)) s)
          else Some (s\<lparr>w_async := (w_async s)(i := ACleared l)\<rparr>)
      | ACleared l \<Rightarrow>
          if aw_tripped w
          then Some (async_exit i (Some ErrDurabilityCut) (s\<lparr>w_writer := w\<lparr>aw_refusedCut := aw_refusedCut w + 1\<rparr>\<rparr>))
          else if int (length (aw_queue w)) - int (aw_head w) \<ge> wc_capacity c
          then Some (async_exit i (Some ErrDurabilityBacklog) (s\<lparr>w_writer := w\<lparr>aw_refusedBklog := aw_refusedBklog w + 1\<rparr>\<rparr>))
          else (case appender_Add l (w_app s) of (a, f) \<Rightarrow>
                 Some (async_exit i None (s\<lparr>w_app := a, w_writer := w\<lparr>aw_queue := aw_queue w @ [\<lparr>pf_future = f, pf_enqueued = now\<rparr>],
                    aw_accepted := aw_accepted w + 1\<rparr>\<rparr>))))"

text \<open>The watch over the window: \<open>now1\<close> and \<open>now2\<close> are its two readings of the clock.\<close>

definition cutWatch :: "write_config \<Rightarrow> time \<Rightarrow> time \<Rightarrow> writes \<Rightarrow> writes option" where
  "cutWatch c now1 now2 s =
     (let w = w_writer s
      in if w_mu s \<noteq> None then None
         else if aw_stop w \<or> aw_tripped w \<or> aw_head w \<ge> length (aw_queue w) then Some s
         else let lag = time_sub now1 (pf_enqueued (aw_queue w ! aw_head w))
           in if lag > wc_window c
              then Some (emit (OnCut lag (length (aw_queue w) - aw_head w))
                     (s\<lparr>w_writer := w\<lparr>aw_tripped := True, aw_tripAt := now2, aw_episodes := aw_episodes w + 1, aw_refusedCut := 0\<rparr>\<rparr>))
              else Some s)"

text \<open>The tracker confirms in order, and writes the leaf of an episode when the queue is empty after a
  cut.  \<open>jerr\<close> tells whether the journal refuses the clear record, \<open>payload\<close> is the formatted record.\<close>

definition confirm :: "AsyncWriter \<Rightarrow> AsyncWriter" where
  "confirm w =
     (let w1 = w\<lparr>aw_head := Suc (aw_head w), aw_confirmed := aw_confirmed w + 1\<rparr>;
          w2 = (if aw_head w1 = length (aw_queue w1) then w1\<lparr>aw_queue := [], aw_head := 0\<rparr> else w1)
      in if aw_head w2 \<ge> length (aw_queue w2) \<and> aw_tripped w2 then w2\<lparr>aw_catchup := True\<rparr> else w2)"

definition tracker ::
  "write_config \<Rightarrow> (u64 \<Rightarrow> u64 \<Rightarrow> time \<Rightarrow> time \<Rightarrow> bytes) \<Rightarrow> time \<Rightarrow> bool \<Rightarrow> bool \<Rightarrow> writes \<Rightarrow> writes option" where
  "tracker c fmt now jerr late s =
     (let w = w_writer s
      in case w_track s of
        TIdle \<Rightarrow>
          if w_mu s \<noteq> None then None
          else if aw_head w \<ge> length (aw_queue w) then (if aw_stop w then Some (s\<lparr>w_track := TDead\<rparr>) else None)
          else Some (s\<lparr>w_track := TAwait (pf_future (aw_queue w ! aw_head w))\<rparr>)
      | TAwait f \<Rightarrow>
          (case Await (w_cancel s) (w_app s) f of None \<Rightarrow> None
           | Some (Inl _) \<Rightarrow> Some (s\<lparr>w_track := TDead, w_abandoned := insert f (w_abandoned s)\<rparr>)
           | Some (Inr _) \<Rightarrow>
               if w_mu s \<noteq> None then None
               else Some (s\<lparr>w_writer := confirm w, w_track := if aw_catchup (confirm w) then TCatchup else TIdle\<rparr>))
      | TCatchup \<Rightarrow>
          if w_mu s \<noteq> None then None
          else Some (s\<lparr>w_writer := w\<lparr>aw_tripped := False\<rparr>, w_track := TCheck (aw_episodes w) (aw_refusedCut w) (aw_tripAt w)\<rparr>)
      | TCheck episodes refused tripAt \<Rightarrow>
          if w_engaged s then Some (s\<lparr>w_track := TDone\<rparr>)
          else (let s' = s\<lparr>w_track := TAdd (sealed_leaf (wc_sha c) KindTelemetry (wc_cellID c) (wc_salt c)
                        (fmt episodes refused tripAt now) (unix_nano now))\<rparr>
                in Some (if jerr then emit OnJournalFault s' else s'))
      | TAdd l \<Rightarrow>
          (case encodeLeaf now l of Inl _ \<Rightarrow> Some (s\<lparr>w_track := TDone\<rparr>)
           | Inr l' \<Rightarrow> (case appender_Add l' (w_app s) of (a, f) \<Rightarrow> Some (s\<lparr>w_app := a, w_track := TWait f\<rparr>)))
      | TWait f \<Rightarrow>
          (case Await late (w_app s) f of None \<Rightarrow> None
           | Some res \<Rightarrow> Some ((if isl res then s\<lparr>w_abandoned := insert f (w_abandoned s)\<rparr> else s)\<lparr>w_track := TDone\<rparr>))
      | TDone \<Rightarrow>
          if w_mu s \<noteq> None then None
          else Some (emit OnClear (s\<lparr>w_writer := w\<lparr>aw_catchup := False\<rparr>, w_track := TIdle\<rparr>))
      | TDead \<Rightarrow> None)"

definition WaitOutstanding :: "writes \<Rightarrow> bool" where
  "WaitOutstanding s \<longleftrightarrow> w_mu s = None \<and> aw_head (w_writer s) \<ge> length (aw_queue (w_writer s)) \<and> \<not> aw_catchup (w_writer s)"

definition aw_Close :: "writes \<Rightarrow> writes option" where
  "aw_Close s = (if w_mu s \<noteq> None then None else Some (s\<lparr>w_writer := (w_writer s)\<lparr>aw_stop := True\<rparr>\<rparr>))"

record AsyncStats =
  ast_Accepted :: u64
  ast_Confirmed :: u64
  ast_RefusedAtCut :: u64
  ast_RefusedBacklog :: u64
  ast_CutEpisodes :: u64
  ast_Tripped :: bool

definition aw_Snapshot :: "AsyncWriter \<Rightarrow> AsyncStats" where
  "aw_Snapshot w = \<lparr>ast_Accepted = aw_accepted w, ast_Confirmed = aw_confirmed w, ast_RefusedAtCut = aw_refusedCut w,
     ast_RefusedBacklog = aw_refusedBklog w, ast_CutEpisodes = aw_episodes w, ast_Tripped = aw_tripped w\<rparr>"

subsection \<open>The monitor of the disk\<close>

definition add_reason :: "string \<Rightarrow> Alarm \<Rightarrow> Alarm" where
  "add_reason x al = al\<lparr>al_Reason := al_Reason al @ x\<rparr>"

text \<open>A sample: \<open>used\<close> and \<open>free\<close> are the two measures, \<open>None\<close> for an error.  The limit of the
  configuration is the product of the threshold and the quota, computed in floating point by the code.\<close>

definition sample_reason :: "write_config \<Rightarrow> u64 option \<Rightarrow> u64 option \<Rightarrow> string option" where
  "sample_reason c used free =
     (case (used, free) of
        (Some u, Some f) \<Rightarrow>
          if u \<ge> wc_limit c then Some ''registry-disk-80%''
          else if wc_hostFloor c > 0 \<and> f \<le> wc_hostFloor c then Some ''registry-host-disk-low'' else None
      | _ \<Rightarrow> Some ''registry-sampler-error'')"

definition mon_check :: "write_config \<Rightarrow> u64 option \<Rightarrow> u64 option \<Rightarrow> time \<Rightarrow> writes \<Rightarrow> writes option" where
  "mon_check c used free now s =
     (if w_mon s \<noteq> MIdle then None
      else if w_engaged s \<or> w_closed s then Some s
      else case sample_reason c used free of None \<Rightarrow> Some s
      | Some reason \<Rightarrow> Some (s\<lparr>w_mon := MEngage \<lparr>al_Reason = reason, al_CellID = wc_cellID c,
          al_UsedBytes = (case used of None \<Rightarrow> 0 | Some u \<Rightarrow> u), al_QuotaBytes = wc_quota c,
          al_HostFree = (case free of None \<Rightarrow> 0 | Some f \<Rightarrow> f), al_At = now\<rparr>\<rparr>))"

text \<open>\<open>late\<close> is the end of the budget for the drain and for the stop leaf, \<open>jerr\<close> the refusal of the
  journal.\<close>

definition mon_engage :: "write_config \<Rightarrow> (Alarm \<Rightarrow> bytes) \<Rightarrow> time \<Rightarrow> bool \<Rightarrow> bool \<Rightarrow> writes \<Rightarrow> writes option" where
  "mon_engage c fmt now jerr late s =
     (case w_mon s of
        MIdle \<Rightarrow> None
      | MEngage al \<Rightarrow>
          if w_engaged s then Some (s\<lparr>w_mon := MIdle\<rparr>)
          else Some (s\<lparr>w_engaged := True,
                 w_mon := if wc_bound c then MInflight al else MFire (add_reason ''+leaf-write-failed'' al)\<rparr>)
      | MInflight al \<Rightarrow>
          if w_inflight s = 0 then Some (s\<lparr>w_mon := MDrain al, w_quiet := (w_engaged s, False)\<rparr>) else None
      | MDrain al \<Rightarrow>
          if \<not> wc_drain c then Some (s\<lparr>w_mon := MStop al\<rparr>)
          else if WaitOutstanding s then Some (s\<lparr>w_mon := MStop al, w_quiet := (fst (w_quiet s), w_engaged s)\<rparr>)
          else if late then Some (s\<lparr>w_mon := MStop (add_reason ''+async-drain-failed'' al)\<rparr>)
          else None
      | MStop al \<Rightarrow>
          let l = sealed_leaf (wc_sha c) KindBackpressure (wc_cellID c) (wc_msalt c) (fmt al) (unix_nano (al_At al));
              al1 = (if jerr then add_reason ''+journal-write-failed'' al else al)
          in (case encodeLeaf now l of Inl _ \<Rightarrow> Some (s\<lparr>w_mon := MFire (add_reason ''+leaf-write-failed'' al1)\<rparr>)
              | Inr l' \<Rightarrow> (case appender_Add l' (w_app s) of (a, f) \<Rightarrow>
                  Some (s\<lparr>w_app := a, w_mon := MWait f al1, w_stopped := if w_quiet s = (True, True) then Some f else w_stopped s\<rparr>)))
      | MWait f al \<Rightarrow>
          (case Await late (w_app s) f of None \<Rightarrow> None
           | Some (Inr _) \<Rightarrow> Some (s\<lparr>w_mon := MFire al\<rparr>)
           | Some (Inl _) \<Rightarrow> Some (s\<lparr>w_mon := MFire (add_reason ''+leaf-write-failed'' al), w_abandoned := insert f (w_abandoned s)\<rparr>))
      | MFire al \<Rightarrow> Some (emit (OnTripAlarm al) (s\<lparr>w_mon := MIdle\<rparr>)))"

definition mon_Close :: "writes \<Rightarrow> writes" where
  "mon_Close s = s\<lparr>w_closed := True\<rparr>"

definition Disengage :: "writes \<Rightarrow> writes" where
  "Disengage s = s\<lparr>w_engaged := False, w_quiet := (False, False), w_stopped := None\<rparr>"

subsection \<open>Runs\<close>

datatype action =
    Call nat leaf | Sync nat time bool | CallAsync nat leaf time | Async nat time | Watch time time
  | Track "u64 \<Rightarrow> u64 \<Rightarrow> time \<Rightarrow> time \<Rightarrow> bytes" time bool bool | CloseWriter | CancelTracker
  | Sample "u64 option" "u64 option" time | Engage "Alarm \<Rightarrow> bytes" time bool bool | CloseMonitor | Operator
  | Publish future | Fail future

fun write_step :: "write_config \<Rightarrow> action \<Rightarrow> writes \<Rightarrow> writes option" where
  "write_step c (Call i l) s = sync_call i l s"
| "write_step c (Sync i now cancelled) s = sync_step i now cancelled s"
| "write_step c (CallAsync i l now) s = async_call i l now s"
| "write_step c (Async i now) s = async_step c i now s"
| "write_step c (Watch now1 now2) s = cutWatch c now1 now2 s"
| "write_step c (Track fmt now jerr late) s = tracker c fmt now jerr late s"
| "write_step c CloseWriter s = aw_Close s"
| "write_step c CancelTracker s = Some (s\<lparr>w_cancel := True\<rparr>)"
| "write_step c (Sample used free now) s = mon_check c used free now s"
| "write_step c (Engage fmt now jerr late) s = mon_engage c fmt now jerr late s"
| "write_step c CloseMonitor s = Some (mon_Close s)"
| "write_step c Operator s = Some (Disengage s)"
| "write_step c (Publish f) s = map_option (\<lambda>a. s\<lparr>w_app := a\<rparr>) (ap_publish f (w_app s))"
| "write_step c (Fail f) s = map_option (\<lambda>a. s\<lparr>w_app := a\<rparr>) (ap_fail f (w_app s))"

definition writes_init :: "AsyncWriter \<Rightarrow> writes" where
  "writes_init w = \<lparr>w_app = \<lparr>ap_next = 0, ap_pending = [], ap_log = [], ap_failed = []\<rparr>, w_engaged = False, w_closed = False,
     w_inflight = 0, w_sync = (\<lambda>i. SIdle), w_mu = None, w_async = (\<lambda>i. AIdle), w_writer = w, w_track = TIdle, w_cancel = False,
     w_mon = MIdle, w_out = [], w_abandoned = {}, w_quiet = (False, False), w_stopped = None\<rparr>"

fun run_writes :: "write_config \<Rightarrow> action list \<Rightarrow> writes \<Rightarrow> writes option" where
  "run_writes c [] s = Some s"
| "run_writes c (a # as) s = (case write_step c a s of None \<Rightarrow> None | Some s' \<Rightarrow> run_writes c as s')"

subsection \<open>Invariants\<close>

lemmas write_ops = sync_call_def sync_step_def sync_exit_def async_call_def async_step_def async_exit_def cutWatch_def tracker_def
  aw_Close_def mon_check_def mon_engage_def mon_Close_def Disengage_def emit_def appender_Add_def

lemmas write_splits = if_splits option.splits sum.splits prod.splits sync_pc.splits async_pc.splits track_pc.splits mon_pc.splits

fun in_flight :: "sync_pc \<Rightarrow> bool" where
  "in_flight (SEntered l) = True"
| "in_flight (SCleared l) = True"
| "in_flight (SWaiting f) = True"
| "in_flight p = False"

fun past_checks :: "sync_pc \<Rightarrow> bool" where
  "past_checks (SCleared l) = True"
| "past_checks (SWaiting f) = True"
| "past_checks p = False"

fun holds_lock :: "async_pc \<Rightarrow> bool" where
  "holds_lock (ALocked l) = True"
| "holds_lock (ACleared l) = True"
| "holds_lock p = False"

fun catching_up :: "track_pc \<Rightarrow> bool" where
  "catching_up TCatchup = True"
| "catching_up (TCheck e r t) = True"
| "catching_up (TAdd l) = True"
| "catching_up (TWait f) = True"
| "catching_up TDone = True"
| "catching_up p = False"

fun adding :: "track_pc \<Rightarrow> bool" where
  "adding (TAdd l) = True"
| "adding (TWait f) = True"
| "adding p = False"

text \<open>The counter counts the callers in flight.\<close>

definition flying :: "(nat \<Rightarrow> sync_pc) \<Rightarrow> nat set" where
  "flying p = {i. in_flight (p i)}"

definition inv_count :: "writes \<Rightarrow> bool" where
  "inv_count s \<longleftrightarrow> finite (flying (w_sync s)) \<and> w_inflight s = int (card (flying (w_sync s)))"

lemma flying_upd: "flying (p(i := x)) = (if in_flight x then insert i (flying p) else flying p - {i})"
  by (auto simp: flying_def)

lemma in_flying: "i \<in> flying p \<longleftrightarrow> in_flight (p i)"
  by (simp add: flying_def)

lemma inv_count_step:
  assumes "write_step c a s = Some s'" "inv_count s"
  shows "inv_count s'"
proof (cases "w_sync s' = w_sync s \<and> w_inflight s' = w_inflight s")
  case True
  with assms(2) show ?thesis by (simp add: inv_count_def)
next
  case False
  have fin: "finite (flying (w_sync s))" and n: "w_inflight s = int (card (flying (w_sync s)))"
    using assms(2) by (simp_all add: inv_count_def)
  have pos: "0 < card (flying (w_sync s))" if "in_flight (w_sync s i)" for i
    using fin that in_flying card_gt_0_iff by blast
  show ?thesis
  proof (cases a)
    case (Call i l)
    with assms(1) False fin n show ?thesis
      by (auto simp: write_ops inv_count_def flying_upd in_flying card_Diff_singleton_if split: if_splits)
  next
    case (Sync i now cancelled)
    with assms(1) False fin n pos [of i] show ?thesis
      by (cases "w_sync s i")
        (auto simp: write_ops inv_count_def flying_upd in_flying insert_absorb card_Diff_singleton_if card_insert_if of_nat_diff split: write_splits)
  qed (use assms(1) False in \<open>auto simp: write_ops Let_def split: write_splits\<close>)
qed

text \<open>The holder of the lock.\<close>

definition inv_lock :: "writes \<Rightarrow> bool" where
  "inv_lock s \<longleftrightarrow> (\<forall>i. w_mu s = Some i \<longleftrightarrow> holds_lock (w_async s i))"

lemma inv_lock_step: "write_step c a s = Some s' \<Longrightarrow> inv_lock s \<Longrightarrow> inv_lock s'"
  unfolding inv_lock_def
  by (cases a) (auto simp: write_ops Let_def split: write_splits; metis holds_lock.simps option.inject)+

text \<open>The flag of a catch-up is set exactly while the tracker writes one, and the future the tracker waits
  for is the head of the queue.\<close>

definition inv_track :: "writes \<Rightarrow> bool" where
  "inv_track s \<longleftrightarrow> (aw_catchup (w_writer s) \<longleftrightarrow> catching_up (w_track s)) \<and>
     (\<forall>f. w_track s = TAwait f \<longrightarrow> (\<exists>p ps. outstanding (w_writer s) = p # ps \<and> f = pf_future p)) \<and>
     aw_head (w_writer s) \<le> length (aw_queue (w_writer s))"

lemma outstanding_push [simp]:
  "aw_head w \<le> length (aw_queue w) \<Longrightarrow> outstanding (w\<lparr>aw_queue := aw_queue w @ [p], aw_accepted := n\<rparr>) = outstanding w @ [p]"
  by (simp add: outstanding_def)

lemma outstanding_confirm:
  assumes "outstanding w = p # ps"
  shows "outstanding (confirm w) = ps" "aw_head (confirm w) \<le> length (aw_queue (confirm w))"
    "aw_catchup (confirm w) \<longleftrightarrow> aw_catchup w \<or> ps = [] \<and> aw_tripped w" "aw_tripped (confirm w) = aw_tripped w"
proof -
  have "aw_head w < length (aw_queue w)" and t: "drop (Suc (aw_head w)) (aw_queue w) = ps"
    using assms by (auto simp: outstanding_def drop_Suc drop_tl [symmetric] intro: leI)
      (metis drop_all leI list.discI, metis drop_Suc drop_tl list.sel(3))
  then have "ps = [] \<longleftrightarrow> Suc (aw_head w) = length (aw_queue w)" by auto
  then show "outstanding (confirm w) = ps" "aw_head (confirm w) \<le> length (aw_queue (confirm w))"
    "aw_catchup (confirm w) \<longleftrightarrow> aw_catchup w \<or> ps = [] \<and> aw_tripped w" "aw_tripped (confirm w) = aw_tripped w"
    using t \<open>aw_head w < length (aw_queue w)\<close> by (auto simp: confirm_def outstanding_def Let_def)
qed

lemma outstanding_head: "aw_head w < length (aw_queue w) \<Longrightarrow> outstanding w = aw_queue w ! aw_head w # drop (Suc (aw_head w)) (aw_queue w)"
  by (simp add: outstanding_def Cons_nth_drop_Suc)

lemma outstanding_same [simp]:
  "outstanding (w\<lparr>aw_tripped := b\<rparr>) = outstanding w" "outstanding (w\<lparr>aw_catchup := b\<rparr>) = outstanding w"
  "outstanding (w\<lparr>aw_stop := b\<rparr>) = outstanding w" "outstanding (w\<lparr>aw_refusedCut := n\<rparr>) = outstanding w"
  "outstanding (w\<lparr>aw_refusedBklog := n\<rparr>) = outstanding w"
  "outstanding (w\<lparr>aw_tripAt := t\<rparr>) = outstanding w" "outstanding (w\<lparr>aw_episodes := n\<rparr>) = outstanding w"
  by (simp_all add: outstanding_def)

text \<open>What each goroutine leaves alone.\<close>

lemma sync_frame:
  assumes "sync_step i now cancelled s = Some s'"
  shows "w_writer s' = w_writer s" "w_track s' = w_track s" "w_mon s' = w_mon s" "w_engaged s' = w_engaged s" "w_mu s' = w_mu s"
    "w_async s' = w_async s" "w_quiet s' = w_quiet s" "w_stopped s' = w_stopped s" "w_abandoned s \<subseteq> w_abandoned s'"
  using assms by (cases "w_sync s i"; auto simp: write_ops split: option.splits sum.splits if_splits)+

lemma call_frame:
  assumes "sync_call i l s = Some s'"
  shows "w_writer s' = w_writer s" "w_track s' = w_track s" "w_mon s' = w_mon s" "w_engaged s' = w_engaged s" "w_mu s' = w_mu s"
    "w_async s' = w_async s" "w_quiet s' = w_quiet s" "w_stopped s' = w_stopped s" "w_abandoned s' = w_abandoned s" "w_app s' = w_app s"
  using assms by (auto simp: write_ops split: if_splits)

lemma acall_frame:
  assumes "async_call i l now s = Some s'"
  shows "w_writer s' = w_writer s" "w_track s' = w_track s" "w_mon s' = w_mon s" "w_engaged s' = w_engaged s" "w_mu s' = w_mu s"
    "w_sync s' = w_sync s" "w_quiet s' = w_quiet s" "w_stopped s' = w_stopped s" "w_abandoned s' = w_abandoned s" "w_app s' = w_app s"
    "w_inflight s' = w_inflight s"
  using assms by (auto simp: write_ops split: sum.splits if_splits)

lemma async_frame:
  assumes "async_step c i now s = Some s'"
  shows "w_track s' = w_track s" "w_mon s' = w_mon s" "w_engaged s' = w_engaged s" "w_sync s' = w_sync s" "w_quiet s' = w_quiet s"
    "w_stopped s' = w_stopped s" "w_abandoned s' = w_abandoned s" "w_inflight s' = w_inflight s"
  using assms by (cases "w_async s i"; auto simp: write_ops Let_def split: if_splits)+

lemma watch_frame:
  assumes "cutWatch c now1 now2 s = Some s'"
  shows "w_app s' = w_app s" "w_track s' = w_track s" "w_mon s' = w_mon s" "w_engaged s' = w_engaged s" "w_sync s' = w_sync s" "w_quiet s' = w_quiet s"
    "w_stopped s' = w_stopped s" "w_abandoned s' = w_abandoned s" "w_inflight s' = w_inflight s" "w_mu s' = w_mu s" "w_async s' = w_async s"
    "outstanding (w_writer s') = outstanding (w_writer s)" "aw_catchup (w_writer s') = aw_catchup (w_writer s)"
    "aw_head (w_writer s') = aw_head (w_writer s)" "aw_queue (w_writer s') = aw_queue (w_writer s)"
  using assms by (auto simp: write_ops Let_def split: if_splits)

lemma track_frame:
  assumes "tracker c fmt now jerr late s = Some s'"
  shows "w_mon s' = w_mon s" "w_engaged s' = w_engaged s" "w_sync s' = w_sync s" "w_quiet s' = w_quiet s"
    "w_stopped s' = w_stopped s" "w_inflight s' = w_inflight s" "w_mu s' = w_mu s" "w_async s' = w_async s" "w_abandoned s \<subseteq> w_abandoned s'"
  using assms by (cases "w_track s"; auto simp: write_ops Let_def split: option.splits sum.splits if_splits)+

lemma sample_frame:
  assumes "mon_check c used free now s = Some s'"
  shows "w_app s' = w_app s" "w_writer s' = w_writer s" "w_track s' = w_track s" "w_engaged s' = w_engaged s" "w_sync s' = w_sync s" "w_quiet s' = w_quiet s"
    "w_stopped s' = w_stopped s" "w_abandoned s' = w_abandoned s" "w_inflight s' = w_inflight s" "w_mu s' = w_mu s" "w_async s' = w_async s"
  using assms by (auto simp: write_ops split: option.splits if_splits)

lemma engage_frame:
  assumes "mon_engage c fmt now jerr late s = Some s'"
  shows "w_writer s' = w_writer s" "w_track s' = w_track s" "w_sync s' = w_sync s" "w_inflight s' = w_inflight s" "w_mu s' = w_mu s"
    "w_async s' = w_async s" "w_abandoned s \<subseteq> w_abandoned s'"
  using assms by (cases "w_mon s"; auto simp: write_ops Let_def split: option.splits sum.splits if_splits)+

lemmas frames = sync_frame call_frame acall_frame async_frame watch_frame track_frame sample_frame engage_frame

lemma inv_track_step:
  assumes "write_step c a s = Some s'" "inv_track s"
  shows "inv_track s'"
proof (cases a)
  case (Async i now)
  with assms show ?thesis
    by (cases "w_async s i") (auto simp: write_ops inv_track_def Let_def split: if_splits)
next
  case (Track fmt now jerr late)
  show ?thesis
  proof (cases "w_track s")
    case TIdle
    with Track assms show ?thesis
      by (auto simp: write_ops inv_track_def Let_def outstanding_head split: if_splits)
  next
    case (TAwait f)
    with assms(2) obtain p ps where "outstanding (w_writer s) = p # ps" "\<not> aw_catchup (w_writer s)" by (auto simp: inv_track_def)
    with Track TAwait assms show ?thesis
      by (auto simp: write_ops inv_track_def Let_def outstanding_confirm split: option.splits sum.splits if_splits)
  qed (use Track assms in \<open>auto simp: write_ops inv_track_def Let_def split: option.splits sum.splits if_splits\<close>)
qed (use assms in \<open>auto simp: inv_track_def frames aw_Close_def mon_Close_def Disengage_def split: if_splits\<close>)

text \<open>Futures are never given twice.\<close>

definition futs :: "(future \<times> leaf) list \<Rightarrow> future set" where
  "futs xs = fst ` set xs"

lemma futs_simps [simp]: "futs [] = {}" "futs (xs @ ys) = futs xs \<union> futs ys" "futs (x # xs) = insert (fst x) (futs xs)"
  "futs (filter (\<lambda>x. fst x \<noteq> f) xs) = futs xs - {f}"
  by (auto simp: futs_def)

definition inv_futures :: "appender \<Rightarrow> bool" where
  "inv_futures a \<longleftrightarrow> distinct (map fst (ap_log a)) \<and> futs (ap_pending a) \<inter> futs (ap_log a) = {} \<and>
     (\<forall>f \<in> futs (ap_pending a) \<union> futs (ap_log a). f < ap_next a)"

lemma inv_futures_Add: "inv_futures a \<Longrightarrow> appender_Add l a = (a', f) \<Longrightarrow> inv_futures a'"
  unfolding inv_futures_def appender_Add_def by (auto simp: less_SucI)

lemma publish_cases:
  assumes "ap_publish f a = Some a'"
  obtains l where "f \<in> futs (ap_pending a)"
    "a' = a\<lparr>ap_pending := filter (\<lambda>x. fst x \<noteq> f) (ap_pending a), ap_log := ap_log a @ [(f, l)]\<rparr>"
proof (cases "map_of (ap_pending a) f")
  case None
  with assms that show thesis by (simp add: ap_publish_def)
next
  case (Some l)
  then have "f \<in> futs (ap_pending a)" using map_of_SomeD [OF Some] by (force simp: futs_def)
  moreover have "a' = a\<lparr>ap_pending := filter (\<lambda>x. fst x \<noteq> f) (ap_pending a), ap_log := ap_log a @ [(f, l)]\<rparr>"
    using Some assms by (simp add: ap_publish_def)
  ultimately show thesis by (rule that)
qed

lemma inv_futures_publish:
  assumes "inv_futures a" "ap_publish f a = Some a'"
  shows "inv_futures a'"
proof -
  from assms(2) obtain l where l: "f \<in> futs (ap_pending a)"
      "a' = a\<lparr>ap_pending := filter (\<lambda>x. fst x \<noteq> f) (ap_pending a), ap_log := ap_log a @ [(f, l)]\<rparr>" by (rule publish_cases)
  then have "f \<notin> futs (ap_log a)" using assms(1) by (auto simp: inv_futures_def)
  then have "f \<notin> fst ` set (ap_log a)" by (simp add: futs_def)
  with l assms(1) show ?thesis by (auto simp: inv_futures_def)
qed

lemma inv_futures_fail: "inv_futures a \<Longrightarrow> ap_fail f a = Some a' \<Longrightarrow> inv_futures a'"
  by (auto simp: inv_futures_def ap_fail_def split: if_splits)

inductive app_rel :: "appender \<Rightarrow> appender \<Rightarrow> bool" for a where
  same: "app_rel a a"
| add: "app_rel a (a\<lparr>ap_next := Suc (ap_next a), ap_pending := ap_pending a @ [(ap_next a, l)]\<rparr>)"
| published: "ap_publish f a = Some a' \<Longrightarrow> app_rel a a'"
| failed: "ap_fail f a = Some a' \<Longrightarrow> app_rel a a'"

lemmas app_rel_simps [simp] = app_rel.same app_rel.add

lemma step_app:
  assumes "write_step c a s = Some s'"
  shows "app_rel (w_app s) (w_app s')"
proof (cases a)
  case (Sync i now cancelled)
  with assms show ?thesis by (cases "w_sync s i") (auto simp: write_ops split: option.splits sum.splits if_splits)
next
  case (Async i now)
  with assms show ?thesis by (cases "w_async s i") (auto simp: write_ops Let_def split: if_splits)
next
  case (Track fmt now jerr late)
  with assms show ?thesis by (cases "w_track s") (auto simp: write_ops Let_def split: option.splits sum.splits if_splits)
next
  case (Engage fmt now jerr late)
  with assms show ?thesis by (cases "w_mon s") (auto simp: write_ops Let_def split: option.splits sum.splits if_splits)
qed (use assms in \<open>auto simp: write_ops Let_def split: option.splits sum.splits if_splits intro: app_rel.intros\<close>)

lemma inv_futures_step: "write_step c a s = Some s' \<Longrightarrow> inv_futures (w_app s) \<Longrightarrow> inv_futures (w_app s')"
  by (drule step_app, erule app_rel.cases)
    (auto simp: appender_Add_def intro: inv_futures_Add inv_futures_publish inv_futures_fail)

text \<open>Every leaf not yet published has someone who waits for it, unless its caller left.\<close>

definition waited :: "(nat \<Rightarrow> sync_pc) \<Rightarrow> future \<Rightarrow> bool" where
  "waited p f \<longleftrightarrow> (\<exists>i. p i = SWaiting f)"

fun mon_waits :: "mon_pc \<Rightarrow> future \<Rightarrow> bool" where
  "mon_waits (MWait g al) f \<longleftrightarrow> g = f"
| "mon_waits p f \<longleftrightarrow> False"

definition owned :: "writes \<Rightarrow> future \<Rightarrow> bool" where
  "owned s f \<longleftrightarrow> waited (w_sync s) f \<or> f \<in> pf_future ` set (outstanding (w_writer s)) \<or> w_track s = TWait f \<or>
     mon_waits (w_mon s) f \<or> f \<in> w_abandoned s"

definition inv_owned :: "writes \<Rightarrow> bool" where
  "inv_owned s \<longleftrightarrow> (\<forall>f \<in> futs (ap_pending (w_app s)). owned s f)"

lemma waited_upd: "p i \<noteq> SWaiting f \<Longrightarrow> waited (p(i := x)) f \<longleftrightarrow> x = SWaiting f \<or> waited p f"
  by (auto simp: waited_def)

lemma index_of_Some: "index_of f xs = Some n \<Longrightarrow> f \<in> futs xs"
  by (induction f xs arbitrary: n rule: index_of.induct) (auto split: if_splits)

lemma Await_Inr: "Await b a f = Some (Inr n) \<Longrightarrow> f \<in> futs (ap_log a)"
  by (auto simp: Await_def index_of_Some split: option.splits if_splits)

lemma published_not_pending: "inv_futures a \<Longrightarrow> Await b a f = Some (Inr n) \<Longrightarrow> f \<notin> futs (ap_pending a)"
  using Await_Inr by (auto simp: inv_futures_def)

lemma inv_owned_step:
  assumes "write_step c a s = Some s'" "inv_owned s" "inv_futures (w_app s)" "inv_track s"
  shows "inv_owned s'"
proof (cases a)
  case (Call i l)
  with assms(1,2) show ?thesis by (auto simp: inv_owned_def owned_def write_ops waited_upd split: if_splits)
next
  case (Sync i now cancelled)
  show ?thesis
  proof (cases "w_sync s i")
    case (SWaiting f)
    obtain res where res: "Await cancelled (w_app s) f = Some res" using SWaiting Sync assms(1) by (auto simp: write_ops split: option.splits)
    have "owned s' g" if "g \<in> futs (ap_pending (w_app s'))" for g
      using that SWaiting Sync assms(1,2) res published_not_pending [OF assms(3), of cancelled f]
      by (cases res; cases "g = f") (auto simp: inv_owned_def owned_def write_ops waited_upd)
    then show ?thesis by (simp add: inv_owned_def)
  qed (use Sync assms(1,2) in \<open>auto simp: inv_owned_def owned_def write_ops waited_upd split: sum.splits if_splits\<close>)
next
  case (Async i now)
  with assms show ?thesis
    by (cases "w_async s i") (auto simp: inv_owned_def owned_def inv_track_def write_ops Let_def split: if_splits)
next
  case (Track fmt now jerr late)
  show ?thesis
  proof (cases "w_track s")
    case (TAwait f)
    with assms(4) obtain p ps where "outstanding (w_writer s) = p # ps" "f = pf_future p" by (auto simp: inv_track_def)
    with Track TAwait assms(1,2) published_not_pending [OF assms(3), of "w_cancel s" f] show ?thesis
      by (auto simp: inv_owned_def owned_def write_ops Let_def outstanding_confirm split: option.splits sum.splits if_splits)
  next
    case (TWait f)
    obtain res where "Await late (w_app s) f = Some res" using TWait Track assms(1) by (auto simp: write_ops Let_def split: option.splits)
    with TWait Track assms(1,2) published_not_pending [OF assms(3), of late f] show ?thesis
      by (cases res) (auto simp: inv_owned_def owned_def write_ops Let_def)
  qed (use Track assms(1,2) in \<open>auto simp: inv_owned_def owned_def write_ops Let_def split: sum.splits if_splits\<close>)
next
  case (Engage fmt now jerr late)
  show ?thesis
  proof (cases "w_mon s")
    case (MWait f al)
    with Engage assms(1,2) published_not_pending [OF assms(3), of late f] show ?thesis
      by (auto simp: inv_owned_def owned_def write_ops split: option.splits sum.splits)
  qed (use Engage assms(1,2) in \<open>auto simp: inv_owned_def owned_def write_ops Let_def split: sum.splits if_splits\<close>)
next
  case (Sample used free now)
  then have "w_mon s' = w_mon s \<or> w_mon s = MIdle" using assms(1) by (auto simp: write_ops split: if_splits)
  with Sample assms(1,2) show ?thesis by (auto simp: inv_owned_def owned_def sample_frame)
next
  case (Publish f)
  with assms(1,2) show ?thesis by (auto simp: inv_owned_def owned_def elim!: publish_cases)
next
  case (Fail f)
  with assms(1,2) show ?thesis by (auto simp: inv_owned_def owned_def ap_fail_def split: if_splits)
qed (use assms(1,2) in \<open>auto simp: inv_owned_def owned_def acall_frame watch_frame aw_Close_def mon_Close_def Disengage_def split: if_splits\<close>)

text \<open>Once the monitor has seen the writes end, none begins as long as it is engaged.\<close>

fun cleared :: "async_pc \<Rightarrow> bool" where
  "cleared (ACleared l) = True"
| "cleared p = False"

definition inv_quiet :: "writes \<Rightarrow> bool" where
  "inv_quiet s \<longleftrightarrow> (fst (w_quiet s) \<longrightarrow> w_engaged s \<and> (\<forall>i. \<not> past_checks (w_sync s i))) \<and>
     (snd (w_quiet s) \<longrightarrow> w_engaged s \<and> outstanding (w_writer s) = [] \<and> (\<forall>i. \<not> cleared (w_async s i)) \<and> \<not> adding (w_track s))"

lemma past_in_flight: "past_checks p \<Longrightarrow> in_flight p"
  by (cases p) simp_all

lemma nobody_flies: "inv_count s \<Longrightarrow> w_inflight s = 0 \<Longrightarrow> \<not> past_checks (w_sync s i)"
  using past_in_flight [of "w_sync s i"] by (auto simp: inv_count_def flying_def)

lemma quiet_sync: "inv_quiet s \<Longrightarrow> past_checks (w_sync s i) \<Longrightarrow> \<not> fst (w_quiet s)"
  and quiet_async: "inv_quiet s \<Longrightarrow> cleared (w_async s i) \<Longrightarrow> \<not> snd (w_quiet s)"
  by (auto simp: inv_quiet_def)

lemma futs_mem: "(f, l) \<in> set xs \<Longrightarrow> f \<in> futs xs"
  by (force simp: futs_def)

lemma lock_free: "inv_lock s \<Longrightarrow> w_mu s = None \<Longrightarrow> \<not> cleared (w_async s i)"
  by (cases "w_async s i") (auto simp: inv_lock_def, metis holds_lock.simps(2) option.distinct(1))

lemma not_adding: "inv_track s \<Longrightarrow> \<not> aw_catchup (w_writer s) \<Longrightarrow> \<not> adding (w_track s)"
  by (cases "w_track s") (auto simp: inv_track_def)

lemma inv_quiet_step:
  assumes "write_step c a s = Some s'" "inv_quiet s" "inv_count s" "inv_lock s" "inv_track s"
  shows "inv_quiet s'"
proof (cases a)
  case (Call i l)
  with assms(1,2) show ?thesis by (auto simp: inv_quiet_def write_ops split: if_splits)
next
  case (Sync i now cancelled)
  show ?thesis
  proof (cases "w_sync s i")
    case (SWaiting f)
    then have "\<not> fst (w_quiet s)" using quiet_sync [OF assms(2), of i] by simp
    with Sync assms(1,2) show ?thesis by (auto simp: inv_quiet_def sync_frame)
  next
    case (SCleared l)
    then have "\<not> fst (w_quiet s)" using quiet_sync [OF assms(2), of i] by simp
    with Sync assms(1,2) show ?thesis by (auto simp: inv_quiet_def sync_frame)
  qed (use Sync assms(1,2) in \<open>auto simp: inv_quiet_def write_ops split: if_splits\<close>)
next
  case (CallAsync i l now)
  with assms(1,2) show ?thesis by (auto simp: inv_quiet_def write_ops split: if_splits sum.splits)
next
  case (Async i now)
  show ?thesis
  proof (cases "w_async s i")
    case (ACleared l)
    then have "\<not> snd (w_quiet s)" using quiet_async [OF assms(2), of i] by simp
    with Async assms(1,2) show ?thesis by (auto simp: inv_quiet_def async_frame)
  qed (use Async assms(1,2) in \<open>auto simp: inv_quiet_def write_ops Let_def split: if_splits\<close>)
next
  case (Track fmt now jerr late)
  show ?thesis
  proof (cases "w_track s")
    case (TAwait f)
    then have "\<not> snd (w_quiet s)" using assms(2,5) by (auto simp: inv_quiet_def inv_track_def)
    with Track assms(1,2) show ?thesis by (auto simp: inv_quiet_def track_frame)
  qed (use Track assms(1,2) in \<open>auto simp: inv_quiet_def write_ops Let_def split: option.splits sum.splits if_splits\<close>)
next
  case (Engage fmt now jerr late)
  show ?thesis
  proof (cases "w_mon s")
    case (MInflight al)
    with Engage assms(1,2) nobody_flies [OF assms(3)] show ?thesis by (auto simp: inv_quiet_def write_ops split: if_splits)
  next
    case (MDrain al)
    with Engage assms(1,2) lock_free [OF assms(4)] not_adding [OF assms(5)] show ?thesis
      by (auto simp: inv_quiet_def write_ops WaitOutstanding_def outstanding_def split: if_splits)
  next
    case (MStop al)
    with Engage assms(1,2) show ?thesis by (auto simp: inv_quiet_def write_ops Let_def split: sum.splits)
  next
    case (MWait f al)
    with Engage assms(1,2) show ?thesis by (auto simp: inv_quiet_def write_ops split: option.splits sum.splits)
  qed (use Engage assms(1,2) in \<open>auto simp: inv_quiet_def write_ops split: if_splits\<close>)
qed (use assms(1,2) in \<open>auto simp: inv_quiet_def watch_frame sample_frame aw_Close_def mon_Close_def Disengage_def split: if_splits\<close>)

text \<open>Nothing follows the stop leaf but what its caller no longer waited for.\<close>

fun entries_after :: "future \<Rightarrow> (future \<times> leaf) list \<Rightarrow> (future \<times> leaf) list" where
  "entries_after f [] = []"
| "entries_after f (x # xs) = (if fst x = f then xs else entries_after f xs)"

lemma entries_after_snoc: "entries_after f (xs @ [y]) = (if f \<in> futs xs then entries_after f xs @ [y] else [])"
  by (induction xs) auto

lemma entries_after_notin: "f \<notin> futs xs \<Longrightarrow> entries_after f xs = []"
  by (induction xs) auto

lemma entries_after_split: "f \<notin> futs xs \<Longrightarrow> entries_after f (xs @ (f, l) # ys) = ys"
  by (induction xs) auto

fun settled :: "future \<Rightarrow> mon_pc \<Rightarrow> bool" where
  "settled f MIdle = True"
| "settled f (MFire al) = True"
| "settled f (MWait g al) = (g = f)"
| "settled f p = False"

definition stop_last :: "future \<Rightarrow> future set \<Rightarrow> appender \<Rightarrow> bool" where
  "stop_last f left a \<longleftrightarrow> futs (ap_pending a) \<subseteq> insert f left \<and> futs (entries_after f (ap_log a)) \<subseteq> left \<and>
     (\<forall>l. (f, l) \<in> set (ap_pending a) \<union> set (ap_log a) \<longrightarrow> Kind l = KindBackpressure)"

definition inv_stop :: "writes \<Rightarrow> bool" where
  "inv_stop s \<longleftrightarrow> (\<forall>f. w_stopped s = Some f \<longrightarrow> w_quiet s = (True, True) \<and> settled f (w_mon s) \<and> stop_last f (w_abandoned s) (w_app s))"

lemma stop_last_mono: "stop_last f left a \<Longrightarrow> left \<subseteq> left' \<Longrightarrow> stop_last f left' a"
  by (auto simp: stop_last_def)

lemma stop_last_publish:
  assumes "stop_last f left a" "inv_futures a" "ap_publish g a = Some a'"
  shows "stop_last f left a'"
proof -
  obtain l where l: "map_of (ap_pending a) g = Some l"
      "a' = a\<lparr>ap_pending := filter (\<lambda>x. fst x \<noteq> g) (ap_pending a), ap_log := ap_log a @ [(g, l)]\<rparr>"
    using assms(3) by (auto simp: ap_publish_def split: option.splits)
  have g: "(g, l) \<in> set (ap_pending a)" using l(1) by (rule map_of_SomeD)
  then have "g \<in> futs (ap_pending a)" by (rule futs_mem)
  then have "g \<notin> futs (ap_log a)" "g = f \<or> g \<in> left" using assms(1,2) by (auto simp: inv_futures_def stop_last_def)
  then have "futs (entries_after f (ap_log a @ [(g, l)])) \<subseteq> left"
    using assms(1) by (auto simp: entries_after_snoc stop_last_def)
  then show ?thesis using assms(1) g by (auto simp: l(2) stop_last_def)
qed

lemma stop_last_fail: "stop_last f left a \<Longrightarrow> ap_fail g a = Some a' \<Longrightarrow> stop_last f left a'"
  by (auto simp: stop_last_def ap_fail_def split: if_splits)

lemma stop_last_new:
  assumes "inv_futures a" "futs (ap_pending a) \<subseteq> left" "Kind l = KindBackpressure"
  shows "stop_last (ap_next a) left (a\<lparr>ap_next := Suc (ap_next a), ap_pending := ap_pending a @ [(ap_next a, l)]\<rparr>)"
proof -
  have "ap_next a \<notin> futs (ap_pending a)" "ap_next a \<notin> futs (ap_log a)" using assms(1) by (auto simp: inv_futures_def)
  then show ?thesis using assms(2,3) by (auto simp: stop_last_def entries_after_notin dest: futs_mem)
qed

lemma encodeLeaf_kind: "encodeLeaf now l = Inr l' \<Longrightarrow> Kind l' = Kind l"
  by (auto simp: encodeLeaf_def Let_def split: sum.splits if_splits)

lemma quiet_pending:
  assumes "inv_owned s" "inv_quiet s" "w_quiet s = (True, True)" "w_mon s = MStop al"
  shows "futs (ap_pending (w_app s)) \<subseteq> w_abandoned s"
proof
  fix f assume "f \<in> futs (ap_pending (w_app s))"
  then have "owned s f" using assms(1) by (simp add: inv_owned_def)
  moreover have "\<not> past_checks (w_sync s i)" for i using assms(2,3) by (simp add: inv_quiet_def)
  then have "\<not> waited (w_sync s) f" by (metis past_checks.simps(2) waited_def)
  moreover have "outstanding (w_writer s) = []" "w_track s \<noteq> TWait f" using assms(2,3) by (auto simp: inv_quiet_def)
  ultimately show "f \<in> w_abandoned s" using assms(4) by (simp add: owned_def)
qed

lemma inv_stop_step:
  assumes "write_step c a s = Some s'" "inv_stop s" "inv_quiet s" "inv_owned s" "inv_futures (w_app s)" "inv_track s"
  shows "inv_stop s'"
proof (cases "w_stopped s")
  case None
  show ?thesis
  proof (cases "\<exists>fmt now jerr late al. a = Engage fmt now jerr late \<and> w_mon s = MStop al \<and> w_quiet s = (True, True)")
    case True
    then obtain fmt now jerr late al where e: "a = Engage fmt now jerr late" "w_mon s = MStop al" "w_quiet s = (True, True)" by blast
    note q = quiet_pending [OF assms(4,3) e(3,2)]
    from e assms(1) None stop_last_new [OF assms(5) q] show ?thesis
      by (auto simp: inv_stop_def write_ops Let_def split: sum.splits dest!: encodeLeaf_kind) (simp add: sealed_leaf_def)
  next
    case False
    have "w_stopped s' = None"
    proof (cases a)
      case (Engage fmt now jerr late)
      with False None assms(1) show ?thesis
        by (cases "w_mon s") (auto simp: write_ops Let_def split: option.splits sum.splits if_splits)
    qed (use assms(1) None in \<open>auto simp: frames aw_Close_def mon_Close_def Disengage_def split: if_splits\<close>)
    then show ?thesis by (simp add: inv_stop_def)
  qed
next
  case (Some f)
  then have st: "w_quiet s = (True, True)" "settled f (w_mon s)" "stop_last f (w_abandoned s) (w_app s)" using assms(2) by (auto simp: inv_stop_def)
  have no: "\<not> past_checks (w_sync s i)" "\<not> cleared (w_async s i)" "\<not> adding (w_track s)" "w_engaged s" "outstanding (w_writer s) = []" for i
    using assms(3) st(1) by (auto simp: inv_quiet_def)
  show ?thesis
  proof (cases a)
    case (Sync i now cancelled)
    then have "w_app s' = w_app s" using assms(1) no(1) [of i] by (cases "w_sync s i") (auto simp: write_ops split: if_splits)
    moreover have "w_abandoned s \<subseteq> w_abandoned s'" using Sync assms(1) sync_frame(9) by simp
    ultimately have "stop_last f (w_abandoned s') (w_app s')" using stop_last_mono [OF st(3)] by simp
    with Sync assms(1) Some st(1,2) show ?thesis by (simp add: inv_stop_def sync_frame)
  next
    case (Async i now)
    then have "w_app s' = w_app s" using assms(1) no(2) [of i] by (cases "w_async s i") (auto simp: write_ops Let_def split: if_splits)
    with Async assms(1) Some st show ?thesis by (simp add: inv_stop_def async_frame)
  next
    case (Track fmt now jerr late)
    then have "w_app s' = w_app s" using assms(1) no(3)
      by (cases "w_track s") (auto simp: write_ops Let_def split: option.splits sum.splits if_splits)
    moreover have "w_abandoned s \<subseteq> w_abandoned s'" using Track assms(1) track_frame(9) by simp
    ultimately have "stop_last f (w_abandoned s') (w_app s')" using stop_last_mono [OF st(3)] by simp
    with Track assms(1) Some st(1,2) show ?thesis by (simp add: inv_stop_def track_frame)
  next
    case (Sample used free now)
    with assms(1) Some st no(4) show ?thesis by (auto simp: inv_stop_def write_ops split: if_splits)
  next
    case (Engage fmt now jerr late)
    with assms(1) Some st show ?thesis
      by (cases "w_mon s") (auto simp: inv_stop_def write_ops split: option.splits sum.splits intro: stop_last_mono)
  next
    case (Publish g)
    with assms(1) Some st show ?thesis using stop_last_publish [OF st(3) assms(5)] by (auto simp: inv_stop_def)
  next
    case (Fail g)
    with assms(1) Some st show ?thesis using stop_last_fail [OF st(3)] by (auto simp: inv_stop_def)
  qed (use assms(1) Some st in \<open>auto simp: inv_stop_def call_frame acall_frame watch_frame aw_Close_def mon_Close_def Disengage_def split: if_splits\<close>)
qed

text \<open>The invariants together.\<close>

definition writes_inv :: "writes \<Rightarrow> bool" where
  "writes_inv s \<longleftrightarrow> inv_count s \<and> inv_lock s \<and> inv_track s \<and> inv_futures (w_app s) \<and> inv_owned s \<and> inv_quiet s \<and> inv_stop s"

lemma writes_inv_step: "write_step c a s = Some s' \<Longrightarrow> writes_inv s \<Longrightarrow> writes_inv s'"
  unfolding writes_inv_def
  by (auto intro: inv_count_step inv_lock_step inv_track_step inv_futures_step inv_owned_step inv_quiet_step inv_stop_step)

lemma run_writes_inv: "run_writes c as s = Some s' \<Longrightarrow> writes_inv s \<Longrightarrow> writes_inv s'"
  by (induction c as s rule: run_writes.induct) (auto split: option.splits dest: writes_inv_step)

lemma writes_init_inv: "NewAsyncWriter cellID salt wd cp cpInterval = Some (wd', cp', w) \<Longrightarrow> writes_inv (writes_init w)"
  by (auto simp: NewAsyncWriter_def Let_def writes_inv_def writes_init_def inv_count_def flying_def inv_lock_def inv_track_def
      outstanding_def inv_futures_def inv_owned_def inv_quiet_def inv_stop_def split: if_splits)

text \<open>C23: the stop leaf is the last one.  Whatever the interleaving of the writers, once the monitor is
  engaged, has seen the synchronous writes end and the asynchronous ones drain, and has handed over its leaf,
  that leaf is a backpressure leaf, and as long as no operator disengages the monitor every leaf published
  after it is one whose caller had given up waiting for it.\<close>

theorem stop_leaf_is_last:
  assumes "NewAsyncWriter cellID salt wd cp cpInterval = Some (wd', cp', w)"
    and "run_writes c as (writes_init w) = Some s" "w_stopped s = Some f" "ap_log (w_app s) = xs @ (f, l) # ys"
  shows "Kind l = KindBackpressure \<and> futs ys \<subseteq> w_abandoned s \<and> w_engaged s"
proof -
  have inv: "writes_inv s" using run_writes_inv [OF assms(2)] writes_init_inv [OF assms(1)] by blast
  then have "distinct (map fst (ap_log (w_app s)))" by (simp add: writes_inv_def inv_futures_def)
  then have "f \<notin> futs xs" by (simp add: assms(4) futs_def)
  then have "entries_after f (ap_log (w_app s)) = ys" by (simp add: assms(4) entries_after_split)
  moreover have "stop_last f (w_abandoned s) (w_app s)" "w_quiet s = (True, True)" using inv assms(3) by (auto simp: writes_inv_def inv_stop_def)
  moreover have "w_engaged s" if "w_quiet s = (True, True)" using inv that by (simp add: writes_inv_def inv_quiet_def)
  ultimately show ?thesis using assms(4) by (simp add: stop_last_def)
qed

subsection \<open>The asynchronous queue\<close>

text \<open>What the counters and the queue say at any time: the queue is bounded, and the leaves accepted are those
  confirmed and those outstanding.\<close>

definition inv_queue :: "write_config \<Rightarrow> AsyncWriter \<Rightarrow> bool" where
  "inv_queue c w \<longleftrightarrow> int (length (outstanding w)) \<le> wc_capacity c \<and> aw_accepted w = aw_confirmed w + word_of_nat (length (outstanding w))"

lemma inv_queue_same:
  "outstanding w' = outstanding w \<Longrightarrow> aw_accepted w' = aw_accepted w \<Longrightarrow> aw_confirmed w' = aw_confirmed w \<Longrightarrow> inv_queue c w \<Longrightarrow> inv_queue c w'"
  by (simp add: inv_queue_def)

lemma confirm_counts: "aw_accepted (confirm w) = aw_accepted w" "aw_confirmed (confirm w) = aw_confirmed w + 1"
  by (simp_all add: confirm_def Let_def)

lemma inv_queue_step:
  assumes "write_step c a s = Some s'" "inv_queue c (w_writer s)" "inv_track s"
  shows "inv_queue c (w_writer s')"
proof (cases a)
  case (Async i now)
  have len: "int (length (aw_queue (w_writer s))) - int (aw_head (w_writer s)) = int (length (outstanding (w_writer s)))"
    using assms(3) by (simp add: inv_track_def outstanding_def)
  show ?thesis
  proof (cases "w_async s i")
    case (ACleared l)
    with Async assms len show ?thesis
      by (auto simp: write_ops Let_def inv_queue_def inv_track_def split: if_splits)
  qed (use Async assms(1,2) in \<open>auto simp: write_ops Let_def split: if_splits\<close>)
next
  case (Watch now1 now2)
  with assms(1,2) show ?thesis by (auto simp: write_ops Let_def inv_queue_def split: if_splits)
next
  case (Track fmt now jerr late)
  show ?thesis
  proof (cases "w_track s")
    case (TAwait f)
    with assms(3) obtain p ps where "outstanding (w_writer s) = p # ps" by (auto simp: inv_track_def)
    with Track TAwait assms(1,2) show ?thesis
      by (auto simp: write_ops Let_def inv_queue_def outstanding_confirm confirm_counts split: option.splits sum.splits if_splits)
  qed (use Track assms(1,2) in \<open>auto simp: write_ops Let_def inv_queue_def split: option.splits sum.splits if_splits\<close>)
qed (use assms(1,2) in \<open>auto simp: sync_frame call_frame acall_frame sample_frame engage_frame inv_queue_def aw_Close_def mon_Close_def Disengage_def split: if_splits\<close>)

text \<open>the asynchronous queue never holds more leaves than its capacity, and in 64-bit arithmetic the
  leaves accepted are the leaves confirmed plus the leaves in the queue, through cuts, recoveries, closing and
  the death of the tracker.\<close>

lemma async_queue_accounts:
  assumes "NewAsyncWriter cellID salt wd cp cpInterval = Some (wd', wc_capacity c, w)" "run_writes c as (writes_init w) = Some s"
  shows "int (length (outstanding (w_writer s))) \<le> wc_capacity c \<and>
    ast_Accepted (aw_Snapshot (w_writer s)) = ast_Confirmed (aw_Snapshot (w_writer s)) + word_of_nat (length (outstanding (w_writer s)))"
proof -
  have "inv_queue c (w_writer t)" if "run_writes c as s0 = Some t" "writes_inv s0" "inv_queue c (w_writer s0)" for as s0 t
    using that
  proof (induction c as s0 rule: run_writes.induct)
    case (2 c a as s0)
    then obtain s1 where s1: "write_step c a s0 = Some s1" "run_writes c as s1 = Some t" by (auto split: option.splits)
    moreover have "writes_inv s1" "inv_queue c (w_writer s1)"
      using 2(3,4) s1(1) writes_inv_step inv_queue_step by (auto simp: writes_inv_def)
    ultimately show ?case using 2(1) by blast
  qed simp
  moreover have "inv_queue c (w_writer (writes_init w))"
    using assms(1) by (auto simp: NewAsyncWriter_def Let_def writes_init_def inv_queue_def outstanding_def split: if_splits)
  ultimately show ?thesis
    using assms(2) writes_init_inv [OF assms(1)] by (auto simp: inv_queue_def aw_Snapshot_def)
qed

text \<open>A cut whose tracker is dead.\<close>

definition cut_off :: "u64 \<Rightarrow> writes \<Rightarrow> bool" where
  "cut_off n s \<longleftrightarrow> w_track s = TDead \<and> aw_tripped (w_writer s) \<and> aw_accepted (w_writer s) = n"

lemma cut_off_step:
  assumes "write_step c a s = Some s'" "cut_off n s"
  shows "cut_off n s'"
proof (cases a)
  case (Async i now)
  with assms show ?thesis by (cases "w_async s i") (auto simp: cut_off_def write_ops Let_def split: if_splits)
next
  case (Watch now1 now2)
  with assms show ?thesis by (auto simp: cut_off_def write_ops Let_def split: if_splits)
next
  case (Track fmt now jerr late)
  with assms show ?thesis by (simp add: cut_off_def write_ops)
qed (use assms in \<open>auto simp: cut_off_def sync_frame call_frame acall_frame sample_frame engage_frame aw_Close_def mon_Close_def Disengage_def split: if_splits\<close>)


subsection \<open>Examples\<close>

definition wconfig_ex :: write_config where
  "wconfig_ex = \<lparr>wc_sha = (\<lambda>b. zeros 32), wc_cellID = ''c'', wc_salt = zeros 16, wc_msalt = zeros 16, wc_window = second, wc_capacity = 8192,
     wc_quota = 100, wc_limit = 80, wc_hostFloor = 0, wc_bound = True, wc_drain = True\<rparr>"

definition writer_ex :: AsyncWriter where
  "writer_ex = \<lparr>aw_queue = [], aw_head = 0, aw_tripped = False, aw_tripAt = zero_time, aw_refusedCut = 0,
     aw_episodes = 0, aw_catchup = False, aw_stop = False, aw_accepted = 0, aw_confirmed = 0, aw_refusedBklog = 0\<rparr>"

lemma writer_ex_new: "NewAsyncWriter ''c'' (zeros 16) 0 0 (second div 10) = Some (second, wc_capacity wconfig_ex, writer_ex)"
  by (simp add: NewAsyncWriter_def DefaultOpposabilityWindow_def DefaultAsyncQueueCapacity_def writer_ex_def wconfig_ex_def second_def)

definition wleaf_ex :: leaf where
  "wleaf_ex = \<lparr>Kind = KindDecision, CellID = ''c'', PayloadHash = zeros 32, Timestamp = 5\<rparr>"

lemma wleaf_encode: "encodeLeaf now wleaf_ex = Inr wleaf_ex"
  "encodeLeaf now (sealed_leaf (\<lambda>b. zeros 32) 3 ''c'' (zeros 16) p 7) = Inr (sealed_leaf (\<lambda>b. zeros 32) 3 ''c'' (zeros 16) p 7)"
  by (simp_all add: encodeLeaf_def wleaf_ex_def sealed_leaf_def Marshal_def maxCellIDLen_def known_kind_def Let_def)

definition stop_run_ex :: "action list" where
  "stop_run_ex = [CallAsync 0 wleaf_ex 1, Async 0 1, Async 0 1, Async 0 1, Call 1 wleaf_ex, Sync 1 1 False,
     Sample (Some 90) (Some 50) 7, Engage (\<lambda>al. []) 7 False False, Sync 1 1 False, Engage (\<lambda>al. []) 7 False False,
     Track (\<lambda>e r t n. []) 8 False False, Publish 0, Track (\<lambda>e r t n. []) 8 False False,
     Engage (\<lambda>al. []) 8 False False, Engage (\<lambda>al. []) 8 False False, Publish 1, Engage (\<lambda>al. []) 9 False False, Engage (\<lambda>al. []) 9 False False]"

lemma stop_run_ex_result:
  "\<exists>s l. run_writes wconfig_ex stop_run_ex (writes_init writer_ex) = Some s \<and> w_stopped s = Some 1 \<and>
     ap_log (w_app s) = [(0, wleaf_ex)] @ (1, l) # [] \<and> OutSync 1 (Inl ErrBackpressure) \<in> set (w_out s)"
  unfolding stop_run_ex_def
  by (simp add: write_ops writes_init_def writer_ex_def wconfig_ex_def wleaf_encode sample_reason_def Await_def ap_publish_def
      confirm_def WaitOutstanding_def Let_def unix_nano_def int64_def)

theorem stop_leaf_is_last_witness:
  "\<exists>s l. run_writes wconfig_ex stop_run_ex (writes_init writer_ex) = Some s \<and> ap_log (w_app s) = [(0, wleaf_ex), (1, l)] \<and>
     Kind l = KindBackpressure \<and> w_engaged s"
proof -
  obtain s l where s: "run_writes wconfig_ex stop_run_ex (writes_init writer_ex) = Some s" "w_stopped s = Some 1"
      "ap_log (w_app s) = [(0, wleaf_ex)] @ (1, l) # []" using stop_run_ex_result by blast
  with stop_leaf_is_last [OF writer_ex_new s] show ?thesis by auto
qed

text \<open>One leaf fails, the writer is neither closed nor cancelled; later leaves are published again.\<close>

definition lost_run_ex :: "action list" where
  "lost_run_ex = [CallAsync 0 wleaf_ex 1, Async 0 1, Async 0 1, Async 0 1, Track (\<lambda>e r t n. []) 2 False False, Fail 0,
     Track (\<lambda>e r t n. []) 3 False False, Watch (2 * second) (2 * second)]"

definition after_lost_ex :: "action list" where
  "after_lost_ex = [Call 1 wleaf_ex, Sync 1 4 False, Sync 1 4 False, Sync 1 4 False, Publish 1, Sync 1 5 False,
     CallAsync 2 wleaf_ex 6, Async 2 6, Async 2 6, Async 2 6]"

lemma lost_run_ex_result:
  "\<exists>s s'. run_writes wconfig_ex lost_run_ex (writes_init writer_ex) = Some s \<and> w_track s = TDead \<and> aw_tripped (w_writer s) \<and>
     \<not> aw_stop (w_writer s) \<and> \<not> w_cancel s \<and> run_writes wconfig_ex after_lost_ex s = Some s' \<and>
     OutSync 1 (Inr 0) \<in> set (w_out s') \<and> OutAsync 2 (Some ErrDurabilityCut) \<in> set (w_out s')"
  unfolding lost_run_ex_def after_lost_ex_def
  by (simp add: write_ops writes_init_def writer_ex_def wconfig_ex_def wleaf_encode Await_def ap_publish_def ap_fail_def
      confirm_def Let_def time_sub_def second_def)


end
