(* ===== verification/Anti_Dribble.thy ===== *)
theory Anti_Dribble
  imports Registry
begin

text \<open>
  Detection of slow exfiltration (\<open>src/src/telemetry/antidribble.go\<close>): each destination, known by its salted
  hash, has a profile of bytes over sliding windows of 1440 minutes and 168 hours, kept in dated ring buffers
  and driven by the records alone; a score over versioned parameters raises an alert, which is a leaf.

  A Go array is a function on its indices; the indices are remainders, so they are always in range.  Byte
  counts and averages are 64-bit words and wrap as the code does.  The detector is given the two instants its
  clock reads for an alert.
\<close>

subsection \<open>Parameters\<close>

type_synonym u16 = "16 word"

definition ring24Slots :: int where "ring24Slots = 1440"
definition ring7Slots :: int where "ring7Slots = 168"
definition emaFastDen :: u64 where "emaFastDen = 8"
definition emaSlowDen :: u64 where "emaSlowDen = 64"
definition defaultDetWindow :: int where "defaultDetWindow = 60 * second"
definition defaultMaxEntities :: int where "defaultMaxEntities = 4096"
definition ReasonEntitiesFull :: string where "ReasonEntitiesFull = ''antidribble-entities-full''"

abbreviation (input) KindTelemetryAlert :: nat where "KindTelemetryAlert \<equiv> 6"

record ScoreParams =
  sp_Version :: u16
  sp_ByteThreshold24h :: u64
  sp_ByteThreshold7d :: u64
  sp_MinActiveWindows :: int
  sp_JitterMaxPerMille :: int
  sp_DriftPerMille :: int
  sp_WBytes :: u16
  sp_WRegularity :: u16
  sp_WDrift :: u16
  sp_AlertThreshold :: u16
  sp_HysteresisPerMille :: u16

definition DefaultScoreParams :: ScoreParams where
  "DefaultScoreParams = \<lparr>sp_Version = 1, sp_ByteThreshold24h = push_bit 30 1, sp_ByteThreshold7d = push_bit 30 4, sp_MinActiveWindows = 240,
     sp_JitterMaxPerMille = 200, sp_DriftPerMille = 250, sp_WBytes = 500, sp_WRegularity = 300, sp_WDrift = 200,
     sp_AlertThreshold = 500, sp_HysteresisPerMille = 100\<rparr>"

definition sp_validate :: "ScoreParams \<Rightarrow> bool" where
  "sp_validate p \<longleftrightarrow> sp_Version p \<noteq> 0 \<and> sp_ByteThreshold24h p \<noteq> 0 \<and> sp_ByteThreshold7d p \<noteq> 0 \<and>
     0 < sp_MinActiveWindows p \<and> sp_MinActiveWindows p \<le> ring24Slots \<and>
     0 < sp_JitterMaxPerMille p \<and> sp_JitterMaxPerMille p \<le> 1000 \<and> 0 \<le> sp_DriftPerMille p \<and>
     uint (sp_WBytes p) + uint (sp_WRegularity p) + uint (sp_WDrift p) \<le> 1000 \<and>
     sp_AlertThreshold p \<noteq> 0 \<and> sp_AlertThreshold p \<le> 1000 \<and> sp_HysteresisPerMille p < sp_AlertThreshold p"

definition paramsBytes :: "ScoreParams \<Rightarrow> int \<Rightarrow> bytes" where
  "paramsBytes p windowMs = ''TBSP1'' @ be 2 (unat (sp_Version p)) @ be64 windowMs @ be 8 (unat (sp_ByteThreshold24h p)) @
     be 8 (unat (sp_ByteThreshold7d p)) @ be 4 (nat (sp_MinActiveWindows p mod 2 ^ 32)) @ be 4 (nat (sp_JitterMaxPerMille p mod 2 ^ 32)) @
     be 4 (nat (sp_DriftPerMille p mod 2 ^ 32)) @ be 2 (unat (sp_WBytes p)) @ be 2 (unat (sp_WRegularity p)) @ be 2 (unat (sp_WDrift p)) @
     be 2 (unat (sp_AlertThreshold p)) @ be 2 (unat (sp_HysteresisPerMille p))"

definition paramsHash :: "(bytes \<Rightarrow> bytes) \<Rightarrow> ScoreParams \<Rightarrow> int \<Rightarrow> bytes" where
  "paramsHash sha p windowMs = sha (paramsBytes p windowMs)"

subsection \<open>Profiles\<close>

record entityProfile =
  ep_slotMin :: "nat \<Rightarrow> int"
  ep_ring24 :: "nat \<Rightarrow> u64"
  ep_sum24 :: u64
  ep_slotHour :: "nat \<Rightarrow> int"
  ep_ring7 :: "nat \<Rightarrow> u64"
  ep_sum7 :: u64
  ep_curHour :: int
  ep_curHourBytes :: u64
  ep_lastEval :: int
  ep_seen :: u64
  ep_emaFast :: u64
  ep_emaSlow :: u64
  ep_alerted :: bool

definition newEntityProfile :: entityProfile where
  "newEntityProfile = \<lparr>ep_slotMin = (\<lambda>s. - 1), ep_ring24 = (\<lambda>s. 0), ep_sum24 = 0, ep_slotHour = (\<lambda>s. - 1), ep_ring7 = (\<lambda>s. 0), ep_sum7 = 0,
     ep_curHour = - 1, ep_curHourBytes = 0, ep_lastEval = - 1, ep_seen = 0, ep_emaFast = 0, ep_emaSlow = 0, ep_alerted = False\<rparr>"

definition commitHour :: "entityProfile \<Rightarrow> entityProfile" where
  "commitHour p =
     (let s = nat (ep_curHour p mod ring7Slots);
          p1 = (if ep_slotHour p s \<noteq> ep_curHour p
                then p\<lparr>ep_sum7 := (if ep_slotHour p s \<ge> 0 then ep_sum7 p - ep_ring7 p s else ep_sum7 p),
                       ep_ring7 := (ep_ring7 p)(s := 0), ep_slotHour := (ep_slotHour p)(s := ep_curHour p)\<rparr>
                else p)
      in p1\<lparr>ep_ring7 := (ep_ring7 p1)(s := ep_ring7 p1 s + ep_curHourBytes p1), ep_sum7 := ep_sum7 p1 + ep_curHourBytes p1, ep_curHourBytes := 0\<rparr>)"

definition ep_add_minute :: "int \<Rightarrow> u64 \<Rightarrow> entityProfile \<Rightarrow> entityProfile" where
  "ep_add_minute minute n p =
     (let s = nat (minute mod ring24Slots);
          p1 = (if ep_slotMin p s \<noteq> minute
                then p\<lparr>ep_sum24 := (if ep_slotMin p s \<ge> 0 then ep_sum24 p - ep_ring24 p s else ep_sum24 p),
                       ep_ring24 := (ep_ring24 p)(s := 0), ep_slotMin := (ep_slotMin p)(s := minute)\<rparr>
                else p)
      in p1\<lparr>ep_ring24 := (ep_ring24 p1)(s := ep_ring24 p1 s + n), ep_sum24 := ep_sum24 p1 + n\<rparr>)"

definition ep_add :: "int \<Rightarrow> u64 \<Rightarrow> entityProfile \<Rightarrow> entityProfile" where
  "ep_add minute n p =
     (let p1 = ep_add_minute minute n p; h = minute div 60;
          p2 = (if ep_curHour p1 \<ge> 0 \<and> h \<noteq> ep_curHour p1 then commitHour p1 else p1)
      in p2\<lparr>ep_curHour := h, ep_curHourBytes := ep_curHourBytes p2 + n\<rparr>)"

definition bytesAt :: "entityProfile \<Rightarrow> int \<Rightarrow> u64" where
  "bytesAt p minute = (let s = nat (minute mod ring24Slots) in if ep_slotMin p s = minute then ep_ring24 p s else 0)"

definition ema_step :: "entityProfile \<Rightarrow> int \<Rightarrow> entityProfile" where
  "ema_step p j = (let x = bytesAt p j * 1000
     in p\<lparr>ep_emaFast := (x + (emaFastDen - 1) * ep_emaFast p) div emaFastDen,
          ep_emaSlow := (x + (emaSlowDen - 1) * ep_emaSlow p) div emaSlowDen, ep_seen := ep_seen p + 1\<rparr>)"

definition advanceEMA :: "int \<Rightarrow> entityProfile \<Rightarrow> entityProfile" where
  "advanceEMA t p =
     (if ep_lastEval p < 0 then p\<lparr>ep_lastEval := t\<rparr>
      else let gap0 = t - ep_lastEval p
      in if gap0 \<le> 0 then p
         else let gap = (if gap0 > ring24Slots then 1 else gap0);
                  p1 = (if gap0 > ring24Slots then p\<lparr>ep_emaFast := 0, ep_emaSlow := 0, ep_seen := 0, ep_lastEval := t - 1\<rparr> else p)
              in (foldl ema_step p1 [t - gap + 1 .. t])\<lparr>ep_lastEval := t\<rparr>)"

text \<open>The scans of an evaluation: the slots whose date is in the window.\<close>

definition live24 :: "entityProfile \<Rightarrow> int \<Rightarrow> nat list" where
  "live24 p t = filter (\<lambda>s. t - ring24Slots + 1 \<le> ep_slotMin p s \<and> ep_slotMin p s \<le> t) [0..<1440]"

definition scan24 :: "entityProfile \<Rightarrow> int \<Rightarrow> u64" where
  "scan24 p t = sum_list (map (ep_ring24 p) (live24 p t))"

definition active24 :: "entityProfile \<Rightarrow> int \<Rightarrow> nat" where
  "active24 p t = length (filter (\<lambda>s. ep_ring24 p s > 0) (live24 p t))"

definition scan7 :: "entityProfile \<Rightarrow> int \<Rightarrow> u64" where
  "scan7 p t =
     (let hourNow = t div 60; minHour = hourNow - ring7Slots + 1
      in sum_list (map (ep_ring7 p) (filter (\<lambda>s. minHour \<le> ep_slotHour p s \<and> ep_slotHour p s \<le> hourNow) [0..<168])) +
         (if minHour \<le> ep_curHour p \<and> ep_curHour p \<le> hourNow then ep_curHourBytes p else 0))"

definition deviation :: "entityProfile \<Rightarrow> int \<Rightarrow> u64 \<Rightarrow> u64" where
  "deviation p t mean = sum_list (map (\<lambda>s. let v = ep_ring24 p s in if v > mean then v - mean else mean - v)
     (filter (\<lambda>s. ep_ring24 p s > 0) (live24 p t)))"

record signals =
  sg_bytes :: bool
  sg_regularity :: bool
  sg_drift :: bool

definition ep_signals :: "ScoreParams \<Rightarrow> entityProfile \<Rightarrow> int \<Rightarrow> u64 \<Rightarrow> u64 \<Rightarrow> signals" where
  "ep_signals pm p t sum24 sum7 =
     (let active = active24 p t; n = word_of_nat active :: u64; busy = (int active \<ge> sp_MinActiveWindows pm \<and> sum24 > 0); mean = sum24 div n
      in \<lparr>sg_bytes = (sum24 > sp_ByteThreshold24h pm \<or> sum7 > sp_ByteThreshold7d pm),
          sg_regularity = (busy \<and> mean > 0 \<and> deviation p t mean div n * 1000 div mean < word_of_int (sp_JitterMaxPerMille pm)),
          sg_drift = (busy \<and> ep_seen p \<ge> 4 * emaSlowDen \<and> ep_emaSlow p > 0 \<and>
                      ep_emaFast p * 1000 > ep_emaSlow p * word_of_int (1000 + sp_DriftPerMille pm))\<rparr>)"

definition ep_score :: "ScoreParams \<Rightarrow> signals \<Rightarrow> u16" where
  "ep_score pm sg = (if sg_bytes sg then sp_WBytes pm else 0) + (if sg_regularity sg then sp_WRegularity pm else 0) +
     (if sg_drift sg then sp_WDrift pm else 0)"

definition sig_bits :: "signals \<Rightarrow> nat" where
  "sig_bits sg = of_bool (sg_bytes sg) + 2 * of_bool (sg_regularity sg) + 4 * of_bool (sg_drift sg)"

subsection \<open>The detector\<close>

record dribble_alert =
  da_DstHash :: bytes
  da_WindowID :: int
  da_Score :: u16
  da_Signals :: nat
  da_Sum24h :: u64
  da_Sum7d :: u64

record DetectorStats =
  ds_RecordsIn :: u64
  ds_LateRecords :: u64
  ds_Evaluations :: u64
  ds_Alerts :: u64
  ds_AlertFailures :: u64
  ds_EntitiesCreated :: u64
  ds_EntitiesDropped :: u64

record Detector =
  dt_cellID :: string
  dt_salt :: bytes
  dt_params :: ScoreParams
  dt_paramsH :: bytes
  dt_window :: int
  dt_maxEnt :: int
  dt_watermark :: int
  dt_entities :: "(bytes, entityProfile) gomap"
  dt_stats :: DetectorStats

definition zeroDetStats :: DetectorStats where
  "zeroDetStats = \<lparr>ds_RecordsIn = 0, ds_LateRecords = 0, ds_Evaluations = 0, ds_Alerts = 0, ds_AlertFailures = 0,
     ds_EntitiesCreated = 0, ds_EntitiesDropped = 0\<rparr>"

datatype detector_error = ErrCellIDRequired | ErrSaltTooShort | ErrParamsInvalid | ErrWindowInvalid | ErrMaxEntitiesInvalid

definition millisecond :: int where "millisecond = 1000000"

definition NewDetector ::
  "(bytes \<Rightarrow> bytes) \<Rightarrow> string \<Rightarrow> bytes \<Rightarrow> ScoreParams \<Rightarrow> int \<Rightarrow> int \<Rightarrow> detector_error + Detector" where
  "NewDetector sha cellID salt params window maxEntities =
     (let w = (if window = 0 then defaultDetWindow else window);
          me = (if maxEntities = 0 then defaultMaxEntities else maxEntities)
      in if cellID = [] then Inl ErrCellIDRequired
         else if length salt < 16 then Inl ErrSaltTooShort
         else if \<not> sp_validate params then Inl ErrParamsInvalid
         else if w < millisecond then Inl ErrWindowInvalid
         else if me < 0 then Inl ErrMaxEntitiesInvalid
         else Inr \<lparr>dt_cellID = cellID, dt_salt = salt, dt_params = params, dt_paramsH = paramsHash sha params (w div millisecond),
                dt_window = w, dt_maxEnt = me, dt_watermark = - 1, dt_entities = [], dt_stats = zeroDetStats\<rparr>)"

definition hashDestination :: "(bytes \<Rightarrow> bytes) \<Rightarrow> bytes \<Rightarrow> string \<Rightarrow> bytes" where
  "hashDestination sha salt dst = sha (salt @ dst)"

definition alertManifest :: "string \<Rightarrow> u16 \<Rightarrow> dribble_alert \<Rightarrow> u64 \<Rightarrow> u64 \<Rightarrow> bytes \<Rightarrow> int \<Rightarrow> bytes" where
  "alertManifest cellID version a emaFast emaSlow paramsH atMs =
     ''TBAD1'' @ be 2 (unat version) @ [byte (length cellID)] @ cellID @ da_DstHash a @ be64 (da_WindowID a) @ be 2 (unat (da_Score a)) @
     [byte (da_Signals a)] @ be 8 (unat (da_Sum24h a)) @ be 8 (unat (da_Sum7d a)) @ be 8 (unat emaFast) @ be 8 (unat emaSlow) @ paramsH @ be64 atMs"

text \<open>What a call writes and reports.\<close>

record dribble_io =
  io_reg :: registry
  io_trips :: "string list"
  io_alerts :: "dribble_alert list"

definition stat_bump :: "((u64 \<Rightarrow> u64) \<Rightarrow> DetectorStats \<Rightarrow> DetectorStats) \<Rightarrow> Detector \<Rightarrow> Detector" where
  "stat_bump upd d = d\<lparr>dt_stats := upd (\<lambda>n. n + 1) (dt_stats d)\<rparr>"

definition fireAlert ::
  "(bytes \<Rightarrow> bytes) \<Rightarrow> int \<Rightarrow> time \<Rightarrow> dribble_io \<Rightarrow> Detector \<Rightarrow> int \<Rightarrow> bytes \<Rightarrow> entityProfile \<Rightarrow> dribble_alert
     \<Rightarrow> dribble_io \<times> Detector \<times> entityProfile \<times> reg_error option" where
  "fireAlert sha atMs lnow io d t key p a =
     (case AppendLeaf sha (io_reg io) KindTelemetryAlert (dt_cellID d) (dt_salt d)
             (alertManifest (dt_cellID d) (sp_Version (dt_params d)) a (ep_emaFast p) (ep_emaSlow p) (dt_paramsH d) atMs) (unix_nano lnow) of
        (r', Inl e) \<Rightarrow> (io\<lparr>io_reg := r', io_trips := io_trips io @ [''leaf-write-failed'']\<rparr>, stat_bump ds_AlertFailures_update d, p, Some e)
      | (r', Inr _) \<Rightarrow> (io\<lparr>io_reg := r', io_alerts := io_alerts io @ [a]\<rparr>, stat_bump ds_Alerts_update d, p\<lparr>ep_alerted := True\<rparr>, None))"

definition evaluate ::
  "(bytes \<Rightarrow> bytes) \<Rightarrow> int \<Rightarrow> time \<Rightarrow> dribble_io \<Rightarrow> Detector \<Rightarrow> int \<Rightarrow> bytes \<Rightarrow> entityProfile
     \<Rightarrow> dribble_io \<times> Detector \<times> entityProfile \<times> reg_error option" where
  "evaluate sha atMs lnow io d t key p =
     (let sum24 = scan24 p t; sum7 = scan7 p t;
          p1 = p\<lparr>ep_sum24 := sum24, ep_seen := (if sum24 = 0 \<and> ep_emaFast p = 0 then 0 else ep_seen p), ep_sum7 := sum7\<rparr>;
          pm = dt_params d; sg = ep_signals pm p1 t sum24 sum7; score = ep_score pm sg;
          p2 = (if ep_alerted p1 \<and> uint score < uint (sp_AlertThreshold pm) - uint (sp_HysteresisPerMille pm)
                then p1\<lparr>ep_alerted := False\<rparr> else p1)
      in if \<not> ep_alerted p2 \<and> score \<ge> sp_AlertThreshold pm
         then fireAlert sha atMs lnow io d t key p2
                \<lparr>da_DstHash = key, da_WindowID = t, da_Score = score, da_Signals = sig_bits sg, da_Sum24h = sum24, da_Sum7d = sum7\<rparr>
         else (io, d, p2, None))"

text \<open>One destination at a sealed minute: a dormant one is passed over.\<close>

definition seal_one ::
  "(bytes \<Rightarrow> bytes) \<Rightarrow> int \<Rightarrow> time \<Rightarrow> int \<Rightarrow> dribble_io \<times> Detector \<times> reg_error option \<Rightarrow> bytes \<Rightarrow> dribble_io \<times> Detector \<times> reg_error option" where
  "seal_one sha atMs lnow t x key =
     (case x of (io, d, err) \<Rightarrow>
      let p = the (map_of (dt_entities d) key)
      in if ep_sum24 p = 0 \<and> ep_emaFast p = 0
         then (io, d\<lparr>dt_entities := put key (p\<lparr>ep_seen := 0, ep_lastEval := t - 1\<rparr>) (dt_entities d)\<rparr>, err)
         else (case evaluate sha atMs lnow io (stat_bump ds_Evaluations_update d) t key (advanceEMA t p) of
                 (io', d', p', e) \<Rightarrow> (io', d'\<lparr>dt_entities := put key p' (dt_entities d')\<rparr>, if err = None then e else err)))"

definition sealLocked ::
  "(bytes \<Rightarrow> bytes) \<Rightarrow> int \<Rightarrow> time \<Rightarrow> dribble_io \<Rightarrow> Detector \<Rightarrow> int \<Rightarrow> dribble_io \<times> Detector \<times> reg_error option" where
  "sealLocked sha atMs lnow io d t = foldl (seal_one sha atMs lnow t) (io, d, None) (sort (map fst (dt_entities d)))"

text \<open>A telemetry record, as far as the detector reads it.\<close>

record tel_record =
  tr_Resource :: string
  tr_OctetDelta :: u64
  tr_FlowEnd :: int

definition det_Feed ::
  "(bytes \<Rightarrow> bytes) \<Rightarrow> int \<Rightarrow> time \<Rightarrow> dribble_io \<Rightarrow> Detector \<Rightarrow> tel_record \<Rightarrow> dribble_io \<times> Detector \<times> reg_error option" where
  "det_Feed sha atMs lnow io d rec =
     (if tr_OctetDelta rec = 0 then (io, d, None)
      else if tr_FlowEnd rec \<le> 0 then (io, stat_bump ds_LateRecords_update d, None)
      else let d0 = stat_bump ds_RecordsIn_update d; m = tr_FlowEnd rec div (dt_window d div millisecond);
               key = hashDestination sha (dt_salt d) (tr_Resource rec);
               d1 = (if dt_watermark d0 < 0 then d0\<lparr>dt_watermark := m\<rparr> else d0)
      in case (if m > dt_watermark d1 then (case sealLocked sha atMs lnow io d1 (m - 1) of (io', d', e) \<Rightarrow> (io', d'\<lparr>dt_watermark := m\<rparr>, e))
               else (io, d1, None)) of
        (io2, d2, err) \<Rightarrow>
          if m \<le> dt_watermark d2 - ring24Slots then (io2, stat_bump ds_LateRecords_update d2, err)
          else case map_of (dt_entities d2) key of
            Some p \<Rightarrow> (io2, d2\<lparr>dt_entities := put key (ep_add m (tr_OctetDelta rec) p) (dt_entities d2)\<rparr>, err)
          | None \<Rightarrow>
              if int (length (dt_entities d2)) \<ge> dt_maxEnt d2
              then (io2\<lparr>io_trips := io_trips io2 @ [ReasonEntitiesFull]\<rparr>, stat_bump ds_EntitiesDropped_update d2, err)
              else (io2, stat_bump ds_EntitiesCreated_update
                     (d2\<lparr>dt_entities := put key (ep_add m (tr_OctetDelta rec) newEntityProfile) (dt_entities d2)\<rparr>), err))"

definition det_Flush :: "(bytes \<Rightarrow> bytes) \<Rightarrow> int \<Rightarrow> time \<Rightarrow> dribble_io \<Rightarrow> Detector \<Rightarrow> dribble_io \<times> Detector \<times> reg_error option" where
  "det_Flush sha atMs lnow io d = (if dt_watermark d < 0 then (io, d, None) else sealLocked sha atMs lnow io d (dt_watermark d))"

subsection \<open>Dated rings\<close>

text \<open>Both windows are rings of \<open>N\<close> slots whose dates say which of them are alive: \<open>d\<close> gives the dates,
  \<open>f\<close> the contents.  The slot of an instant \<open>h\<close> counts only if its date is \<open>h\<close>.\<close>

definition slot_of :: "int \<Rightarrow> (nat \<Rightarrow> int) \<Rightarrow> (nat \<Rightarrow> u64) \<Rightarrow> int \<Rightarrow> u64" where
  "slot_of N d f h = (if d (nat (h mod N)) = h then f (nat (h mod N)) else 0)"

definition ring_ok :: "int \<Rightarrow> int \<Rightarrow> (nat \<Rightarrow> int) \<Rightarrow> (nat \<Rightarrow> u64) \<Rightarrow> bool" where
  "ring_ok N M d f \<longleftrightarrow> (\<forall>s < nat N. d s = - 1 \<and> f s = 0 \<or> 0 \<le> d s \<and> d s \<le> M \<and> d s mod N = int s)"

definition write_dates :: "int \<Rightarrow> int \<Rightarrow> (nat \<Rightarrow> int) \<Rightarrow> nat \<Rightarrow> int" where
  "write_dates N h d = d(nat (h mod N) := h)"

definition write_ring :: "int \<Rightarrow> int \<Rightarrow> u64 \<Rightarrow> (nat \<Rightarrow> int) \<Rightarrow> (nat \<Rightarrow> u64) \<Rightarrow> nat \<Rightarrow> u64" where
  "write_ring N h b d f = (let s = nat (h mod N) in f(s := (if d s = h then f s else 0) + b))"

lemma ring_ok_write:
  assumes "ring_ok N M d f" "0 < N" "0 \<le> h" "h \<le> M"
  shows "ring_ok N M (write_dates N h d) (write_ring N h b d f)"
  using assms by (auto simp: ring_ok_def write_dates_def write_ring_def Let_def)

lemma ring_ok_mono: "ring_ok N M d f \<Longrightarrow> M \<le> M' \<Longrightarrow> ring_ok N M' d f"
  by (force simp: ring_ok_def)

lemma slot_of_write:
  assumes "0 < N"
  shows "slot_of N (write_dates N h d) (write_ring N h b d f) k =
    (if k = h then slot_of N d f h + b else if k mod N = h mod N then 0 else slot_of N d f k)"
proof (cases "k mod N = h mod N")
  case True
  then show ?thesis by (simp add: slot_of_def write_dates_def write_ring_def Let_def)
next
  case False
  then have "nat (k mod N) \<noteq> nat (h mod N)" "k \<noteq> h" using assms by (auto simp: nat_eq_iff2)
  then show ?thesis using False by (simp add: slot_of_def write_dates_def write_ring_def Let_def)
qed

lemma slot_of_future: "ring_ok N M d f \<Longrightarrow> 0 < N \<Longrightarrow> M < k \<Longrightarrow> 0 \<le> k \<Longrightarrow> slot_of N d f k = 0"
proof -
  assume a: "ring_ok N M d f" "0 < N" "M < k" "0 \<le> k"
  have "nat (k mod N) < nat N" using a(2) by (simp add: nat_less_iff)
  then have "d (nat (k mod N)) \<le> M \<or> d (nat (k mod N)) = - 1" using a(1) unfolding ring_ok_def by blast
  then show ?thesis using a(3,4) by (auto simp: slot_of_def)
qed

lemma same_residue:
  fixes k h N :: int
  assumes "k mod N = h mod N" "0 < N" "h - N < k" "k < h + N"
  shows "k = h"
proof -
  have "N dvd k - h" using assms(1) by (simp add: mod_eq_dvd_iff)
  moreover have "\<bar>k - h\<bar> < \<bar>N\<bar>" using assms(2-4) by (simp add: abs_less_iff)
  ultimately have "k - h = 0" using dvd_imp_le_int [of "k - h" N] by (cases "k - h = 0") auto
  then show ?thesis by simp
qed

text \<open>The scan of a ring is the sum over the instants of the window.\<close>

lemma ring_scan:
  assumes ok: "ring_ok N M d f" and N: "0 < N"
  shows "sum_list (map f (filter (\<lambda>s. t - N + 1 \<le> d s \<and> d s \<le> t) [0..<nat N])) = (\<Sum>h \<in> {max 0 (t - N + 1)..t}. slot_of N d f h)"
proof -
  let ?S = "{s. s < nat N \<and> t - N + 1 \<le> d s \<and> d s \<le> t}"
  let ?P = "{s \<in> ?S. 0 \<le> d s}"
  have "sum_list (map f (filter (\<lambda>s. t - N + 1 \<le> d s \<and> d s \<le> t) [0..<nat N])) = sum f ?S"
    by (subst sum_list_distinct_conv_sum_set) (auto intro: sum.cong)
  also have "\<dots> = sum f ?P"
    using ok by (intro sum.mono_neutral_right) (auto simp: ring_ok_def)
  also have "\<dots> = (\<Sum>h \<in> d ` ?P. slot_of N d f h)"
  proof (subst sum.reindex)
    have idx: "nat (d s mod N) = s" if "s \<in> ?P" for s using ok that by (auto simp: ring_ok_def)
    show "inj_on d ?P" by (rule inj_onI) (metis idx)
    show "sum f ?P = sum (slot_of N d f \<circ> d) ?P" by (rule sum.cong) (use idx in \<open>auto simp: slot_of_def\<close>)
  qed
  also have "\<dots> = (\<Sum>h \<in> {max 0 (t - N + 1)..t}. slot_of N d f h)"
  proof (rule sum.mono_neutral_left)
    show "\<forall>h \<in> {max 0 (t - N + 1)..t} - d ` ?P. slot_of N d f h = 0"
    proof
      fix h assume h: "h \<in> {max 0 (t - N + 1)..t} - d ` ?P"
      have "nat (h mod N) < nat N" using N by (simp add: nat_less_iff)
      then have "d (nat (h mod N)) \<noteq> h" using h by (metis (mono_tags, lifting) Diff_iff atLeastAtMost_iff image_eqI max.bounded_iff mem_Collect_eq)
      then show "slot_of N d f h = 0" by (simp add: slot_of_def)
    qed
  qed auto
  finally show ?thesis .
qed

text \<open>The reference: the bytes of the records accepted for a destination, by minute.\<close>

definition total_at :: "(int \<Rightarrow> int) \<Rightarrow> (int \<times> u64) list \<Rightarrow> int \<Rightarrow> u64" where
  "total_at unit H h = sum_list (map snd (filter (\<lambda>x. unit (fst x) = h) H))"

definition total_in :: "(int \<Rightarrow> int) \<Rightarrow> (int \<times> u64) list \<Rightarrow> int \<Rightarrow> int \<Rightarrow> u64" where
  "total_in unit H lo hi = sum_list (map snd (filter (\<lambda>x. lo \<le> unit (fst x) \<and> unit (fst x) \<le> hi) H))"

lemma total_at_snoc: "total_at unit (H @ [(m, b)]) h = total_at unit H h + (if unit m = h then b else 0)"
  by (simp add: total_at_def)

lemma sum_total_at: "(\<Sum>h \<in> {lo..hi}. total_at unit H h) = total_in unit H lo hi"
proof (induction H)
  case Nil
  then show ?case by (simp add: total_at_def total_in_def)
next
  case (Cons x H)
  have "(\<Sum>h \<in> {lo..hi}. total_at unit (x # H) h) = (\<Sum>h \<in> {lo..hi}. (if unit (fst x) = h then snd x else 0) + total_at unit H h)"
    by (rule sum.cong) (simp_all add: total_at_def)
  also have "\<dots> = (if lo \<le> unit (fst x) \<and> unit (fst x) \<le> hi then snd x else 0) + total_in unit H lo hi"
    by (simp add: sum.distrib Cons.IH)
  finally show ?case by (simp add: total_in_def)
qed

lemma total_in_clip: "\<forall>x \<in> set H. 0 \<le> unit (fst x) \<Longrightarrow> total_in unit H (max 0 lo) hi = total_in unit H lo hi"
  unfolding total_in_def by (intro arg_cong [of _ _ sum_list] map_cong filter_cong) auto

lemma total_at_none: "\<forall>x \<in> set H. unit (fst x) \<noteq> h \<Longrightarrow> total_at unit H h = 0"
  by (simp add: total_at_def)

subsection \<open>The windows are exact\<close>

text \<open>\<open>window_ok M H p\<close>: the profile \<open>p\<close> represents the history \<open>H\<close> when the latest minute seen is \<open>M\<close>.
  The hour being filled is not yet in its ring, and the ring may hold no hour that would collide with it.\<close>

definition window_ok :: "int \<Rightarrow> (int \<times> u64) list \<Rightarrow> entityProfile \<Rightarrow> bool" where
  "window_ok M H p \<longleftrightarrow>
     (\<forall>x \<in> set H. 0 \<le> fst x \<and> fst x \<le> M) \<and>
     ring_ok 1440 M (ep_slotMin p) (ep_ring24 p) \<and>
     (\<forall>m \<ge> max 0 (M - 1439). slot_of 1440 (ep_slotMin p) (ep_ring24 p) m = total_at (\<lambda>m. m) H m) \<and>
     ring_ok 168 (M div 60) (ep_slotHour p) (ep_ring7 p) \<and>
     (ep_curHour p = - 1 \<and> ep_curHourBytes p = 0 \<or> 0 \<le> ep_curHour p \<and> ep_curHour p \<le> M div 60 \<and>
        (\<forall>s < 168. ep_slotHour p s < ep_curHour p + 168)) \<and>
     (\<forall>h \<ge> max 0 (M div 60 - 167). slot_of 168 (ep_slotHour p) (ep_ring7 p) h + (if ep_curHour p = h then ep_curHourBytes p else 0) =
        total_at (\<lambda>m. m div 60) H h)"

lemma ring_ok_empty: "ring_ok N M (\<lambda>s. - 1) (\<lambda>s. 0)"
  by (simp add: ring_ok_def)

lemma slot_of_empty: "0 \<le> h \<Longrightarrow> slot_of N (\<lambda>s. - 1) (\<lambda>s. 0) h = 0"
  by (simp add: slot_of_def)

lemma window_ok_cong:
  assumes "ep_slotMin p = ep_slotMin q" "ep_ring24 p = ep_ring24 q" "ep_slotHour p = ep_slotHour q" "ep_ring7 p = ep_ring7 q"
    "ep_curHour p = ep_curHour q" "ep_curHourBytes p = ep_curHourBytes q"
  shows "window_ok M H p = window_ok M H q"
  unfolding window_ok_def assms ..

lemma window_ok_new: "window_ok M [] newEntityProfile"
  by (simp add: window_ok_def newEntityProfile_def ring_ok_empty slot_of_empty total_at_def)

text \<open>Time passes.\<close>

lemma window_ok_later:
  assumes "window_ok M H p" "M \<le> M'"
  shows "window_ok M' H p"
proof -
  have "M div 60 \<le> M' div 60" using assms(2) by (simp add: zdiv_mono1)
  with assms show ?thesis
    unfolding window_ok_def by (fastforce intro: ring_ok_mono)
qed

text \<open>The two writes, seen as writes of a ring.\<close>

lemma add_minute_ring:
  "ep_slotMin (ep_add_minute m b p) = write_dates 1440 m (ep_slotMin p)"
  "ep_ring24 (ep_add_minute m b p) = write_ring 1440 m b (ep_slotMin p) (ep_ring24 p)"
  "ep_slotHour (ep_add_minute m b p) = ep_slotHour p" "ep_ring7 (ep_add_minute m b p) = ep_ring7 p"
  "ep_curHour (ep_add_minute m b p) = ep_curHour p" "ep_curHourBytes (ep_add_minute m b p) = ep_curHourBytes p"
  by (auto simp: ep_add_minute_def write_dates_def write_ring_def Let_def ring24Slots_def)

lemma commitHour_ring:
  "ep_slotHour (commitHour p) = write_dates 168 (ep_curHour p) (ep_slotHour p)"
  "ep_ring7 (commitHour p) = write_ring 168 (ep_curHour p) (ep_curHourBytes p) (ep_slotHour p) (ep_ring7 p)"
  "ep_slotMin (commitHour p) = ep_slotMin p" "ep_ring24 (commitHour p) = ep_ring24 p"
  "ep_curHour (commitHour p) = ep_curHour p" "ep_curHourBytes (commitHour p) = 0"
  by (auto simp: commitHour_def write_dates_def write_ring_def Let_def ring7Slots_def)

text \<open>A write of \<open>h\<close> costs no instant after \<open>L\<close> when all dates are before \<open>h + N\<close>.\<close>

lemma write_keeps_window:
  assumes "ring_ok N M d f" "0 < N" "\<forall>s < nat N. d s < h + N" "h - N < k" "k \<noteq> h"
  shows "slot_of N (write_dates N h d) (write_ring N h b d f) k = slot_of N d f k"
proof (cases "k mod N = h mod N")
  case True
  have "nat (k mod N) < nat N" using assms(2) by (simp add: nat_less_iff)
  then have "d (nat (k mod N)) < h + N" using assms(3) by blast
  then have "slot_of N d f k = 0"
    using same_residue [OF True assms(2,4)] assms(5) by (auto simp: slot_of_def)
  then show ?thesis using True assms(2,5) by (simp add: slot_of_write)
qed (use assms(2,5) in \<open>simp add: slot_of_write\<close>)

lemma ring_dates_below: "ring_ok N M d f \<Longrightarrow> M < h + N \<Longrightarrow> - 1 < h + N \<Longrightarrow> \<forall>s < nat N. d s < h + N"
  unfolding ring_ok_def by fastforce

lemma window_ok_commit:
  assumes w: "window_ok M H p" and c: "0 \<le> ep_curHour p"
  shows "window_ok M H (commitHour p)"
proof -
  have r: "ring_ok 168 (M div 60) (ep_slotHour p) (ep_ring7 p)" and cm: "ep_curHour p \<le> M div 60"
    and d: "\<forall>s < 168. ep_slotHour p s < ep_curHour p + 168" using w c by (auto simp: window_ok_def)
  have slot: "slot_of 168 (ep_slotHour (commitHour p)) (ep_ring7 (commitHour p)) h =
      slot_of 168 (ep_slotHour p) (ep_ring7 p) h + (if ep_curHour p = h then ep_curHourBytes p else 0)"
    if "M div 60 - 167 \<le> h" for h
    using write_keeps_window [OF r, of "ep_curHour p" h] d cm that by (cases "h = ep_curHour p") (simp_all add: commitHour_ring slot_of_write)
  have r': "ring_ok 168 (M div 60) (ep_slotHour (commitHour p)) (ep_ring7 (commitHour p))"
    unfolding commitHour_ring by (rule ring_ok_write [OF r]) (use c cm in simp_all)
  have d': "\<forall>s < 168. ep_slotHour (commitHour p) s < ep_curHour p + 168"
    using d by (simp add: commitHour_ring write_dates_def)
  show ?thesis
    using w r' d' c cm slot unfolding window_ok_def by (simp add: commitHour_ring(3-6))
qed

text \<open>A record within the last 1440 minutes is added.\<close>

lemma window_ok_minute:
  assumes w: "window_ok M H p" and m: "M - 1439 \<le> m" "m \<le> M" "0 \<le> m"
  shows "ring_ok 1440 M (ep_slotMin (ep_add_minute m b p)) (ep_ring24 (ep_add_minute m b p)) \<and>
    (\<forall>k \<ge> max 0 (M - 1439). slot_of 1440 (ep_slotMin (ep_add_minute m b p)) (ep_ring24 (ep_add_minute m b p)) k =
       total_at (\<lambda>m. m) (H @ [(m, b)]) k)"
proof -
  have r: "ring_ok 1440 M (ep_slotMin p) (ep_ring24 p)" using w by (simp add: window_ok_def)
  have "slot_of 1440 (write_dates 1440 m (ep_slotMin p)) (write_ring 1440 m b (ep_slotMin p) (ep_ring24 p)) k =
      slot_of 1440 (ep_slotMin p) (ep_ring24 p) k + (if m = k then b else 0)" if "M - 1439 \<le> k" for k
    using write_keeps_window [OF r, of m k] ring_dates_below [OF r, of m] m that by (cases "k = m") (simp_all add: slot_of_write)
  moreover have "\<forall>k \<ge> max 0 (M - 1439). slot_of 1440 (ep_slotMin p) (ep_ring24 p) k = total_at (\<lambda>m. m) H k"
    using w by (simp add: window_ok_def)
  ultimately show ?thesis
    using ring_ok_write [OF r, of m b] m by (simp add: add_minute_ring total_at_snoc)
qed

lemma window_ok_hour:
  assumes w: "window_ok M H p" and m: "M - 1439 \<le> m" "m \<le> M" "0 \<le> m"
    and c: "ep_curHour p = - 1 \<or> ep_curHour p = m div 60 \<or> ep_curHourBytes p = 0"
  shows "window_ok M (H @ [(m, b)]) ((ep_add_minute m b p)\<lparr>ep_curHour := m div 60, ep_curHourBytes := ep_curHourBytes p + b\<rparr>)"
proof -
  have le: "m div 60 \<le> M div 60" "0 \<le> m div 60" using m by (simp_all add: zdiv_mono1 pos_imp_zdiv_nonneg_iff)
  have "M div 60 < m div 60 + 168" using m(1) by linarith
  moreover have r: "ring_ok 168 (M div 60) (ep_slotHour p) (ep_ring7 p)" using w by (simp add: window_ok_def)
  ultimately have d: "\<forall>s < 168. ep_slotHour p s < m div 60 + 168" using ring_dates_below [of 168 "M div 60" _ _ "m div 60"] le by simp
  let ?q = "(ep_add_minute m b p)\<lparr>ep_curHour := m div 60, ep_curHourBytes := ep_curHourBytes p + b\<rparr>"
  have hours: "\<forall>h \<ge> max 0 (M div 60 - 167). slot_of 168 (ep_slotHour p) (ep_ring7 p) h + (if m div 60 = h then ep_curHourBytes p + b else 0) =
      total_at (\<lambda>m. m div 60) (H @ [(m, b)]) h"
  proof (intro allI impI)
    fix h assume h: "max 0 (M div 60 - 167) \<le> h"
    have "slot_of 168 (ep_slotHour p) (ep_ring7 p) h + (if ep_curHour p = h then ep_curHourBytes p else 0) = total_at (\<lambda>m. m div 60) H h"
      using w h unfolding window_ok_def by blast
    moreover have "ep_curHour p = - 1 \<Longrightarrow> ep_curHourBytes p = 0" using w unfolding window_ok_def by auto
    ultimately show "slot_of 168 (ep_slotHour p) (ep_ring7 p) h + (if m div 60 = h then ep_curHourBytes p + b else 0) =
        total_at (\<lambda>m. m div 60) (H @ [(m, b)]) h"
      using c h by (cases "ep_curHourBytes p = 0") (auto simp: total_at_snoc add.assoc [symmetric] split: if_splits)
  qed
  have hist: "\<forall>x \<in> set (H @ [(m, b)]). 0 \<le> fst x \<and> fst x \<le> M" using w m by (auto simp: window_ok_def)
  have fields: "ep_slotMin ?q = ep_slotMin (ep_add_minute m b p)" "ep_ring24 ?q = ep_ring24 (ep_add_minute m b p)"
    "ep_slotHour ?q = ep_slotHour p" "ep_ring7 ?q = ep_ring7 p" "ep_curHour ?q = m div 60" "ep_curHourBytes ?q = ep_curHourBytes p + b"
    by (simp_all add: add_minute_ring)
  show ?thesis
    unfolding window_ok_def fields using hist hours window_ok_minute [OF w m, of b] r le d by blast
qed

lemma window_ok_add:
  assumes w: "window_ok M H p" and m: "M - 1439 \<le> m" "m \<le> M" "0 \<le> m"
  shows "window_ok M (H @ [(m, b)]) (ep_add m b p)"
proof (cases "0 \<le> ep_curHour p \<and> m div 60 \<noteq> ep_curHour p")
  case True
  have "window_ok M (H @ [(m, b)]) ((ep_add_minute m b (commitHour p))\<lparr>ep_curHour := m div 60, ep_curHourBytes := ep_curHourBytes (commitHour p) + b\<rparr>)"
    by (rule window_ok_hour [OF window_ok_commit [OF w] m]) (use True in \<open>simp_all add: commitHour_ring\<close>)
  then show ?thesis
    using True by (subst window_ok_cong) (simp_all add: ep_add_def Let_def add_minute_ring commitHour_ring)
next
  case False
  then have "ep_curHour p = - 1 \<or> ep_curHour p = m div 60" using w by (auto simp: window_ok_def)
  then show ?thesis
    using window_ok_hour [OF w m] False by (auto simp: ep_add_def Let_def add_minute_ring)
qed

text \<open>The scans of an evaluation are the totals of the history.\<close>

lemma total_in_upto: "\<forall>x \<in> set H. unit (fst x) \<le> M \<Longrightarrow> M \<le> t \<Longrightarrow> total_in unit H lo t = total_in unit H lo M"
  unfolding total_in_def by (intro arg_cong [of _ _ sum_list] map_cong filter_cong) auto

lemma scan24_total:
  assumes w: "window_ok M H p" and t: "M \<le> t"
  shows "scan24 p t = total_in (\<lambda>m. m) H (t - 1439) t"
proof -
  have r: "ring_ok 1440 M (ep_slotMin p) (ep_ring24 p)" and h: "\<forall>x \<in> set H. 0 \<le> fst x" using w by (auto simp: window_ok_def)
  have "scan24 p t = (\<Sum>m \<in> {max 0 (t - 1440 + 1)..t}. slot_of 1440 (ep_slotMin p) (ep_ring24 p) m)"
    using ring_scan [OF r] by (simp add: scan24_def live24_def ring24Slots_def)
  also have "\<dots> = (\<Sum>m \<in> {max 0 (t - 1439)..t}. total_at (\<lambda>m. m) H m)"
    by (rule sum.cong) (use w t in \<open>auto simp: window_ok_def\<close>)
  finally show ?thesis by (simp add: sum_total_at total_in_clip h)
qed

lemma scan7_total:
  assumes w: "window_ok M H p" and t: "M \<le> t"
  shows "scan7 p t = total_in (\<lambda>m. m div 60) H (t div 60 - 167) (t div 60)"
proof -
  let ?T = "t div 60" and ?W = "{max 0 (t div 60 - 167)..t div 60}"
  let ?c = "\<lambda>h. if ep_curHour p = h then ep_curHourBytes p else 0"
  have r: "ring_ok 168 (M div 60) (ep_slotHour p) (ep_ring7 p)" and h: "\<forall>x \<in> set H. 0 \<le> fst x div 60"
    and c: "ep_curHour p = - 1 \<and> ep_curHourBytes p = 0 \<or> 0 \<le> ep_curHour p"
    using w by (auto simp: window_ok_def)
  have le: "M div 60 \<le> ?T" using t by (simp add: zdiv_mono1)
  have "scan7 p t = (\<Sum>h \<in> ?W. slot_of 168 (ep_slotHour p) (ep_ring7 p) h) + (if ?T - 167 \<le> ep_curHour p \<and> ep_curHour p \<le> ?T then ep_curHourBytes p else 0)"
    using ring_scan [OF r, of ?T] by (simp add: scan7_def Let_def ring7Slots_def)
  also have "(if ?T - 167 \<le> ep_curHour p \<and> ep_curHour p \<le> ?T then ep_curHourBytes p else 0) = (\<Sum>h \<in> ?W. ?c h)"
    using c by auto
  also have "(\<Sum>h \<in> ?W. slot_of 168 (ep_slotHour p) (ep_ring7 p) h) + (\<Sum>h \<in> ?W. ?c h) = (\<Sum>h \<in> ?W. total_at (\<lambda>m. m div 60) H h)"
    unfolding sum.distrib [symmetric] by (rule sum.cong) (use w le in \<open>auto simp: window_ok_def\<close>)
  finally show ?thesis by (simp add: sum_total_at total_in_clip h)
qed

subsection \<open>Runs of the detector\<close>

text \<open>The record is one the detector keeps: it has bytes and a date, is less than 1440 minutes late, and its
  destination is followed or can be.\<close>

definition rec_minute :: "Detector \<Rightarrow> tel_record \<Rightarrow> int" where
  "rec_minute d rec = tr_FlowEnd rec div (dt_window d div millisecond)"

definition rec_key :: "(bytes \<Rightarrow> bytes) \<Rightarrow> Detector \<Rightarrow> tel_record \<Rightarrow> bytes" where
  "rec_key sha d rec = hashDestination sha (dt_salt d) (tr_Resource rec)"

definition accepts :: "(bytes \<Rightarrow> bytes) \<Rightarrow> Detector \<Rightarrow> tel_record \<Rightarrow> bool" where
  "accepts sha d rec \<longleftrightarrow> tr_OctetDelta rec \<noteq> 0 \<and> 0 < tr_FlowEnd rec \<and> dt_watermark d - 1440 < rec_minute d rec \<and>
     (map_of (dt_entities d) (rec_key sha d rec) \<noteq> None \<or> int (length (dt_entities d)) < dt_maxEnt d)"

type_synonym histories = "bytes \<Rightarrow> (int \<times> u64) list"

definition note_record :: "(bytes \<Rightarrow> bytes) \<Rightarrow> Detector \<Rightarrow> tel_record \<Rightarrow> histories \<Rightarrow> histories" where
  "note_record sha d rec Hs = (let k = rec_key sha d rec in
     if accepts sha d rec then Hs(k := Hs k @ [(rec_minute d rec, tr_OctetDelta rec)]) else Hs)"

inductive det_run :: "(bytes \<Rightarrow> bytes) \<Rightarrow> dribble_io \<Rightarrow> Detector \<Rightarrow> histories \<Rightarrow> bool" for sha where
  run_new: "NewDetector sha cellID salt params window maxEntities = Inr d \<Longrightarrow> det_run sha io d (\<lambda>k. [])"
| run_feed: "det_run sha io d Hs \<Longrightarrow> det_Feed sha atMs lnow io d rec = (io', d', e) \<Longrightarrow> det_run sha io' d' (note_record sha d rec Hs)"
| run_flush: "det_run sha io d Hs \<Longrightarrow> det_Flush sha atMs lnow io d = (io', d', e) \<Longrightarrow> det_run sha io' d' Hs"

text \<open>The profiles represent the histories at the minute \<open>M\<close>.\<close>

definition profiles_ok :: "int \<Rightarrow> histories \<Rightarrow> (bytes, entityProfile) gomap \<Rightarrow> bool" where
  "profiles_ok M Hs es \<longleftrightarrow> (\<forall>k. window_ok M (Hs k) (case map_of es k of None \<Rightarrow> newEntityProfile | Some p \<Rightarrow> p) \<and>
     (map_of es k = None \<longrightarrow> Hs k = []))"

lemma profiles_ok_later: "profiles_ok M Hs es \<Longrightarrow> M \<le> M' \<Longrightarrow> profiles_ok M' Hs es"
  unfolding profiles_ok_def using window_ok_later by blast

text \<open>What every alert of a sealing at \<open>t\<close> carries.\<close>

definition exact_alert :: "ScoreParams \<Rightarrow> histories \<Rightarrow> int \<Rightarrow> dribble_alert \<Rightarrow> bool" where
  "exact_alert pm Hs t a \<longleftrightarrow> da_WindowID a = t \<and> da_Score a \<ge> sp_AlertThreshold pm \<and>
     da_Sum24h a = total_in (\<lambda>m. m) (Hs (da_DstHash a)) (t - 1439) t \<and>
     da_Sum7d a = total_in (\<lambda>m. m div 60) (Hs (da_DstHash a)) (t div 60 - 167) (t div 60) \<and>
     (odd (da_Signals a) \<longleftrightarrow> da_Sum24h a > sp_ByteThreshold24h pm \<or> da_Sum7d a > sp_ByteThreshold7d pm)"

lemma window_ok_ema_step: "window_ok M H (ema_step p j) = window_ok M H p"
  by (rule window_ok_cong) (simp_all add: ema_step_def Let_def)

lemma window_ok_ema_steps: "window_ok M H (foldl ema_step p js) = window_ok M H p"
  by (induction js arbitrary: p) (simp_all add: window_ok_ema_step)

lemma window_ok_simps:
  "window_ok M H (p\<lparr>ep_lastEval := x\<rparr>) = window_ok M H p" "window_ok M H (p\<lparr>ep_seen := y\<rparr>) = window_ok M H p"
  "window_ok M H (p\<lparr>ep_emaFast := z\<rparr>) = window_ok M H p" "window_ok M H (p\<lparr>ep_emaSlow := z\<rparr>) = window_ok M H p"
  "window_ok M H (p\<lparr>ep_sum24 := z\<rparr>) = window_ok M H p" "window_ok M H (p\<lparr>ep_sum7 := z\<rparr>) = window_ok M H p"
  "window_ok M H (p\<lparr>ep_alerted := b\<rparr>) = window_ok M H p"
  by (rule window_ok_cong; simp)+

lemma window_ok_advance: "window_ok M H (advanceEMA t p) = window_ok M H p"
  by (simp add: advanceEMA_def Let_def window_ok_ema_steps window_ok_simps)

lemma odd_sig_bits: "odd (sig_bits sg) = sg_bytes sg"
  by (simp add: sig_bits_def)

text \<open>An evaluation keeps the windows and the rest of the detector; an alert it adds is exact.\<close>

definition same_detector :: "Detector \<Rightarrow> Detector \<Rightarrow> bool" where
  "same_detector d d' \<longleftrightarrow> dt_entities d' = dt_entities d \<and> dt_params d' = dt_params d \<and>
    dt_watermark d' = dt_watermark d \<and> dt_window d' = dt_window d \<and> dt_salt d' = dt_salt d \<and> dt_maxEnt d' = dt_maxEnt d"

lemma same_detector_refl [simp]: "same_detector d d"
  by (simp add: same_detector_def)

lemma same_detector_bump [simp]: "same_detector d (stat_bump upd d') = same_detector d d'"
  by (simp add: same_detector_def stat_bump_def)

lemma fireAlert_frame:
  assumes "fireAlert sha atMs lnow io d t key p a = (io', d', p', err)"
  shows "same_detector d d'" "window_ok M H p' = window_ok M H p" "io_alerts io' \<in> {io_alerts io, io_alerts io @ [a]}"
  using assms by (auto simp: fireAlert_def window_ok_simps split: prod.splits sum.splits)

lemma evaluate_exact:
  assumes e: "evaluate sha atMs lnow io d t key p = (io', d', p', err)" and w: "window_ok M (Hs key) p" "M \<le> t"
  shows "window_ok M (Hs key) p' \<and> same_detector d d' \<and>
    (\<exists>as. io_alerts io' = io_alerts io @ as \<and> (\<forall>a \<in> set as. exact_alert (dt_params d) Hs t a))"
proof -
  define p1 where "p1 = p\<lparr>ep_sum24 := scan24 p t, ep_seen := (if scan24 p t = 0 \<and> ep_emaFast p = 0 then 0 else ep_seen p), ep_sum7 := scan7 p t\<rparr>"
  define sg where "sg = ep_signals (dt_params d) p1 t (scan24 p t) (scan7 p t)"
  define score where "score = ep_score (dt_params d) sg"
  define p2 where "p2 = (if ep_alerted p1 \<and> uint score < uint (sp_AlertThreshold (dt_params d)) - uint (sp_HysteresisPerMille (dt_params d))
    then p1\<lparr>ep_alerted := False\<rparr> else p1)"
  let ?a = "\<lparr>da_DstHash = key, da_WindowID = t, da_Score = score, da_Signals = sig_bits sg, da_Sum24h = scan24 p t, da_Sum7d = scan7 p t\<rparr>"
  have ev: "(if \<not> ep_alerted p2 \<and> score \<ge> sp_AlertThreshold (dt_params d) then fireAlert sha atMs lnow io d t key p2 ?a else (io, d, p2, None)) =
      (io', d', p', err)"
    using e unfolding evaluate_def Let_def p1_def [symmetric] sg_def [symmetric] score_def [symmetric] p2_def [symmetric] .
  have w2: "window_ok M (Hs key) p2" using w(1) by (simp add: p2_def p1_def window_ok_simps)
  have sb: "sg_bytes sg \<longleftrightarrow> scan24 p t > sp_ByteThreshold24h (dt_params d) \<or> scan7 p t > sp_ByteThreshold7d (dt_params d)"
    by (simp add: sg_def ep_signals_def Let_def)
  show ?thesis
  proof (cases "\<not> ep_alerted p2 \<and> score \<ge> sp_AlertThreshold (dt_params d)")
    case True
    then have f: "fireAlert sha atMs lnow io d t key p2 ?a = (io', d', p', err)" using ev by simp
    have "exact_alert (dt_params d) Hs t ?a"
      using True sb by (simp add: exact_alert_def odd_sig_bits scan24_total [OF w] scan7_total [OF w])
    moreover have "io_alerts io' = io_alerts io @ [] \<or> io_alerts io' = io_alerts io @ [?a]" using fireAlert_frame(3) [OF f] by auto
    ultimately have "\<exists>as. io_alerts io' = io_alerts io @ as \<and> (\<forall>a \<in> set as. exact_alert (dt_params d) Hs t a)"
      by (metis empty_iff empty_set set_ConsD)
    then show ?thesis using fireAlert_frame(1,2) [OF f] w2 by simp
  next
    case False
    then show ?thesis using ev w2 by auto
  qed
qed

definition seal_ok :: "Detector \<Rightarrow> int \<Rightarrow> histories \<Rightarrow> int \<Rightarrow> dribble_io \<Rightarrow> dribble_io \<times> Detector \<times> reg_error option \<Rightarrow> bool" where
  "seal_ok d0 M Hs t io0 x \<longleftrightarrow> (case x of (io, d, err) \<Rightarrow>
     profiles_ok M Hs (dt_entities d) \<and> fst ` set (dt_entities d) = fst ` set (dt_entities d0) \<and>
     length (dt_entities d) = length (dt_entities d0) \<and> same_detector (d0\<lparr>dt_entities := []\<rparr>) (d\<lparr>dt_entities := []\<rparr>) \<and>
     (\<exists>as. io_alerts io = io_alerts io0 @ as \<and> (\<forall>a \<in> set as. exact_alert (dt_params d0) Hs t a)))"

lemma profiles_ok_put: "profiles_ok M Hs es \<Longrightarrow> window_ok M (Hs k) p \<Longrightarrow> profiles_ok M Hs (put k p es)"
  by (simp add: profiles_ok_def)

lemma profiles_ok_lookup: "profiles_ok M Hs es \<Longrightarrow> map_of es k = Some p \<Longrightarrow> window_ok M (Hs k) p"
  unfolding profiles_ok_def by (metis option.simps(5))

lemma seal_one_ok:
  assumes s: "seal_ok d0 M Hs t io0 x" and k: "key \<in> fst ` set (dt_entities d0)" and t: "M \<le> t"
  shows "seal_ok d0 M Hs t io0 (seal_one sha atMs lnow t x key)"
proof -
  obtain io d err where x: "x = (io, d, err)" by (cases x)
  have pk: "profiles_ok M Hs (dt_entities d)" and dm: "fst ` set (dt_entities d) = fst ` set (dt_entities d0)" and pm: "dt_params d = dt_params d0"
    using s by (auto simp: seal_ok_def x same_detector_def)
  obtain p where p: "map_of (dt_entities d) key = Some p" using k dm by (metis map_of_eq_None_iff not_None_eq)
  then have kd: "key \<in> fst ` set (dt_entities d)" using k dm by simp
  have w: "window_ok M (Hs key) p" by (rule profiles_ok_lookup [OF pk p])
  show ?thesis
  proof (cases "ep_sum24 p = 0 \<and> ep_emaFast p = 0")
    case True
    then show ?thesis
      using s kd w True by (simp add: x seal_one_def p seal_ok_def same_detector_def profiles_ok_put window_ok_simps length_put dom_put insert_absorb)
  next
    case False
    obtain io' d' p' e where ev: "evaluate sha atMs lnow io (stat_bump ds_Evaluations_update d) t key (advanceEMA t p) = (io', d', p', e)"
      by (metis prod_cases4)
    have "window_ok M (Hs key) (advanceEMA t p)" using w by (simp add: window_ok_advance)
    from evaluate_exact [where Hs = Hs, OF ev this t]
    have f: "window_ok M (Hs key) p'" "same_detector d d'" "\<exists>as. io_alerts io' = io_alerts io @ as \<and> (\<forall>a \<in> set as. exact_alert (dt_params d0) Hs t a)"
      using pm by (auto simp: same_detector_def stat_bump_def)
    then have "\<exists>as. io_alerts io' = io_alerts io0 @ as \<and> (\<forall>a \<in> set as. exact_alert (dt_params d0) Hs t a)"
      using s by (fastforce simp: seal_ok_def x)
    then show ?thesis
      using s kd f(1,2) pk False by (cases "ep_sum24 p = 0") (simp_all add: x seal_one_def p ev seal_ok_def same_detector_def profiles_ok_put length_put dom_put insert_absorb)
  qed
qed

lemma seal_fold_ok:
  "seal_ok d0 M Hs t io0 x \<Longrightarrow> set ks \<subseteq> fst ` set (dt_entities d0) \<Longrightarrow> M \<le> t \<Longrightarrow>
   seal_ok d0 M Hs t io0 (foldl (seal_one sha atMs lnow t) x ks)"
  by (induction ks arbitrary: x) (simp_all add: seal_one_ok)

lemma sealLocked_ok:
  assumes "profiles_ok M Hs (dt_entities d)" "M \<le> t"
  shows "seal_ok d M Hs t io (sealLocked sha atMs lnow io d t)"
  unfolding sealLocked_def by (rule seal_fold_ok) (use assms in \<open>auto simp: seal_ok_def\<close>)

subsection \<open>The claims\<close>

definition det_ok :: "Detector \<Rightarrow> histories \<Rightarrow> bool" where
  "det_ok d Hs \<longleftrightarrow> - 1 \<le> dt_watermark d \<and> 1 \<le> dt_window d div millisecond \<and> profiles_ok (dt_watermark d) Hs (dt_entities d)"

lemma det_ok_new: "NewDetector sha cellID salt params window maxEntities = Inr d \<Longrightarrow> det_ok d (\<lambda>k. [])"
  by (auto simp: NewDetector_def Let_def det_ok_def profiles_ok_def window_ok_new millisecond_def defaultDetWindow_def second_def split: if_splits)

lemma rec_minute_nonneg: "det_ok d Hs \<Longrightarrow> 0 < tr_FlowEnd rec \<Longrightarrow> 0 \<le> rec_minute d rec"
  by (simp add: det_ok_def rec_minute_def pos_imp_zdiv_nonneg_iff)

text \<open>The sealing part of a record, before the record is added.\<close>

definition feed_seal ::
  "(bytes \<Rightarrow> bytes) \<Rightarrow> int \<Rightarrow> time \<Rightarrow> dribble_io \<Rightarrow> Detector \<Rightarrow> int \<Rightarrow> dribble_io \<times> Detector \<times> reg_error option" where
  "feed_seal sha atMs lnow io d m = (if m > dt_watermark d then (case sealLocked sha atMs lnow io d (m - 1) of (io', d', e) \<Rightarrow> (io', d'\<lparr>dt_watermark := m\<rparr>, e))
     else (io, d, None))"

lemma feed_seal_ok:
  assumes "det_ok d Hs" "feed_seal sha atMs lnow io d m = (io2, d2, err)"
  shows "det_ok d2 Hs \<and> dt_watermark d2 = max m (dt_watermark d) \<and> fst ` set (dt_entities d2) = fst ` set (dt_entities d) \<and>
    length (dt_entities d2) = length (dt_entities d) \<and> dt_maxEnt d2 = dt_maxEnt d \<and> dt_salt d2 = dt_salt d \<and> dt_window d2 = dt_window d \<and>
    (\<exists>as. io_alerts io2 = io_alerts io @ as \<and> (\<forall>a \<in> set as. exact_alert (dt_params d) Hs (m - 1) a))"
proof (cases "m > dt_watermark d")
  case True
  obtain io' d' e where s: "sealLocked sha atMs lnow io d (m - 1) = (io', d', e)" by (metis prod_cases3)
  have "seal_ok d (dt_watermark d) Hs (m - 1) io (io', d', e)"
    unfolding s [symmetric] by (rule sealLocked_ok) (use assms(1) True in \<open>auto simp: det_ok_def\<close>)
  moreover from this have "profiles_ok m Hs (dt_entities d')" using True profiles_ok_later by (fastforce simp: seal_ok_def)
  moreover have "io2 = io'" "d2 = d'\<lparr>dt_watermark := m\<rparr>" using assms(2) True s by (simp_all add: feed_seal_def)
  ultimately show ?thesis
    using assms(1) True by (simp add: det_ok_def seal_ok_def same_detector_def)
qed (use assms in \<open>auto simp: feed_seal_def\<close>)

text \<open>The record is added to the profile of its destination.\<close>

lemma det_ok_put:
  assumes "det_ok d Hs" "window_ok (dt_watermark d) H p"
  shows "det_ok (d\<lparr>dt_entities := put k p (dt_entities d)\<rparr>) (Hs(k := H))"
  using assms by (simp add: det_ok_def profiles_ok_def)

lemma det_ok_bump [simp]: "det_ok (stat_bump upd d) Hs = det_ok d Hs"
  by (simp add: det_ok_def stat_bump_def)

lemma stat_bump_fields [simp]:
  "dt_entities (stat_bump upd d) = dt_entities d" "dt_watermark (stat_bump upd d) = dt_watermark d"
  "dt_window (stat_bump upd d) = dt_window d" "dt_salt (stat_bump upd d) = dt_salt d" "dt_maxEnt (stat_bump upd d) = dt_maxEnt d"
  "dt_params (stat_bump upd d) = dt_params d"
  by (simp_all add: stat_bump_def)

definition feed_add :: "bytes \<Rightarrow> tel_record \<Rightarrow> int \<Rightarrow> dribble_io \<times> Detector \<times> reg_error option \<Rightarrow> dribble_io \<times> Detector \<times> reg_error option" where
  "feed_add key rec m x = (case x of (io2, d2, err) \<Rightarrow>
        if m \<le> dt_watermark d2 - 1440 then (io2, stat_bump ds_LateRecords_update d2, err)
        else case map_of (dt_entities d2) key of
            Some p \<Rightarrow> (io2, d2\<lparr>dt_entities := put key (ep_add m (tr_OctetDelta rec) p) (dt_entities d2)\<rparr>, err)
          | None \<Rightarrow>
              if int (length (dt_entities d2)) \<ge> dt_maxEnt d2
              then (io2\<lparr>io_trips := io_trips io2 @ [ReasonEntitiesFull]\<rparr>, stat_bump ds_EntitiesDropped_update d2, err)
              else (io2, stat_bump ds_EntitiesCreated_update
                     (d2\<lparr>dt_entities := put key (ep_add m (tr_OctetDelta rec) newEntityProfile) (dt_entities d2)\<rparr>), err))"

lemma feed_add_ok:
  assumes d: "det_ok d2 Hs" and m: "0 \<le> m" "m \<le> dt_watermark d2" and x: "feed_add k rec m (io2, d2, err) = (io', d', e)"
  shows "det_ok d' (if dt_watermark d2 - 1440 < m \<and> (map_of (dt_entities d2) (k) \<noteq> None \<or> int (length (dt_entities d2)) < dt_maxEnt d2)
      then Hs(k := Hs (k) @ [(m, tr_OctetDelta rec)]) else Hs) \<and> io_alerts io' = io_alerts io2"
proof (cases "dt_watermark d2 - 1440 < m")
  case True
  let ?k = k and ?b = "tr_OctetDelta rec"
  have pk: "profiles_ok (dt_watermark d2) Hs (dt_entities d2)" using d by (simp add: det_ok_def)
  have lo: "dt_watermark d2 - 1439 \<le> m" using True by simp
  show ?thesis
  proof (cases "map_of (dt_entities d2) ?k")
    case None
    then have "Hs ?k = []" using pk by (simp add: profiles_ok_def)
    then have "window_ok (dt_watermark d2) (Hs ?k @ [(m, ?b)]) (ep_add m ?b newEntityProfile)"
      using window_ok_add [OF window_ok_new lo m(2,1), of ?b] by simp
    then show ?thesis using x True None det_ok_put [OF d] d by (auto simp: feed_add_def Let_def split: if_splits)
  next
    case (Some p)
    then show ?thesis
      using x True det_ok_put [OF d window_ok_add [OF profiles_ok_lookup [OF pk Some] lo m(2,1)]]
      by (auto simp: feed_add_def Let_def)
  qed
qed (use d x in \<open>auto simp: feed_add_def Let_def\<close>)

lemma det_Feed_parts:
  "det_Feed sha atMs lnow io d rec =
     (if tr_OctetDelta rec = 0 then (io, d, None)
      else if tr_FlowEnd rec \<le> 0 then (io, stat_bump ds_LateRecords_update d, None)
      else let d0 = stat_bump ds_RecordsIn_update d; m = rec_minute d rec; d1 = (if dt_watermark d0 < 0 then d0\<lparr>dt_watermark := m\<rparr> else d0)
      in feed_add (rec_key sha d rec) rec m (feed_seal sha atMs lnow io d1 m))"
  by (simp add: det_Feed_def feed_add_def feed_seal_def rec_key_def rec_minute_def ring24Slots_def Let_def)

lemma det_Feed_exact:
  assumes d: "det_ok d Hs" and f: "det_Feed sha atMs lnow io d rec = (io', d', e)"
  shows "det_ok d' (note_record sha d rec Hs) \<and>
    (\<exists>as. io_alerts io' = io_alerts io @ as \<and> (\<forall>a \<in> set as. exact_alert (dt_params d) Hs (rec_minute d rec - 1) a))"
proof (cases "tr_OctetDelta rec = 0 \<or> tr_FlowEnd rec \<le> 0")
  case True
  then have "\<not> accepts sha d rec" by (auto simp: accepts_def)
  then show ?thesis using True d f by (auto simp: det_Feed_def note_record_def split: if_splits)
next
  case False
  define m where "m = rec_minute d rec"
  define k where "k = rec_key sha d rec"
  define d1 where "d1 = (if dt_watermark d < 0 then (stat_bump ds_RecordsIn_update d)\<lparr>dt_watermark := m\<rparr> else stat_bump ds_RecordsIn_update d)"
  obtain io2 d2 err where s: "feed_seal sha atMs lnow io d1 m = (io2, d2, err)" by (metis prod_cases3)
  have m: "0 \<le> m" using rec_minute_nonneg [OF d] False by (simp add: m_def)
  have same: "dt_entities d1 = dt_entities d" "dt_params d1 = dt_params d" "dt_maxEnt d1 = dt_maxEnt d" by (simp_all add: d1_def)
  have d1: "det_ok d1 Hs"
    using d m profiles_ok_later [of "dt_watermark d" Hs _ m] by (auto simp: d1_def det_ok_def)
  note fs = feed_seal_ok [OF d1 s]
  have f2: "feed_add k rec m (io2, d2, err) = (io', d', e)"
    using f False by (simp add: det_Feed_parts Let_def m_def [symmetric] k_def [symmetric] s d1_def [symmetric])
  have wm: "m \<le> dt_watermark d2" "dt_watermark d2 - 1440 < m \<longleftrightarrow> dt_watermark d - 1440 < m" using fs m d by (auto simp: d1_def det_ok_def)
  have known: "map_of (dt_entities d2) k \<noteq> None \<longleftrightarrow> map_of (dt_entities d) k \<noteq> None" using fs same by (simp add: map_of_eq_None_iff)
  have "accepts sha d rec \<longleftrightarrow> dt_watermark d2 - 1440 < m \<and> (map_of (dt_entities d2) k \<noteq> None \<or> int (length (dt_entities d2)) < dt_maxEnt d2)"
    unfolding accepts_def known wm(2) using False fs same by (auto simp: m_def k_def)
  then have n: "note_record sha d rec Hs = (if dt_watermark d2 - 1440 < m \<and> (map_of (dt_entities d2) k \<noteq> None \<or> int (length (dt_entities d2)) < dt_maxEnt d2)
      then Hs(k := Hs k @ [(m, tr_OctetDelta rec)]) else Hs)"
    by (auto simp: note_record_def Let_def m_def k_def)
  have "det_ok d' (note_record sha d rec Hs) \<and> io_alerts io' = io_alerts io2"
    unfolding n by (rule feed_add_ok [OF _ m wm(1) f2]) (use fs in blast)
  then show ?thesis using fs same by (simp add: m_def)
qed

lemma det_run_ok: "det_run sha io d Hs \<Longrightarrow> det_ok d Hs"
proof (induction rule: det_run.induct)
  case (run_new cellID salt params window maxEntities d io)
  then show ?case by (rule det_ok_new)
next
  case (run_feed io d Hs atMs lnow rec io' d' e)
  then show ?case using det_Feed_exact by blast
next
  case (run_flush io d Hs atMs lnow io' d' e)
  then show ?case
    using sealLocked_ok [of "dt_watermark d" Hs d "dt_watermark d" io sha atMs lnow]
    by (auto simp: det_Flush_def det_ok_def seal_ok_def same_detector_def split: if_splits)
qed

text \<open>C19: A refinement.  The detector keeps, for each destination, two dated rings of counters.  Whatever records
  were fed, late and out of order ones included, every alert a further record raises reports exactly the bytes
  of the records the detector accepted for that destination in the last 1440 minutes and in the last 168 hours
  (modulo \<open>2 ^ 64\<close>), it names the minute that was sealed, its score reaches the threshold, and the volume signal
  is set exactly when one of the two totals is over its threshold.\<close>

theorem alerts_report_exact_totals:
  assumes "det_run sha io d Hs" "det_Feed sha atMs lnow io d rec = (io', d', e)"
  shows "\<exists>as. io_alerts io' = io_alerts io @ as \<and> (\<forall>a \<in> set as. exact_alert (dt_params d) Hs (rec_minute d rec - 1) a)"
  using det_Feed_exact [OF det_run_ok [OF assms(1)] assms(2)] by blast

text \<open>A small deployment: the hash is the identity, the alert threshold is reached by the volume alone.\<close>

definition ex_params :: ScoreParams where
  "ex_params = DefaultScoreParams\<lparr>sp_ByteThreshold24h := 100, sp_ByteThreshold7d := 150, sp_WRegularity := 0, sp_WDrift := 0\<rparr>"

definition ex_salt :: bytes where "ex_salt = replicate 16 CHR ''s''"

definition ex_detector :: "(bytes, entityProfile) gomap \<Rightarrow> int \<Rightarrow> DetectorStats \<Rightarrow> Detector" where
  "ex_detector es wm st = \<lparr>dt_cellID = ''c'', dt_salt = ex_salt, dt_params = ex_params, dt_paramsH = paramsBytes ex_params 60000,
     dt_window = 60000000000, dt_maxEnt = 4096, dt_watermark = wm, dt_entities = es, dt_stats = st\<rparr>"

definition ex_io :: dribble_io where
  "ex_io = \<lparr>io_reg = \<lparr>rg_log = [], rg_journal = None, rg_engaged = False, rg_clock = 1, rg_env = []\<rparr>, io_trips = [], io_alerts = []\<rparr>"

definition ex_rec :: "string \<Rightarrow> int \<Rightarrow> u64 \<Rightarrow> tel_record" where
  "ex_rec dst m b = \<lparr>tr_Resource = dst, tr_OctetDelta = b, tr_FlowEnd = m * 60000\<rparr>"

lemma ex_new: "NewDetector (\<lambda>b. b) ''c'' ex_salt ex_params 0 0 = Inr (ex_detector [] (- 1) zeroDetStats)"
  by (simp add: NewDetector_def ex_detector_def ex_salt_def ex_params_def DefaultScoreParams_def sp_validate_def paramsHash_def defaultDetWindow_def
      second_def millisecond_def defaultMaxEntities_def ring24Slots_def Let_def)

lemma ex_score: "ep_score ex_params sg = (if sg_bytes sg then 500 else 0)"
  by (simp add: ep_score_def ex_params_def DefaultScoreParams_def)

text \<open>The first record of a destination is followed; the next minute seals it and raises an alert.\<close>

definition ex_one :: Detector where
  "ex_one = ex_detector [(ex_salt @ ''a'', ep_add 1 101 newEntityProfile)] 1 (zeroDetStats\<lparr>ds_RecordsIn := 1, ds_EntitiesCreated := 1\<rparr>)"

lemma ex_first: "det_Feed (\<lambda>b. b) 0 1 ex_io (ex_detector [] (- 1) zeroDetStats) (ex_rec ''a'' 1 101) = (ex_io, ex_one, None)"
  by (simp add: det_Feed_def ex_rec_def ex_detector_def ex_one_def millisecond_def stat_bump_def hashDestination_def ring24Slots_def put_def
      zeroDetStats_def Let_def)

lemma ex_run: "det_run (\<lambda>b. b) ex_io ex_one ((\<lambda>k. [])(ex_salt @ ''a'' := [(1, 101)]))"
proof -
  have "note_record (\<lambda>b. b) (ex_detector [] (- 1) zeroDetStats) (ex_rec ''a'' 1 101) (\<lambda>k. []) = (\<lambda>k. [])(ex_salt @ ''a'' := [(1, 101)])"
    by (simp add: note_record_def accepts_def rec_minute_def rec_key_def hashDestination_def ex_rec_def ex_detector_def millisecond_def Let_def)
  then show ?thesis using run_feed [OF run_new [OF ex_new] ex_first] by simp
qed

lemma ex_fire: "dt_cellID d = ''c'' \<Longrightarrow> length (io_alerts (fst (fireAlert (\<lambda>b. b) 0 1 ex_io d t key p a))) = 1"
  by (auto simp: fireAlert_def ex_io_def AppendLeaf_def CellLog_Append_def appendInternal_def encodeLeaf_def Marshal_def known_kind_def
      maxCellIDLen_def next_outcome_def sealed_leaf_def unix_nano_def Let_def split: prod.splits sum.splits if_splits)

lemma ex_over:
  assumes "window_ok M (Hs key) p" "M \<le> t" "dt_params d = ex_params" "dt_cellID d = ''c''" "\<not> ep_alerted p" "total_in (\<lambda>m. m) (Hs key) (t - 1439) t > 100"
  shows "length (io_alerts (fst (evaluate (\<lambda>b. b) 0 1 ex_io d t key p))) = 1"
proof -
  have "sg_bytes (ep_signals ex_params q t (scan24 p t) x)" for q x
    using scan24_total [OF assms(1,2)] assms(6) by (simp add: ep_signals_def ex_params_def Let_def)
  then show ?thesis
    using assms(3-5) by (simp add: evaluate_def ex_score ex_fire Let_def) (simp add: ex_params_def DefaultScoreParams_def)
qed

lemma ex_alert: "length (io_alerts (fst (det_Feed (\<lambda>b. b) 0 1 ex_io ex_one (ex_rec ''b'' 2 1)))) = 1"
proof -
  let ?p = "ep_add 1 101 newEntityProfile"
  have w: "window_ok 1 [(1, 101)] ?p" using window_ok_add [OF window_ok_new, of 1 1 101] by simp
  have p: "ep_sum24 ?p = 101" "ep_lastEval ?p = - 1" "\<not> ep_alerted ?p" by (simp_all add: ep_add_def ep_add_minute_def newEntityProfile_def Let_def)
  have a: "length (io_alerts (fst (evaluate (\<lambda>b. b) 0 1 ex_io d 1 key (advanceEMA 1 ?p)))) = 1" if "dt_params d = ex_params" "dt_cellID d = ''c''" for d key
    by (rule ex_over [where M = 1 and Hs = "\<lambda>k. [(1, 101)]"]) (use that w p in \<open>simp_all add: window_ok_simps advanceEMA_def total_in_def\<close>)
  have b: "length (io_alerts x) = Suc 0"
    if "evaluate (\<lambda>b. b) 0 1 ex_io d 1 key (advanceEMA 1 ?p) = (x, y)" "dt_params d = ex_params" "dt_cellID d = ''c''" for d key x y
    using a [OF that(2,3), of key] that(1) by simp
  show ?thesis
    using p(1) by (auto simp: det_Feed_def ex_rec_def ex_one_def ex_detector_def millisecond_def sealLocked_def seal_one_def stat_bump_def Let_def
        split: prod.splits option.splits dest!: b)
qed

theorem alerts_report_exact_totals_witness:
  "\<exists>a. io_alerts (fst (det_Feed (\<lambda>b. b) 0 1 ex_io ex_one (ex_rec ''b'' 2 1))) = [a] \<and>
     exact_alert ex_params ((\<lambda>k. [])(ex_salt @ ''a'' := [(1, 101)])) 1 a"
proof -
  obtain io' d' e where f: "det_Feed (\<lambda>b. b) 0 1 ex_io ex_one (ex_rec ''b'' 2 1) = (io', d', e)" by (metis prod_cases3)
  obtain a where a: "io_alerts io' = [a]" using ex_alert f by (auto simp: length_Suc_conv)
  moreover have "exact_alert ex_params ((\<lambda>k. [])(ex_salt @ ''a'' := [(1, 101)])) 1 a"
    using alerts_report_exact_totals [OF ex_run f] a
    by (simp add: ex_io_def ex_one_def ex_detector_def rec_minute_def ex_rec_def millisecond_def)
  ultimately show ?thesis using f by simp
qed

text \<open>C34: What the running total of the last day is for is to skip destinations that are silent, and it can be
  wrong.  A destination whose running total was brought back to 0 by an evaluation, and that sends again in a
  slot which still holds the same number of bytes of an older minute, is subtracted that old number a second
  time: its total stays 0, and the sealing passes it over without evaluating it, whatever its 7-day total is.\<close>

theorem resumed_destination_is_skipped:
  assumes "ep_sum24 p = 0" "ep_emaFast p = 0" "0 \<le> ep_slotMin p (nat (m mod 1440))" "ep_slotMin p (nat (m mod 1440)) \<noteq> m"
    and "ep_ring24 p (nat (m mod 1440)) = v" "map_of (dt_entities d) k = Some (ep_add m v p)"
  shows "\<exists>p'. seal_one sha atMs lnow t (io, d, err) k = (io, d\<lparr>dt_entities := put k p' (dt_entities d)\<rparr>, err)"
proof -
  have "ep_sum24 (ep_add m v p) = 0 \<and> ep_emaFast (ep_add m v p) = 0"
    using assms(1-5) by (simp add: ep_add_def ep_add_minute_def commitHour_def ring24Slots_def Let_def)
  then show ?thesis using assms(6) by (auto simp: seal_one_def)
qed

text \<open>In the deployment above: 100 bytes at the minute 1, a seal at 2999 that finds the destination silent, 100
  bytes again at 4321.  The 7-day total, 200, is over its threshold, and nothing is evaluated.\<close>

definition ex_silent :: entityProfile where
  "ex_silent = (ep_add 1 100 newEntityProfile)\<lparr>ep_sum24 := 0, ep_sum7 := 100, ep_lastEval := 2999\<rparr>"

lemma ex_silent_eval:
  "evaluate (\<lambda>b. b) 0 1 ex_io (ex_detector es wm st) 2999 k (advanceEMA 2999 (ep_add 1 100 newEntityProfile)) =
     (ex_io, ex_detector es wm st, ex_silent, None)"
proof -
  let ?p = "ep_add 1 100 newEntityProfile"
  have p: "ep_lastEval ?p = - 1" "\<not> ep_alerted ?p" "ep_seen ?p = 0" "ep_emaFast ?p = 0"
    by (simp_all add: ep_add_def ep_add_minute_def newEntityProfile_def Let_def)
  then have adv: "advanceEMA 2999 ?p = ?p\<lparr>ep_lastEval := 2999\<rparr>" by (simp add: advanceEMA_def)
  have w: "window_ok 1 [(1, 100)] (?p\<lparr>ep_lastEval := 2999\<rparr>)" using window_ok_add [OF window_ok_new, of 1 1 100] by (simp add: window_ok_simps)
  have "scan24 (?p\<lparr>ep_lastEval := 2999\<rparr>) 2999 = 0" "scan7 (?p\<lparr>ep_lastEval := 2999\<rparr>) 2999 = 100"
    using scan24_total [OF w, of 2999] scan7_total [OF w, of 2999] by (simp_all add: total_in_def)
  then show ?thesis
    using p by (simp add: evaluate_def adv Let_def ex_detector_def ex_score ex_silent_def) (simp add: ep_signals_def ex_params_def DefaultScoreParams_def Let_def)
qed

theorem resumed_destination_is_skipped_witness:
  "scan7 (ep_add 4321 100 ex_silent) 4321 = 200 \<and> scan24 (ep_add 4321 100 ex_silent) 4321 = 100 \<and>
   sp_ByteThreshold7d ex_params < 200 \<and>
   (\<exists>p'. seal_one (\<lambda>b. b) 0 1 4321 (ex_io, ex_detector [(ex_salt @ ''a'', ep_add 4321 100 ex_silent)] 4322 zeroDetStats, None) (ex_salt @ ''a'') =
      (ex_io, ex_detector [(ex_salt @ ''a'', p')] 4322 zeroDetStats, None))"
proof -
  have "window_ok 1 [(1, 100)] ex_silent" using window_ok_add [OF window_ok_new, of 1 1 100] by (simp add: ex_silent_def window_ok_simps)
  then have "window_ok 4321 [(1, 100)] ex_silent" by (rule window_ok_later) simp
  then have w: "window_ok 4321 [(1, 100), (4321, 100)] (ep_add 4321 100 ex_silent)" using window_ok_add [of 4321 "[(1, 100)]" ex_silent 4321 100] by simp
  have s: "ep_sum24 ex_silent = 0" "ep_emaFast ex_silent = 0" "ep_slotMin ex_silent 1 = 1" "ep_ring24 ex_silent 1 = 100"
    by (simp_all add: ex_silent_def ep_add_def ep_add_minute_def newEntityProfile_def ring24Slots_def Let_def)
  have "\<exists>p'. seal_one (\<lambda>b. b) 0 1 4321 (ex_io, ex_detector [(ex_salt @ ''a'', ep_add 4321 100 ex_silent)] 4322 zeroDetStats, None) (ex_salt @ ''a'') =
      (ex_io, (ex_detector [(ex_salt @ ''a'', ep_add 4321 100 ex_silent)] 4322 zeroDetStats)
        \<lparr>dt_entities := put (ex_salt @ ''a'') p' (dt_entities (ex_detector [(ex_salt @ ''a'', ep_add 4321 100 ex_silent)] 4322 zeroDetStats))\<rparr>, None)"
    by (rule resumed_destination_is_skipped [where p = ex_silent and m = 4321 and v = 100]) (use s in \<open>simp_all add: ex_detector_def\<close>)
  then show ?thesis
    using scan24_total [OF w] scan7_total [OF w] by (simp add: total_in_def ex_params_def ex_detector_def put_def)
qed

end
