(* ===== verification/Broker_Intent.thy ===== *)
theory Broker_Intent
  imports Broker_Registry
begin

text \<open>
  The structured translator with the strict decoder in its place: the Go type \<open>structuredIntent\<close> as the decoder
  sees it, what the decoder of the standard library makes of a document for that type, and what an accepted
  intent therefore says.
\<close>

subsection \<open>The target type\<close>

definition plain_field :: "string \<Rightarrow> string \<Rightarrow> gtype \<Rightarrow> gfield" where
  "plain_field name tag t = GField name tag False True t"

definition quotaType :: gtype where
  "quotaType = GStruct False
     [plain_field ''Resource'' ''resource'' GScalar, plain_field ''Operation'' ''operation'' GScalar,
      plain_field ''VolumeMax'' ''volume_max'' GScalar, plain_field ''WindowS'' ''window_s'' GScalar]"

definition structuredIntentType :: gtype where
  "structuredIntentType = GStruct False
     [plain_field ''Action'' ''action'' GScalar, plain_field ''Resource'' ''resource'' GScalar,
      plain_field ''Class'' ''class,omitempty'' (GPtr GScalar), plain_field ''ObjectSeal'' ''object_seal,omitempty'' GScalar,
      plain_field ''QuorumProof'' ''quorum_proof,omitempty'' GScalar, plain_field ''PlanBinding'' ''plan_binding,omitempty'' GScalar,
      plain_field ''Quota'' ''quota,omitempty'' (GPtr quotaType)]"

lemma intent_fields:
  "fieldTypes structuredIntentType =
     [(''action'', GScalar), (''resource'', GScalar), (''class'', GPtr GScalar), (''object_seal'', GScalar), (''quorum_proof'', GScalar),
      (''plan_binding'', GScalar), (''quota'', GPtr quotaType)]"
  by (simp add: fieldTypes_def structuredIntentType_def plain_field_def field_name_def)

subsection \<open>The standard decoder on this type\<close>

text \<open>\<open>null\<close> leaves a field as it is; an unsigned integer is a literal of digits that fits.\<close>

definition parseUint :: "nat \<Rightarrow> string \<Rightarrow> nat option" where
  "parseUint bits s = (if s \<noteq> [] \<and> list_all (in_range 48 57) s \<and> digits_value s < 2 ^ bits then Some (digits_value s) else None)"

definition bad_string :: "jv \<Rightarrow> bool" where
  "bad_string v = (case v of JStr s \<Rightarrow> False | JNull \<Rightarrow> False | _ \<Rightarrow> True)"

definition bad_uint :: "nat \<Rightarrow> jv \<Rightarrow> bool" where
  "bad_uint bits v = (case v of JNum s \<Rightarrow> parseUint bits s = None | JNull \<Rightarrow> False | _ \<Rightarrow> True)"

definition get_string :: "(string \<times> jv) list \<Rightarrow> string \<Rightarrow> string" where
  "get_string ms k = (case map_of (rev ms) k of Some (JStr s) \<Rightarrow> s | _ \<Rightarrow> [])"

definition get_uint :: "nat \<Rightarrow> (string \<times> jv) list \<Rightarrow> string \<Rightarrow> nat option" where
  "get_uint bits ms k = (case map_of (rev ms) k of Some (JNum s) \<Rightarrow> parseUint bits s | _ \<Rightarrow> None)"

text \<open>The field a member is refused for, if any.\<close>

definition quota_member_error :: "string \<times> jv \<Rightarrow> string option option" where
  "quota_member_error m =
     (let k = fst m; v = snd m
      in if k \<in> {''resource'', ''operation''} then (if bad_string v then Some (Some (''quota.'' @ k)) else None)
         else if k \<in> {''volume_max'', ''window_s''} then (if bad_uint 64 v then Some (Some (''quota.'' @ k)) else None)
         else Some None)"

definition intent_member_error :: "string \<times> jv \<Rightarrow> string option option" where
  "intent_member_error m =
     (let k = fst m; v = snd m
      in if k \<in> {''action'', ''resource'', ''object_seal'', ''quorum_proof'', ''plan_binding''} then (if bad_string v then Some (Some k) else None)
         else if k = ''class'' then (if bad_uint 8 v then Some (Some k) else None)
         else if k = ''quota''
         then (case v of JNull \<Rightarrow> None | JObj qs \<Rightarrow> first_some (map quota_member_error qs) | _ \<Rightarrow> Some (Some k))
         else Some None)"

definition quota_of_json :: "(string \<times> jv) list \<Rightarrow> Quota" where
  "quota_of_json qs = \<lparr>q_Resource = get_string qs ''resource'', q_Operation = get_string qs ''operation'',
     q_VolumeMax = word_of_nat (case get_uint 64 qs ''volume_max'' of Some n \<Rightarrow> n | None \<Rightarrow> 0),
     q_WindowS = word_of_nat (case get_uint 64 qs ''window_s'' of Some n \<Rightarrow> n | None \<Rightarrow> 0)\<rparr>"

definition intent_of_members :: "(string \<times> jv) list \<Rightarrow> structuredIntent" where
  "intent_of_members ms = \<lparr>si_Action = get_string ms ''action'', si_Resource = get_string ms ''resource'', si_Class = get_uint 8 ms ''class'',
     si_ObjectSeal = get_string ms ''object_seal'', si_QuorumProof = get_string ms ''quorum_proof'', si_PlanBinding = get_string ms ''plan_binding'',
     si_Quota = (case map_of (rev ms) ''quota'' of Some (JObj qs) \<Rightarrow> Some (quota_of_json qs) | _ \<Rightarrow> None)\<rparr>"

definition intent_of_json :: "jv \<Rightarrow> string option + structuredIntent" where
  "intent_of_json v =
     (case v of
        JNull \<Rightarrow> Inr (intent_of_members [])
      | JObj ms \<Rightarrow> (case first_some (map intent_member_error ms) of Some e \<Rightarrow> Inl e | None \<Rightarrow> Inr (intent_of_members ms))
      | _ \<Rightarrow> Inl (Some []))"

definition Translate :: "(bytes \<Rightarrow> jtok list \<times> bool) \<Rightarrow> string \<Rightarrow> translate_error + Translation" where
  "Translate lexer intent = structured_Translate (Decode lexer intent_of_json (Some structuredIntentType)) intent"

subsection \<open>The claim\<close>

lemma translated_fields:
  assumes "structured_Translate decode intent = Inr tr"
  shows "\<exists>s. decode intent = Inr s \<and> tr_Action tr = si_Action s \<and> si_Action s \<noteq> [] \<and> tr_Resource tr = si_Resource s \<and> si_Resource s \<noteq> [] \<and>
    tr_Quota tr = si_Quota s \<and> tr_Class tr = map_option class_of_nat (si_Class s)"
  using assms by (auto simp: structured_Translate_def failed_def split: sum.splits if_splits option.splits)

lemma map_of_rev_distinct: "distinct (map fst ms) \<Longrightarrow> map_of (rev ms) = map_of ms"
  by (rule ext) (metis (no_types, lifting) distinct_rev map_of_eq_None_iff map_of_eq_Some_iff not_None_eq rev_map set_rev)

lemma conforms_intent: "conforms (JObj ms) structuredIntentType \<Longrightarrow> fst ` set ms \<subseteq> set (map fst (fieldTypes structuredIntentType))"
proof
  fix k assume c: "conforms (JObj ms) structuredIntentType" and k: "k \<in> fst ` set ms"
  have d: "deref structuredIntentType = structuredIntentType" "\<not> selfDecodes structuredIntentType" by (simp_all add: structuredIntentType_def)
  obtain m where m: "m \<in> set ms" "fst m = k" using k by auto
  then have "map_of (fieldTypes structuredIntentType) k \<noteq> None"
    using c by (subst (asm) conforms.simps) (auto simp: d structuredIntentType_def)
  then show "k \<in> set (map fst (fieldTypes structuredIntentType))" by (auto simp: map_of_eq_None_iff)
qed

lemma get_string_nonempty: "get_string ms k \<noteq> [] \<Longrightarrow> map_of (rev ms) k = Some (JStr (get_string ms k))"
  by (auto simp: get_string_def split: option.splits jv.splits)

lemma intent_of_json_object:
  assumes "intent_of_json v = Inr s" "si_Action s \<noteq> []"
  shows "\<exists>ms. v = JObj ms \<and> s = intent_of_members ms"
proof (cases v)
  case JNull
  then show ?thesis using assms by (auto simp: intent_of_json_def intent_of_members_def get_string_def)
next
  case (JObj ms)
  then show ?thesis using assms(1) by (cases "first_some (map intent_member_error ms)") (simp_all add: intent_of_json_def)
qed (use assms(1) in \<open>simp_all add: intent_of_json_def\<close>)

text \<open>C22: What a reader of an intent sees is what the broker applies.  When the structured translator accepts an
  intent, its text is to the end one object whose keys are pairwise different and are, letter for letter, among
  the seven documented names, and the action and resource translated are the values of the keys \<open>action\<close> and
  \<open>resource\<close> in it.\<close>

theorem translated_intent_is_literal:
  assumes "Translate lexer intent = Inr tr"
  shows "\<exists>ms. lexer intent = (toks (JObj ms), True) \<and> utf8_valid intent \<and> distinct (map fst ms) \<and>
    set (map fst ms) \<subseteq> {''action'', ''resource'', ''class'', ''object_seal'', ''quorum_proof'', ''plan_binding'', ''quota''} \<and>
    map_of ms ''action'' = Some (JStr (tr_Action tr)) \<and> map_of ms ''resource'' = Some (JStr (tr_Resource tr))"
proof -
  obtain s where s: "Decode lexer intent_of_json (Some structuredIntentType) intent = Inr s" "tr_Action tr = si_Action s" "si_Action s \<noteq> []"
      "tr_Resource tr = si_Resource s" "si_Resource s \<noteq> []"
    using translated_fields [OF assms [unfolded Translate_def]] by blast
  obtain v where v: "utf8_valid intent" "lexer intent = (toks v, True)" "first_dup v = None" "conforms v structuredIntentType" "intent_of_json v = Inr s"
    using s(1) by (auto simp: Decode_accepts)
  obtain ms where ms: "v = JObj ms" "s = intent_of_members ms" using intent_of_json_object [OF v(5) s(3)] by blast
  have d: "distinct (map fst ms)" using no_dup_object v(3) by (simp add: ms)
  have "map_of ms ''action'' = Some (JStr (tr_Action tr))" "map_of ms ''resource'' = Some (JStr (tr_Resource tr))"
    using s(2-5) get_string_nonempty [of ms] map_of_rev_distinct [OF d] by (simp_all add: ms intent_of_members_def)
  moreover have "set (map fst ms) \<subseteq> {''action'', ''resource'', ''class'', ''object_seal'', ''quorum_proof'', ''plan_binding'', ''quota''}"
    using conforms_intent [of ms] v(4) by (auto simp: ms intent_fields)
  ultimately show ?thesis using v(1,2) d by (auto simp: ms)
qed

text \<open>A document that says what to read and where.\<close>

definition ex_members :: "(string \<times> jv) list" where
  "ex_members = [(''action'', JStr ''read''), (''resource'', JStr ''db'')]"

definition ex_lexer :: "bytes \<Rightarrow> jtok list \<times> bool" where
  "ex_lexer b = (if b = ''doc'' then (toks (JObj ex_members), True) else ([], False))"

lemma ex_conforms: "conforms (JObj ex_members) structuredIntentType"
  by (subst conforms.simps) (simp add: structuredIntentType_def intent_fields [unfolded structuredIntentType_def] ex_members_def conforms.simps [of _ GScalar])

lemma ex_decoded: "Decode ex_lexer intent_of_json (Some structuredIntentType) ''doc'' = Inr (intent_of_members ex_members)"
proof -
  have "utf8_valid ''doc''" by code_simp
  moreover have "jdepth (JObj ex_members) \<le> maxNestingDepth" "first_dup (JObj ex_members) = None" by (simp_all add: ex_members_def maxNestingDepth_def)
  moreover have "intent_of_json (JObj ex_members) = Inr (intent_of_members ex_members)"
    by (simp add: intent_of_json_def ex_members_def intent_member_error_def bad_string_def)
  moreover have "ex_lexer ''doc'' = (toks (JObj ex_members), True)" by (simp add: ex_lexer_def)
  ultimately show ?thesis using ex_conforms unfolding Decode_accepts by blast
qed

lemma ex_not_smuggled: "\<not> rejectSmugglingUnicode [''read'', ''db'']"
  by (simp add: rejectSmugglingUnicode_def smuggling_def smugglingRanges_def)

theorem translated_intent_is_literal_witness:
  "\<exists>tr ms. Translate ex_lexer ''doc'' = Inr tr \<and> ex_lexer ''doc'' = (toks (JObj ms), True) \<and> distinct (map fst ms) \<and> map_of ms ''action'' = Some (JStr (tr_Action tr))"
proof -
  have i: "intent_of_members ex_members = \<lparr>si_Action = ''read'', si_Resource = ''db'', si_Class = None, si_ObjectSeal = [], si_QuorumProof = [], si_PlanBinding = [], si_Quota = None\<rparr>"
    by (simp add: intent_of_members_def ex_members_def get_string_def get_uint_def)
  obtain tr where t: "Translate ex_lexer ''doc'' = Inr tr"
    using ex_not_smuggled by (simp add: Translate_def structured_Translate_def ex_decoded i opaque_field_def)
  show ?thesis using translated_intent_is_literal [OF t] t by blast
qed

end
