(* ===== verification/Provisioning.thy ===== *)
theory Provisioning
  imports Cluster_Votes
begin

text \<open>
  Measured provisioning (\<open>src/src/registry/provisioning.go\<close>): at each start a daemon measures the files that carry
  the trust of its cell, compares the digest with the one a signed witness attests, and refuses to start when they
  differ and no authority allows the change.  The first start of an empty log commits the witness.

  The file system is a function from paths to what reading one gives; the witness file is part of the state, with
  the two fields of its JSON text.  The signature, its check and the hash are parameters, and so is the decision
  over a transition (\<open>AuthorizeTransition\<close>), which gets the attested contents and both digests.
\<close>

subsection \<open>Measuring\<close>

datatype prov_error = ErrProvisioningConfig | ErrProvisioningMeasure | ErrProvisioningWitnessBad | ErrProvisioningWitnessMissing
  | ErrProvisioningDivergence | ErrProvisioningLeafFault

definition maxProvisioningFiles :: nat where "maxProvisioningFiles = 256"
definition maxProvisioningBytes :: nat where "maxProvisioningBytes = 32 * 2 ^ 20"
definition maxProvisioningName :: nat where "maxProvisioningName = 255"
definition maxAuthorityBytes :: nat where "maxAuthorityBytes = 64 * 2 ^ 10"

record ProvisioningFile =
  vf_Name :: string
  vf_Path :: string
  vf_Authority :: bool
  vf_Content :: "bytes option"

datatype file_read = FileMissing | FileIrregular | FileUnreadable | FileBytes bytes

definition readBoundedBytes :: "(string \<Rightarrow> file_read) \<Rightarrow> string \<Rightarrow> nat \<Rightarrow> bytes option" where
  "readBoundedBytes fs path mx = (case fs path of FileBytes raw \<Rightarrow> if length raw > mx then None else Some raw | _ \<Rightarrow> None)"

definition hashBoundedFile :: "(bytes \<Rightarrow> bytes) \<Rightarrow> (string \<Rightarrow> file_read) \<Rightarrow> string \<Rightarrow> bytes option" where
  "hashBoundedFile sha fs path = (case fs path of FileBytes raw \<Rightarrow> if length raw > maxProvisioningBytes then None else Some (sha raw) | _ \<Rightarrow> None)"

type_synonym file_hashes = "(string \<times> bytes) list"
type_synonym contents = "(string, bytes) gomap"

text \<open>One file: its hash and, for an authority or a setting, its content.\<close>

definition measure_file :: "(bytes \<Rightarrow> bytes) \<Rightarrow> (string \<Rightarrow> file_read) \<Rightarrow> ProvisioningFile \<Rightarrow> prov_error + bytes \<times> bytes option" where
  "measure_file sha fs f =
     (case vf_Content f of
        Some c \<Rightarrow> if length c > maxAuthorityBytes then Inl ErrProvisioningConfig else Inr (sha c, Some c)
      | None \<Rightarrow>
          if vf_Authority f
          then (case readBoundedBytes fs (vf_Path f) maxAuthorityBytes of None \<Rightarrow> Inl ErrProvisioningMeasure | Some raw \<Rightarrow> Inr (sha raw, Some raw))
          else (case hashBoundedFile sha fs (vf_Path f) of None \<Rightarrow> Inl ErrProvisioningMeasure | Some h \<Rightarrow> Inr (h, None)))"

primrec measure_loop ::
  "(bytes \<Rightarrow> bytes) \<Rightarrow> (string \<Rightarrow> file_read) \<Rightarrow> ProvisioningFile list \<Rightarrow> file_hashes \<Rightarrow> contents \<Rightarrow> prov_error + file_hashes \<times> contents" where
  "measure_loop sha fs [] per auth = Inr (per, auth)"
| "measure_loop sha fs (f # files) per auth =
     (if vf_Name f = [] \<or> length (vf_Name f) > maxProvisioningName then Inl ErrProvisioningConfig
      else if vf_Name f \<in> fst ` set per then Inl ErrProvisioningConfig
      else case measure_file sha fs f of
        Inl e \<Rightarrow> Inl e
      | Inr (h, c) \<Rightarrow> measure_loop sha fs files (per @ [(vf_Name f, h)]) (case c of None \<Rightarrow> auth | Some raw \<Rightarrow> put (vf_Name f) raw auth))"

definition digest_bytes :: "file_hashes \<Rightarrow> bytes" where
  "digest_bytes per = ''TBPV1'' @ concat (map (\<lambda>(n, h). byte (length n) # n @ h) per)"

definition measureProvisioning ::
  "(bytes \<Rightarrow> bytes) \<Rightarrow> (string \<Rightarrow> file_read) \<Rightarrow> ProvisioningFile list \<Rightarrow> prov_error + bytes \<times> file_hashes \<times> contents" where
  "measureProvisioning sha fs files =
     (if files = [] \<or> length files > maxProvisioningFiles then Inl ErrProvisioningConfig
      else case measure_loop sha fs files [] [] of
        Inl e \<Rightarrow> Inl e
      | Inr (per0, auth) \<Rightarrow> let per = sort_key fst per0 in Inr (sha (digest_bytes per), per, auth))"

subsection \<open>The witness\<close>

definition witnessPrefix :: string where "witnessPrefix = ''TBP-V1''"
definition witnessVer :: nat where "witnessVer = 2"

record ProvisioningWitness =
  pw_CellID :: string
  pw_Component :: string
  pw_Seq :: u64
  pw_Prev :: bytes
  pw_Digest :: bytes
  pw_Files :: file_hashes
  pw_Authorities :: contents
  pw_Legacy :: bool
  pw_IssuedAt :: time

definition file_bytes :: "string \<times> bytes \<Rightarrow> bytes" where
  "file_bytes f = lp 1 (fst f) @ snd f"

definition authority_bytes :: "contents \<Rightarrow> string \<Rightarrow> bytes" where
  "authority_bytes m n = lp 1 n @ lp 4 (the (map_of m n))"

definition marshalWitnessRecord :: "ProvisioningWitness \<Rightarrow> bytes" where
  "marshalWitnessRecord w =
     (let names = sort (map fst (pw_Authorities w))
      in witnessPrefix @ [byte witnessVer] @ lp 1 (pw_CellID w) @ lp 1 (pw_Component w) @ be 8 (unat (pw_Seq w)) @ pw_Prev w @ pw_Digest w @
         be 2 (length (pw_Files w)) @ concat (map file_bytes (pw_Files w)) @
         [byte (length names)] @ concat (map (authority_bytes (pw_Authorities w)) names) @ be64 (unix (pw_IssuedAt w)))"

fun read_str :: "bytes \<Rightarrow> (string \<times> bytes) option" where
  "read_str [] = None"
| "read_str (c # r) = (let n = of_char c in if n = 0 \<or> n > length r then None else Some (take n r, drop n r))"

primrec read_files :: "nat \<Rightarrow> bytes \<Rightarrow> (file_hashes \<times> bytes) option" where
  "read_files 0 r = Some ([], r)"
| "read_files (Suc k) r =
     (case read_str r of None \<Rightarrow> None
      | Some (n, r1) \<Rightarrow>
          if length r1 < 32 then None
          else (case read_files k (drop 32 r1) of None \<Rightarrow> None | Some (fs, r2) \<Rightarrow> Some ((n, take 32 r1) # fs, r2)))"

primrec read_auths :: "nat \<Rightarrow> contents \<Rightarrow> bytes \<Rightarrow> (contents \<times> bytes) option" where
  "read_auths 0 m r = Some (m, r)"
| "read_auths (Suc k) m r =
     (case read_str r of None \<Rightarrow> None
      | Some (n, r1) \<Rightarrow>
          if length r1 < 4 then None
          else let l = unbe (take 4 r1); r2 = drop 4 r1
          in if l > maxAuthorityBytes \<or> l > length r2 then None
             else if map_of m n \<noteq> None then None
             else read_auths k (m @ [(n, take l r2)]) (drop l r2))"

text \<open>Any defect makes the witness bad; a version 1 record has no authorities.\<close>

definition parse_tail :: "bool \<Rightarrow> string \<Rightarrow> string \<Rightarrow> bytes \<Rightarrow> ProvisioningWitness option" where
  "parse_tail legacy cell comp' r =
     (if length r < 8 + 32 + 32 + 2 then None
      else let n = unbe (take 2 (drop 72 r))
      in if n = 0 \<or> n > maxProvisioningFiles then None
         else case read_files n (drop 74 r) of None \<Rightarrow> None
         | Some (files, r1) \<Rightarrow>
             (case (if legacy then Some ([], r1) else case r1 of [] \<Rightarrow> None | c # r2 \<Rightarrow> read_auths (of_char c) [] r2) of None \<Rightarrow> None
              | Some (auths, r3) \<Rightarrow>
                  if length r3 \<noteq> 8 then None
                  else Some \<lparr>pw_CellID = cell, pw_Component = comp', pw_Seq = word_of_nat (unbe (take 8 r)), pw_Prev = take 32 (drop 8 r),
                         pw_Digest = take 32 (drop 40 r), pw_Files = files, pw_Authorities = auths, pw_Legacy = legacy,
                         pw_IssuedAt = of_unix (wrap64 (int (unbe r3)))\<rparr>))"

definition parseWitnessRecord :: "bytes \<Rightarrow> ProvisioningWitness option" where
  "parseWitnessRecord r =
     (if length r < 8 \<or> take 6 r \<noteq> witnessPrefix then None
      else let ver = of_char (r ! 6) :: nat
      in if ver \<noteq> 1 \<and> ver \<noteq> witnessVer then None
         else case read_str (drop 7 r) of None \<Rightarrow> None
         | Some (cell, r1) \<Rightarrow> (case read_str r1 of None \<Rightarrow> None | Some (comp', r2) \<Rightarrow> parse_tail (ver = 1) cell comp' r2))"

text \<open>The file: absent, unreadable, not the JSON expected, or its two fields in hexadecimal.\<close>

datatype witness_file = WitnessAbsent | WitnessUnreadable | WitnessBadJSON | WitnessFields string string

definition readProvisioningWitness ::
  "(bytes \<Rightarrow> bytes \<Rightarrow> bool) \<Rightarrow> witness_file \<Rightarrow> string \<Rightarrow> string \<Rightarrow> prov_error + ProvisioningWitness option" where
  "readProvisioningWitness verify file cellID component =
     (case file of
        WitnessAbsent \<Rightarrow> Inr None
      | WitnessFields record signature \<Rightarrow>
          (case (hex_decode record, hex_decode signature) of
             (Some rec, Some sig) \<Rightarrow>
               (case parseWitnessRecord rec of None \<Rightarrow> Inl ErrProvisioningWitnessBad
                | Some w \<Rightarrow>
                    if \<not> verify rec sig then Inl ErrProvisioningWitnessBad
                    else if pw_CellID w \<noteq> cellID \<or> pw_Component w \<noteq> component then Inl ErrProvisioningWitnessBad
                    else Inr (Some w))
           | _ \<Rightarrow> Inl ErrProvisioningWitnessBad)
      | _ \<Rightarrow> Inl ErrProvisioningWitnessBad)"

subsection \<open>The guard\<close>

datatype prov_event = provEventGenesis | provEventBoot | provEventTransition | provEventRefuse

definition event_byte :: "prov_event \<Rightarrow> nat" where
  "event_byte e = (case e of provEventGenesis \<Rightarrow> 1 | provEventBoot \<Rightarrow> 2 | provEventTransition \<Rightarrow> 3 | provEventRefuse \<Rightarrow> 4)"

record ProvisioningGuard =
  pg_CellID :: string
  pg_Component :: string
  pg_Files :: "ProvisioningFile list"
  pg_Salt :: bytes
  pg_AuthorizeTransition :: "(contents \<Rightarrow> bytes \<Rightarrow> bytes \<Rightarrow> bool) option"

text \<open>What a start reads and meets: the file system, whether the head of the log and the persistence of the witness
  answer, and the two readings of the clock (the date of the witness, then the leaf).\<close>

record boot_env =
  be_fs :: "string \<Rightarrow> file_read"
  be_headOk :: bool
  be_persistOk :: bool
  be_now1 :: time
  be_now2 :: time

record prov_state =
  pv_reg :: registry
  pv_witness :: witness_file
  pv_trips :: "string list"

definition pv_trip :: "string \<Rightarrow> prov_state \<Rightarrow> prov_state" where
  "pv_trip reason s = s\<lparr>pv_trips := pv_trips s @ [reason]\<rparr>"

definition prov_record :: "string \<Rightarrow> prov_event \<Rightarrow> bytes \<Rightarrow> u64 \<Rightarrow> nat \<Rightarrow> string \<Rightarrow> bytes" where
  "prov_record component event digest seq verdict reason =
     ''TBPL3'' @ [byte (event_byte event), byte (length component)] @ component @ digest @ be 8 (unat seq) @ [byte verdict, byte (length reason)] @ reason"

definition prov_leaf ::
  "(bytes \<Rightarrow> bytes) \<Rightarrow> ProvisioningGuard \<Rightarrow> boot_env \<Rightarrow> prov_state \<Rightarrow> prov_event \<Rightarrow> bytes \<Rightarrow> u64 \<Rightarrow> nat \<Rightarrow> string \<Rightarrow> prov_state \<times> prov_error option" where
  "prov_leaf sha g env s event digest seq verdict reason =
     (case AppendLeaf sha (pv_reg s) KindManifest (pg_CellID g) (pg_Salt g) (prov_record (pg_Component g) event digest seq verdict reason) (unix_nano (be_now2 env)) of
        (r', Inl e) \<Rightarrow> (pv_trip ''provisioning-leaf-fault'' (s\<lparr>pv_reg := r'\<rparr>), Some ErrProvisioningLeafFault)
      | (r', Inr i) \<Rightarrow> (s\<lparr>pv_reg := r'\<rparr>, None))"

definition prov_refuse ::
  "(bytes \<Rightarrow> bytes) \<Rightarrow> ProvisioningGuard \<Rightarrow> boot_env \<Rightarrow> prov_state \<Rightarrow> bytes \<Rightarrow> u64 \<Rightarrow> string \<Rightarrow> prov_error \<Rightarrow> prov_state \<times> prov_error option" where
  "prov_refuse sha g env s digest seq reason cause = (fst (prov_leaf sha g env s provEventRefuse digest seq 0 reason), Some cause)"

definition prov_persist :: "bool \<Rightarrow> witness_file \<Rightarrow> prov_state \<Rightarrow> prov_state \<times> bool" where
  "prov_persist ok file s = (if ok then s\<lparr>pv_witness := file\<rparr> else s, ok)"

definition prov_commit ::
  "(bytes \<Rightarrow> bytes) \<Rightarrow> (bytes \<Rightarrow> bytes option) \<Rightarrow> ProvisioningGuard \<Rightarrow> boot_env \<Rightarrow> prov_state \<Rightarrow> prov_event \<Rightarrow> u64 \<Rightarrow> bytes \<Rightarrow> contents \<Rightarrow> bytes
     \<Rightarrow> file_hashes \<Rightarrow> string \<Rightarrow> prov_state \<times> prov_error option" where
  "prov_commit sha sign g env s event seq prev auths digest per reason =
     (let w = \<lparr>pw_CellID = pg_CellID g, pw_Component = pg_Component g, pw_Seq = seq, pw_Prev = prev, pw_Digest = digest, pw_Files = per,
                pw_Authorities = auths, pw_Legacy = False, pw_IssuedAt = be_now1 env\<rparr>;
          rec = marshalWitnessRecord w
      in case sign rec of
        None \<Rightarrow> (pv_trip ''provisioning-sign-fault'' s, Some ErrProvisioningLeafFault)
      | Some sig \<Rightarrow>
          (case prov_leaf sha g env s event digest seq 1 reason of
             (s1, Some e) \<Rightarrow> (s1, Some e)
           | (s1, None) \<Rightarrow>
               (case prov_persist (be_persistOk env) (WitnessFields (hex_encode rec) (hex_encode sig)) s1 of
                  (s2, False) \<Rightarrow> (pv_trip ''provisioning-persist-fault'' s2, Some ErrProvisioningLeafFault)
                | (s2, True) \<Rightarrow> (s2, None))))"

definition zero32 :: bytes where "zero32 = zeros 32"

definition next_prev :: "(bytes \<Rightarrow> bytes) \<Rightarrow> ProvisioningWitness \<Rightarrow> bytes" where
  "next_prev sha w = sha (marshalWitnessRecord w)"

definition prov_Check ::
  "(bytes \<Rightarrow> bytes) \<Rightarrow> (bytes \<Rightarrow> bytes option) \<Rightarrow> (bytes \<Rightarrow> bytes \<Rightarrow> bool) \<Rightarrow> ProvisioningGuard \<Rightarrow> boot_env \<Rightarrow> prov_state \<Rightarrow> prov_state \<times> prov_error option" where
  "prov_Check sha sign verify g env s =
     (case measureProvisioning sha (be_fs env) (pg_Files g) of
        Inl e \<Rightarrow> prov_refuse sha g env (pv_trip ''provisioning-measure-fault'' s) zero32 0 ''measure-fault'' e
      | Inr (digest, per, auths) \<Rightarrow>
          (case readProvisioningWitness verify (pv_witness s) (pg_CellID g) (pg_Component g) of
             Inl e \<Rightarrow> prov_refuse sha g env (pv_trip ''provisioning-witness-invalid'' s) digest 0 ''witness-invalid'' e
           | Inr None \<Rightarrow>
               if \<not> be_headOk env
               then prov_refuse sha g env (pv_trip ''provisioning-log-fault'' s) digest 0 ''log-fault'' ErrProvisioningMeasure
               else if length (rg_log (pv_reg s)) = 0
               then prov_commit sha sign g env s provEventGenesis 0 zero32 auths digest per ''genesis''
               else if (case pg_AuthorizeTransition g of None \<Rightarrow> True | Some authorize \<Rightarrow> \<not> authorize [] zero32 digest)
               then prov_refuse sha g env (pv_trip ''provisioning-witness-missing'' s) digest 0 ''witness-missing'' ErrProvisioningWitnessMissing
               else prov_commit sha sign g env s provEventTransition 0 zero32 auths digest per ''re-engaged''
           | Inr (Some w) \<Rightarrow>
               if pw_Digest w = digest
               then if pw_Legacy w
                    then prov_commit sha sign g env s provEventTransition (pw_Seq w + 1) (next_prev sha w) auths digest per ''witness-upgraded''
                    else prov_leaf sha g env s provEventBoot digest (pw_Seq w) 1 ''ok''
               else if \<not> pw_Legacy w \<and> (case pg_AuthorizeTransition g of None \<Rightarrow> False | Some authorize \<Rightarrow> authorize (pw_Authorities w) (pw_Digest w) digest)
               then prov_commit sha sign g env s provEventTransition (pw_Seq w + 1) (next_prev sha w) auths digest per ''transition''
               else prov_refuse sha g env (pv_trip ''provisioning-divergence'' s) digest (pw_Seq w) ''divergence'' ErrProvisioningDivergence))"

text \<open>What differs, by name.\<close>

definition changed_names :: "file_hashes \<Rightarrow> file_hashes \<Rightarrow> string list \<times> string list \<times> string list" where
  "changed_names old cur =
     (let om = map_of (rev old); cm = map_of (rev cur)
      in (sort (filter (\<lambda>n. om n \<noteq> None \<and> om n \<noteq> cm n) (remdups (map fst cur))), sort (filter (\<lambda>n. om n = None) (remdups (map fst cur))),
          sort (filter (\<lambda>n. cm n = None) (remdups (map fst old)))))"

definition join :: "string \<Rightarrow> string list \<Rightarrow> string" where
  "join c xs = (case xs of [] \<Rightarrow> [] | x # ys \<Rightarrow> x @ concat (map (\<lambda>y. c @ y) ys))"

text \<open>The accented letters of the texts are written in UTF-8.\<close>

definition e_acute :: string where "e_acute = [CHR 0xC3, CHR 0xA9]"

definition changedNames :: "file_hashes \<Rightarrow> file_hashes \<Rightarrow> string" where
  "changedNames old cur =
     (case changed_names old cur of (ms, as, ds) \<Rightarrow>
      let parts = (if ms = [] then [] else [''modifi'' @ e_acute @ ''(s) : '' @ join '', '' ms]) @
                  (if as = [] then [] else [''ajout'' @ e_acute @ ''(s) : '' @ join '', '' as]) @
                  (if ds = [] then [] else [''retir'' @ e_acute @ ''(s) : '' @ join '', '' ds])
      in if parts = [] then ''condens'' @ e_acute @ '' diff'' @ e_acute @ ''rent'' else join '' ; '' parts)"

record ProvisioningPreview =
  pp_WitnessPresent :: bool
  pp_From :: bytes
  pp_Seq :: u64
  pp_To :: bytes
  pp_Files :: file_hashes
  pp_Conforming :: bool
  pp_Changed :: string

definition PreviewProvisioning ::
  "(bytes \<Rightarrow> bytes) \<Rightarrow> (bytes \<Rightarrow> bytes \<Rightarrow> bool) \<Rightarrow> (string \<Rightarrow> file_read) \<Rightarrow> ProvisioningFile list \<Rightarrow> witness_file \<Rightarrow> string \<Rightarrow> string
     \<Rightarrow> prov_error + ProvisioningPreview" where
  "PreviewProvisioning sha verify fs files file cellID component =
     (if cellID = [] \<or> component = [] then Inl ErrProvisioningConfig
      else case measureProvisioning sha fs files of Inl e \<Rightarrow> Inl e
      | Inr (digest, per, _) \<Rightarrow>
          (case readProvisioningWitness verify file cellID component of Inl e \<Rightarrow> Inl e
           | Inr None \<Rightarrow> Inr \<lparr>pp_WitnessPresent = False, pp_From = zero32, pp_Seq = 0, pp_To = digest, pp_Files = per, pp_Conforming = False, pp_Changed = []\<rparr>
           | Inr (Some w) \<Rightarrow>
               Inr \<lparr>pp_WitnessPresent = True, pp_From = pw_Digest w, pp_Seq = pw_Seq w, pp_To = digest, pp_Files = per,
                    pp_Conforming = (pw_Digest w = digest), pp_Changed = (if pw_Digest w = digest then [] else changedNames (pw_Files w) per)\<rparr>))"

text \<open>The list of additional files of the environment: entries separated by commas, spaces trimmed.\<close>

definition is_space :: "char \<Rightarrow> bool" where
  "is_space c \<longleftrightarrow> c \<in> set [CHR '' '', byte 9, byte 10, byte 11, byte 12, byte 13]"

definition TrimSpace :: "string \<Rightarrow> string" where
  "TrimSpace s = rev (dropWhile is_space (rev (dropWhile is_space s)))"

fun split_on :: "char \<Rightarrow> string \<Rightarrow> string list" where
  "split_on c [] = [[]]"
| "split_on c (x # xs) = (if x = c then [] # split_on c xs else case split_on c xs of [] \<Rightarrow> [[x]] | y # ys \<Rightarrow> (x # y) # ys)"

definition extra_item :: "string \<Rightarrow> prov_error + ProvisioningFile option" where
  "extra_item raw =
     (let item = TrimSpace raw; i = length (takeWhile (\<lambda>c. c \<noteq> CHR ''='') item);
          named = (0 < i \<and> i < length item); name = (if named then take i item else item); path = (if named then drop (Suc i) item else item)
      in if item = [] then Inr None
         else if path = [] then Inl ErrProvisioningConfig
         else Inr (Some \<lparr>vf_Name = ''extra:'' @ name, vf_Path = path, vf_Authority = False, vf_Content = None\<rparr>))"

primrec extra_loop :: "string list \<Rightarrow> prov_error + ProvisioningFile list" where
  "extra_loop [] = Inr []"
| "extra_loop (x # xs) =
     (case extra_item x of Inl e \<Rightarrow> Inl e
      | Inr f \<Rightarrow> (case extra_loop xs of Inl e \<Rightarrow> Inl e | Inr fs \<Rightarrow> Inr ((case f of None \<Rightarrow> [] | Some y \<Rightarrow> [y]) @ fs)))"

definition ParseProvisioningExtra :: "string \<Rightarrow> prov_error + ProvisioningFile list" where
  "ParseProvisioningExtra list = extra_loop (split_on (CHR '','') list)"

text \<open>The construction of a guard; \<open>absPath\<close> makes a path absolute, if it can.\<close>

definition NewProvisioningGuard ::
  "(bytes \<Rightarrow> bytes) \<Rightarrow> (string \<Rightarrow> file_read) \<Rightarrow> (string \<Rightarrow> string option) \<Rightarrow> string \<Rightarrow> string \<Rightarrow> ProvisioningGuard \<Rightarrow> prov_error option" where
  "NewProvisioningGuard sha fs absPath witnessFile registryDir g =
     (if pg_CellID g = [] \<or> length (pg_CellID g) > maxProvisioningName then Some ErrProvisioningConfig
      else if pg_Component g = [] \<or> length (pg_Component g) > maxProvisioningName then Some ErrProvisioningConfig
      else if witnessFile = [] then Some ErrProvisioningConfig
      else if length (pg_Salt g) < 16 then Some ErrProvisioningConfig
      else if registryDir \<noteq> [] \<and> (case (absPath witnessFile, absPath registryDir) of
             (Some wp, Some rd) \<Rightarrow> wp = rd \<or> prefix (rd @ ''/'') wp | _ \<Rightarrow> True) then Some ErrProvisioningConfig
      else if measureProvisioning sha fs (pg_Files g) = Inl ErrProvisioningConfig then Some ErrProvisioningConfig
      else None)"

subsection \<open>The record of the witness\<close>

lemma read_str_lp: "0 < length n \<Longrightarrow> length n \<le> 255 \<Longrightarrow> read_str (lp (Suc 0) n @ r) = Some (n, r)"
  by (simp add: lp_def nat_of_byte)

definition wf_files :: "file_hashes \<Rightarrow> bool" where
  "wf_files fs \<longleftrightarrow> (\<forall>f \<in> set fs. 0 < length (fst f) \<and> length (fst f) \<le> 255 \<and> length (snd f) = 32)"

lemma wf_files_Cons: "wf_files (f # fs) \<longleftrightarrow> 0 < length (fst f) \<and> length (fst f) \<le> 255 \<and> length (snd f) = 32 \<and> wf_files fs"
  by (auto simp: wf_files_def)

lemma read_files_bytes: "wf_files fs \<Longrightarrow> read_files (length fs) (concat (map file_bytes fs) @ r) = Some (fs, r)"
proof (induction fs)
  case (Cons f fs)
  then have "0 < length (fst f)" "length (fst f) \<le> 255" "length (snd f) = 32" "wf_files fs" by (simp_all add: wf_files_Cons)
  then show ?case using Cons.IH by (simp add: file_bytes_def read_str_lp)
qed simp

definition wf_contents :: "contents \<Rightarrow> bool" where
  "wf_contents m \<longleftrightarrow> wf_map m \<and> (\<forall>x \<in> set m. 0 < length (fst x) \<and> length (fst x) \<le> 255 \<and> length (snd x) \<le> maxAuthorityBytes)"

text \<open>The contents in the order of their names, as the record has them.\<close>

definition norm_contents :: "contents \<Rightarrow> contents" where
  "norm_contents m = map (\<lambda>n. (n, the (map_of m n))) (sort (map fst m))"

lemma norm_contents_lookup: "map_of (norm_contents m) n = map_of m n"
proof (cases "n \<in> fst ` set m")
  case True
  then obtain v where "map_of m n = Some v" by (metis map_of_eq_None_iff not_None_eq)
  moreover have "map_of (norm_contents m) n = (if n \<in> set (sort (map fst m)) then Some (the (map_of m n)) else None)"
    unfolding norm_contents_def by (induction "sort (map fst m)") (auto simp: map_of_map_keys [symmetric] map_of_map_restrict)
  ultimately show ?thesis using True by simp
next
  case False
  then have "map_of m n = None" by (simp add: map_of_eq_None_iff)
  moreover have "map_of (norm_contents m) n = None" using False by (force simp: norm_contents_def map_of_eq_None_iff)
  ultimately show ?thesis by simp
qed

lemma read_auths_bytes:
  assumes "\<forall>n \<in> set ns. 0 < length n \<and> length n \<le> 255 \<and> length (the (map_of m n)) \<le> maxAuthorityBytes"
    and "distinct ns" "fst ` set acc \<inter> set ns = {}"
  shows "read_auths (length ns) acc (concat (map (authority_bytes m) ns) @ r) = Some (acc @ map (\<lambda>n. (n, the (map_of m n))) ns, r)"
  using assms
proof (induction ns arbitrary: acc)
  case (Cons n ns)
  let ?c = "the (map_of m n)"
  have c: "length ?c \<le> 65536" "0 < length n" "length n \<le> 255" "map_of acc n = None"
    using Cons.prems by (auto simp: maxAuthorityBytes_def map_of_eq_None_iff)
  have "unbe (be 4 (length ?c)) = length ?c" using c(1) by (simp add: unbe_be)
  moreover have "fst ` set (acc @ [(n, ?c)]) \<inter> set ns = {}" using Cons.prems(2,3) by auto
  ultimately show ?case
    using Cons.IH [of "acc @ [(n, ?c)]"] Cons.prems(1,2) c
    by (simp add: authority_bytes_def read_str_lp lp_def [of 4] Let_def maxAuthorityBytes_def)
qed simp

definition wf_witness :: "ProvisioningWitness \<Rightarrow> bool" where
  "wf_witness w \<longleftrightarrow> 0 < length (pw_CellID w) \<and> length (pw_CellID w) \<le> 255 \<and> 0 < length (pw_Component w) \<and> length (pw_Component w) \<le> 255 \<and>
     length (pw_Prev w) = 32 \<and> length (pw_Digest w) = 32 \<and> pw_Files w \<noteq> [] \<and> length (pw_Files w) \<le> maxProvisioningFiles \<and> wf_files (pw_Files w) \<and>
     wf_contents (pw_Authorities w) \<and> length (pw_Authorities w) \<le> 255 \<and> int64 (unix (pw_IssuedAt w))"

definition read_back :: "ProvisioningWitness \<Rightarrow> ProvisioningWitness" where
  "read_back w = w\<lparr>pw_Authorities := norm_contents (pw_Authorities w), pw_Legacy := False, pw_IssuedAt := of_unix (unix (pw_IssuedAt w))\<rparr>"

lemma parse_tail_marshal:
  assumes w: "wf_witness w"
  shows "parse_tail False (pw_CellID w) (pw_Component w)
     (be 8 (unat (pw_Seq w)) @ pw_Prev w @ pw_Digest w @ be 2 (length (pw_Files w)) @ concat (map file_bytes (pw_Files w)) @
      [byte (length (pw_Authorities w))] @ concat (map (authority_bytes (pw_Authorities w)) (sort (map fst (pw_Authorities w)))) @ be64 (unix (pw_IssuedAt w))) =
     Some (read_back w)"
proof -
  let ?A = "pw_Authorities w" and ?t = "be64 (unix (pw_IssuedAt w))"
  let ?r1 = "[byte (length ?A)] @ concat (map (authority_bytes ?A) (sort (map fst ?A))) @ ?t"
  have l: "length (pw_Prev w) = 32" "length (pw_Digest w) = 32" "length (pw_Files w) \<le> 256" "pw_Files w \<noteq> []" "wf_files (pw_Files w)"
      "length ?A \<le> 255" "int64 (unix (pw_IssuedAt w))" "wf_contents ?A"
    using w by (auto simp: wf_witness_def maxProvisioningFiles_def)
  have m: "wf_map ?A" "\<forall>x \<in> set ?A. 0 < length (fst x) \<and> length (fst x) \<le> 255 \<and> length (snd x) \<le> maxAuthorityBytes"
    using l(8) by (auto simp: wf_contents_def)
  have names: "\<forall>n \<in> set (sort (map fst ?A)). 0 < length n \<and> length n \<le> 255 \<and> length (the (map_of ?A n)) \<le> maxAuthorityBytes"
    using m(2) wf_map_lookup [OF m(1)] by fastforce
  have auths: "read_auths (length ?A) [] (concat (map (authority_bytes ?A) (sort (map fst ?A))) @ ?t) = Some (norm_contents ?A, ?t)"
    using read_auths_bytes [OF names, of "[]" ?t] m(1) by (simp add: norm_contents_def wf_map_def)
  have n2: "unbe (be 2 (length (pw_Files w))) = length (pw_Files w)" using l(3) by (simp add: unbe_be)
  have seq: "word_of_nat (unbe (be 8 (unat (pw_Seq w)))) = pw_Seq w"
    using unsigned_less [of "pw_Seq w", where ?'a = nat] by (simp add: unbe_be)
  have files: "read_files (length (pw_Files w)) (concat (map file_bytes (pw_Files w)) @ ?r1) = Some (pw_Files w, ?r1)"
    by (rule read_files_bytes [OF l(5)])
  have nA: "of_char (byte (length ?A)) = length ?A" using l(6) by (simp add: nat_of_byte)
  have iss: "of_unix (wrap64 (int (unbe ?t))) = of_unix (unix (pw_IssuedAt w))" using l(7) by (simp add: unbe_be64 wrap64_u64_of)
  show ?thesis
    using l(1-4) n2 seq files auths nA iss
    by (simp add: parse_tail_def Let_def read_back_def maxProvisioningFiles_def)
qed

text \<open>What is written is read back: names, hashes, attested contents, sequence and date.\<close>

lemma parse_marshal:
  assumes w: "wf_witness w"
  shows "parseWitnessRecord (marshalWitnessRecord w) = Some (read_back w)"
proof -
  let ?tl = "be 8 (unat (pw_Seq w)) @ pw_Prev w @ pw_Digest w @ be 2 (length (pw_Files w)) @ concat (map file_bytes (pw_Files w)) @
      [byte (length (pw_Authorities w))] @ concat (map (authority_bytes (pw_Authorities w)) (sort (map fst (pw_Authorities w)))) @ be64 (unix (pw_IssuedAt w))"
  have r: "marshalWitnessRecord w = witnessPrefix @ byte 2 # lp 1 (pw_CellID w) @ lp 1 (pw_Component w) @ ?tl"
    by (simp add: marshalWitnessRecord_def Let_def witnessVer_def)
  have ver: "of_char (byte 2) = (2 :: nat)" by (simp add: nat_of_byte)
  have "read_str (lp 1 (pw_CellID w) @ lp 1 (pw_Component w) @ ?tl) = Some (pw_CellID w, lp 1 (pw_Component w) @ ?tl)"
      "read_str (lp 1 (pw_Component w) @ ?tl) = Some (pw_Component w, ?tl)"
    using w read_str_lp by (simp_all add: wf_witness_def)
  then show ?thesis
    unfolding r parseWitnessRecord_def using parse_tail_marshal [OF w] ver
    by (simp add: witnessPrefix_def witnessVer_def Let_def nth_append)
qed

lemma in_set_put: "x \<in> set (put k v m) \<Longrightarrow> x = (k, v) \<or> x \<in> set m"
  by (induction m) (auto simp: put_def split: if_splits)

subsection \<open>What is measured\<close>

lemma measure_file_ok:
  assumes "measure_file sha fs f = Inr (h, c)" "\<forall>b. length (sha b) = 32"
  shows "length h = 32" "\<forall>raw. c = Some raw \<longrightarrow> length raw \<le> maxAuthorityBytes"
  using assms by (auto simp: measure_file_def readBoundedBytes_def hashBoundedFile_def split: option.splits if_splits file_read.splits)

lemma measure_loop_ok:
  assumes "measure_loop sha fs files per auth = Inr (per', auth')" "\<forall>b. length (sha b) = 32"
    and "wf_files per" "distinct (map fst per)" "wf_contents auth" "length auth \<le> length per"
  shows "wf_files per' \<and> distinct (map fst per') \<and> wf_contents auth' \<and> length auth' \<le> length per' \<and> length per' = length per + length files"
  using assms
proof (induction files arbitrary: per auth)
  case (Cons f files)
  then obtain h c where f: "vf_Name f \<noteq> []" "length (vf_Name f) \<le> 255" "vf_Name f \<notin> fst ` set per" "measure_file sha fs f = Inr (h, c)"
      "measure_loop sha fs files (per @ [(vf_Name f, h)]) (case c of None \<Rightarrow> auth | Some raw \<Rightarrow> put (vf_Name f) raw auth) = Inr (per', auth')"
    by (auto simp: maxProvisioningName_def split: if_splits sum.splits)
  note m = measure_file_ok [OF f(4) Cons.prems(2)]
  have "wf_files (per @ [(vf_Name f, h)])" using Cons.prems(3) f(1,2) m(1) by (simp add: wf_files_def)
  moreover have "distinct (map fst (per @ [(vf_Name f, h)]))" using Cons.prems(4) f(3) by simp
  moreover have "wf_contents (case c of None \<Rightarrow> auth | Some raw \<Rightarrow> put (vf_Name f) raw auth)"
    using Cons.prems(5) f(1,2) m(2) by (auto simp: wf_contents_def dest!: in_set_put split: option.splits)
  moreover have "length (case c of None \<Rightarrow> auth | Some raw \<Rightarrow> put (vf_Name f) raw auth) \<le> length (per @ [(vf_Name f, h)])"
    using Cons.prems(6) by (simp add: length_put split: option.splits)
  ultimately show ?case using Cons.IH [OF f(5) Cons.prems(2)] by simp
qed simp

lemma measure_ok:
  assumes "measureProvisioning sha fs files = Inr (d, per, auths)" "\<forall>b. length (sha b) = 32"
  shows "wf_files per \<and> wf_contents auths \<and> length auths \<le> length files \<and> length per = length files \<and>
    files \<noteq> [] \<and> length files \<le> maxProvisioningFiles \<and> d = sha (digest_bytes per)"
proof -
  obtain per0 where m: "files \<noteq> []" "length files \<le> maxProvisioningFiles" "measure_loop sha fs files [] [] = Inr (per0, auths)" "per = sort_key fst per0"
      "d = sha (digest_bytes per)"
    using assms(1) by (auto simp: measureProvisioning_def Let_def split: if_splits sum.splits)
  show ?thesis
    using measure_loop_ok [OF m(3) assms(2)] m by (simp add: wf_files_def wf_contents_def)
qed

text \<open>The digest is taken over a form that determines the names and hashes.\<close>

lemma digest_bytes_files: "digest_bytes per = ''TBPV1'' @ concat (map file_bytes per)"
  by (auto simp: digest_bytes_def file_bytes_def lp_def split_def intro!: arg_cong [of _ _ concat])

lemma files_bytes_inj: "wf_files a \<Longrightarrow> wf_files b \<Longrightarrow> concat (map file_bytes a) = concat (map file_bytes b) \<Longrightarrow> a = b"
proof (induction a arbitrary: b)
  case Nil
  then show ?case by (cases b) (simp_all add: file_bytes_def lp_def)
next
  case (Cons f a)
  show ?case
  proof (cases b)
    case Nil
    then show ?thesis using Cons.prems(3) by (simp add: file_bytes_def lp_def)
  next
    case (Cons g c)
    have "lp 1 (fst f) @ snd f @ concat (map file_bytes a) = lp 1 (fst g) @ snd g @ concat (map file_bytes c)"
      using Cons.prems(3) by (simp add: Cons file_bytes_def [of f] file_bytes_def [of g])
    then have "fst f = fst g" "snd f @ concat (map file_bytes a) = snd g @ concat (map file_bytes c)"
      using Cons.prems(1,2) by (simp_all add: Cons wf_files_Cons lp_append_eq_iff)
    then show ?thesis
      using Cons.prems(1,2) Cons.IH [of c] by (simp add: Cons wf_files_Cons append_fixed_eq_iff prod_eq_iff)
  qed
qed

subsection \<open>Starts of a cell\<close>

record attested =
  at_digest :: bytes
  at_files :: file_hashes
  at_contents :: contents

definition attested_by :: "(bytes \<Rightarrow> bytes \<Rightarrow> bool) \<Rightarrow> ProvisioningGuard \<Rightarrow> prov_state \<Rightarrow> attested \<Rightarrow> bool" where
  "attested_by verify g s a \<longleftrightarrow> (\<exists>w. readProvisioningWitness verify (pv_witness s) (pg_CellID g) (pg_Component g) = Inr (Some w) \<and> \<not> pw_Legacy w \<and>
     pw_Digest w = at_digest a \<and> pw_Files w = at_files a \<and> pw_Authorities w = norm_contents (at_contents a))"

text \<open>The guard and its environment: the construction accepted it, hashes have 32 bytes, what the cell signs verifies,
  and the clock is in the range of its format.\<close>

definition guard_ok :: "(bytes \<Rightarrow> bytes) \<Rightarrow> (bytes \<Rightarrow> bytes option) \<Rightarrow> (bytes \<Rightarrow> bytes \<Rightarrow> bool) \<Rightarrow> ProvisioningGuard \<Rightarrow> bool" where
  "guard_ok sha sign verify g \<longleftrightarrow> (\<forall>b. length (sha b) = 32) \<and> (\<forall>b sig. sign b = Some sig \<longrightarrow> verify b sig) \<and>
     0 < length (pg_CellID g) \<and> length (pg_CellID g) \<le> 255 \<and> 0 < length (pg_Component g) \<and> length (pg_Component g) \<le> 255 \<and> length (pg_Files g) \<le> 255"

lemma prov_leaf_witness: "pv_witness (fst (prov_leaf sha g env s ev d seq v reason)) = pv_witness s"
  by (simp add: prov_leaf_def pv_trip_def split: prod.splits sum.splits)

lemma prov_refuse_frame:
  "pv_witness (fst (prov_refuse sha g env s d seq reason e)) = pv_witness s" "snd (prov_refuse sha g env s d seq reason e) = Some e"
  by (simp_all add: prov_refuse_def prov_leaf_witness)

lemma pv_trip_witness [simp]: "pv_witness (pv_trip r s) = pv_witness s" "pv_reg (pv_trip r s) = pv_reg s"
  by (simp_all add: pv_trip_def)

lemma commit_failed: "snd (prov_commit sha sign g env s ev seq prev auths d per reason) \<noteq> None \<Longrightarrow>
    pv_witness (fst (prov_commit sha sign g env s ev seq prev auths d per reason)) = pv_witness s"
  using prov_leaf_witness [of sha g env s ev d seq 1 reason]
  by (auto simp: prov_commit_def Let_def prov_persist_def split: option.splits prod.splits bool.splits)

lemma commit_done:
  assumes g: "guard_ok sha sign verify g" and m: "measureProvisioning sha fs (pg_Files g) = Inr (d, per, auths)"
    and c: "prov_commit sha sign g env s ev seq prev auths d per reason = (s', None)" and p: "length prev = 32" and t: "int64 (unix (be_now1 env))"
  shows "attested_by verify g s' \<lparr>at_digest = d, at_files = per, at_contents = auths\<rparr>"
proof -
  have sha: "\<forall>b. length (sha b) = 32" using g by (simp add: guard_ok_def)
  note mk = measure_ok [OF m sha]
  define w where "w = \<lparr>pw_CellID = pg_CellID g, pw_Component = pg_Component g, pw_Seq = seq, pw_Prev = prev, pw_Digest = d, pw_Files = per,
                pw_Authorities = auths, pw_Legacy = False, pw_IssuedAt = be_now1 env\<rparr>"
  have wf: "wf_witness w" using g mk p t sha by (auto simp: wf_witness_def w_def guard_ok_def)
  obtain sig where sig: "sign (marshalWitnessRecord w) = Some sig" "pv_witness s' = WitnessFields (hex_encode (marshalWitnessRecord w)) (hex_encode sig)"
    using c unfolding prov_commit_def w_def [symmetric] Let_def
    by (auto simp: prov_persist_def split: option.splits prod.splits bool.splits if_splits)
  have "verify (marshalWitnessRecord w) sig" using g sig(1) by (simp add: guard_ok_def)
  then have "readProvisioningWitness verify (pv_witness s') (pg_CellID g) (pg_Component g) = Inr (Some (read_back w))"
    using parse_marshal [OF wf] by (simp add: readProvisioningWitness_def sig(2)) (simp add: read_back_def w_def)
  then show ?thesis by (auto simp: attested_by_def read_back_def w_def)
qed

text \<open>The starts of one cell, with any file systems, failures and other writes to its log in between; \<open>a\<close> is what the
  last start that passed attested.\<close>

inductive starts ::
  "(bytes \<Rightarrow> bytes) \<Rightarrow> (bytes \<Rightarrow> bytes option) \<Rightarrow> (bytes \<Rightarrow> bytes \<Rightarrow> bool) \<Rightarrow> ProvisioningGuard \<Rightarrow> prov_state \<Rightarrow> attested option \<Rightarrow> bool"
  for sha sign verify g where
  start_new: "pv_witness s = WitnessAbsent \<Longrightarrow> starts sha sign verify g s None"
| start_passed: "starts sha sign verify g s a \<Longrightarrow> int64 (unix (be_now1 env)) \<Longrightarrow> prov_Check sha sign verify g env s = (s', None) \<Longrightarrow>
    measureProvisioning sha (be_fs env) (pg_Files g) = Inr (d, per, auths) \<Longrightarrow>
    starts sha sign verify g s' (case a of Some b \<Rightarrow> if at_digest b = d then a else Some \<lparr>at_digest = d, at_files = per, at_contents = auths\<rparr>
      | None \<Rightarrow> Some \<lparr>at_digest = d, at_files = per, at_contents = auths\<rparr>)"
| start_refused: "starts sha sign verify g s a \<Longrightarrow> prov_Check sha sign verify g env s = (s', Some e) \<Longrightarrow> starts sha sign verify g s' a"
| start_other: "starts sha sign verify g s a \<Longrightarrow> starts sha sign verify g (s\<lparr>pv_reg := r\<rparr>) a"

definition starts_inv :: "(bytes \<Rightarrow> bytes) \<Rightarrow> (bytes \<Rightarrow> bytes \<Rightarrow> bool) \<Rightarrow> ProvisioningGuard \<Rightarrow> prov_state \<Rightarrow> attested option \<Rightarrow> bool" where
  "starts_inv sha verify g s a \<longleftrightarrow> (case a of None \<Rightarrow> pv_witness s = WitnessAbsent
     | Some b \<Rightarrow> attested_by verify g s b \<and> at_digest b = sha (digest_bytes (at_files b)) \<and> wf_files (at_files b))"

lemma starts_inv_cong: "pv_witness s' = pv_witness s \<Longrightarrow> starts_inv sha verify g s' a = starts_inv sha verify g s a"
  by (cases a) (simp_all add: starts_inv_def attested_by_def)

lemma refused_keeps_witness: "prov_Check sha sign verify g env s = (s', Some e) \<Longrightarrow> pv_witness s' = pv_witness s"
proof -
  assume c: "prov_Check sha sign verify g env s = (s', Some e)"
  have "pv_witness (fst (prov_Check sha sign verify g env s)) = pv_witness s" if "snd (prov_Check sha sign verify g env s) \<noteq> None"
    using that by (auto simp: prov_Check_def prov_refuse_frame prov_leaf_witness commit_failed split: sum.splits option.splits)
  then show ?thesis using c by simp
qed

lemma absent_witness: "readProvisioningWitness verify WitnessAbsent c k = Inr None"
  by (simp add: readProvisioningWitness_def)

text \<open>A start that passes: either it confirms the digest attested, or it commits a new witness.\<close>

lemma passed_without_witness:
  assumes "pv_witness s = WitnessAbsent" "prov_Check sha sign verify g env s = (s', None)"
  shows "\<exists>d per auths ev reason. measureProvisioning sha (be_fs env) (pg_Files g) = Inr (d, per, auths) \<and>
    prov_commit sha sign g env s ev 0 zero32 auths d per reason = (s', None)"
proof -
  obtain d per auths where m: "measureProvisioning sha (be_fs env) (pg_Files g) = Inr (d, per, auths)"
    using assms(2) by (cases "measureProvisioning sha (be_fs env) (pg_Files g)") (auto simp: prov_Check_def prov_refuse_def)
  have "prov_commit sha sign g env s provEventGenesis 0 zero32 auths d per ''genesis'' = (s', None) \<or>
      prov_commit sha sign g env s provEventTransition 0 zero32 auths d per ''re-engaged'' = (s', None)"
    using assms by (auto simp: prov_Check_def m absent_witness prov_refuse_def split: if_splits option.splits)
  then show ?thesis using m by blast
qed

lemma passed_with_witness:
  assumes "readProvisioningWitness verify (pv_witness s) (pg_CellID g) (pg_Component g) = Inr (Some w)" "\<not> pw_Legacy w"
    and "prov_Check sha sign verify g env s = (s', None)"
  shows "\<exists>d per auths. measureProvisioning sha (be_fs env) (pg_Files g) = Inr (d, per, auths) \<and>
    (d = pw_Digest w \<and> pv_witness s' = pv_witness s \<or>
     d \<noteq> pw_Digest w \<and> (\<exists>f. pg_AuthorizeTransition g = Some f \<and> f (pw_Authorities w) (pw_Digest w) d) \<and>
     prov_commit sha sign g env s provEventTransition (pw_Seq w + 1) (next_prev sha w) auths d per ''transition'' = (s', None))"
proof -
  obtain d per auths where m: "measureProvisioning sha (be_fs env) (pg_Files g) = Inr (d, per, auths)"
    using assms(3) by (cases "measureProvisioning sha (be_fs env) (pg_Files g)") (auto simp: prov_Check_def prov_refuse_def)
  show ?thesis
  proof (cases "pw_Digest w = d")
    case True
    then have "prov_leaf sha g env s provEventBoot d (pw_Seq w) 1 ''ok'' = (s', None)" using assms m by (simp add: prov_Check_def)
    then have "pv_witness s' = pv_witness s" using prov_leaf_witness by (metis fst_conv)
    then show ?thesis using m True by auto
  next
    case False
    then show ?thesis using assms m by (auto simp: prov_Check_def prov_refuse_def split: if_splits option.splits)
  qed
qed

lemma starts_invariant:
  assumes g: "guard_ok sha sign verify g"
  shows "starts sha sign verify g s a \<Longrightarrow> starts_inv sha verify g s a"
proof (induction rule: starts.induct)
  case (start_new s)
  then show ?case by (simp add: starts_inv_def)
next
  case (start_refused s a env s' e)
  then show ?case using starts_inv_cong [OF refused_keeps_witness [OF start_refused.hyps(2)]] by blast
next
  case (start_other s a r)
  then show ?case using starts_inv_cong [of "s\<lparr>pv_reg := r\<rparr>" s] by simp
next
  case (start_passed s a env s' d per auths)
  have sha: "\<forall>b. length (sha b) = 32" using g by (simp add: guard_ok_def)
  let ?n = "\<lparr>at_digest = d, at_files = per, at_contents = auths\<rparr>"
  have new: "starts_inv sha verify g s' (Some ?n)" if "prov_commit sha sign g env s ev seq prev auths d per reason = (s', None)" "length prev = 32" for ev seq prev reason
    using commit_done [OF g start_passed.hyps(4) that start_passed.hyps(2)] measure_ok [OF start_passed.hyps(4) sha] by (simp add: starts_inv_def)
  show ?case
  proof (cases a)
    case None
    then obtain ev reason where "prov_commit sha sign g env s ev 0 zero32 auths d per reason = (s', None)"
      using passed_without_witness [OF _ start_passed.hyps(3)] start_passed.IH start_passed.hyps(4) by (auto simp: starts_inv_def)
    then show ?thesis using new None by (simp add: zero32_def)
  next
    case (Some b)
    then obtain w where w: "readProvisioningWitness verify (pv_witness s) (pg_CellID g) (pg_Component g) = Inr (Some w)" "\<not> pw_Legacy w" "pw_Digest w = at_digest b"
      using start_passed.IH by (auto simp: starts_inv_def attested_by_def)
    have n: "length (next_prev sha w) = 32" using sha by (simp add: next_prev_def)
    from passed_with_witness [OF w(1,2) start_passed.hyps(3)] start_passed.hyps(4)
    consider "d = at_digest b" "pv_witness s' = pv_witness s"
      | "d \<noteq> at_digest b" "prov_commit sha sign g env s provEventTransition (pw_Seq w + 1) (next_prev sha w) auths d per ''transition'' = (s', None)"
      using w(3) by auto
    then show ?thesis
    proof cases
      case 1
      then show ?thesis using Some start_passed.IH starts_inv_cong [OF 1(2)] by simp
    next
      case 2
      then show ?thesis using Some new [OF 2(2) n] by simp
    qed
  qed
qed

subsection \<open>The claims\<close>

text \<open>Cells for the examples; the stand-in for the hash keeps the last 32 bytes.\<close>

definition ex_sha :: "bytes \<Rightarrow> bytes" where
  "ex_sha b = take 32 (rev b @ zeros 32)"

definition ex_guard :: "ProvisioningFile list \<Rightarrow> ProvisioningGuard" where
  "ex_guard files = \<lparr>pg_CellID = ''c'', pg_Component = ''pepd'', pg_Files = files, pg_Salt = zeros 16, pg_AuthorizeTransition = None\<rparr>"

definition ex_boot :: "(string \<Rightarrow> file_read) \<Rightarrow> boot_env" where
  "ex_boot fs = \<lparr>be_fs = fs, be_headOk = True, be_persistOk = True, be_now1 = 5, be_now2 = 6\<rparr>"

definition ex_fresh :: prov_state where
  "ex_fresh = \<lparr>pv_reg = \<lparr>rg_log = [], rg_journal = None, rg_engaged = False, rg_clock = 1, rg_env = []\<rparr>, pv_witness = WitnessAbsent, pv_trips = []\<rparr>"

definition ex_check :: "ProvisioningFile list \<Rightarrow> (string \<Rightarrow> file_read) \<Rightarrow> prov_state \<Rightarrow> prov_state \<times> prov_error option" where
  "ex_check files fs s = prov_Check ex_sha (\<lambda>b. Some []) (\<lambda>b sig. True) (ex_guard files) (ex_boot fs) s"

lemma length_ex_sha: "length (ex_sha b) = 32"
  by (simp add: ex_sha_def)

lemma ex_guard_ok: "length files \<le> 255 \<Longrightarrow> guard_ok ex_sha (\<lambda>b. Some []) (\<lambda>b sig. True) (ex_guard files)"
  by (simp add: guard_ok_def length_ex_sha ex_guard_def)

text \<open>The log of these cells takes every leaf.\<close>

definition takes_leaves :: "prov_state \<Rightarrow> bool" where
  "takes_leaves s \<longleftrightarrow> rg_journal (pv_reg s) = None \<and> \<not> rg_engaged (pv_reg s) \<and> rg_env (pv_reg s) = []"

lemma plain_leaf:
  assumes "takes_leaves s" "pg_CellID g = ''c''"
  shows "\<exists>s'. prov_leaf sha g env s ev d seq v reason = (s', None) \<and> takes_leaves s'"
  using assms
  by (auto simp: prov_leaf_def takes_leaves_def AppendLeaf_def CellLog_Append_def appendInternal_def encodeLeaf_def Marshal_def known_kind_def
      maxCellIDLen_def next_outcome_def sealed_leaf_def Let_def split: prod.splits sum.splits)

lemma plain_commit:
  assumes "takes_leaves s" "pg_CellID g = ''c''" "be_persistOk env"
  shows "\<exists>s'. prov_commit sha (\<lambda>b. Some []) g env s ev seq prev auths d per reason = (s', None) \<and> takes_leaves s'"
proof -
  obtain s' where l: "prov_leaf sha g env s ev d seq 1 reason = (s', None)" "takes_leaves s'" using plain_leaf [OF assms(1,2)] by blast
  obtain f where "prov_commit sha (\<lambda>b. Some []) g env s ev seq prev auths d per reason = (s'\<lparr>pv_witness := f\<rparr>, None)"
    using l(1) assms(3) by (auto simp: prov_commit_def prov_persist_def Let_def)
  moreover have "takes_leaves (s'\<lparr>pv_witness := f\<rparr>)" using l(2) by (simp add: takes_leaves_def)
  ultimately show ?thesis by blast
qed

lemma plain_genesis:
  assumes "takes_leaves s" "pg_CellID g = ''c''" "be_persistOk env" "be_headOk env" "pv_witness s = WitnessAbsent" "rg_log (pv_reg s) = []"
    and "measureProvisioning sha (be_fs env) (pg_Files g) = Inr (d, per, auths)"
  shows "\<exists>s'. prov_Check sha (\<lambda>b. Some []) verify g env s = (s', None) \<and> takes_leaves s'"
  using plain_commit [OF assms(1-3)] assms(4-7) by (simp add: prov_Check_def absent_witness)

lemma plain_later:
  assumes "takes_leaves s" "pg_CellID g = ''c''" "be_persistOk env" "attested_by verify g s a"
    and "measureProvisioning sha (be_fs env) (pg_Files g) = Inr (d, per, auths)"
    and "d = at_digest a \<or> (\<exists>f. pg_AuthorizeTransition g = Some f \<and> f (norm_contents (at_contents a)) (at_digest a) d)"
  shows "\<exists>s'. prov_Check sha (\<lambda>b. Some []) verify g env s = (s', None)"
proof -
  obtain w where w: "readProvisioningWitness verify (pv_witness s) (pg_CellID g) (pg_Component g) = Inr (Some w)" "\<not> pw_Legacy w" "pw_Digest w = at_digest a"
      "pw_Authorities w = norm_contents (at_contents a)"
    using assms(4) by (auto simp: attested_by_def)
  show ?thesis
  proof (cases "d = at_digest a")
    case True
    then have "prov_Check sha (\<lambda>b. Some []) verify g env s = prov_leaf sha g env s provEventBoot d (pw_Seq w) 1 ''ok''"
      using w assms(5) by (simp add: prov_Check_def)
    then show ?thesis using plain_leaf [OF assms(1,2)] by metis
  next
    case False
    then have "prov_Check sha (\<lambda>b. Some []) verify g env s =
        prov_commit sha (\<lambda>b. Some []) g env s provEventTransition (pw_Seq w + 1) (next_prev sha w) auths d per ''transition''"
      using w assms(5,6) by (auto simp: prov_Check_def)
    then show ?thesis using plain_commit [OF assms(1-3)] by metis
  qed
qed

lemma ex_simps [simp]:
  "pg_Files (ex_guard files) = files" "pg_AuthorizeTransition (ex_guard files) = None" "be_fs (ex_boot fs) = fs" "be_headOk (ex_boot fs)"
  "be_persistOk (ex_boot fs)" "int64 (unix (be_now1 (ex_boot fs)))" "pv_witness ex_fresh = WitnessAbsent" "rg_log (pv_reg ex_fresh) = []"
  "pg_CellID (ex_guard files) = ''c''" "takes_leaves ex_fresh"
  by (simp_all add: ex_guard_def ex_boot_def ex_fresh_def unix_def second_def int64_def takes_leaves_def)

text \<open>A first start, and what it attests.\<close>

lemma ex_started:
  assumes "guard_ok sha (\<lambda>b. Some []) verify g" "pg_CellID g = ''c''" "measureProvisioning sha fs (pg_Files g) = Inr (d, per, auths)"
  shows "\<exists>s1. prov_Check sha (\<lambda>b. Some []) verify g (ex_boot fs) ex_fresh = (s1, None) \<and> takes_leaves s1 \<and>
    starts sha (\<lambda>b. Some []) verify g s1 (Some \<lparr>at_digest = d, at_files = per, at_contents = auths\<rparr>) \<and>
    attested_by verify g s1 \<lparr>at_digest = d, at_files = per, at_contents = auths\<rparr>"
proof -
  obtain s1 where s1: "prov_Check sha (\<lambda>b. Some []) verify g (ex_boot fs) ex_fresh = (s1, None)" "takes_leaves s1"
    using plain_genesis [of ex_fresh g "ex_boot fs" sha d per auths verify] assms(2,3) by auto
  have "starts sha (\<lambda>b. Some []) verify g ex_fresh None" by (rule start_new) simp
  from start_passed [OF this _ s1(1)] assms(3)
  have st: "starts sha (\<lambda>b. Some []) verify g s1 (Some \<lparr>at_digest = d, at_files = per, at_contents = auths\<rparr>)" by simp
  then show ?thesis using s1 starts_invariant [OF assms(1) st] by (auto simp: starts_inv_def)
qed

text \<open>Over all starts of a cell, whatever happens to its files, writes and clock in between, and as long as only the
  guard writes the witness: a start that passes has either measured exactly the names and hashes attested before,
  or a transition from the attested digest to the measured one was authorised on the contents attested before
  (never on the current ones), or the two measurements are a collision of the hash.\<close>

lemma passed_start_explained:
  assumes "guard_ok sha sign verify g" "starts sha sign verify g s (Some a)" "prov_Check sha sign verify g env s = (s', None)"
  shows "\<exists>d per auths. measureProvisioning sha (be_fs env) (pg_Files g) = Inr (d, per, auths) \<and>
    (per = at_files a \<or> (\<exists>f. pg_AuthorizeTransition g = Some f \<and> f (norm_contents (at_contents a)) (at_digest a) d) \<or>
     digest_bytes per \<noteq> digest_bytes (at_files a) \<and> sha (digest_bytes per) = sha (digest_bytes (at_files a)))"
proof -
  have inv: "attested_by verify g s a" "at_digest a = sha (digest_bytes (at_files a))" "wf_files (at_files a)"
    using starts_invariant [OF assms(1,2)] by (auto simp: starts_inv_def)
  obtain w where w: "readProvisioningWitness verify (pv_witness s) (pg_CellID g) (pg_Component g) = Inr (Some w)" "\<not> pw_Legacy w"
      "pw_Digest w = at_digest a" "pw_Authorities w = norm_contents (at_contents a)"
    using inv(1) by (auto simp: attested_by_def)
  obtain d per auths where m: "measureProvisioning sha (be_fs env) (pg_Files g) = Inr (d, per, auths)"
      and c: "d = at_digest a \<or> (\<exists>f. pg_AuthorizeTransition g = Some f \<and> f (norm_contents (at_contents a)) (at_digest a) d)"
    using passed_with_witness [OF w(1,2) assms(3)] w(3,4) by auto
  have k: "wf_files per" "d = sha (digest_bytes per)" using measure_ok [OF m] assms(1) by (auto simp: guard_ok_def)
  have "per = at_files a" if "digest_bytes per = digest_bytes (at_files a)"
    using files_bytes_inj [OF k(1) inv(3)] that by (simp add: digest_bytes_files)
  then show ?thesis using m c k(2) inv(2) by metis
qed

text \<open>C30: The record of a witness is read back as it was written: cell, component, sequence, previous hash, digest, names
  and hashes, the contents of the authorities in the order of their names, and the second of its date.\<close>

theorem witness_roundtrip:
  assumes "wf_witness w"
  shows "parseWitnessRecord (marshalWitnessRecord w) = Some (read_back w)"
  by (rule parse_marshal [OF assms])

theorem witness_roundtrip_witness:
  "parseWitnessRecord (marshalWitnessRecord \<lparr>pw_CellID = ''c'', pw_Component = ''pepd'', pw_Seq = 7, pw_Prev = zeros 32, pw_Digest = zeros 32,
     pw_Files = [(''k'', zeros 32)], pw_Authorities = [(''k'', ''2''), (''a'', ''1'')], pw_Legacy = False, pw_IssuedAt = of_unix 5\<rparr>) =
   Some \<lparr>pw_CellID = ''c'', pw_Component = ''pepd'', pw_Seq = 7, pw_Prev = zeros 32, pw_Digest = zeros 32,
     pw_Files = [(''k'', zeros 32)], pw_Authorities = [(''a'', ''1''), (''k'', ''2'')], pw_Legacy = False, pw_IssuedAt = of_unix 5\<rparr>"
proof -
  let ?w = "\<lparr>pw_CellID = ''c'', pw_Component = ''pepd'', pw_Seq = 7, pw_Prev = zeros 32, pw_Digest = zeros 32,
     pw_Files = [(''k'', zeros 32)], pw_Authorities = [(''k'', ''2''), (''a'', ''1'')], pw_Legacy = False, pw_IssuedAt = of_unix 5\<rparr>"
  have wf: "wf_witness ?w"
    by (simp add: wf_witness_def wf_files_def wf_contents_def wf_map_def maxProvisioningFiles_def maxAuthorityBytes_def int64_def)
  have "norm_contents [(''k'', ''2''), (''a'', ''1'')] = [(''a'', ''1''), (''k'', ''2'')]" by code_simp
  then show ?thesis using witness_roundtrip [OF wf] by (simp add: read_back_def)
qed

text \<open>The outcomes of later starts.\<close>

primrec later_starts ::
  "(bytes \<Rightarrow> bytes) \<Rightarrow> (bytes \<Rightarrow> bytes option) \<Rightarrow> (bytes \<Rightarrow> bytes \<Rightarrow> bool) \<Rightarrow> ProvisioningGuard \<Rightarrow> boot_env list \<Rightarrow> prov_state \<Rightarrow> prov_error option list" where
  "later_starts sha sign verify g [] s = []"
| "later_starts sha sign verify g (env # envs) s =
     (case prov_Check sha sign verify g env s of (s', r) \<Rightarrow> r # later_starts sha sign verify g envs s')"

lemma prov_leaf_log: "prefix (rg_log (pv_reg s)) (rg_log (pv_reg (fst (prov_leaf sha g env s ev d seq v reason))))"
  by (auto simp: prov_leaf_def pv_trip_def dest: AppendLeaf_grows split: prod.splits sum.splits)

lemma blocked_start:
  assumes "pg_AuthorizeTransition g = None" "pv_witness s = WitnessAbsent" "rg_log (pv_reg s) \<noteq> []"
    and c: "prov_Check sha sign verify g env s = (s', r)"
  shows "r \<noteq> None \<and> pv_witness s' = WitnessAbsent \<and> rg_log (pv_reg s') \<noteq> []"
proof -
  have "\<exists>t d reason e. prov_Check sha sign verify g env s = prov_refuse sha g env (pv_trip t s) d 0 reason e"
    using assms(1-3) by (auto simp: prov_Check_def absent_witness split: sum.splits if_splits)
  then obtain t d reason e where p: "prov_Check sha sign verify g env s = prov_refuse sha g env (pv_trip t s) d 0 reason e" by blast
  have "prefix (rg_log (pv_reg s)) (rg_log (pv_reg s'))"
    using prov_leaf_log [of "pv_trip t s"] c p by (auto simp: prov_refuse_def)
  then show ?thesis
    using prov_refuse_frame [of sha g env "pv_trip t s" d 0 reason e] c p assms(2,3) by auto
qed


text \<open>A cell whose only file is missing at the first start and present afterwards.\<close>

definition ex_file :: ProvisioningFile where
  "ex_file = \<lparr>vf_Name = ''agents'', vf_Path = ''a.json'', vf_Authority = False, vf_Content = None\<rparr>"

lemma ex_missing:
  "measureProvisioning ex_sha (\<lambda>p. FileMissing) [ex_file] = Inl ErrProvisioningMeasure"
  "length (rg_log (pv_reg (fst (ex_check [ex_file] (\<lambda>p. FileMissing) ex_fresh)))) = 1"
  by code_simp+


text \<open>What the controllers are shown is what their proof is asked for.  The preview measures the same files and
  reads the same witness; two policies of authorisation that agree on its two digests make the guard do the same.\<close>

lemma preview_shows_what_is_signed:
  assumes "PreviewProvisioning sha verify (be_fs env) (pg_Files g) (pv_witness s) (pg_CellID g) (pg_Component g) = Inr pv"
    and "\<And>prev. f prev (pp_From pv) (pp_To pv) = f' prev (pp_From pv) (pp_To pv)"
  shows "prov_Check sha sign verify (g\<lparr>pg_AuthorizeTransition := Some f\<rparr>) env s =
    prov_Check sha sign verify (g\<lparr>pg_AuthorizeTransition := Some f'\<rparr>) env s"
proof -
  have l: "prov_leaf sha (g\<lparr>pg_AuthorizeTransition := x\<rparr>) env s ev d seq v reason = prov_leaf sha g env s ev d seq v reason" for x s ev d seq v reason
    by (simp add: prov_leaf_def)
  have c: "prov_commit sha sign (g\<lparr>pg_AuthorizeTransition := x\<rparr>) env s ev seq prev auths d per reason = prov_commit sha sign g env s ev seq prev auths d per reason"
    "prov_refuse sha (g\<lparr>pg_AuthorizeTransition := x\<rparr>) env s d seq reason e = prov_refuse sha g env s d seq reason e"
    for x s ev seq prev auths d per reason e
    unfolding prov_commit_def prov_refuse_def l by simp_all
  show ?thesis
    using assms by (auto simp: prov_Check_def PreviewProvisioning_def c l split: sum.splits if_splits option.splits)
qed

end
