(* ===== verification/Provisioning_Authority.thy ===== *)
theory Provisioning_Authority
  imports Provisioning Quorum Strict_JSON
begin

text \<open>
  Who may change the provisioning of a cell (\<open>src/src/pep/provisioning_authorize.go\<close>, \<open>quorum_proof_file.go\<close>,
  \<open>quorum_settings.go\<close>): the authorisation of a transition is a quorum proof over the condition that names both
  digests, checked against the keyring and the threshold the witness attested.  The signature check is the parameter
  \<open>edv\<close>, the lexical analysis of the keyring the parameter \<open>lexer\<close>; the proof file is given by the fields of its JSON
  text, or nothing when it cannot be read.
\<close>

subsection \<open>Keyrings and settings\<close>

definition ProvisioningQuorumKeyringName :: string where "ProvisioningQuorumKeyringName = ''quorum-keyring''"
definition ProvisioningQuorumSettingsName :: string where "ProvisioningQuorumSettingsName = ''quorum-settings''"

text \<open>A JSON object of strings as the standard decoder reads it; \<open>null\<close> is the empty map or the empty string.\<close>

definition string_map :: "jv \<Rightarrow> string option + (string \<times> string) list" where
  "string_map v =
     (case v of
        JNull \<Rightarrow> Inr []
      | JObj ms \<Rightarrow> if list_all (\<lambda>m. case snd m of JStr s \<Rightarrow> True | JNull \<Rightarrow> True | _ \<Rightarrow> False) ms
                   then Inr (map (\<lambda>m. (fst m, case snd m of JStr s \<Rightarrow> s | _ \<Rightarrow> [])) ms) else Inl (Some [])
      | _ \<Rightarrow> Inl (Some []))"

primrec parse_keys :: "(string \<times> string) list \<Rightarrow> (bytes, bytes) gomap \<Rightarrow> (bytes, bytes) gomap option" where
  "parse_keys [] keyring = Some keyring"
| "parse_keys (x # raw) keyring =
     (case (hex_decode (fst x), hex_decode (snd x)) of
        (Some kid, Some pub) \<Rightarrow>
          if length kid \<noteq> 16 \<or> length pub \<noteq> PublicKeySize then None
          else if map_of keyring kid \<noteq> None then None
          else if pub \<in> snd ` set keyring then None
          else parse_keys raw (put kid pub keyring)
      | _ \<Rightarrow> None)"

definition ParseKeyring :: "(bytes \<Rightarrow> jtok list \<times> bool) \<Rightarrow> bytes \<Rightarrow> (bytes, bytes) gomap option" where
  "ParseKeyring lexer data =
     (case Decode lexer string_map (Some (GMap False GScalar)) data of
        Inl d \<Rightarrow> None
      | Inr raw \<Rightarrow> if raw = [] then None else parse_keys raw [])"

text \<open>The settings: one line per key; a scanner of lines stops at one that does not fit its buffer.\<close>

definition QuorumSettings :: "nat \<Rightarrow> string \<Rightarrow> bytes" where
  "QuorumSettings k topology = ''quorum-min='' @ decimal k @ [byte 10] @ ''topology='' @ topology @ [byte 10]"

definition maxScanTokenSize :: nat where "maxScanTokenSize = 64 * 1024"

definition scan_lines :: "bytes \<Rightarrow> string list" where
  "scan_lines raw =
     (let ls = split_on (byte 10) raw; ls' = (if ls \<noteq> [] \<and> last ls = [] then butlast ls else ls)
      in map (\<lambda>l. if l \<noteq> [] \<and> last l = byte 13 then butlast l else l) (takeWhile (\<lambda>l. length l < maxScanTokenSize) ls'))"

definition Atoi :: "string \<Rightarrow> int option" where
  "Atoi s =
     (let neg = (take 1 s = ''-''); ds = (if neg \<or> take 1 s = ''+'' then drop 1 s else s); n = int (digits_value ds); v = (if neg then - n else n)
      in if ds \<noteq> [] \<and> list_all (in_range 48 57) ds \<and> int64 v then Some v else None)"

primrec settings_loop :: "string list \<Rightarrow> int option \<Rightarrow> int option" where
  "settings_loop [] found = found"
| "settings_loop (l # ls) found =
     (if CHR ''='' \<notin> set l then None
      else let key = takeWhile (\<lambda>c. c \<noteq> CHR ''='') l; val = drop (Suc (length key)) l
      in if key = ''quorum-min''
         then (case Atoi val of None \<Rightarrow> None | Some n \<Rightarrow> if n < 1 then None else settings_loop ls (Some n))
         else settings_loop ls found)"

definition ParseQuorumSettings :: "bytes \<Rightarrow> int option" where
  "ParseQuorumSettings raw = settings_loop (scan_lines raw) None"

subsection \<open>The proof file\<close>

record quorumProofFile =
  qp_Expiry :: int
  qp_Signatures :: "(string \<times> string) list"

definition TransitionCondition :: "string \<Rightarrow> bytes \<Rightarrow> bytes \<Rightarrow> string" where
  "TransitionCondition base from to = base @ ''|from='' @ hex_encode from @ ''|to='' @ hex_encode to"

definition proof_sig :: "string \<times> string \<Rightarrow> (bytes \<times> bytes) option" where
  "proof_sig s =
     (case (hex_decode (fst s), hex_decode (snd s)) of
        (Some kid, Some sig) \<Rightarrow> if length kid \<noteq> 16 \<or> length sig \<noteq> SignatureSize then None else Some (kid, sig)
      | _ \<Rightarrow> None)"

definition VerifyQuorumProofFile ::
  "(bytes \<Rightarrow> bytes \<Rightarrow> bytes \<Rightarrow> bool) \<Rightarrow> time \<Rightarrow> quorumProofFile option \<Rightarrow> string \<Rightarrow> string \<Rightarrow> (bytes, bytes) gomap \<Rightarrow> int \<Rightarrow> bool" where
  "VerifyQuorumProofFile edv now file condition cellID keyring k =
     (case file of None \<Rightarrow> False
      | Some pf \<Rightarrow>
          if None \<in> set (map proof_sig (qp_Signatures pf)) then False
          else (case NewSignatureQuorumVerifier cellID keyring k DefaultQuorumProofTTL of
                  Inl e \<Rightarrow> False
                | Inr qv \<Rightarrow> quorum_verify edv qv now condition
                    \<lparr>Expiry = of_unix (qp_Expiry pf), Signatures = map (the \<circ> proof_sig) (qp_Signatures pf)\<rparr>))"

text \<open>The closure a daemon gives to its guard.  \<open>file\<close> is \<open>None\<close> when no proof file is configured.\<close>

definition attested_keyring :: "(bytes \<Rightarrow> jtok list \<times> bool) \<Rightarrow> contents \<Rightarrow> (bytes, bytes) gomap \<Rightarrow> (bytes, bytes) gomap option" where
  "attested_keyring lexer prev keyring =
     (case map_of prev ProvisioningQuorumKeyringName of None \<Rightarrow> Some keyring | Some raw \<Rightarrow> ParseKeyring lexer raw)"

definition attested_k :: "contents \<Rightarrow> int \<Rightarrow> int option" where
  "attested_k prev k = (case map_of prev ProvisioningQuorumSettingsName of None \<Rightarrow> Some k | Some raw \<Rightarrow> ParseQuorumSettings raw)"

definition NewProvisioningAuthorizer ::
  "(bytes \<Rightarrow> bytes \<Rightarrow> bytes \<Rightarrow> bool) \<Rightarrow> (bytes \<Rightarrow> jtok list \<times> bool) \<Rightarrow> time \<Rightarrow> string \<Rightarrow> string \<Rightarrow> (bytes, bytes) gomap \<Rightarrow> int
     \<Rightarrow> quorumProofFile option option \<Rightarrow> contents \<Rightarrow> bytes \<Rightarrow> bytes \<Rightarrow> bool" where
  "NewProvisioningAuthorizer edv lexer now condBase cellID quorumKeyring quorumMin file prev from to =
     (case file of None \<Rightarrow> False
      | Some f \<Rightarrow>
          (case attested_keyring lexer prev quorumKeyring of None \<Rightarrow> False
           | Some keyring \<Rightarrow>
               (case attested_k prev quorumMin of None \<Rightarrow> False
                | Some k \<Rightarrow> VerifyQuorumProofFile edv now f (TransitionCondition condBase from to) cellID keyring k)))"

subsection \<open>Settings are read back\<close>

lemma digits_value_snoc: "digits_value (s @ [c]) = digits_value s * 10 + (of_char c - 48)"
  by (simp add: digits_value_def)

lemma decimal_digits: "digits_value (decimal n) = n \<and> decimal n \<noteq> [] \<and> list_all (in_range 48 57) (decimal n)"
proof (induction n rule: decimal.induct)
  case (1 n)
  have d: "of_char (byte (48 + m)) = 48 + m" if "m < 10" for m using that by (simp add: nat_of_byte)
  show ?case
  proof (cases "n < 10")
    case True
    then show ?thesis using d [of n] by (subst (1 2 3) decimal.simps) (simp add: digits_value_def in_range_def)
  next
    case False
    then have IH: "digits_value (decimal (n div 10)) = n div 10" "list_all (in_range 48 57) (decimal (n div 10))" using 1 by auto
    have m: "of_char (byte (48 + n mod 10)) = 48 + n mod 10" by (rule d) simp
    show ?thesis using False IH m by (subst (1 2 3) decimal.simps) (simp add: digits_value_snoc in_range_def)
  qed
qed

lemma Atoi_decimal: "int64 (int n) \<Longrightarrow> Atoi (decimal n) = Some (int n)"
proof -
  assume i: "int64 (int n)"
  obtain c r where d: "decimal n = c # r" using decimal_digits [of n] by (cases "decimal n") auto
  have "c \<noteq> CHR ''-''" "c \<noteq> CHR ''+''" using decimal_digits [of n] d by (auto simp: in_range_def)
  then have "take 1 (decimal n) \<noteq> ''-''" "take 1 (decimal n) \<noteq> ''+''" by (simp_all add: d)
  then show ?thesis using decimal_digits [of n] i by (simp add: Atoi_def Let_def)
qed

lemma split_on_line: "c \<notin> set l \<Longrightarrow> split_on c (l @ c # r) = l # split_on c r"
  by (induction l) auto

lemma split_on_none: "c \<notin> set l \<Longrightarrow> split_on c l = [l]"
  by (induction l) auto

text \<open>What the daemon writes as its settings is the threshold it reads back.\<close>

lemma settings_roundtrip:
  assumes "1 \<le> k" "int64 (int k)" "byte 10 \<notin> set topology" "length topology < 60000" "length (decimal k) < 60000"
  shows "ParseQuorumSettings (QuorumSettings k topology) = Some (int k)"
proof -
  have num: "byte 10 \<notin> set (decimal k)" "byte 13 \<notin> set (decimal k)"
    using decimal_digits [of k] by (auto simp: list_all_iff in_range_def nat_of_byte)
  have sep: "CHR ''='' \<noteq> byte 13" by (simp add: char_of_def)
  have key: "byte 10 \<notin> set (''quorum-min='' @ decimal k)" "byte 10 \<notin> set (''topology='' @ topology)"
    using num(1) assms(3) by (auto simp: char_of_def)
  have "split_on (byte 10) (QuorumSettings k topology) = [''quorum-min='' @ decimal k, ''topology='' @ topology, []]"
    using split_on_line [OF key(1), of "''topology='' @ topology @ [byte 10]"] split_on_line [OF key(2), of "[]"]
    by (simp add: QuorumSettings_def)
  moreover have "last (''quorum-min='' @ decimal k) \<noteq> byte 13"
    using decimal_digits [of k] num(2) by (metis last_appendR last_in_set)
  ultimately have l: "\<exists>t. scan_lines (QuorumSettings k topology) = [''quorum-min='' @ decimal k, ''topology='' @ t]"
    using assms(4,5) decimal_digits [of k] sep by (auto simp: scan_lines_def maxScanTokenSize_def Let_def butlast_append)
  then show ?thesis
    using assms(1,2) Atoi_decimal [of k] by (auto simp: ParseQuorumSettings_def Let_def takeWhile_append2)
qed

subsection \<open>The claim\<close>

text \<open>A keyring that is read names every key once, and no key twice.\<close>

lemma put_new: "map_of m k = None \<Longrightarrow> put k v m = m @ [(k, v)]"
  by (induction m) (auto simp: put_def)

lemma parse_keys_distinct:
  "parse_keys raw kr = Some keyring \<Longrightarrow> wf_map kr \<Longrightarrow> distinct (map snd kr) \<Longrightarrow> wf_map keyring \<and> distinct (map snd keyring)"
proof (induction raw arbitrary: kr)
  case (Cons x raw)
  then obtain kid pub where k: "map_of kr kid = None" "pub \<notin> snd ` set kr" "parse_keys raw (put kid pub kr) = Some keyring"
    by (auto split: option.splits if_splits)
  have "put kid pub kr = kr @ [(kid, pub)]" using k(1) by (rule put_new)
  then show ?case using Cons.IH [OF k(3)] Cons.prems(2,3) k(2) wf_map_put [OF Cons.prems(2), of kid pub] by simp
qed simp

lemma quorum_verifier_fields:
  "NewSignatureQuorumVerifier cellID keyring k ttl = Inr qv \<Longrightarrow> qv_cell qv = cellID \<and> qv_keys qv = keyring \<and> qv_k qv = k \<and> 1 \<le> k"
  by (auto simp: NewSignatureQuorumVerifier_def split: if_splits)

lemma proof_file_signed:
  assumes "VerifyQuorumProofFile edv now file condition cellID keyring k"
  shows "\<exists>expiry sigs. now < expiry \<and> 1 \<le> k \<and> k \<le> int (card (signers edv keyring (QuorumMessage condition cellID expiry) sigs))"
proof -
  obtain pf where pf: "file = Some pf" using assms by (cases "file") (simp_all add: VerifyQuorumProofFile_def)
  obtain qv where "NewSignatureQuorumVerifier cellID keyring k DefaultQuorumProofTTL = Inr qv"
      "quorum_verify edv qv now condition \<lparr>Expiry = of_unix (qp_Expiry pf), Signatures = map (the \<circ> proof_sig) (qp_Signatures pf)\<rparr>"
    using assms by (auto simp: VerifyQuorumProofFile_def pf split: sum.splits if_splits)
  then show ?thesis using quorum_verifier_fields by (fastforce simp: quorum_verify_iff)
qed

lemma authorizer_signed:
  assumes "NewProvisioningAuthorizer edv lexer now base cellID kr k0 file prev from to"
  shows "\<exists>keyring k expiry sigs. attested_keyring lexer prev kr = Some keyring \<and> attested_k prev k0 = Some k \<and> now < expiry \<and> 1 \<le> k \<and>
    k \<le> int (card (signers edv keyring (QuorumMessage (TransitionCondition base from to) cellID expiry) sigs))"
  using assms proof_file_signed by (fastforce simp: NewProvisioningAuthorizer_def split: option.splits)

lemma attested_norm:
  "attested_keyring lexer (norm_contents m) kr = attested_keyring lexer m kr" "attested_k (norm_contents m) k = attested_k m k"
  by (simp_all add: attested_keyring_def attested_k_def norm_contents_lookup)


text \<open>A cell whose only file changes between two starts, with one controller whose signature the check accepts.\<close>

definition ex_authorizer :: "contents \<Rightarrow> bytes \<Rightarrow> bytes \<Rightarrow> bool" where
  "ex_authorizer = NewProvisioningAuthorizer (\<lambda>pub msg sig. sig = zeros 64) (\<lambda>b. ([], False)) 0 ''transition'' ''c'' [(zeros 16, zeros 32)] 1
     (Some (Some \<lparr>qp_Expiry = 60, qp_Signatures = [(hex_encode (zeros 16), hex_encode (zeros 64))]\<rparr>))"

definition ex_governed :: ProvisioningGuard where
  "ex_governed = (ex_guard [ex_file])\<lparr>pg_AuthorizeTransition := Some ex_authorizer\<rparr>"

lemma ex_file_measured:
  "length c < 100 \<Longrightarrow> measureProvisioning ex_sha (\<lambda>p. FileBytes c) [ex_file] = Inr (ex_sha (digest_bytes [(''agents'', ex_sha c)]), [(''agents'', ex_sha c)], [])"
  by (simp add: measureProvisioning_def maxProvisioningFiles_def maxProvisioningName_def measure_file_def ex_file_def hashBoundedFile_def
      maxProvisioningBytes_def Let_def)

lemma ex_authorised: "ex_authorizer (norm_contents []) from to"
proof -
  have "proof_sig (hex_encode (zeros 16), hex_encode (zeros 64)) = Some (zeros 16, zeros 64)"
    by (simp add: proof_sig_def SignatureSize_def)
  then show ?thesis
    by (simp add: ex_authorizer_def NewProvisioningAuthorizer_def attested_keyring_def attested_k_def norm_contents_def VerifyQuorumProofFile_def
        NewSignatureQuorumVerifier_def PublicKeySize_def quorum_verify_def zero_time_def of_unix_def second_def DefaultQuorumProofTTL_def)
qed


end
